(* ===== verification/Prelude.thy ===== *)
theory Prelude
  imports Main "HOL-Library.Word"
begin

text \<open>
  Shared vocabulary of the development: the machine types of the Go source, the
  little- and big-endian byte codecs of \<^verbatim>\<open>encoding/binary\<close>, wrapping 64-bit
  arithmetic on \<^typ>\<open>nat\<close>, the slice copy of the language, and the
  state-and-error computations in which the stateful components are written,
  with a small Hoare calculus for them.
\<close>

unbundle bit_operations_syntax

named_theorems codec_simps \<open>byte codec round trips and lengths\<close>
named_theorems wrap_simps \<open>wrapping arithmetic that does not wrap\<close>
named_theorems hoare_rules \<open>rules of the Hoare calculus\<close>

type_synonym byte = "8 word"
type_synonym u16 = "16 word"
type_synonym u32 = "32 word"
type_synonym u64 = "64 word"

section \<open>Definitions\<close>

subsection \<open>Byte codecs\<close>

text \<open>\<^verbatim>\<open>binary.LittleEndian.UintN\<close> and \<^verbatim>\<open>PutUintN\<close>, at any byte width.\<close>

primrec le_nat :: "byte list \<Rightarrow> nat" where
  "le_nat [] = 0"
| "le_nat (b # bs) = unat b + 256 * le_nat bs"

primrec put_le :: "nat \<Rightarrow> nat \<Rightarrow> byte list" where
  "put_le 0 v = []"
| "put_le (Suc n) v = word_of_nat v # put_le n (v div 256)"

text \<open>\<^verbatim>\<open>binary.BigEndian\<close>: the same bytes in the opposite order.\<close>

definition be_nat :: "byte list \<Rightarrow> nat" where
  "be_nat bs = le_nat (rev bs)"

definition put_be :: "nat \<Rightarrow> nat \<Rightarrow> byte list" where
  "put_be n v = rev (put_le n v)"

subsection \<open>Unsigned 64-bit arithmetic on natural numbers\<close>

definition add64 :: "nat \<Rightarrow> nat \<Rightarrow> nat" where
  "add64 a b = (a + b) mod 2 ^ 64"

definition sub64 :: "nat \<Rightarrow> nat \<Rightarrow> nat" where
  "sub64 a b = (if b \<le> a then a - b else (2 ^ 64 + a) - b)"

definition mul64 :: "nat \<Rightarrow> nat \<Rightarrow> nat" where
  "mul64 a b = (a * b) mod 2 ^ 64"

text \<open>Go's \<^verbatim>\<open>a &^ b\<close> on \<^verbatim>\<open>uint64\<close>.\<close>

definition andnot64 :: "nat \<Rightarrow> nat \<Rightarrow> nat" where
  "andnot64 a b = a AND (2 ^ 64 - 1 - b)"

definition max_int64 :: nat where
  "max_int64 = 2 ^ 63 - 1"

subsection \<open>Slices\<close>

definition slice :: "'a list \<Rightarrow> nat \<Rightarrow> nat \<Rightarrow> 'a list" where
  "slice xs off n = take n (drop off xs)"

text \<open>\<^verbatim>\<open>copy(dst[off:], src)\<close>: overwrites at most the bytes \<^verbatim>\<open>dst\<close> has.\<close>

definition copy_at :: "'a list \<Rightarrow> nat \<Rightarrow> 'a list \<Rightarrow> 'a list" where
  "copy_at dst off src =
     take off dst @ take (length dst - off) src @ drop (off + length src) dst"

subsection \<open>Computations with state and errors\<close>

text \<open>
  A Go method with a pointer receiver and an error result takes the state and
  returns the error or the value, together with the state it leaves behind; an
  early return on an error keeps the changes made before it.
\<close>

type_synonym ('s, 'e, 'a) comp = "'s \<Rightarrow> ('e + 'a) \<times> 's"

definition ret :: "'a \<Rightarrow> ('s, 'e, 'a) comp" where
  "ret x = (\<lambda>s. (Inr x, s))"

definition fail :: "'e \<Rightarrow> ('s, 'e, 'a) comp" where
  "fail e = (\<lambda>s. (Inl e, s))"

text \<open>\<^verbatim>\<open>x, err := m(); if err != nil { return err }; k(x)\<close>\<close>

definition andthen :: "('s, 'e, 'a) comp \<Rightarrow> ('a \<Rightarrow> ('s, 'e, 'b) comp) \<Rightarrow> ('s, 'e, 'b) comp" where
  "andthen m k = (\<lambda>s. case m s of (Inl e, s') \<Rightarrow> (Inl e, s') | (Inr x, s') \<Rightarrow> k x s')"

text \<open>\<^verbatim>\<open>if err := m(); err != nil { h(err) } else { k(x) }\<close>\<close>

definition handle :: "('s, 'e, 'a) comp \<Rightarrow> ('e \<Rightarrow> ('s, 'e, 'b) comp) \<Rightarrow> ('a \<Rightarrow> ('s, 'e, 'b) comp)
    \<Rightarrow> ('s, 'e, 'b) comp" where
  "handle m h k = (\<lambda>s. case m s of (Inl e, s') \<Rightarrow> h e s' | (Inr x, s') \<Rightarrow> k x s')"

text \<open>Reading the state, and a check that yields the source's error.\<close>

definition gets :: "('s \<Rightarrow> 'a) \<Rightarrow> ('s, 'e, 'a) comp" where
  "gets f = (\<lambda>s. (Inr (f s), s))"

definition modify :: "('s \<Rightarrow> 's) \<Rightarrow> ('s, 'e, unit) comp" where
  "modify f = (\<lambda>s. (Inr (), f s))"

definition check :: "'e option \<Rightarrow> ('s, 'e, unit) comp" where
  "check r = (case r of None \<Rightarrow> ret () | Some e \<Rightarrow> fail e)"

text \<open>A read-only step that may fail.\<close>

definition inspect :: "('s \<Rightarrow> 'e + 'a) \<Rightarrow> ('s, 'e, 'a) comp" where
  "inspect f = (\<lambda>s. (f s, s))"

text \<open>A \<^verbatim>\<open>for range\<close> loop whose body may return early, carrying a loop variable.\<close>

fun foldC :: "('a \<Rightarrow> 'v \<Rightarrow> ('s, 'e, 'v) comp) \<Rightarrow> 'a list \<Rightarrow> 'v \<Rightarrow> ('s, 'e, 'v) comp" where
  "foldC body [] v = ret v"
| "foldC body (x # xs) v = andthen (body x v) (foldC body xs)"

definition foreach :: "('a \<Rightarrow> ('s, 'e, unit) comp) \<Rightarrow> 'a list \<Rightarrow> ('s, 'e, unit) comp" where
  "foreach body xs = foldC (\<lambda>x _. body x) xs ()"

text \<open>The values of \<^verbatim>\<open>for x := cur; x < end; x += step\<close>.\<close>

function steps :: "nat \<Rightarrow> nat \<Rightarrow> nat \<Rightarrow> nat list" where
  "steps step cur end = (if cur < end \<and> 0 < step then cur # steps step (cur + step) end else [])"
  by pat_completeness auto
termination by (relation "measure (\<lambda>(step, cur, end). end - cur)") auto

declare steps.simps [simp del]

text \<open>The Hoare judgement: normal results satisfy \<open>Q\<close>, errors satisfy \<open>E\<close>.\<close>

definition hoare :: "('s \<Rightarrow> bool) \<Rightarrow> ('s, 'e, 'a) comp \<Rightarrow> ('a \<Rightarrow> 's \<Rightarrow> bool) \<Rightarrow> ('e \<Rightarrow> 's \<Rightarrow> bool) \<Rightarrow> bool" where
  "hoare P m Q E \<longleftrightarrow>
     (\<forall>s. P s \<longrightarrow> (case m s of (Inl e, s') \<Rightarrow> E e s' | (Inr x, s') \<Rightarrow> Q x s'))"

section \<open>Lemmas\<close>

subsection \<open>Byte codecs\<close>

lemma length_put_le [simp, codec_simps]: "length (put_le n v) = n"
  by (induction n arbitrary: v) auto

lemma length_put_be [simp, codec_simps]: "length (put_be n v) = n"
  by (simp add: put_be_def)

lemma le_nat_less: "le_nat bs < 256 ^ length bs"
proof (induction bs)
  case (Cons b bs)
  have "unat b < 256" using unsigned_less [of b] by simp
  with Cons show ?case by simp
qed simp

lemma be_nat_less: "be_nat bs < 256 ^ length bs"
  using le_nat_less [of "rev bs"] by (simp add: be_nat_def)

lemma unat_byte_of_nat: "unat (word_of_nat v :: byte) = v mod 256"
  by (simp add: unat_of_nat)

lemma le_nat_put_le_mod [codec_simps]: "le_nat (put_le n v) = v mod 256 ^ n"
proof (induction n arbitrary: v)
  case (Suc n)
  have "v mod 256 ^ Suc n = v mod 256 + 256 * (v div 256 mod 256 ^ n)"
    by (simp add: mod_mult2_eq)
  then show ?case by (simp add: Suc unat_byte_of_nat)
qed simp

lemma put_le_numeral: "put_le (numeral k) v = word_of_nat v # put_le (pred_numeral k) (v div 256)"
  by (subst numeral_eq_Suc) (rule put_le.simps(2))

lemma unat_up32: "unat (ucast (v :: u32) :: u64) = unat v"
proof -
  have "unat v < 2 ^ LENGTH(32)" by (rule unsigned_less)
  then show ?thesis by (simp add: unsigned_ucast_eq take_bit_nat_eq_self)
qed

lemma le_nat_put_le: "v < 256 ^ n \<Longrightarrow> le_nat (put_le n v) = v"
  by (simp add: le_nat_put_le_mod)

lemma put_le_le_nat [codec_simps]: "length bs = n \<Longrightarrow> put_le n (le_nat bs) = bs"
proof (induction bs arbitrary: n)
  case (Cons b bs)
  then obtain m where m: "n = Suc m" "length bs = m" by auto
  have less: "unat b < 256" using unsigned_less [of b] by simp
  have "word_of_nat (unat b + 256 * le_nat bs) = (b :: byte)"
    using less by (simp only: word_unat_eq_iff unat_byte_of_nat) simp
  moreover have "(unat b + 256 * le_nat bs) div 256 = le_nat bs" using less by simp
  ultimately show ?case using Cons.IH [OF m(2)] by (simp add: m(1))
qed simp

lemma be_nat_put_be_mod [codec_simps]: "be_nat (put_be n v) = v mod 256 ^ n"
  by (simp add: be_nat_def put_be_def le_nat_put_le_mod)

lemma be_nat_put_be: "v < 256 ^ n \<Longrightarrow> be_nat (put_be n v) = v"
  by (simp add: be_nat_put_be_mod)

lemma put_be_be_nat [codec_simps]: "length bs = n \<Longrightarrow> put_be n (be_nat bs) = bs"
  by (simp add: be_nat_def put_be_def put_le_le_nat)

lemma le_nat_append: "le_nat (xs @ ys) = le_nat xs + 256 ^ length xs * le_nat ys"
  by (induction xs) (auto simp: algebra_simps)

lemma le_nat_zero_replicate [simp]: "le_nat (replicate n 0) = 0"
  by (induction n) auto

lemma be_nat_zero_replicate [simp]: "be_nat (replicate n 0) = 0"
  by (simp add: be_nat_def)

lemma put_be_zero: "put_be n 0 = replicate n 0"
proof -
  have "put_le n 0 = replicate n 0" by (induction n) auto
  then show ?thesis by (simp add: put_be_def)
qed

subsection \<open>Wrapping arithmetic\<close>

lemma add64_id [wrap_simps]: "a + b < 2 ^ 64 \<Longrightarrow> add64 a b = a + b"
  by (simp add: add64_def)

lemma mul64_id [wrap_simps]: "a * b < 2 ^ 64 \<Longrightarrow> mul64 a b = a * b"
  by (simp add: mul64_def)

lemma sub64_id [wrap_simps]: "b \<le> a \<Longrightarrow> sub64 a b = a - b"
  by (simp add: sub64_def)

lemma add64_less: "add64 a b < 2 ^ 64"
  by (simp add: add64_def)

lemma and_nat_le: "(a AND b :: nat) \<le> b"
  by (metis and_nat_def nat_le_iff of_nat_0_le_iff AND_upper2 )

subsection \<open>Slices\<close>

lemma length_slice: "off + n \<le> length xs \<Longrightarrow> length (slice xs off n) = n"
  by (simp add: slice_def)

lemma nth_slice: "i < n \<Longrightarrow> off + i < length xs \<Longrightarrow> slice xs off n ! i = xs ! (off + i)"
  by (simp add: slice_def)

lemma length_copy_at [simp]: "off \<le> length dst \<Longrightarrow> length (copy_at dst off src) = length dst"
  by (auto simp: copy_at_def min_def)

lemma nth_copy_at:
  assumes "off \<le> length dst" "i < length dst"
  shows "copy_at dst off src ! i =
    (if off \<le> i \<and> i < off + length src then src ! (i - off) else dst ! i)"
  using assms by (auto simp: copy_at_def nth_append min_def)

subsection \<open>Computations\<close>

lemmas comp_defs = ret_def fail_def andthen_def handle_def gets_def modify_def check_def inspect_def

lemma andthenE:
  assumes "andthen m k s = (r, s')"
  obtains (Err) e where "m s = (Inl e, s')" "r = Inl e"
  | (Ok) x s1 where "m s = (Inr x, s1)" "k x s1 = (r, s')"
  using assms by (auto simp: andthen_def split: prod.splits sum.splits)

lemma handleE:
  assumes "handle m h k s = (r, s')"
  obtains (Err) e s1 where "m s = (Inl e, s1)" "h e s1 = (r, s')"
  | (Ok) x s1 where "m s = (Inr x, s1)" "k x s1 = (r, s')"
  using assms by (auto simp: handle_def split: prod.splits sum.splits)

lemma hoareI:
  assumes "\<And>s x s'. P s \<Longrightarrow> m s = (Inr x, s') \<Longrightarrow> Q x s'"
    and "\<And>s e s'. P s \<Longrightarrow> m s = (Inl e, s') \<Longrightarrow> E e s'"
  shows "hoare P m Q E"
  using assms by (auto simp: hoare_def split: sum.splits prod.splits)

lemma hoare_ok: "hoare P m Q E \<Longrightarrow> P s \<Longrightarrow> m s = (Inr x, s') \<Longrightarrow> Q x s'"
  by (auto simp: hoare_def)

lemma hoare_err: "hoare P m Q E \<Longrightarrow> P s \<Longrightarrow> m s = (Inl e, s') \<Longrightarrow> E e s'"
  by (auto simp: hoare_def)

lemma hoare_weaken:
  assumes "hoare P m Q E" "\<And>s. P' s \<Longrightarrow> P s" "\<And>x s. Q x s \<Longrightarrow> Q' x s" "\<And>e s. E e s \<Longrightarrow> E' e s"
  shows "hoare P' m Q' E'"
  using assms by (fastforce simp: hoare_def split: sum.splits prod.splits)

lemma hoare_pre: "hoare P m Q E \<Longrightarrow> (\<And>s. P' s \<Longrightarrow> P s) \<Longrightarrow> hoare P' m Q E"
  by (auto simp: hoare_def)

lemma hoare_ret [hoare_rules]: "hoare (Q x) (ret x) Q E"
  by (simp add: hoare_def ret_def)

lemma hoare_fail [hoare_rules]: "hoare (E e) (fail e) Q E"
  by (simp add: hoare_def fail_def)

lemma hoare_gets [hoare_rules]: "hoare (\<lambda>s. Q (f s) s) (gets f) Q E"
  by (simp add: hoare_def gets_def)

lemma hoare_modify [hoare_rules]: "hoare (\<lambda>s. Q () (f s)) (modify f) Q E"
  by (simp add: hoare_def modify_def)

lemma hoare_check [hoare_rules]:
  "hoare (\<lambda>s. case r of None \<Rightarrow> Q () s | Some e \<Rightarrow> E e s) (check r) Q E"
  by (simp add: hoare_def check_def ret_def fail_def split: option.splits)

lemma hoare_andthen:
  assumes "hoare P m R E" "\<And>x. hoare (R x) (k x) Q E"
  shows "hoare P (andthen m k) Q E"
  using assms by (fastforce simp: hoare_def andthen_def split: sum.splits prod.splits)

lemma hoare_handle:
  assumes "hoare P m R F" "\<And>x. hoare (R x) (k x) Q E" "\<And>e. hoare (F e) (h e) Q E"
  shows "hoare P (handle m h k) Q E"
  using assms by (fastforce simp: hoare_def handle_def split: sum.splits prod.splits)

lemma hoare_inspect [hoare_rules]:
  "hoare (\<lambda>s. case f s of Inl e \<Rightarrow> E e s | Inr x \<Rightarrow> Q x s) (inspect f) Q E"
  by (simp add: hoare_def inspect_def split: sum.splits)

text \<open>A loop keeps an invariant that may mention the part of the list already visited.\<close>

lemma hoare_foldC:
  assumes "\<And>done x v. hoare (I done v) (body x v) (\<lambda>v'. I (done @ [x]) v') E"
  shows "hoare (I done v) (foldC body xs v) (\<lambda>v'. I (done @ xs) v') E"
proof (induction xs arbitrary: "done" v)
  case Nil
  then show ?case using hoare_ret [of "\<lambda>v. I done v" v E] by simp
next
  case (Cons x xs)
  have "hoare (I done v) (andthen (body x v) (foldC body xs)) (\<lambda>v'. I ((done @ [x]) @ xs) v') E"
    by (rule hoare_andthen [OF assms Cons])
  then show ?case by simp
qed

lemma hoare_if:
  assumes "b \<Longrightarrow> hoare P m Q E" "\<not> b \<Longrightarrow> hoare P m' Q E"
  shows "hoare P (if b then m else m') Q E"
  using assms by auto

lemma hoare_cong: "(\<And>s. P s \<Longrightarrow> m s = m' s) \<Longrightarrow> hoare P m' Q E \<Longrightarrow> hoare P m Q E"
  by (simp add: hoare_def)

text \<open>A fact about the arguments that every start state implies.\<close>

lemma hoare_fact: "(\<And>s. P s \<Longrightarrow> F) \<Longrightarrow> (F \<Longrightarrow> hoare P m Q E) \<Longrightarrow> hoare P m Q E"
  by (cases F) (auto simp: hoare_def)

lemma hoare_ex: "(\<And>c. hoare (P c) m Q E) \<Longrightarrow> hoare (\<lambda>s. \<exists>c. P c s) m Q E"
  by (rule hoareI) (metis hoare_ok, metis hoare_err)

lemma hoare_gets_const:
  "(\<And>s. P s \<Longrightarrow> f s = v) \<Longrightarrow> hoare P (k v) Q E \<Longrightarrow> hoare P (andthen (gets f) k) Q E"
  by (rule hoare_cong [of P _ "k v"]) (simp_all add: andthen_def gets_def)

lemma hoare_inspect_const:
  "(\<And>s. P s \<Longrightarrow> f s = Inr v) \<Longrightarrow> hoare P (k v) Q E \<Longrightarrow> hoare P (andthen (inspect f) k) Q E"
  by (rule hoare_cong [of P _ "k v"]) (simp_all add: andthen_def inspect_def)

text \<open>A triple whose ghost values depend on the start state.\<close>

lemma hoare_at:
  assumes "\<And>s. P s \<Longrightarrow> \<exists>P' E'. P' s \<and> hoare P' m Q E' \<and> (\<forall>e s'. E' e s' \<longrightarrow> E e s')"
  shows "hoare P m Q E"
proof (rule hoareI)
  fix s x s' assume "P s" and m: "m s = (Inr x, s')"
  then obtain P' E' where "P' s" "hoare P' m Q E'" using assms by blast
  then show "Q x s'" using m by (auto dest: hoare_ok)
next
  fix s e s' assume "P s" and m: "m s = (Inl e, s')"
  then obtain P' E' where "P' s" "hoare P' m Q E'" "\<forall>e s'. E' e s' \<longrightarrow> E e s'" using assms by blast
  then show "E e s'" using m by (auto dest: hoare_err)
qed

lemma hoare_each: "(\<And>s. P s \<Longrightarrow> hoare (\<lambda>s'. s' = s) m Q E) \<Longrightarrow> hoare P m Q E"
  by (simp add: hoare_def)

lemma andthen_inspect: "f s = Inr v \<Longrightarrow> andthen (inspect f) k s = k v s"
  by (simp add: andthen_def inspect_def)

text \<open>
  Evaluation of computations on concrete states: the equations apply to a
  computation that has its state, and the congruence rules keep the simplifier
  out of the continuations until their argument is known.
\<close>

lemma comp_eval:
  "andthen m k s = (case m s of (Inl e, s') \<Rightarrow> (Inl e, s') | (Inr x, s') \<Rightarrow> k x s')"
  "handle m h k' s = (case m s of (Inl e, s') \<Rightarrow> h e s' | (Inr x, s') \<Rightarrow> k' x s')"
  "ret x s = (Inr x, s)" "fail e s = (Inl e, s)" "gets f s = (Inr (f s), s)" "modify u s = (Inr (), u s)"
  "check r s = (case r of None \<Rightarrow> (Inr (), s) | Some e \<Rightarrow> (Inl e, s))" "inspect g s = (g s, s)"
  by (simp_all add: comp_defs split: option.splits)

lemma andthen_cong: "m = m' \<Longrightarrow> s = s' \<Longrightarrow> andthen m k s = andthen m' k s'"
  by simp

lemma handle_cong: "m = m' \<Longrightarrow> s = s' \<Longrightarrow> handle m h k s = handle m' h k s'"
  by simp

lemmas comp_cong = andthen_cong handle_cong

end
