(* ===== verification/Host_File.thy ===== *)
theory Host_File
  imports Prelude
begin

text \<open>
  The host file behind a disk image: what \<^verbatim>\<open>internal/disk\<close> uses of Go's
  \<^verbatim>\<open>os.File\<close>. A file is its size and its bytes; every byte at or past the size
  reads as zero once the file grows over it. The operating system may fail any
  call. Its choices are a script of outcomes, one consumed per call, so that a
  statement about every script is a statement about every pattern of I/O errors,
  short writes included. An exhausted script means that the remaining calls
  succeed.
\<close>

section \<open>Definitions\<close>

datatype io_outcome = IoOk | IoFail nat

datatype ioerr = EOF | EIO | ENegativeOffset | EShortWrite

record hostfile =
  fbytes :: "nat \<Rightarrow> byte"
  fsize :: nat
  script :: "io_outcome list"

definition tick :: "hostfile \<Rightarrow> io_outcome \<times> hostfile" where
  "tick f = (case script f of [] \<Rightarrow> (IoOk, f) | x # xs \<Rightarrow> (x, f\<lparr>script := xs\<rparr>))"

text \<open>The bytes of a range, and the effect of storing bytes and of changing the size.\<close>

definition bytes_at :: "hostfile \<Rightarrow> nat \<Rightarrow> nat \<Rightarrow> byte list" where
  "bytes_at f off n = map (\<lambda>i. fbytes f (off + i)) [0..<n]"

definition store_bytes :: "nat \<Rightarrow> byte list \<Rightarrow> hostfile \<Rightarrow> hostfile" where
  "store_bytes off bs f = f\<lparr>
     fbytes := (\<lambda>i. if off \<le> i \<and> i < off + length bs then bs ! (i - off)
                    else if i < fsize f then fbytes f i else 0),
     fsize := (if bs = [] then fsize f else max (fsize f) (off + length bs))\<rparr>"

definition resize :: "nat \<Rightarrow> hostfile \<Rightarrow> hostfile" where
  "resize n f = f\<lparr>fbytes := (\<lambda>i. if i < n \<and> i < fsize f then fbytes f i else 0), fsize := n\<rparr>"

text \<open>
  \<^verbatim>\<open>ReadAt\<close> returns the bytes it got and \<^verbatim>\<open>io.EOF\<close> when the file ends first;
  offsets are converted to \<^verbatim>\<open>int64\<close> and refused when that is negative.
\<close>

definition file_ReadAt :: "nat \<Rightarrow> nat \<Rightarrow> hostfile \<Rightarrow> (byte list \<times> ioerr option) \<times> hostfile" where
  "file_ReadAt n off f =
     (if 2 ^ 63 \<le> off then (([], Some ENegativeOffset), f)
      else if n = 0 then (([], None), f)
      else case tick f of
        (IoFail k, f') \<Rightarrow> ((bytes_at f off (min k (min n (fsize f - off))), Some EIO), f')
      | (IoOk, f') \<Rightarrow>
          if off + n \<le> fsize f then ((bytes_at f off n, None), f')
          else ((bytes_at f off (fsize f - off), Some EOF), f'))"

text \<open>\<^verbatim>\<open>WriteAt\<close> may fail after storing a prefix; it returns how much it stored.\<close>

definition file_WriteAt :: "byte list \<Rightarrow> nat \<Rightarrow> hostfile \<Rightarrow> (nat \<times> ioerr option) \<times> hostfile" where
  "file_WriteAt bs off f =
     (if 2 ^ 63 \<le> off then ((0, Some ENegativeOffset), f)
      else if bs = [] then ((0, None), f)
      else case tick f of
        (IoFail k, f') \<Rightarrow>
          ((min k (length bs), Some EIO), store_bytes off (take k bs) f')
      | (IoOk, f') \<Rightarrow> ((length bs, None), store_bytes off bs f'))"

definition file_Truncate :: "nat \<Rightarrow> hostfile \<Rightarrow> ioerr option \<times> hostfile" where
  "file_Truncate n f =
     (if 2 ^ 63 \<le> n then (Some EIO, f)
      else case tick f of
        (IoFail _, f') \<Rightarrow> (Some EIO, f')
      | (IoOk, f') \<Rightarrow> (None, resize n f'))"

definition file_Stat :: "hostfile \<Rightarrow> (ioerr + nat) \<times> hostfile" where
  "file_Stat f = (case tick f of
     (IoFail _, f') \<Rightarrow> (Inl EIO, f') | (IoOk, f') \<Rightarrow> (Inr (fsize f), f'))"

definition file_Sync :: "hostfile \<Rightarrow> ioerr option \<times> hostfile" where
  "file_Sync f = (case tick f of
     (IoFail _, f') \<Rightarrow> (Some EIO, f') | (IoOk, f') \<Rightarrow> (None, f'))"

section \<open>Lemmas\<close>

text \<open>Two files with the same contents differ at most in the script that is left.\<close>

definition same_data :: "hostfile \<Rightarrow> hostfile \<Rightarrow> bool" where
  "same_data f g \<longleftrightarrow> fbytes f = fbytes g \<and> fsize f = fsize g"

lemma same_data_refl [simp]: "same_data f f"
  by (simp add: same_data_def)

lemma tick_data:
  assumes "tick f = (r, f')"
  shows "fbytes f' = fbytes f" "fsize f' = fsize f"
  using assms by (auto simp: tick_def split: list.splits)

lemma tick_IoOk: "script f = [] \<Longrightarrow> tick f = (IoOk, f)"
  by (simp add: tick_def)

lemma length_bytes_at [simp]: "length (bytes_at f off n) = n"
  by (simp add: bytes_at_def)

lemma nth_bytes_at [simp]: "i < n \<Longrightarrow> bytes_at f off n ! i = fbytes f (off + i)"
  by (simp add: bytes_at_def)

lemma bytes_at_cong:
  assumes "\<And>i. off \<le> i \<Longrightarrow> i < off + n \<Longrightarrow> fbytes f i = fbytes g i"
  shows "bytes_at f off n = bytes_at g off n"
  using assms by (simp add: bytes_at_def)

lemma fbytes_store_in [simp]:
  "off \<le> i \<Longrightarrow> i < off + length bs \<Longrightarrow> fbytes (store_bytes off bs f) i = bs ! (i - off)"
  by (simp add: store_bytes_def)

lemma fbytes_store_out:
  "i < off \<or> off + length bs \<le> i \<Longrightarrow> i < fsize f \<Longrightarrow> fbytes (store_bytes off bs f) i = fbytes f i"
  by (auto simp: store_bytes_def)

lemma fsize_store_inside: "off + length bs \<le> fsize f \<Longrightarrow> fsize (store_bytes off bs f) = fsize f"
  by (auto simp: store_bytes_def)

lemma fsize_store_mono: "fsize f \<le> fsize (store_bytes off bs f)"
  by (simp add: store_bytes_def)

lemma fsize_store: "fsize (store_bytes off bs f) = (if bs = [] then fsize f else max (fsize f) (off + length bs))"
  by (simp add: store_bytes_def)

lemma script_store [simp]: "script (store_bytes off bs f) = script f"
  by (simp add: store_bytes_def)

lemma bytes_at_store_same: "bytes_at (store_bytes off bs f) off (length bs) = bs"
  by (rule nth_equalityI) auto

lemma bytes_at_store_other:
  assumes "off' + n \<le> off \<or> off + length bs \<le> off'" "off' + n \<le> fsize f"
  shows "bytes_at (store_bytes off bs f) off' n = bytes_at f off' n"
  by (rule bytes_at_cong) (use assms in \<open>auto simp: fbytes_store_out\<close>)

lemma fbytes_resize: "i < n \<Longrightarrow> i < fsize f \<Longrightarrow> fbytes (resize n f) i = fbytes f i"
  by (simp add: resize_def)

lemma fbytes_resize_grown: "fsize f \<le> i \<Longrightarrow> fbytes (resize n f) i = 0"
  by (simp add: resize_def)

lemma fsize_resize [simp]: "fsize (resize n f) = n"
  by (simp add: resize_def)

lemma script_resize [simp]: "script (resize n f) = script f"
  by (simp add: resize_def)

lemma file_ReadAt_data:
  assumes "file_ReadAt n off f = (r, f')"
  shows "fbytes f' = fbytes f" "fsize f' = fsize f"
  using assms by (auto simp: file_ReadAt_def dest: tick_data split: if_splits prod.splits io_outcome.splits)

lemma file_ReadAt_ok:
  assumes "file_ReadAt n off f = ((bs, None), f')"
  shows "bs = bytes_at f off n" "n = 0 \<or> off + n \<le> fsize f"
  using assms by (auto simp: file_ReadAt_def bytes_at_def split: if_splits prod.splits io_outcome.splits)

lemma file_ReadAt_no_fault:
  "script f = [] \<Longrightarrow> off < 2 ^ 63 \<Longrightarrow> off + n \<le> fsize f \<Longrightarrow>
   file_ReadAt n off f = ((bytes_at f off n, None), f)"
  by (simp add: file_ReadAt_def tick_def bytes_at_def)

lemma file_Stat_data:
  assumes "file_Stat f = (r, f')"
  shows "fbytes f' = fbytes f" "fsize f' = fsize f" "\<And>n. r = Inr n \<Longrightarrow> n = fsize f"
  using assms by (auto simp: file_Stat_def dest: tick_data split: prod.splits io_outcome.splits)

lemma file_Sync_data:
  assumes "file_Sync f = (r, f')"
  shows "fbytes f' = fbytes f" "fsize f' = fsize f"
  using assms by (auto simp: file_Sync_def dest: tick_data split: prod.splits io_outcome.splits)

end
