(* ===== verification/Qcow2_Header.thy ===== *)
theory Qcow2_Header
  imports Host_File
begin

text \<open>
  The qcow2 header: its fields, their decoding from the first cluster of the host
  file, and every check that \<^verbatim>\<open>internal/disk/qcow2.go\<close> and
  \<^verbatim>\<open>qcow2_header.go\<close> make before any table of the image is trusted. An error of
  the source is a value of \<open>qerr\<close> that carries the source's message; \<open>QPanic\<close> stands
  for a run-time panic (an index out of range) and \<open>QDiverge\<close> for a loop that
  does not end within the bound the model gives it.
\<close>

section \<open>Definitions\<close>

datatype qerr =
    QErr string
  | QIo ioerr
  | QWrap string qerr
  | QJoin qerr qerr
  | QDisabled qerr
  | QPanic
  | QDiverge

definition qcow2Version2 :: nat where "qcow2Version2 = 2"
definition qcow2Version3 :: nat where "qcow2Version3 = 3"
definition qcow2HeaderV2Len :: nat where "qcow2HeaderV2Len = 72"
definition qcow2HeaderV3Len :: nat where "qcow2HeaderV3Len = 104"
definition qcow2RefcountOrder16 :: nat where "qcow2RefcountOrder16 = 4"
definition qcow2MaxL1Bytes :: nat where "qcow2MaxL1Bytes = 33554432"
definition qcow2MaxRefcountTableBytes :: nat where "qcow2MaxRefcountTableBytes = 8388608"
definition qcow2FeatureNameEntrySize :: nat where "qcow2FeatureNameEntrySize = 48"

lemmas header_consts = qcow2Version2_def qcow2Version3_def qcow2HeaderV2Len_def
  qcow2HeaderV3Len_def qcow2RefcountOrder16_def qcow2MaxL1Bytes_def
  qcow2MaxRefcountTableBytes_def qcow2FeatureNameEntrySize_def

record qcow2Header =
  h_version :: nat
  backingFileOffset :: nat
  backingFileSize :: nat
  clusterBits :: nat
  h_size :: nat
  cryptMethod :: nat
  l1Size :: nat
  h_l1TableOffset :: nat
  h_refcountTableOffset :: nat
  refcountTableClusters :: nat
  nbSnapshots :: nat
  snapshotsOffset :: nat
  incompatibleFeatures :: nat
  autoclearFeatures :: nat
  refcountOrder :: nat
  headerLength :: nat

subsection \<open>Calls on the host file\<close>

type_synonym 'a filecomp = "(hostfile, qerr, 'a) comp"

definition fReadAt :: "nat \<Rightarrow> nat \<Rightarrow> byte list filecomp" where
  "fReadAt n off = (\<lambda>f. case file_ReadAt n off f of
     ((bs, None), f') \<Rightarrow> (Inr bs, f') | ((bs, Some e), f') \<Rightarrow> (Inl (QIo e), f'))"

definition fWriteAt :: "byte list \<Rightarrow> nat \<Rightarrow> nat filecomp" where
  "fWriteAt bs off = (\<lambda>f. case file_WriteAt bs off f of
     ((n, None), f') \<Rightarrow> (Inr n, f') | ((n, Some e), f') \<Rightarrow> (Inl (QIo e), f'))"

definition fTruncate :: "nat \<Rightarrow> unit filecomp" where
  "fTruncate n = (\<lambda>f. case file_Truncate n f of
     (None, f') \<Rightarrow> (Inr (), f') | (Some e, f') \<Rightarrow> (Inl (QIo e), f'))"

definition fStat :: "nat filecomp" where
  "fStat = (\<lambda>f. case file_Stat f of (Inr n, f') \<Rightarrow> (Inr n, f') | (Inl e, f') \<Rightarrow> (Inl (QIo e), f'))"

text \<open>\<^verbatim>\<open>fmt.Errorf("...: %w", err)\<close> around a call.\<close>

definition wrapping :: "string \<Rightarrow> ('s, qerr, 'a) comp \<Rightarrow> ('s, qerr, 'a) comp" where
  "wrapping msg m = (\<lambda>s. case m s of (Inl e, s') \<Rightarrow> (Inl (QWrap msg e), s') | (Inr x, s') \<Rightarrow> (Inr x, s'))"

subsection \<open>Arithmetic helpers of the package\<close>

definition alignUp :: "nat \<Rightarrow> nat \<Rightarrow> nat" where
  "alignUp v align = (if v mod align = 0 then v else sub64 (add64 v align) (v mod align))"

definition checkedInt :: "nat \<Rightarrow> qerr + nat" where
  "checkedInt v = (if max_int64 < v then Inl (QErr ''value is too large'') else Inr v)"

definition qcow2FileRange :: "nat \<Rightarrow> nat \<Rightarrow> nat \<Rightarrow> string \<Rightarrow> qerr option" where
  "qcow2FileRange fileSize offset len kind =
     (if fileSize < offset \<or> sub64 fileSize offset < len
      then Some (QErr (kind @ '' exceeds image file bounds'')) else None)"

subsection \<open>Header extensions\<close>

function feature_names_ok :: "byte list \<Rightarrow> bool" where
  "feature_names_ok data =
     (if data = [] then True
      else if 2 < data ! 0 \<or> 63 < data ! 1 then False
      else feature_names_ok (drop 48 data))"
  by pat_completeness auto
termination by (relation "measure length") auto

definition validateHeaderExtension :: "nat \<Rightarrow> byte list \<Rightarrow> qerr option" where
  "validateHeaderExtension kind data =
     (if kind = 0xe2792aca then Some (QErr ''backing format extension is unsupported without a backing file'')
      else if kind = 0x6803f857 then
        (if length data mod qcow2FeatureNameEntrySize \<noteq> 0 then Some (QErr ''invalid feature name table length'')
         else if \<not> feature_names_ok data then Some (QErr ''invalid feature name table entry'')
         else None)
      else if kind = 0x23852875 then Some (QErr ''bitmap extensions are unsupported'')
      else if kind = 0x0537be77 then Some (QErr ''encryption extension requires unsupported encryption method'')
      else if kind = 0x44415441 then Some (QErr ''external data extension requires unsupported external data feature'')
      else None)"

text \<open>The loop of \<^verbatim>\<open>validateHeaderExtensions\<close> over the rest of the first cluster.\<close>

function extensions_from :: "nat list \<Rightarrow> byte list \<Rightarrow> qerr option" where
  "extensions_from seen area =
     (if length area = 0 then None
      else if length area < 8 then Some (QErr ''truncated header extension'')
      else let kind = be_nat (take 4 area); len = be_nat (slice area 4 4) in
        if kind = 0 then
          (if len \<noteq> 0 then Some (QErr ''invalid header extension terminator'') else None)
        else if kind \<in> set seen then Some (QErr ''duplicate header extension'')
        else let padded = alignUp len 8 in
          if length area - 8 < padded then Some (QErr ''header extension exceeds first cluster'')
          else case validateHeaderExtension kind (slice area 8 len) of
            Some e \<Rightarrow> Some e
          | None \<Rightarrow> extensions_from (kind # seen) (drop (8 + padded) area))"
  by pat_completeness auto
termination by (relation "measure (length \<circ> snd)") auto

definition validateHeaderExtensions :: "byte list \<Rightarrow> qerr option" where
  "validateHeaderExtensions area = extensions_from [] area"

subsection \<open>Header validation\<close>

definition validateHeaderGeometry :: "qcow2Header \<Rightarrow> qerr option" where
  "validateHeaderGeometry h =
     (let clusterSize = 2 ^ clusterBits h;
          l1Bytes = mul64 (l1Size h) 8;
          refcountBytes = mul64 (refcountTableClusters h) clusterSize;
          l1Coverage = mul64 clusterSize (clusterSize div 8);
          requiredL1 = h_size h div l1Coverage + (if h_size h mod l1Coverage \<noteq> 0 then 1 else 0)
      in if clusterSize < headerLength h then Some (QErr ''header exceeds cluster size'')
         else if qcow2MaxL1Bytes < l1Bytes then Some (QErr ''l1 table exceeds supported size'')
         else if qcow2MaxRefcountTableBytes < refcountBytes
           then Some (QErr ''refcount table exceeds supported size'')
         else if sub64 max_int64 l1Bytes < h_l1TableOffset h
              \<or> sub64 max_int64 refcountBytes < h_refcountTableOffset h
           then Some (QErr ''metadata table offset exceeds supported file size'')
         else if l1Size h < requiredL1 then Some (QErr ''l1 table is too small for virtual disk size'')
         else None)"

definition validateHeader :: "qcow2Header \<Rightarrow> qerr option" where
  "validateHeader h =
     (if backingFileOffset h \<noteq> 0 \<or> backingFileSize h \<noteq> 0 then Some (QErr ''backing files are unsupported'')
      else if clusterBits h < 9 \<or> 21 < clusterBits h then Some (QErr ''unsupported cluster_bits'')
      else if max_int64 < h_size h then Some (QErr ''virtual disk is too large'')
      else if cryptMethod h \<noteq> 0 then Some (QErr ''encryption is unsupported'')
      else if l1Size h = 0 then Some (QErr ''empty l1 table'')
      else if h_l1TableOffset h = 0 \<or> h_refcountTableOffset h = 0 then Some (QErr ''missing metadata table'')
      else if refcountTableClusters h = 0 then Some (QErr ''missing refcount table'')
      else if nbSnapshots h \<noteq> 0 \<or> snapshotsOffset h \<noteq> 0
        then Some (QErr ''internal snapshots are unsupported'')
      else if incompatibleFeatures h AND 1 \<noteq> 0 then Some (QErr ''dirty images are unsupported'')
      else if incompatibleFeatures h AND 2 \<noteq> 0 then Some (QErr ''corrupt images are unsupported'')
      else if incompatibleFeatures h AND 4 \<noteq> 0 then Some (QErr ''external data files are unsupported'')
      else if incompatibleFeatures h AND 8 \<noteq> 0 then Some (QErr ''non-default compression is unsupported'')
      else if incompatibleFeatures h AND 16 \<noteq> 0 then Some (QErr ''extended l2 entries are unsupported'')
      else if andnot64 (incompatibleFeatures h) 31 \<noteq> 0 then Some (QErr ''unknown incompatible features'')
      else if autoclearFeatures h \<noteq> 0 then Some (QErr ''autoclear features are unsupported'')
      else if refcountOrder h \<noteq> qcow2RefcountOrder16 then Some (QErr ''unsupported refcount_order'')
      else if h_version h = qcow2Version3
              \<and> (headerLength h < qcow2HeaderV3Len \<or> headerLength h mod 8 \<noteq> 0)
        then Some (QErr ''invalid header_length'')
      else if h_l1TableOffset h mod 2 ^ clusterBits h \<noteq> 0
              \<or> h_refcountTableOffset h mod 2 ^ clusterBits h \<noteq> 0
        then Some (QErr ''unaligned metadata table'')
      else validateHeaderGeometry h)"

definition header_padding_ok :: "qcow2Header \<Rightarrow> byte list \<Rightarrow> qerr option" where
  "header_padding_ok h cluster =
     (if h_version h = qcow2Version3 \<and> qcow2HeaderV3Len < headerLength h then
        (if cluster ! 104 \<noteq> 0
           then Some (QErr ''compression type requires unsupported incompatible feature'')
         else if \<exists>v \<in> set (slice cluster 105 7). v \<noteq> 0 then Some (QErr ''nonzero header padding'')
         else None)
      else None)"

definition validateHeaderCluster :: "qcow2Header \<Rightarrow> unit filecomp" where
  "validateHeaderCluster h =
     andthen (wrapping ''read header cluster'' (fReadAt (2 ^ clusterBits h) 0)) (\<lambda>cluster.
     andthen (check (header_padding_ok h cluster)) (\<lambda>_.
     check (validateHeaderExtensions (drop (headerLength h) cluster))))"

subsection \<open>Reading the header\<close>

definition qcow2Magic :: "byte list" where
  "qcow2Magic = [0x51, 0x46, 0x49, 0xfb]"

text \<open>The fields that both versions have, from the first 72 bytes.\<close>

definition decode_v2 :: "byte list \<Rightarrow> qcow2Header" where
  "decode_v2 b = \<lparr>
     h_version = be_nat (slice b 4 4),
     backingFileOffset = be_nat (slice b 8 8),
     backingFileSize = be_nat (slice b 16 4),
     clusterBits = be_nat (slice b 20 4),
     h_size = be_nat (slice b 24 8),
     cryptMethod = be_nat (slice b 32 4),
     l1Size = be_nat (slice b 36 4),
     h_l1TableOffset = be_nat (slice b 40 8),
     h_refcountTableOffset = be_nat (slice b 48 8),
     refcountTableClusters = be_nat (slice b 56 4),
     nbSnapshots = be_nat (slice b 60 4),
     snapshotsOffset = be_nat (slice b 64 8),
     incompatibleFeatures = 0,
     autoclearFeatures = 0,
     refcountOrder = qcow2RefcountOrder16,
     headerLength = qcow2HeaderV2Len\<rparr>"

text \<open>The version 3 fields, from the 32 bytes that follow.\<close>

definition decode_v3 :: "byte list \<Rightarrow> qcow2Header \<Rightarrow> qcow2Header" where
  "decode_v3 b h = h\<lparr>
     incompatibleFeatures := be_nat (slice b 0 8),
     autoclearFeatures := be_nat (slice b 16 8),
     refcountOrder := be_nat (slice b 24 4),
     headerLength := be_nat (slice b 28 4)\<rparr>"

definition readHeader :: "qcow2Header filecomp" where
  "readHeader =
     andthen (wrapping ''read header'' (fReadAt qcow2HeaderV2Len 0)) (\<lambda>b.
     if take 4 b \<noteq> qcow2Magic then fail (QErr ''invalid magic'')
     else let h = decode_v2 b in
       andthen
         (if h_version h = qcow2Version2 then ret h
          else if h_version h = qcow2Version3 then
            andthen (wrapping ''read v3 header'' (fReadAt (qcow2HeaderV3Len - qcow2HeaderV2Len) qcow2HeaderV2Len))
              (\<lambda>b3. ret (decode_v3 b3 h))
          else fail (QErr ''unsupported version''))
         (\<lambda>h. andthen (check (validateHeader h)) (\<lambda>_.
              andthen (validateHeaderCluster h) (\<lambda>_. ret h))))"

section \<open>Lemmas\<close>

declare feature_names_ok.simps [simp del]
declare extensions_from.simps [simp del]

lemma alignUp_closed:
  assumes "v + align < 2 ^ 64" "0 < align"
  shows "alignUp v align = (if v mod align = 0 then v else (v div align + 1) * align)"
proof -
  have less: "v mod align < align" using assms(2) by simp
  have "v + align - v mod align = v div align * align + align"
    using less div_mult_mod_eq [of v align] by linarith
  then have "v + align - v mod align = (v div align + 1) * align" by simp
  moreover have "v mod align \<le> v + align" using less by linarith
  ultimately show ?thesis using assms(1) by (simp add: alignUp_def add64_def sub64_def)
qed

lemma alignUp_ge: "v + align < 2 ^ 64 \<Longrightarrow> 0 < align \<Longrightarrow> v \<le> alignUp v align"
  using dividend_less_div_times [of align v] by (simp add: alignUp_closed)

lemma alignUp_aligned: "v + align < 2 ^ 64 \<Longrightarrow> 0 < align \<Longrightarrow> alignUp v align mod align = 0"
  by (simp add: alignUp_closed)

lemma alignUp_less:
  assumes "v + align < 2 ^ 64" "0 < align"
  shows "alignUp v align < v + align"
proof -
  have "v div align * align < v" if "v mod align \<noteq> 0"
    using div_mult_mod_eq [of v align] that by linarith
  then show ?thesis using assms by (simp add: alignUp_closed)
qed

lemma qcow2FileRange_None:
  "offset < 2 ^ 64 \<Longrightarrow> qcow2FileRange fileSize offset len kind = None \<Longrightarrow> offset + len \<le> fileSize"
  by (auto simp: qcow2FileRange_def sub64_def split: if_splits)

lemma qcow2FileRange_iff:
  "qcow2FileRange fileSize offset len kind = None \<longleftrightarrow> offset + len \<le> fileSize"
  by (auto simp: qcow2FileRange_def sub64_def split: if_splits)

end
