(* ===== verification/Qcow2_Image.thy ===== *)
theory Qcow2_Image
  imports Qcow2_Header
begin

text \<open>
  The open qcow2 image of \<^verbatim>\<open>internal/disk/qcow2.go\<close> and \<^verbatim>\<open>qcow2_write.go\<close>: the
  record of the \<^verbatim>\<open>qcow2Image\<close> struct and one definition per method. Offsets,
  sizes and table entries are \<^verbatim>\<open>uint64\<close> values held in \<^typ>\<open>nat\<close>; sums that a
  malformed image could make wrap are written with \<^const>\<open>add64\<close>. Every method
  runs under the image's mutex, so a method is one atomic computation.
\<close>

section \<open>Definitions\<close>

definition qcow2OFlagZero :: nat where "qcow2OFlagZero = 1"
definition qcow2OFlagCompressed :: nat where "qcow2OFlagCompressed = 2 ^ 62"
definition qcow2OFlagCopied :: nat where "qcow2OFlagCopied = 2 ^ 63"
definition qcow2OffsetMask :: nat where "qcow2OffsetMask = 0x00fffffffffffe00"
definition qcow2RefcountOffsetMask :: nat where "qcow2RefcountOffsetMask = 0xfffffffffffffe00"
definition qcow2ReservedL2Mask :: nat where "qcow2ReservedL2Mask = 0x3f000000000001fe"
definition qcow2RefcountCacheBytes :: nat where "qcow2RefcountCacheBytes = 4194304"

record qcow2RefcountBlock =
  rb_offset :: nat
  rb_data :: "byte list option"

record qcow2Image =
  hfile :: hostfile
  version :: nat
  writeFault :: "qerr option"
  imgSize :: nat
  clusterSize :: nat
  l1TableOffset :: nat
  l1 :: "nat list"
  refcountTableOffset :: nat
  refcountTable :: "nat list"
  refcountBlockEntries :: nat
  refcountCache :: "nat \<rightharpoonup> nat"
  refcountBlocks :: "qcow2RefcountBlock list"
  refcountCacheNext :: nat
  l2Entries :: nat
  l2Cache :: "nat \<rightharpoonup> nat list"

type_synonym 'a qcomp = "(qcow2Image, qerr, 'a) comp"

definition on_file :: "'a filecomp \<Rightarrow> 'a qcomp" where
  "on_file m = (\<lambda>q. case m (hfile q) of (r, f) \<Rightarrow> (r, q\<lparr>hfile := f\<rparr>))"

definition clusterOffset :: "nat \<Rightarrow> nat" where
  "clusterOffset entry = entry AND qcow2OffsetMask"

subsection \<open>Metadata writes\<close>

definition writeMetadata :: "byte list \<Rightarrow> nat \<Rightarrow> unit qcomp" where
  "writeMetadata data offset =
     andthen (on_file (fWriteAt data offset)) (\<lambda>n.
       if n \<noteq> length data then fail (QIo EShortWrite) else ret ())"

definition disableWrites :: "qerr \<Rightarrow> 'a qcomp" where
  "disableWrites e = (\<lambda>q. (Inl (QDisabled e), q\<lparr>writeFault := Some (QDisabled e)\<rparr>))"

definition writeMetadataEntry :: "nat \<Rightarrow> nat \<Rightarrow> nat \<Rightarrow> unit qcomp" where
  "writeMetadataEntry offset previous next =
     handle (writeMetadata (put_be 8 next) offset)
       (\<lambda>err. handle (writeMetadata (put_be 8 previous) offset)
          (\<lambda>restoreErr. disableWrites (QJoin err restoreErr))
          (\<lambda>_. fail err))
       (\<lambda>_. ret ())"

subsection \<open>Refcounts\<close>

definition refcountLocation :: "nat \<Rightarrow> qcow2Image \<Rightarrow> qerr + nat \<times> nat \<times> bool" where
  "refcountLocation clusterOff q =
     (if clusterOff mod clusterSize q \<noteq> 0 then Inl (QErr ''unaligned cluster'')
      else let clusterIndex = clusterOff div clusterSize q;
               tableIndex = clusterIndex div refcountBlockEntries q;
               blockIndex = clusterIndex mod refcountBlockEntries q
           in if length (refcountTable q) \<le> tableIndex
              then Inl (QErr ''refcount table is too small'')
              else let entry = refcountTable q ! tableIndex
                   in if entry = 0 then Inr (0, blockIndex, False)
                      else let refBlockOff = entry AND qcow2RefcountOffsetMask
                           in if refBlockOff mod clusterSize q \<noteq> 0
                              then Inl (QErr ''unaligned refcount block'')
                              else Inr (refBlockOff, blockIndex, True))"

text \<open>
  A block at cache index \<open>index\<close>, its 16-bit entry \<open>blockIndex\<close> and its update;
  an index or a slice out of range panics.
\<close>

definition block_entry :: "qcow2RefcountBlock list \<Rightarrow> nat \<Rightarrow> nat \<Rightarrow> qerr + nat" where
  "block_entry blocks index blockIndex =
     (if length blocks \<le> index then Inl QPanic
      else case rb_data (blocks ! index) of
        None \<Rightarrow> Inl QPanic
      | Some d \<Rightarrow> if length d < 2 * blockIndex + 2 then Inl QPanic
                  else Inr (be_nat (slice d (2 * blockIndex) 2)))"

definition cacheRefcountBlock :: "nat \<Rightarrow> byte list \<Rightarrow> qcow2Image \<Rightarrow> qcow2Image" where
  "cacheRefcountBlock offset block q =
     (case refcountCache q offset of
        Some index \<Rightarrow> q\<lparr>refcountBlocks :=
          (refcountBlocks q)[index := (refcountBlocks q ! index)\<lparr>rb_data := Some block\<rparr>]\<rparr>
      | None \<Rightarrow>
        let limit = qcow2RefcountCacheBytes div clusterSize q;
            entry = \<lparr>rb_offset = offset, rb_data = Some block\<rparr>
        in if length (refcountBlocks q) < limit
           then q\<lparr>refcountBlocks := refcountBlocks q @ [entry],
                  refcountCache := (refcountCache q)(offset \<mapsto> length (refcountBlocks q))\<rparr>
           else let index = refcountCacheNext q;
                    old = refcountBlocks q ! index;
                    cache = (if rb_data old \<noteq> None then (refcountCache q)(rb_offset old := None)
                             else refcountCache q)
                in q\<lparr>refcountBlocks := (refcountBlocks q)[index := entry],
                     refcountCacheNext := (index + 1) mod limit,
                     refcountCache := cache(offset \<mapsto> index)\<rparr>)"

definition invalidateRefcountBlock :: "nat \<Rightarrow> qcow2Image \<Rightarrow> qcow2Image" where
  "invalidateRefcountBlock offset q =
     (case refcountCache q offset of
        Some index \<Rightarrow> q\<lparr>refcountBlocks :=
            (refcountBlocks q)[index := (refcountBlocks q ! index)\<lparr>rb_data := None\<rparr>],
          refcountCache := (refcountCache q)(offset := None)\<rparr>
      | None \<Rightarrow> q)"

definition refcount :: "nat \<Rightarrow> nat qcomp" where
  "refcount clusterOff =
     andthen (inspect (refcountLocation clusterOff)) (\<lambda>(refBlockOff, blockIndex, ok).
       if \<not> ok then ret 0
       else andthen (gets (\<lambda>q. refcountCache q refBlockOff)) (\<lambda>cached.
         case cached of
           Some index \<Rightarrow> inspect (\<lambda>q. block_entry (refcountBlocks q) index blockIndex)
         | None \<Rightarrow>
             andthen (gets clusterSize) (\<lambda>cs.
             andthen (on_file (fReadAt cs refBlockOff)) (\<lambda>block.
             andthen (modify (cacheRefcountBlock refBlockOff block)) (\<lambda>_.
             ret (be_nat (slice block (2 * blockIndex) 2)))))))"

text \<open>Storing a 16-bit value into a cached block, when the block is cached.\<close>

definition update_cached :: "nat \<Rightarrow> nat \<Rightarrow> nat \<Rightarrow> qcow2Image \<Rightarrow> qcow2Image" where
  "update_cached refBlockOff blockIndex v q =
     (case refcountCache q refBlockOff of
        None \<Rightarrow> q
      | Some index \<Rightarrow>
          q\<lparr>refcountBlocks := (refcountBlocks q)[index := (refcountBlocks q ! index)\<lparr>rb_data :=
              map_option (\<lambda>d. copy_at d (2 * blockIndex) (put_be 2 v)) (rb_data (refcountBlocks q ! index))\<rparr>]\<rparr>)"

definition setRefcount :: "nat \<Rightarrow> nat \<Rightarrow> unit qcomp" where
  "setRefcount clusterOff v =
     andthen (inspect (refcountLocation clusterOff)) (\<lambda>(refBlockOff, blockIndex, ok).
       if \<not> ok then fail (QErr ''missing refcount block'')
       else handle (writeMetadata (put_be 2 v) (add64 refBlockOff (2 * blockIndex)))
         (\<lambda>err. andthen (modify (invalidateRefcountBlock refBlockOff)) (\<lambda>_. fail err))
         (\<lambda>_. modify (update_cached refBlockOff blockIndex v)))"

subsection \<open>Allocation\<close>

text \<open>\<open>truncate_or_disable\<close> is the shape every recovery path of the source shares.\<close>

definition truncate_or_disable :: "nat \<Rightarrow> qerr \<Rightarrow> 'a qcomp" where
  "truncate_or_disable newSize err =
     handle (on_file (fTruncate newSize))
       (\<lambda>truncateErr. disableWrites (QJoin err truncateErr))
       (\<lambda>_. fail err)"

definition new_refcount_block :: "nat \<Rightarrow> nat \<Rightarrow> byte list" where
  "new_refcount_block cs blockIndex = copy_at (replicate cs 0) (2 * blockIndex) (put_be 2 1)"

definition appendRefcountBlock :: "nat \<Rightarrow> nat \<Rightarrow> unit qcomp" where
  "appendRefcountBlock offset oldSize = (\<lambda>q.
     let clusterIndex = offset div clusterSize q;
         tableIndex = clusterIndex div refcountBlockEntries q;
         blockIndex = clusterIndex mod refcountBlockEntries q;
         block = new_refcount_block (clusterSize q) blockIndex;
         tableOffset = add64 (refcountTableOffset q) (tableIndex * 8)
     in handle (writeMetadata block offset)
          (\<lambda>err. truncate_or_disable oldSize (QWrap ''append refcount block'' err))
          (\<lambda>_. handle (writeMetadataEntry tableOffset 0 offset)
             (\<lambda>err. andthen (gets writeFault) (\<lambda>fault.
                if fault \<noteq> None then fail err else truncate_or_disable oldSize err))
             (\<lambda>_. modify (\<lambda>q. cacheRefcountBlock offset block
                (q\<lparr>refcountTable := (refcountTable q)[tableIndex := offset]\<rparr>)))) q)"

text \<open>
  The capacity check runs ahead over the refcount blocks that an allocation
  would have to append. A block covers itself and its successor unless it is the
  last cluster of its region, so the walk makes at most two rounds; the fuel
  covers them (lemma \<open>append_capacity_full\<close>).
\<close>

fun append_capacity :: "nat \<Rightarrow> nat \<Rightarrow> qcow2Image \<Rightarrow> qerr option" where
  "append_capacity 0 offset q = Some QDiverge"
| "append_capacity (Suc fuel) offset q =
     (if sub64 max_int64 (clusterSize q) < offset then Some (QErr ''host image is too large'')
      else case refcountLocation offset q of
        Inl e \<Rightarrow> Some e
      | Inr (_, _, exists) \<Rightarrow>
          if exists then None
          else if sub64 max_int64 (2 * clusterSize q) < offset then Some (QErr ''host image is too large'')
          else let next = offset + clusterSize q
               in if next div clusterSize q div refcountBlockEntries q
                     = offset div clusterSize q div refcountBlockEntries q then None
                  else append_capacity fuel next q)"

definition validateAppendCapacity :: "nat \<Rightarrow> qcow2Image \<Rightarrow> qerr option" where
  "validateAppendCapacity offset q = append_capacity 3 offset q"

text \<open>
  The loop that appends missing refcount blocks; it returns the offset of the
  first cluster a block covers, and the file size the recovery path restores.
\<close>

fun append_blocks :: "nat \<Rightarrow> nat \<Rightarrow> nat \<Rightarrow> (nat \<times> nat) qcomp" where
  "append_blocks 0 offset oldSize = fail QDiverge"
| "append_blocks (Suc fuel) offset oldSize =
     andthen (inspect (refcountLocation offset)) (\<lambda>(_, _, exists).
       if exists then ret (offset, oldSize)
       else andthen (appendRefcountBlock offset oldSize) (\<lambda>_.
            andthen (gets clusterSize) (\<lambda>cs.
            append_blocks fuel (add64 offset cs) (add64 offset cs))))"

definition allocateCluster :: "nat qcomp" where
  "allocateCluster =
     andthen (on_file fStat) (\<lambda>oldSize.
     andthen (gets clusterSize) (\<lambda>cs.
     andthen (\<lambda>q. check (validateAppendCapacity (alignUp oldSize cs) q) q) (\<lambda>_.
     andthen (append_blocks 4 (alignUp oldSize cs) oldSize) (\<lambda>(offset, oldSize).
     andthen (on_file (fTruncate (add64 offset cs))) (\<lambda>_.
     handle (setRefcount offset 1)
       (\<lambda>err. handle (setRefcount offset 0)
          (\<lambda>restoreErr. disableWrites (QJoin err restoreErr))
          (\<lambda>_. truncate_or_disable oldSize err))
       (\<lambda>_. ret offset))))))"

definition rollbackNewCluster :: "nat \<Rightarrow> qerr \<Rightarrow> 'a qcomp" where
  "rollbackNewCluster offset writeErr =
     andthen (gets writeFault) (\<lambda>fault.
       if fault \<noteq> None then fail writeErr
       else handle (setRefcount offset 0)
         (\<lambda>err. disableWrites (QJoin writeErr err))
         (\<lambda>_. truncate_or_disable offset writeErr))"

subsection \<open>The two-level mapping\<close>

definition tableIndexes :: "nat \<Rightarrow> qcow2Image \<Rightarrow> qerr + nat \<times> nat" where
  "tableIndexes guestOff q =
     (let guestCluster = guestOff div clusterSize q;
          l1Index = guestCluster div l2Entries q;
          l2Index = guestCluster mod l2Entries q
      in if length (l1 q) \<le> l1Index then Inl (QErr ''l1 table is too small'')
         else Inr (l1Index, l2Index))"

definition decode_table :: "byte list \<Rightarrow> nat \<Rightarrow> nat list" where
  "decode_table buf entries = map (\<lambda>i. be_nat (slice buf (8 * i) 8)) [0..<entries]"

definition readUint64Table :: "nat \<Rightarrow> nat \<Rightarrow> nat list qcomp" where
  "readUint64Table off entries =
     (if qcow2MaxL1Bytes div 8 < entries then fail (QErr ''table is too large'')
      else andthen (on_file fStat) (\<lambda>fileSize.
           andthen (check (qcow2FileRange fileSize off (entries * 8) ''metadata table'')) (\<lambda>_.
           andthen (on_file (fReadAt (entries * 8) off)) (\<lambda>buf.
           ret (decode_table buf entries)))))"

definition loadL2 :: "nat \<Rightarrow> nat list qcomp" where
  "loadL2 l1Index =
     andthen (gets (\<lambda>q. l2Cache q l1Index)) (\<lambda>cached.
       case cached of
         Some l2 \<Rightarrow> ret l2
       | None \<Rightarrow>
           andthen (inspect (\<lambda>q. if length (l1 q) \<le> l1Index then Inl QPanic
                                  else Inr (clusterOffset (l1 q ! l1Index)))) (\<lambda>l2Off.
             if l2Off = 0 then fail (QErr ''missing l2 table'')
             else andthen (gets clusterSize) (\<lambda>cs.
               if l2Off mod cs \<noteq> 0 then fail (QErr ''unaligned l2 table'')
               else andthen (inspect (\<lambda>q. checkedInt (l2Entries q))) (\<lambda>l2Len.
                    andthen (wrapping ''read l2 table'' (readUint64Table l2Off l2Len)) (\<lambda>l2.
                    andthen (modify (\<lambda>q. q\<lparr>l2Cache := (l2Cache q)(l1Index \<mapsto> l2)\<rparr>)) (\<lambda>_.
                    ret l2))))))"

definition l2Table :: "nat \<Rightarrow> (nat list option \<times> nat) qcomp" where
  "l2Table guestOff =
     andthen (inspect (tableIndexes guestOff)) (\<lambda>(l1Index, l2Index).
     andthen (gets l1) (\<lambda>l1s.
       if length l1s \<le> l1Index then fail (QErr ''l1 table is too small'')
       else if clusterOffset (l1s ! l1Index) = 0 then ret (None, l2Index)
       else andthen (loadL2 l1Index) (\<lambda>l2. ret (Some l2, l2Index))))"

definition validateL2Entry :: "nat \<Rightarrow> qcow2Image \<Rightarrow> qerr option" where
  "validateL2Entry entry q =
     (if version q = qcow2Version2 \<and> entry AND qcow2OFlagZero \<noteq> 0
        then Some (QErr ''zero cluster flag is invalid in version 2'')
      else if clusterOffset entry = 0 \<and> entry AND qcow2OFlagCopied \<noteq> 0
        then Some (QErr ''copied cluster has no host offset'')
      else if entry AND qcow2OFlagCompressed \<noteq> 0
        then Some (QErr ''compressed clusters are unsupported'')
      else if entry AND qcow2ReservedL2Mask \<noteq> 0 then Some (QErr ''reserved l2 bits set'')
      else None)"

text \<open>A slice element; Go panics when the index is out of range.\<close>

definition at_index :: "nat list \<Rightarrow> nat \<Rightarrow> nat qcomp" where
  "at_index xs i = (if i < length xs then ret (xs ! i) else fail QPanic)"

definition inCluster :: "nat \<Rightarrow> qcow2Image \<Rightarrow> nat" where
  "inCluster guestOff q = guestOff AND sub64 (clusterSize q) 1"

definition hostOffset :: "nat \<Rightarrow> (nat \<times> bool) qcomp" where
  "hostOffset guestOff =
     andthen (l2Table guestOff) (\<lambda>(l2, l2Index).
       case l2 of
         None \<Rightarrow> ret (0, True)
       | Some l2 \<Rightarrow>
           andthen (at_index l2 l2Index) (\<lambda>entry.
             if entry = 0 then ret (0, True)
             else andthen (\<lambda>q. check (validateL2Entry entry q) q) (\<lambda>_.
               if entry AND qcow2OFlagZero \<noteq> 0 then ret (0, True)
               else if clusterOffset entry = 0 then ret (0, True)
               else gets (\<lambda>q. (add64 (clusterOffset entry) (inCluster guestOff q), False)))))"

definition updateL1Entry :: "nat \<Rightarrow> nat \<Rightarrow> unit qcomp" where
  "updateL1Entry l1Index entry =
     andthen (gets l1) (\<lambda>l1s.
     andthen (gets l1TableOffset) (\<lambda>base.
     andthen (at_index l1s l1Index) (\<lambda>previous.
     andthen (writeMetadataEntry (add64 base (l1Index * 8)) previous entry) (\<lambda>_.
     modify (\<lambda>q. q\<lparr>l1 := (l1 q)[l1Index := entry]\<rparr>)))))"

definition updateL2Entry :: "nat \<Rightarrow> nat \<Rightarrow> nat \<Rightarrow> unit qcomp" where
  "updateL2Entry l1Index l2Index entry =
     andthen (loadL2 l1Index) (\<lambda>l2.
     andthen (gets l1) (\<lambda>l1s.
     andthen (at_index l1s l1Index) (\<lambda>e1.
       if clusterOffset e1 = 0 then fail (QErr ''cannot update an unpublished l2 table'')
       else andthen (at_index l2 l2Index) (\<lambda>previous.
            andthen (writeMetadataEntry (add64 (clusterOffset e1) (l2Index * 8)) previous entry) (\<lambda>_.
            modify (\<lambda>q. q\<lparr>l2Cache := (l2Cache q)(l1Index \<mapsto> l2[l2Index := entry])\<rparr>))))))"

definition ensureL2Table :: "nat \<Rightarrow> nat list qcomp" where
  "ensureL2Table l1Index =
     andthen (gets (\<lambda>q. l2Cache q l1Index)) (\<lambda>cached.
       case cached of
         Some l2 \<Rightarrow> ret l2
       | None \<Rightarrow>
         andthen (gets l1) (\<lambda>l1s.
           if length l1s \<le> l1Index then fail (QErr ''l1 table is too small'')
           else let entry = l1s ! l1Index in
             if entry \<noteq> 0 then
               let l2Off = clusterOffset entry in
                 if l2Off = 0 then fail (QErr ''invalid l1 entry'')
                 else andthen (refcount l2Off) (\<lambda>rc.
                   if rc \<noteq> 1 then fail (QErr ''l2 copy-on-write refcount is unsupported'')
                   else loadL2 l1Index)
             else
               andthen (inspect (\<lambda>q. checkedInt (l2Entries q))) (\<lambda>l2Len.
               andthen allocateCluster (\<lambda>l2Off.
               handle (updateL1Entry l1Index (l2Off OR qcow2OFlagCopied))
                 (\<lambda>err. rollbackNewCluster l2Off err)
                 (\<lambda>_. andthen (modify (\<lambda>q. q\<lparr>l2Cache := (l2Cache q)(l1Index \<mapsto> replicate l2Len 0)\<rparr>)) (\<lambda>_.
                      ret (replicate l2Len 0)))))))"

definition zeroCluster :: "nat \<Rightarrow> unit qcomp" where
  "zeroCluster clusterOff =
     andthen (inspect (\<lambda>q. checkedInt (clusterSize q))) (\<lambda>zeroLen.
     andthen (on_file (fWriteAt (replicate zeroLen 0) clusterOff)) (\<lambda>_. ret ()))"

definition prepareMappedCluster :: "nat \<Rightarrow> nat \<Rightarrow> nat \<Rightarrow> nat \<Rightarrow> unit qcomp" where
  "prepareMappedCluster l1Index l2Index entry clusterOff =
     andthen (refcount clusterOff) (\<lambda>rc.
       if rc \<noteq> 1 then fail (QErr ''copy-on-write refcount is unsupported'')
       else if entry AND qcow2OFlagZero = 0 then ret ()
       else andthen (zeroCluster clusterOff) (\<lambda>_.
            updateL2Entry l1Index l2Index (clusterOff OR qcow2OFlagCopied)))"

definition ensureWritableCluster :: "nat \<Rightarrow> nat qcomp" where
  "ensureWritableCluster guestOff =
     andthen (inspect (tableIndexes guestOff)) (\<lambda>(l1Index, l2Index).
     andthen (ensureL2Table l1Index) (\<lambda>l2.
     andthen (at_index l2 l2Index) (\<lambda>entry.
     andthen (\<lambda>q. check (validateL2Entry entry q) q) (\<lambda>_.
       if entry \<noteq> 0 \<and> clusterOffset entry \<noteq> 0 then
         andthen (prepareMappedCluster l1Index l2Index entry (clusterOffset entry)) (\<lambda>_.
         gets (\<lambda>q. add64 (clusterOffset entry) (inCluster guestOff q)))
       else
         andthen allocateCluster (\<lambda>clusterOff.
         handle (updateL2Entry l1Index l2Index (clusterOff OR qcow2OFlagCopied))
           (\<lambda>err. rollbackNewCluster clusterOff err)
           (\<lambda>_. gets (\<lambda>q. add64 clusterOff (inCluster guestOff q))))))))"

subsection \<open>Guest reads and writes\<close>

text \<open>
  \<^verbatim>\<open>ReadAt\<close> returns the bytes it placed in the caller's buffer and the error.
  Each round of the loop moves at least one byte, so as many rounds as bytes
  are enough fuel (the last round finds the loop condition false).
\<close>

fun read_loop :: "nat \<Rightarrow> nat \<Rightarrow> nat \<Rightarrow> byte list \<Rightarrow> qcow2Image \<Rightarrow> (byte list \<times> qerr option) \<times> qcow2Image" where
  "read_loop 0 off remaining acc q = ((acc, Some QDiverge), q)"
| "read_loop (Suc fuel) off remaining acc q =
     (if remaining \<le> length acc then ((acc, None), q)
      else let guestOff = add64 off (length acc);
               chunk = min (remaining - length acc) (sub64 (clusterSize q) (inCluster guestOff q))
           in case hostOffset guestOff q of
                (Inl e, q') \<Rightarrow> ((acc, Some e), q')
              | (Inr (hostOff, True), q') \<Rightarrow> read_loop fuel off remaining (acc @ replicate chunk 0) q'
              | (Inr (hostOff, False), q') \<Rightarrow>
                  (case on_file (fReadAt chunk hostOff) q' of
                     (Inl e, q'') \<Rightarrow> ((acc, Some e), q'')
                   | (Inr bs, q'') \<Rightarrow> read_loop fuel off remaining (acc @ bs) q''))"

definition ReadAt :: "nat \<Rightarrow> int \<Rightarrow> qcow2Image \<Rightarrow> (byte list \<times> qerr option) \<times> qcow2Image" where
  "ReadAt n off q =
     (if n = 0 then (([], None), q)
      else if off < 0 then (([], Some (QErr ''negative read offset'')), q)
      else if imgSize q \<le> nat off then (([], Some (QIo EOF)), q)
      else let remaining = min n (imgSize q - nat off)
           in case read_loop (Suc remaining) (nat off) remaining [] q of
                ((bs, Some e), q') \<Rightarrow> ((bs, Some e), q')
              | ((bs, None), q') \<Rightarrow> ((bs, if length bs < n then Some (QIo EOF) else None), q'))"

fun write_loop :: "nat \<Rightarrow> nat \<Rightarrow> byte list \<Rightarrow> nat \<Rightarrow> qcow2Image \<Rightarrow> (nat \<times> qerr option) \<times> qcow2Image" where
  "write_loop 0 off b done q = ((done, Some QDiverge), q)"
| "write_loop (Suc fuel) off b done q =
     (if length b \<le> done then ((done, None), q)
      else let guestOff = add64 off done;
               chunk = min (length b - done) (sub64 (clusterSize q) (inCluster guestOff q))
           in case ensureWritableCluster guestOff q of
                (Inl e, q') \<Rightarrow> ((done, Some e), q')
              | (Inr hostOff, q') \<Rightarrow>
                  (case on_file (fWriteAt (slice b done chunk) hostOff) q' of
                     (Inl e, q'') \<Rightarrow> ((done, Some e), q'')
                   | (Inr _, q'') \<Rightarrow> write_loop fuel off b (done + chunk) q''))"

definition WriteAt :: "byte list \<Rightarrow> int \<Rightarrow> qcow2Image \<Rightarrow> (nat \<times> qerr option) \<times> qcow2Image" where
  "WriteAt b off q =
     (if b = [] then ((0, None), q)
      else case writeFault q of
        Some e \<Rightarrow> ((0, Some e), q)
      | None \<Rightarrow>
          if off < 0 then ((0, Some (QErr ''negative write offset'')), q)
          else if imgSize q \<le> nat off \<or> imgSize q - nat off < length b
          then ((0, Some (QErr ''write exceeds virtual disk size'')), q)
          else write_loop (Suc (length b)) (nat off) b 0 q)"

definition Size :: "qcow2Image \<Rightarrow> nat" where
  "Size q = imgSize q"

text \<open>\<^verbatim>\<open>errors.Join\<close> of the sticky fault and of the result of the file's sync.\<close>

definition Sync :: "qcow2Image \<Rightarrow> qerr option \<times> qcow2Image" where
  "Sync q = (case file_Sync (hfile q) of (r, f) \<Rightarrow>
     (case (writeFault q, r) of
        (None, None) \<Rightarrow> None
      | (Some e, None) \<Rightarrow> Some e
      | (None, Some i) \<Rightarrow> Some (QIo i)
      | (Some e, Some i) \<Rightarrow> Some (QJoin e (QIo i)), q\<lparr>hfile := f\<rparr>))"

end
