(* ===== verification/Qcow2_Layout.thy ===== *)
theory Qcow2_Layout
  imports Qcow2_Image
begin

text \<open>
  Opening an image: \<^verbatim>\<open>qcow2_layout.go\<close>, which claims every host cluster that the
  metadata and the data mappings refer to and rejects the second claim of a
  cluster, and the \<^verbatim>\<open>open\<close> method of \<^verbatim>\<open>qcow2.go\<close>. The ownership bits are kept as
  the source keeps them, in pages of 4096 bits that are allocated on demand.
\<close>

section \<open>Definitions\<close>

definition qcow2OwnershipPageClusters :: nat where "qcow2OwnershipPageClusters = 4096"
definition qcow2MaxOwnershipPages :: nat where "qcow2MaxOwnershipPages = 131072"

text \<open>\<^verbatim>\<open>map[uint64]*[64]uint64\<close> as an association list from page numbers to pages.\<close>

type_synonym qcow2ClusterOwners = "(nat \<times> u64 list) list"

definition put_page :: "nat \<Rightarrow> u64 list \<Rightarrow> qcow2ClusterOwners \<Rightarrow> qcow2ClusterOwners" where
  "put_page k page owners = (k, page) # filter (\<lambda>(k', _). k' \<noteq> k) owners"

definition claim_cluster :: "string \<Rightarrow> nat \<Rightarrow> qcow2ClusterOwners \<Rightarrow> qerr + qcow2ClusterOwners" where
  "claim_cluster kind cluster owners =
     (let pageIndex = cluster div qcow2OwnershipPageClusters;
          b = cluster mod qcow2OwnershipPageClusters;
          mask = push_bit (b mod 64) (1 :: u64);
          mark = (\<lambda>page. if (page ! (b div 64)) AND mask \<noteq> 0
             then Inl (QErr (''overlapping '' @ kind))
             else Inr (put_page pageIndex (page[b div 64 := (page ! (b div 64)) OR mask]) owners))
      in case map_of owners pageIndex of
           Some page \<Rightarrow> mark page
         | None \<Rightarrow> if qcow2MaxOwnershipPages \<le> length owners
                   then Inl (QErr ''fragmented image exceeds validation memory limit'')
                   else mark (replicate 64 0))"

fun claim_clusters :: "string \<Rightarrow> nat list \<Rightarrow> qcow2ClusterOwners \<Rightarrow> qerr + qcow2ClusterOwners" where
  "claim_clusters kind [] owners = Inr owners"
| "claim_clusters kind (c # cs) owners =
     (case claim_cluster kind c owners of Inl e \<Rightarrow> Inl e | Inr owners' \<Rightarrow> claim_clusters kind cs owners')"

definition claim :: "nat \<Rightarrow> nat \<Rightarrow> nat \<Rightarrow> string \<Rightarrow> qcow2ClusterOwners \<Rightarrow> qerr + qcow2ClusterOwners" where
  "claim offset len cs kind owners =
     (let first = offset div cs;
          count = sub64 (add64 len cs) 1 div cs
      in claim_clusters kind [first..<first + count] owners)"

definition claimRefcountBlocks :: "nat \<Rightarrow> qcow2ClusterOwners \<Rightarrow> qcow2ClusterOwners qcomp" where
  "claimRefcountBlocks fileSize owners = (\<lambda>q.
     foldC (\<lambda>entry owners.
       if entry = 0 then ret owners
       else if andnot64 entry qcow2RefcountOffsetMask \<noteq> 0 \<or> entry mod clusterSize q \<noteq> 0
         then fail (QErr ''invalid refcount block offset or reserved bits'')
       else andthen (check (qcow2FileRange fileSize entry (clusterSize q) ''refcount block'')) (\<lambda>_.
            inspect (\<lambda>_. claim entry (clusterSize q) (clusterSize q) ''refcount block'' owners)))
       (refcountTable q) owners q)"

definition claimL2Tables :: "nat \<Rightarrow> qcow2ClusterOwners \<Rightarrow> qcow2ClusterOwners qcomp" where
  "claimL2Tables fileSize owners = (\<lambda>q.
     foldC (\<lambda>entry owners.
       if entry = 0 then ret owners
       else if andnot64 entry (qcow2OffsetMask OR qcow2OFlagCopied) \<noteq> 0
         then fail (QErr ''reserved l1 bits set'')
       else let offset = clusterOffset entry in
         if offset = 0 \<or> offset mod clusterSize q \<noteq> 0 then fail (QErr ''invalid l2 table offset'')
         else andthen (check (qcow2FileRange fileSize offset (clusterSize q) ''l2 table'')) (\<lambda>_.
              inspect (\<lambda>_. claim offset (clusterSize q) (clusterSize q) ''l2 table'' owners)))
       (l1 q) owners q)"

definition checkRefcounts :: "nat \<Rightarrow> nat \<Rightarrow> unit qcomp" where
  "checkRefcounts offset len = (\<lambda>q.
     foreach (\<lambda>cluster. andthen (refcount cluster) (\<lambda>rc.
        if rc \<noteq> 1 then fail (QErr ''host cluster refcount is not 1'') else ret ()))
       (steps (clusterSize q) offset (add64 offset len)) q)"

definition validateDataMappings :: "nat \<Rightarrow> nat list \<Rightarrow> qcow2ClusterOwners \<Rightarrow> qcow2ClusterOwners qcomp" where
  "validateDataMappings fileSize l2 owners =
     foldC (\<lambda>entry owners.
       andthen (\<lambda>q. check (validateL2Entry entry q) q) (\<lambda>_.
       andthen (gets clusterSize) (\<lambda>cs.
       let offset = clusterOffset entry in
         if offset = 0 then ret owners
         else if offset mod cs \<noteq> 0 then fail (QErr ''unaligned data cluster'')
         else andthen (check (qcow2FileRange fileSize offset cs ''data cluster'')) (\<lambda>_.
              andthen (inspect (\<lambda>_. claim offset cs cs ''data cluster'' owners)) (\<lambda>owners.
              andthen (checkRefcounts offset cs) (\<lambda>_. ret owners))))))
       l2 owners"

definition validateLayout :: "qcow2Header \<Rightarrow> unit qcomp" where
  "validateLayout h =
     andthen (on_file fStat) (\<lambda>fileSize.
     andthen (gets (\<lambda>q. (clusterSize q, l1TableOffset q, refcountTableOffset q))) (\<lambda>(cs, l1Off, rtOff).
     let metadata = [(0, cs, ''header''), (l1Off, mul64 (l1Size h) 8, ''l1 table''),
                     (rtOff, mul64 (refcountTableClusters h) cs, ''refcount table'')] in
     andthen (foldC (\<lambda>(offset, len, name) owners.
         andthen (check (qcow2FileRange fileSize offset len name)) (\<lambda>_.
         inspect (\<lambda>_. claim offset len cs name owners))) metadata []) (\<lambda>owners.
     andthen (claimRefcountBlocks fileSize owners) (\<lambda>owners.
     andthen (claimL2Tables fileSize owners) (\<lambda>owners.
     andthen (foreach (\<lambda>(offset, len, name). checkRefcounts offset len) metadata) (\<lambda>_.
     andthen (\<lambda>q. foreach (\<lambda>entry. if entry \<noteq> 0 then checkRefcounts entry cs else ret ()) (refcountTable q) q) (\<lambda>_.
     andthen (\<lambda>q. foldC (\<lambda>entry owners.
         if entry = 0 then ret owners
         else andthen (checkRefcounts (clusterOffset entry) cs) (\<lambda>_.
              andthen (gets l2Entries) (\<lambda>n.
              andthen (readUint64Table (clusterOffset entry) n) (\<lambda>l2.
              validateDataMappings fileSize l2 owners)))) (l1 q) owners q) (\<lambda>_.
     ret ()))))))))"

text \<open>The image record before \<^verbatim>\<open>open\<close> has filled it, and after the header is read.\<close>

definition new_image :: "hostfile \<Rightarrow> qcow2Image" where
  "new_image f = \<lparr>hfile = f, version = 0, writeFault = None, imgSize = 0, clusterSize = 0,
     l1TableOffset = 0, l1 = [], refcountTableOffset = 0, refcountTable = [],
     refcountBlockEntries = 0, refcountCache = Map.empty, refcountBlocks = [],
     refcountCacheNext = 0, l2Entries = 0, l2Cache = Map.empty\<rparr>"

definition apply_header :: "qcow2Header \<Rightarrow> qcow2Image \<Rightarrow> qcow2Image" where
  "apply_header h q = q\<lparr>version := h_version h, imgSize := h_size h,
     clusterSize := 2 ^ clusterBits h, l1TableOffset := h_l1TableOffset h,
     refcountTableOffset := h_refcountTableOffset h,
     l2Entries := 2 ^ clusterBits h div 8,
     refcountBlockEntries := 2 ^ clusterBits h div 2\<rparr>"

definition open_image :: "unit qcomp" where
  "open_image =
     andthen (on_file readHeader) (\<lambda>h.
     andthen (modify (apply_header h)) (\<lambda>_.
     andthen (inspect (\<lambda>_. checkedInt (l1Size h))) (\<lambda>n1.
     andthen (wrapping ''read l1 table'' (readUint64Table (h_l1TableOffset h) n1)) (\<lambda>t1.
     andthen (modify (\<lambda>q. q\<lparr>l1 := t1\<rparr>)) (\<lambda>_.
     andthen (inspect (\<lambda>q. checkedInt (mul64 (refcountTableClusters h) (clusterSize q) div 8))) (\<lambda>nr.
     andthen (wrapping ''read refcount table'' (readUint64Table (h_refcountTableOffset h) nr)) (\<lambda>tr.
     andthen (modify (\<lambda>q. q\<lparr>refcountTable := tr\<rparr>)) (\<lambda>_.
     validateLayout h))))))))"

definition openQCOW2 :: "hostfile \<Rightarrow> qerr + qcow2Image" where
  "openQCOW2 f = (case open_image (new_image f) of (Inl e, _) \<Rightarrow> Inl e | (Inr _, q) \<Rightarrow> Inr q)"

end
