(* ===== verification/Qcow2_Invariant.thy ===== *)
theory Qcow2_Invariant
  imports Qcow2_Layout
begin

text \<open>
  What an open image must satisfy between two calls, and the guest disk it
  stands for. A host cluster is referred to by a slot: the header, a cluster of
  the L1 or refcount table, or a pointer stored in one of the tables. The
  invariant says that different slots refer to different clusters, that every
  one of them lies in the file and has refcount one, that the tables in memory
  are the tables on disk, and that both caches hold what the disk holds. The
  guest disk is read off the on-disk tables alone, so the statements about it do
  not depend on the caches.
\<close>

section \<open>Definitions\<close>

definition tbl :: "hostfile \<Rightarrow> nat \<Rightarrow> nat \<Rightarrow> nat list" where
  "tbl f off n = map (\<lambda>i. be_nat (bytes_at f (off + 8 * i) 8)) [0..<n]"

definition l2_off :: "qcow2Image \<Rightarrow> nat \<Rightarrow> nat" where
  "l2_off q i = clusterOffset (l1 q ! i)"

definition l2_entry :: "qcow2Image \<Rightarrow> nat \<Rightarrow> nat \<Rightarrow> nat" where
  "l2_entry q i j = be_nat (bytes_at (hfile q) (l2_off q i + 8 * j) 8)"

text \<open>The references of an image to host clusters.\<close>

datatype slot = Header | L1Reg nat | RtReg nat | RefBlock nat | L2Tab nat | Data nat nat

definition l1_clusters :: "qcow2Image \<Rightarrow> nat" where
  "l1_clusters q = (8 * length (l1 q) + clusterSize q - 1) div clusterSize q"

definition rt_clusters :: "qcow2Image \<Rightarrow> nat" where
  "rt_clusters q = (8 * length (refcountTable q) + clusterSize q - 1) div clusterSize q"

fun target :: "qcow2Image \<Rightarrow> slot \<Rightarrow> nat option" where
  "target q Header = Some 0"
| "target q (L1Reg k) =
     (if k < l1_clusters q then Some (l1TableOffset q div clusterSize q + k) else None)"
| "target q (RtReg k) =
     (if k < rt_clusters q then Some (refcountTableOffset q div clusterSize q + k) else None)"
| "target q (RefBlock i) =
     (if i < length (refcountTable q) \<and> refcountTable q ! i \<noteq> 0
      then Some (refcountTable q ! i div clusterSize q) else None)"
| "target q (L2Tab i) =
     (if i < length (l1 q) \<and> l1 q ! i \<noteq> 0 then Some (l2_off q i div clusterSize q) else None)"
| "target q (Data i j) =
     (if i < length (l1 q) \<and> l1 q ! i \<noteq> 0 \<and> j < l2Entries q \<and> clusterOffset (l2_entry q i j) \<noteq> 0
      then Some (clusterOffset (l2_entry q i j) div clusterSize q) else None)"

fun is_data :: "slot \<Rightarrow> bool" where
  "is_data (Data _ _) = True"
| "is_data _ = False"

definition owned :: "qcow2Image \<Rightarrow> nat \<Rightarrow> bool" where
  "owned q c \<longleftrightarrow> (\<exists>s. target q s = Some c)"

text \<open>The refcount of cluster \<open>c\<close> as the tables on disk record it.\<close>

definition rc_at :: "hostfile \<Rightarrow> nat list \<Rightarrow> nat \<Rightarrow> nat \<Rightarrow> nat" where
  "rc_at f rt n c = (if c div n < length rt \<and> rt ! (c div n) \<noteq> 0
     then be_nat (bytes_at f (rt ! (c div n) + 2 * (c mod n)) 2) else 0)"

definition disk_refcount :: "qcow2Image \<Rightarrow> nat \<Rightarrow> nat" where
  "disk_refcount q c = rc_at (hfile q) (refcountTable q) (refcountBlockEntries q) c"

subsection \<open>The invariant\<close>

text \<open>
  The sizes and the places of the tables. The last condition is one on the format: table entries hold 56 bits of an offset, so the
  clusters the refcount table covers have to lie below 2^56 bytes. The code does not check this: it refuses to grow a file only at 2^63 bytes. A
  refcount table is at least one cluster, and covers 2^59 bytes with the largest clusters of 2 MiB: these images, and those with smaller
  clusters and a long refcount table, of more than one cluster of 1 MiB for example, are outside the scope of every property that assumes \<open>image_ok\<close>.
\<close>

definition geometry :: "qcow2Image \<Rightarrow> bool" where
  "geometry q \<longleftrightarrow>
     (\<exists>k. 9 \<le> k \<and> k \<le> 21 \<and> clusterSize q = 2 ^ k) \<and>
     l2Entries q = clusterSize q div 8 \<and>
     refcountBlockEntries q = clusterSize q div 2 \<and>
     imgSize q \<le> max_int64 \<and>
     imgSize q \<le> length (l1 q) * (l2Entries q * clusterSize q) \<and>
     l1TableOffset q mod clusterSize q = 0 \<and>
     refcountTableOffset q mod clusterSize q = 0 \<and>
     length (refcountTable q) * (refcountBlockEntries q * clusterSize q) \<le> 2 ^ 56"

definition entries_ok :: "qcow2Image \<Rightarrow> bool" where
  "entries_ok q \<longleftrightarrow>
     (\<forall>i < length (refcountTable q). refcountTable q ! i mod clusterSize q = 0) \<and>
     (\<forall>i < length (l1 q). l1 q ! i \<noteq> 0 \<longrightarrow> l2_off q i \<noteq> 0 \<and> l2_off q i mod clusterSize q = 0) \<and>
     (\<forall>i < length (l1 q). l1 q ! i \<noteq> 0 \<longrightarrow> (\<forall>j < l2Entries q.
        validateL2Entry (l2_entry q i j) q = None \<and>
        clusterOffset (l2_entry q i j) mod clusterSize q = 0))"

definition tables_on_disk :: "qcow2Image \<Rightarrow> bool" where
  "tables_on_disk q \<longleftrightarrow>
     l1 q = tbl (hfile q) (l1TableOffset q) (length (l1 q)) \<and>
     refcountTable q = tbl (hfile q) (refcountTableOffset q) (length (refcountTable q))"

definition slots_ok :: "qcow2Image \<Rightarrow> bool" where
  "slots_ok q \<longleftrightarrow>
     (\<forall>s s' c. target q s = Some c \<longrightarrow> target q s' = Some c \<longrightarrow> s = s') \<and>
     (\<forall>s c. target q s = Some c \<longrightarrow> (c + 1) * clusterSize q \<le> fsize (hfile q)) \<and>
     (\<forall>s c. target q s = Some c \<longrightarrow> disk_refcount q c = 1)"

definition l2_cache_ok :: "qcow2Image \<Rightarrow> bool" where
  "l2_cache_ok q \<longleftrightarrow> (\<forall>i t. l2Cache q i = Some t \<longrightarrow>
     i < length (l1 q) \<and> l1 q ! i \<noteq> 0 \<and> t = tbl (hfile q) (l2_off q i) (l2Entries q))"

definition rc_cache_ok :: "qcow2Image \<Rightarrow> bool" where
  "rc_cache_ok q \<longleftrightarrow>
     (\<forall>b index. refcountCache q b = Some index \<longrightarrow>
        index < length (refcountBlocks q) \<and>
        refcountBlocks q ! index = \<lparr>rb_offset = b, rb_data = Some (bytes_at (hfile q) b (clusterSize q))\<rparr> \<and>
        b \<noteq> 0 \<and> b \<in> set (refcountTable q)) \<and>
     length (refcountBlocks q) \<le> qcow2RefcountCacheBytes div clusterSize q \<and>
     refcountCacheNext q < qcow2RefcountCacheBytes div clusterSize q"

definition image_ok :: "qcow2Image \<Rightarrow> bool" where
  "image_ok q \<longleftrightarrow> geometry q \<and> entries_ok q \<and> tables_on_disk q \<and> slots_ok q \<and>
     l2_cache_ok q \<and> rc_cache_ok q \<and> writeFault q = None \<and> fsize (hfile q) < 2 ^ 63"

text \<open>The guest disk: byte \<open>i\<close> of the virtual disk.\<close>

definition guest_entry :: "qcow2Image \<Rightarrow> nat \<Rightarrow> nat" where
  "guest_entry q g = (let i = g div l2Entries q in
     if l1 q ! i = 0 then 0 else l2_entry q i (g mod l2Entries q))"

definition guest_byte :: "qcow2Image \<Rightarrow> nat \<Rightarrow> byte" where
  "guest_byte q x =
     (let e = guest_entry q (x div clusterSize q) in
      if clusterOffset e = 0 \<or> e AND qcow2OFlagZero \<noteq> 0 then 0
      else fbytes (hfile q) (clusterOffset e + x mod clusterSize q))"

definition same_guest :: "qcow2Image \<Rightarrow> qcow2Image \<Rightarrow> bool" where
  "same_guest q q' \<longleftrightarrow> (\<forall>x < imgSize q. guest_byte q' x = guest_byte q x)"

definition same_shape :: "qcow2Image \<Rightarrow> qcow2Image \<Rightarrow> bool" where
  "same_shape q q' \<longleftrightarrow> version q' = version q \<and> imgSize q' = imgSize q \<and> clusterSize q' = clusterSize q \<and>
     l2Entries q' = l2Entries q \<and> refcountBlockEntries q' = refcountBlockEntries q \<and>
     l1TableOffset q' = l1TableOffset q \<and> refcountTableOffset q' = refcountTableOffset q \<and>
     length (l1 q') = length (l1 q) \<and> length (refcountTable q') = length (refcountTable q)"

section \<open>Lemmas\<close>

subsection \<open>Masks and alignment\<close>

lemma and_sub_one_mod: 
  assumes "cs = 2 ^ k" 
  shows "(x AND (cs - 1) :: nat) = x mod cs"
  unfolding assms by (metis take_bit_eq_mask mask_eq_exp_minus_1 take_bit_eq_mod)

lemma bit_aligned: 
  fixes x :: nat assumes "x mod 2 ^ m = 0" "bit x n" shows "m \<le> n"
proof (rule ccontr)
  assume "\<not> m \<le> n"
  then have "bit (take_bit m x) n" using assms(2) by (simp add: bit_take_bit_iff)
  then show False using assms(1) by (simp add: take_bit_eq_mod)
qed

lemma bit_less: 
  fixes x :: nat assumes "x < 2 ^ m" "bit x n" shows "n < m"
proof (rule ccontr)
  assume "\<not> n < m"
  then have "\<not> bit (take_bit m x) n" by (simp add: bit_take_bit_iff)
  moreover have "take_bit m x = x" using assms(1) by (simp add: take_bit_nat_eq_self)
  ultimately show False using assms(2) by simp
qed

lemma bit_qcow2OffsetMask: "bit qcow2OffsetMask n \<longleftrightarrow> 9 \<le> n \<and> n < 56"
proof -
  have "qcow2OffsetMask = push_bit 9 (mask 47)" by (simp add: qcow2OffsetMask_def mask_eq_exp_minus_1 push_bit_eq_mult)
  then have "bit qcow2OffsetMask n \<longleftrightarrow> bit (push_bit 9 (mask 47 :: nat)) n" by (rule arg_cong)
  then show ?thesis by (simp only: bit_push_bit_iff bit_mask_iff possible_bit_nat) auto
qed

lemma bit_qcow2OFlagCopied: "bit qcow2OFlagCopied n \<longleftrightarrow> n = 63"
  unfolding qcow2OFlagCopied_def by (simp only: bit_exp_iff possible_bit_nat) auto

lemma bit_qcow2OFlagCompressed: "bit qcow2OFlagCompressed n \<longleftrightarrow> n = 62"
  unfolding qcow2OFlagCompressed_def by (simp only: bit_exp_iff possible_bit_nat) auto

lemma bit_qcow2OFlagZero: "bit qcow2OFlagZero n \<longleftrightarrow> n = 0"
  by (simp only: qcow2OFlagZero_def bit_1_iff)

lemma bit_qcow2ReservedL2Mask: "bit qcow2ReservedL2Mask n \<longleftrightarrow> (1 \<le> n \<and> n < 9) \<or> (56 \<le> n \<and> n < 62)"
proof -
  have "qcow2ReservedL2Mask = push_bit 1 (mask 8) OR push_bit 56 (mask 6)"
    by (simp add: qcow2ReservedL2Mask_def mask_eq_exp_minus_1 push_bit_eq_mult)
  then have "bit qcow2ReservedL2Mask n \<longleftrightarrow> bit (push_bit 1 (mask 8) OR push_bit 56 (mask 6) :: nat) n" by (rule arg_cong)
  then show ?thesis by (simp only: bit_or_iff bit_push_bit_iff bit_mask_iff possible_bit_nat) auto
qed

lemmas flag_bits = bit_qcow2OffsetMask bit_qcow2OFlagCopied bit_qcow2OFlagCompressed
  bit_qcow2OFlagZero bit_qcow2ReservedL2Mask bit_and_iff bit_or_iff

lemma clusterOffset_copied:
  assumes "off < 2 ^ 56" "off mod 2 ^ 9 = 0"
  shows "clusterOffset (off OR qcow2OFlagCopied) = off"
  unfolding clusterOffset_def
  by (rule bit_eqI)
    (use bit_aligned [OF assms(2)] bit_less [OF assms(1)] in \<open>auto simp: flag_bits\<close>)

lemma copied_flags:
  assumes "off < 2 ^ 56" "off mod 2 ^ 9 = 0"
  shows "(off OR qcow2OFlagCopied) AND qcow2OFlagZero = 0"
    "(off OR qcow2OFlagCopied) AND qcow2OFlagCompressed = 0"
    "(off OR qcow2OFlagCopied) AND qcow2ReservedL2Mask = 0"
  by (rule bit_eqI,
    use bit_aligned [OF assms(2)] bit_less [OF assms(1)] in \<open>force simp: flag_bits\<close>)+

lemma copied_less:
  assumes "off < 2 ^ 56"
  shows "off OR qcow2OFlagCopied < 2 ^ 64"
proof -
  have "take_bit 64 (off OR qcow2OFlagCopied) = off OR qcow2OFlagCopied"
    by (rule bit_eqI) (use bit_less [OF assms] in \<open>force simp: bit_take_bit_iff flag_bits\<close>)
  then show ?thesis by (simp only: take_bit_nat_eq_self_iff)
qed

lemma clusterOffset_less: "clusterOffset e < 2 ^ 56"
  and clusterOffset_aligned: "clusterOffset e mod 2 ^ 9 = 0"
proof -
  have "clusterOffset e \<le> qcow2OffsetMask" by (simp add: clusterOffset_def and_nat_le)
  then show "clusterOffset e < 2 ^ 56" by (simp add: qcow2OffsetMask_def)
  have "take_bit 9 (clusterOffset e) = 0"
    by (rule bit_eqI) (auto simp: clusterOffset_def bit_take_bit_iff flag_bits)
  then show "clusterOffset e mod 2 ^ 9 = 0" by (simp add: take_bit_eq_mod)
qed

subsection \<open>Geometry\<close>

lemma geometryE:
  assumes "geometry q"
  obtains k where "9 \<le> k" "k \<le> 21" "clusterSize q = 2 ^ k"
  using assms by (auto simp: geometry_def)

lemma geometry_cs:
  assumes "geometry q"
  shows "512 \<le> clusterSize q" "clusterSize q \<le> 2097152" "512 dvd clusterSize q"
    "8 * l2Entries q = clusterSize q" "2 * refcountBlockEntries q = clusterSize q"
    "64 \<le> l2Entries q" "256 \<le> refcountBlockEntries q" "l2Entries q \<le> 262144"
proof -
  obtain k where k: "9 \<le> k" "k \<le> 21" "clusterSize q = 2 ^ k" using assms by (rule geometryE)
  have "(2::nat) ^ 9 \<le> 2 ^ k" using k(1) by (rule power_increasing) simp
  moreover have "(2::nat) ^ k \<le> 2 ^ 21" using k(2) by (rule power_increasing) simp
  moreover have "(2::nat) ^ 9 dvd 2 ^ k" using k(1) by (rule le_imp_power_dvd)
  ultimately show cs: "512 \<le> clusterSize q" "clusterSize q \<le> 2097152" "512 dvd clusterSize q"
    using k by simp_all
  have "8 dvd clusterSize q" "2 dvd clusterSize q" using cs(3) by (auto intro: dvd_trans [of _ 512])
  then show "8 * l2Entries q = clusterSize q" "2 * refcountBlockEntries q = clusterSize q"
    using assms by (simp_all add: geometry_def)
  then show "64 \<le> l2Entries q" "256 \<le> refcountBlockEntries q" "l2Entries q \<le> 262144"
    using cs by linarith+
qed

lemma image_okD:
  assumes "image_ok q"
  shows "geometry q" "entries_ok q" "tables_on_disk q" "slots_ok q" "l2_cache_ok q" "rc_cache_ok q"
    "writeFault q = None" "fsize (hfile q) < 2 ^ 63"
  using assms by (simp_all add: image_ok_def)

lemma slots_okD:
  assumes "slots_ok q" "target q s = Some c"
  shows "target q s' = Some c \<Longrightarrow> s = s'" "(c + 1) * clusterSize q \<le> fsize (hfile q)" "disk_refcount q c = 1"
  using assms unfolding slots_ok_def by blast+

lemma inCluster_mod:
  assumes "geometry q" shows "inCluster x q = x mod clusterSize q"
proof -
  obtain k where "clusterSize q = 2 ^ k" using assms by (rule geometryE)
  then show ?thesis using geometry_cs(1) [OF assms] and_sub_one_mod [of "clusterSize q" k x]
    by (simp add: inCluster_def sub64_def)
qed

subsection \<open>Tables on disk\<close>

lemma length_tbl [simp]: "length (tbl f off n) = n"
  by (simp add: tbl_def)

lemma nth_tbl [simp]: "i < n \<Longrightarrow> tbl f off n ! i = be_nat (bytes_at f (off + 8 * i) 8)"
  by (simp add: tbl_def)

lemma tbl_cong:
  assumes "\<And>i. off \<le> i \<Longrightarrow> i < off + 8 * n \<Longrightarrow> fbytes f i = fbytes g i"
  shows "tbl f off n = tbl g off n"
proof (rule nth_equalityI)
  fix i assume "i < length (tbl f off n)"
  then have "i < n" by simp
  then have "bytes_at f (off + 8 * i) 8 = bytes_at g (off + 8 * i) 8"
    by (intro bytes_at_cong assms) auto
  then show "tbl f off n ! i = tbl g off n ! i" using \<open>i < n\<close> by simp
qed simp

lemma decode_table_tbl: "decode_table (bytes_at f off (n * 8)) n = tbl f off n"
proof -
  have "slice (bytes_at f off (n * 8)) (8 * i) 8 = bytes_at f (off + 8 * i) 8" if "i < n" for i
    using that by (intro nth_equalityI) (auto simp: slice_def add.assoc)
  then show ?thesis by (simp add: decode_table_def tbl_def)
qed

lemma bytes_be_less: "be_nat (bytes_at f off 8) < 2 ^ 64"
  using be_nat_less [of "bytes_at f off 8"] by simp

lemma tbl_store_entry:
  assumes "i < n" "v < 2 ^ 64" "off + 8 * n \<le> fsize f"
  shows "tbl (store_bytes (off + 8 * i) (put_be 8 v) f) off n = (tbl f off n)[i := v]"
proof (rule nth_equalityI)
  fix j assume "j < length (tbl (store_bytes (off + 8 * i) (put_be 8 v) f) off n)"
  then have j: "j < n" by simp
  show "tbl (store_bytes (off + 8 * i) (put_be 8 v) f) off n ! j = (tbl f off n)[i := v] ! j"
  proof (cases "j = i")
    case True
    have "bytes_at (store_bytes (off + 8 * i) (put_be 8 v) f) (off + 8 * i) 8 = put_be 8 v"
      using bytes_at_store_same [of "off + 8 * i" "put_be 8 v" f] by simp
    then show ?thesis using True j assms by (simp add: be_nat_put_be)
  next
    case False
    then have "bytes_at (store_bytes (off + 8 * i) (put_be 8 v) f) (off + 8 * j) 8 = bytes_at f (off + 8 * j) 8"
      using assms j by (intro bytes_at_store_other) auto
    then show ?thesis using False j by simp
  qed
qed simp

subsection \<open>Bytes of owned clusters\<close>

definition in_cluster :: "qcow2Image \<Rightarrow> nat \<Rightarrow> nat \<Rightarrow> bool" where
  "in_cluster q c x \<longleftrightarrow> c * clusterSize q \<le> x \<and> x < (c + 1) * clusterSize q"

lemma in_cluster_offset:
  assumes "off mod clusterSize q = 0" "off \<le> x" "x < off + clusterSize q"
  shows "in_cluster q (off div clusterSize q) x"
proof -
  have "off div clusterSize q * clusterSize q = off" using assms(1) by (simp add: mod_0_imp_dvd)
  then show ?thesis using assms(2,3) by (simp add: in_cluster_def)
qed

lemma in_cluster_unique:
  assumes "in_cluster q c x" "in_cluster q d x" shows "c = d"
proof -
  have "x div clusterSize q = e" if "in_cluster q e x" for e
    using that unfolding in_cluster_def by (intro div_nat_eqI) (simp_all add: mult.commute)
  then show ?thesis using assms by metis
qed

lemma region_cluster:
  assumes "0 < clusterSize q" "off mod clusterSize q = 0" "off \<le> x" "x < off + len"
  shows "\<exists>k < (len + clusterSize q - 1) div clusterSize q. in_cluster q (off div clusterSize q + k) x"
proof -
  let ?cs = "clusterSize q" and ?k = "(x - off) div clusterSize q"
  have off: "off div ?cs * ?cs = off" using assms(2) by (simp add: mod_0_imp_dvd)
  have k: "?k * ?cs \<le> x - off" "x - off < (?k + 1) * ?cs"
    using div_mult_mod_eq [of "x - off" ?cs] mod_less_divisor [OF assms(1), of "x - off"]
    by (simp_all add: dividend_less_div_times assms(1))
  have "?k < (len + ?cs - 1) div ?cs"
  proof -
    have "?k * ?cs < len" using k(1) assms by linarith
    then have "(?k + 1) * ?cs \<le> len + ?cs - 1" by simp
    then show ?thesis using assms(1)
      by (metis Suc_eq_plus1 Suc_le_lessD less_eq_div_iff_mult_less_eq)
  qed
  moreover have "off + ?k * ?cs \<le> x" "x < off + (?k + 1) * ?cs" using k assms(3) by linarith+
  then have "in_cluster q (off div ?cs + ?k) x" using off by (simp add: in_cluster_def add_mult_distrib)
  ultimately show ?thesis by blast
qed

lemma l1_byte_slot:
  assumes "geometry q" "l1TableOffset q \<le> x" "x < l1TableOffset q + 8 * length (l1 q)"
  shows "\<exists>k c. target q (L1Reg k) = Some c \<and> in_cluster q c x"
  using region_cluster [of q "l1TableOffset q" x "8 * length (l1 q)"] assms geometry_cs(1) [OF assms(1)]
  by (auto simp: geometry_def l1_clusters_def)

lemma rt_byte_slot:
  assumes "geometry q" "refcountTableOffset q \<le> x" "x < refcountTableOffset q + 8 * length (refcountTable q)"
  shows "\<exists>k c. target q (RtReg k) = Some c \<and> in_cluster q c x"
  using region_cluster [of q "refcountTableOffset q" x "8 * length (refcountTable q)"]
    assms geometry_cs(1) [OF assms(1)]
  by (auto simp: geometry_def rt_clusters_def)

lemma l2_byte_slot:
  assumes "geometry q" "entries_ok q" "i < length (l1 q)" "l1 q ! i \<noteq> 0"
    "l2_off q i \<le> x" "x < l2_off q i + 8 * l2Entries q"
  shows "\<exists>c. target q (L2Tab i) = Some c \<and> in_cluster q c x"
  using assms geometry_cs(4) [OF assms(1)] by (auto simp: entries_ok_def intro: in_cluster_offset)

lemma rb_byte_slot:
  assumes "entries_ok q" "i < length (refcountTable q)" "refcountTable q ! i \<noteq> 0"
    "refcountTable q ! i \<le> x" "x < refcountTable q ! i + clusterSize q"
  shows "\<exists>c. target q (RefBlock i) = Some c \<and> in_cluster q c x"
  using assms by (auto simp: entries_ok_def intro: in_cluster_offset)

subsection \<open>Replacing the file under an image\<close>

text \<open>
  The table clusters of \<open>q\<close>, or all of its metadata clusters, have the same bytes
  in \<open>f\<close>.
\<close>

fun is_table :: "slot \<Rightarrow> bool" where
  "is_table (Data _ _) = False"
| "is_table (RefBlock _) = False"
| "is_table _ = True"

definition tab_agree :: "qcow2Image \<Rightarrow> hostfile \<Rightarrow> bool" where
  "tab_agree q f \<longleftrightarrow> (\<forall>s c x. target q s = Some c \<longrightarrow> is_table s \<longrightarrow> in_cluster q c x \<longrightarrow>
     fbytes f x = fbytes (hfile q) x)"

definition meta_agree :: "qcow2Image \<Rightarrow> hostfile \<Rightarrow> bool" where
  "meta_agree q f \<longleftrightarrow> (\<forall>s c x. target q s = Some c \<longrightarrow> \<not> is_data s \<longrightarrow> in_cluster q c x \<longrightarrow>
     fbytes f x = fbytes (hfile q) x)"

lemma is_table_not_data: "is_table s \<Longrightarrow> \<not> is_data s"
  by (cases s) auto

lemma meta_tab: "meta_agree q f \<Longrightarrow> tab_agree q f"
  using is_table_not_data by (auto simp: meta_agree_def tab_agree_def)

lemma tab_agree_slot:
  assumes "tab_agree q f" "is_table s" "\<exists>c. target q s = Some c \<and> in_cluster q c x"
  shows "fbytes f x = fbytes (hfile q) x"
  using assms by (auto simp: tab_agree_def)

lemma meta_agree_slot:
  assumes "meta_agree q f" "\<not> is_data s" "\<exists>c. target q s = Some c \<and> in_cluster q c x"
  shows "fbytes f x = fbytes (hfile q) x"
  using assms by (auto simp: meta_agree_def)

lemma tab_agree_l1:
  assumes "geometry q" "tab_agree q f"
  shows "tbl f (l1TableOffset q) (length (l1 q)) = tbl (hfile q) (l1TableOffset q) (length (l1 q))"
  using assms l1_byte_slot [OF assms(1)] by (intro tbl_cong) (metis tab_agree_slot is_table.simps)

lemma tab_agree_rt:
  assumes "geometry q" "tab_agree q f"
  shows "tbl f (refcountTableOffset q) (length (refcountTable q)) =
    tbl (hfile q) (refcountTableOffset q) (length (refcountTable q))"
  using assms rt_byte_slot [OF assms(1)] by (intro tbl_cong) (metis tab_agree_slot is_table.simps)

lemma tab_agree_l2:
  assumes "geometry q" "entries_ok q" "tab_agree q f" "i < length (l1 q)" "l1 q ! i \<noteq> 0"
  shows "tbl f (l2_off q i) (l2Entries q) = tbl (hfile q) (l2_off q i) (l2Entries q)"
  using assms l2_byte_slot [OF assms(1,2,4,5)] by (intro tbl_cong) (metis tab_agree_slot is_table.simps)

lemma tab_agree_l2_entry:
  assumes "geometry q" "entries_ok q" "tab_agree q f" "i < length (l1 q)" "l1 q ! i \<noteq> 0" "j < l2Entries q"
  shows "l2_entry (q\<lparr>hfile := f\<rparr>) i j = l2_entry q i j"
  using arg_cong [OF tab_agree_l2 [OF assms(1-5)], of "\<lambda>t. t ! j"] assms(6)
  by (simp add: l2_entry_def l2_off_def)

lemma tab_agree_target:
  assumes "geometry q" "entries_ok q" "tab_agree q f"
  shows "target (q\<lparr>hfile := f\<rparr>) s = target q s"
  using tab_agree_l2_entry [OF assms]
  by (cases s) (auto simp: l2_off_def l1_clusters_def rt_clusters_def)

lemma meta_agree_block:
  assumes "entries_ok q" "meta_agree q f" "i < length (refcountTable q)" "refcountTable q ! i \<noteq> 0"
  shows "bytes_at f (refcountTable q ! i) (clusterSize q) = bytes_at (hfile q) (refcountTable q ! i) (clusterSize q)"
  using assms rb_byte_slot [OF assms(1,3,4)] by (intro bytes_at_cong) (metis meta_agree_slot is_data.simps)

lemma bytes_at_sub:
  assumes "bytes_at f off n = bytes_at g off n" "k + m \<le> n"
  shows "bytes_at f (off + k) m = bytes_at g (off + k) m"
proof (rule nth_equalityI)
  fix i assume "i < length (bytes_at f (off + k) m)"
  then have "k + i < n" "i < m" using assms(2) by auto
  then show "bytes_at f (off + k) m ! i = bytes_at g (off + k) m ! i"
    using arg_cong [OF assms(1), of "\<lambda>t. t ! (k + i)"] by (simp add: add.assoc)
qed simp

lemma meta_agree_refcount:
  assumes "geometry q" "entries_ok q" "meta_agree q f"
  shows "disk_refcount (q\<lparr>hfile := f\<rparr>) c = disk_refcount q c"
proof -
  let ?n = "refcountBlockEntries q"
  have "2 * (c mod ?n) + 2 \<le> clusterSize q"
    using geometry_cs(5,7) [OF assms(1)] mod_less_divisor [of ?n c] by linarith
  then show ?thesis
    using bytes_at_sub [OF meta_agree_block [OF assms(2,3), of "c div ?n"]]
    by (simp add: disk_refcount_def rc_at_def)
qed

text \<open>The part of the invariant that does not mention the refcount cache.\<close>

definition image_core :: "qcow2Image \<Rightarrow> bool" where
  "image_core q \<longleftrightarrow> geometry q \<and> entries_ok q \<and> tables_on_disk q \<and> slots_ok q \<and>
     l2_cache_ok q \<and> writeFault q = None \<and> fsize (hfile q) < 2 ^ 63"

lemma image_ok_core: "image_ok q \<longleftrightarrow> image_core q \<and> rc_cache_ok q"
  by (auto simp: image_ok_def image_core_def)

lemma image_core_frame:
  assumes ok: "image_core q" and agree: "tab_agree q f" and fs: "fsize f < 2 ^ 63"
    and inside: "\<And>s c. target q s = Some c \<Longrightarrow> (c + 1) * clusterSize q \<le> fsize f"
    and rc: "\<And>s c. target q s = Some c \<Longrightarrow> disk_refcount (q\<lparr>hfile := f\<rparr>) c = 1"
  shows "image_core (q\<lparr>hfile := f\<rparr>)"
proof -
  note D = ok [unfolded image_core_def]
  have G: "geometry q" "entries_ok q" using D by auto
  have "geometry (q\<lparr>hfile := f\<rparr>) = geometry q" by (simp add: geometry_def)
  then have g: "geometry (q\<lparr>hfile := f\<rparr>)" using D by simp
  have e: "entries_ok (q\<lparr>hfile := f\<rparr>)"
    using G(2) tab_agree_l2_entry [OF G agree] by (simp add: entries_ok_def l2_off_def validateL2Entry_def)
  have t: "tables_on_disk (q\<lparr>hfile := f\<rparr>)"
    using D tab_agree_l1 [OF G(1) agree] tab_agree_rt [OF G(1) agree] by (simp add: tables_on_disk_def)
  have s: "slots_ok (q\<lparr>hfile := f\<rparr>)"
    using D inside rc by (auto simp: slots_ok_def tab_agree_target [OF G agree])
  have l: "l2_cache_ok (q\<lparr>hfile := f\<rparr>)"
    using D tab_agree_l2 [OF G agree] by (fastforce simp: l2_cache_ok_def l2_off_def)
  show ?thesis using g e t s l D fs by (simp add: image_core_def)
qed

lemma image_ok_frame:
  assumes ok: "image_ok q" and agree: "meta_agree q f" and fs: "fsize f < 2 ^ 63"
    and inside: "\<And>s c. target q s = Some c \<Longrightarrow> (c + 1) * clusterSize q \<le> fsize f"
  shows "image_ok (q\<lparr>hfile := f\<rparr>)"
proof -
  note D = image_okD [OF ok]
  have "image_core (q\<lparr>hfile := f\<rparr>)"
    using ok slots_okD(3) [OF D(4)] meta_agree_refcount [OF D(1,2) agree]
    by (intro image_core_frame [OF _ meta_tab [OF agree] fs inside]) (auto simp: image_ok_core)
  moreover have "rc_cache_ok (q\<lparr>hfile := f\<rparr>)"
    using D(6) meta_agree_block [OF D(2) agree] by (fastforce simp: rc_cache_ok_def in_set_conv_nth)
  ultimately show ?thesis by (simp add: image_ok_core)
qed

subsection \<open>The guest view\<close>

lemma guest_index:
  assumes "geometry q" "x < imgSize q"
  shows "x div clusterSize q div l2Entries q < length (l1 q)"
    "x div clusterSize q mod l2Entries q < l2Entries q"
proof -
  have "imgSize q \<le> length (l1 q) * (l2Entries q * clusterSize q)"
    using assms(1) unfolding geometry_def by blast
  then have "x < length (l1 q) * (l2Entries q * clusterSize q)" using assms(2) by linarith
  then show "x div clusterSize q div l2Entries q < length (l1 q)"
    by (metis div_mult2_eq less_mult_imp_div_less mult.commute)
  show "x div clusterSize q mod l2Entries q < l2Entries q"
    using geometry_cs(6) [OF assms(1)] by simp
qed

text \<open>The slot that backs guest byte \<open>x\<close>, and the host byte it stands for.\<close>

definition guest_slot :: "qcow2Image \<Rightarrow> nat \<Rightarrow> slot" where
  "guest_slot q x = (let g = x div clusterSize q in Data (g div l2Entries q) (g mod l2Entries q))"

lemma guest_slot_target:
  assumes "geometry q" "x < imgSize q" "clusterOffset (guest_entry q (x div clusterSize q)) \<noteq> 0"
  shows "target q (guest_slot q x) =
    Some (clusterOffset (guest_entry q (x div clusterSize q)) div clusterSize q)"
  using assms guest_index [OF assms(1,2)] by (auto simp: guest_slot_def guest_entry_def Let_def clusterOffset_def split: if_splits)

lemma guest_entry_aligned:
  assumes "geometry q" "entries_ok q" "x < imgSize q"
  shows "clusterOffset (guest_entry q (x div clusterSize q)) mod clusterSize q = 0"
  using assms guest_index [OF assms(1,3)]
  by (auto simp: guest_entry_def entries_ok_def Let_def clusterOffset_def)

lemma guest_host_in_cluster:
  assumes "geometry q" "entries_ok q" "x < imgSize q"
  shows "in_cluster q (clusterOffset (guest_entry q (x div clusterSize q)) div clusterSize q)
    (clusterOffset (guest_entry q (x div clusterSize q)) + x mod clusterSize q)"
  using guest_entry_aligned [OF assms] geometry_cs(1) [OF assms(1)]
  by (intro in_cluster_offset) auto

lemma guest_entry_frame:
  assumes "geometry q" "entries_ok q" "tab_agree q f" "x < imgSize q"
  shows "guest_entry (q\<lparr>hfile := f\<rparr>) (x div clusterSize q) = guest_entry q (x div clusterSize q)"
  using tab_agree_l2_entry [OF assms(1-3)] guest_index [OF assms(1,4)]
  by (simp add: guest_entry_def Let_def)

lemma guest_byte_frame:
  assumes "geometry q" "entries_ok q" "tab_agree q f" "x < imgSize q"
    and "\<And>c y. target q (guest_slot q x) = Some c \<Longrightarrow> in_cluster q c y \<Longrightarrow> fbytes f y = fbytes (hfile q) y"
  shows "guest_byte (q\<lparr>hfile := f\<rparr>) x = guest_byte q x"
  using guest_entry_frame [OF assms(1-4)] guest_slot_target [OF assms(1,4)]
    guest_host_in_cluster [OF assms(1,2,4)] assms(5)
  by (auto simp: guest_byte_def Let_def)

text \<open>All owned clusters have the same bytes in \<open>f\<close>.\<close>

definition all_agree :: "qcow2Image \<Rightarrow> hostfile \<Rightarrow> bool" where
  "all_agree q f \<longleftrightarrow> (\<forall>s c x. target q s = Some c \<longrightarrow> in_cluster q c x \<longrightarrow> fbytes f x = fbytes (hfile q) x)"

lemma all_agree_meta: "all_agree q f \<Longrightarrow> meta_agree q f"
  by (auto simp: all_agree_def meta_agree_def)

lemma same_guest_frame:
  assumes "image_ok q" "all_agree q f"
  shows "same_guest q (q\<lparr>hfile := f\<rparr>)"
  unfolding same_guest_def
  using guest_byte_frame [OF image_okD(1,2) [OF assms(1)] meta_tab [OF all_agree_meta [OF assms(2)]]] assms(2)
  by (metis all_agree_def)

text \<open>
  Read-only steps: the file keeps its contents, the tables stay, and only the
  caches and the script of outcomes may change.
\<close>

definition quiet :: "qcow2Image \<Rightarrow> qcow2Image \<Rightarrow> bool" where
  "quiet q q' \<longleftrightarrow> same_data (hfile q) (hfile q') \<and> same_shape q q' \<and> l1 q' = l1 q \<and>
     refcountTable q' = refcountTable q \<and> writeFault q' = writeFault q"

lemma quiet_refl [simp]: "quiet q q"
  by (simp add: quiet_def same_shape_def)

lemma quiet_trans: "quiet q q' \<Longrightarrow> quiet q' q'' \<Longrightarrow> quiet q q''"
  by (auto simp: quiet_def same_shape_def same_data_def)

lemma bytes_at_same: "fbytes f = fbytes g \<Longrightarrow> bytes_at f = bytes_at g"
  by (intro ext) (simp add: bytes_at_def)

lemma quiet_view:
  assumes "quiet q q'"
  shows "target q' = target q" "l2_entry q' = l2_entry q" "l2_off q' = l2_off q"
    "disk_refcount q' = disk_refcount q" "guest_byte q' = guest_byte q"
    "tbl (hfile q') = tbl (hfile q)" "bytes_at (hfile q') = bytes_at (hfile q)"
    "guest_entry q' = guest_entry q" "in_cluster q' = in_cluster q"
proof -
  note [simp] = same_shape_def same_data_def
  have q: "fbytes (hfile q') = fbytes (hfile q)" "l1 q' = l1 q" "refcountTable q' = refcountTable q"
    "clusterSize q' = clusterSize q" "l2Entries q' = l2Entries q"
    "refcountBlockEntries q' = refcountBlockEntries q" "l1TableOffset q' = l1TableOffset q"
    "refcountTableOffset q' = refcountTableOffset q"
    using assms by (auto simp: quiet_def)
  show b: "bytes_at (hfile q') = bytes_at (hfile q)" using q by (intro bytes_at_same)
  show o: "l2_off q' = l2_off q" using q by (intro ext) (simp add: l2_off_def)
  show e: "l2_entry q' = l2_entry q" using b o by (intro ext) (simp add: l2_entry_def)
  show "tbl (hfile q') = tbl (hfile q)" using b by (intro ext) (simp add: tbl_def)
  show "disk_refcount q' = disk_refcount q" using b q by (intro ext) (simp add: disk_refcount_def rc_at_def)
  show "in_cluster q' = in_cluster q" using q by (intro ext) (simp add: in_cluster_def)
  show "target q' = target q"
  proof
    fix s show "target q' s = target q s"
      using q e o by (cases s) (simp_all add: l1_clusters_def rt_clusters_def)
  qed
  show g: "guest_entry q' = guest_entry q" using q e by (intro ext) (simp add: guest_entry_def Let_def)
  show "guest_byte q' = guest_byte q" using q g by (intro ext) (simp add: guest_byte_def Let_def)
qed

lemma quiet_image_ok:
  assumes "image_core q" "quiet q q'" "l2_cache_ok q'" "rc_cache_ok q'"
  shows "image_ok q'"
proof -
  note D = assms(1) [unfolded image_core_def] and V = quiet_view [OF assms(2)]
  have q: "l1 q' = l1 q" "refcountTable q' = refcountTable q" "fsize (hfile q') = fsize (hfile q)"
    "clusterSize q' = clusterSize q" "l2Entries q' = l2Entries q" "version q' = version q"
    "refcountBlockEntries q' = refcountBlockEntries q" "l1TableOffset q' = l1TableOffset q"
    "refcountTableOffset q' = refcountTableOffset q" "imgSize q' = imgSize q" "writeFault q' = writeFault q"
    using assms(2) by (auto simp: quiet_def same_shape_def same_data_def)
  have "geometry q' = geometry q" "entries_ok q' = entries_ok q"
    by (simp_all only: geometry_def entries_ok_def validateL2Entry_def V q)
  moreover have "tables_on_disk q' = tables_on_disk q" "slots_ok q' = slots_ok q"
    by (simp_all only: tables_on_disk_def slots_ok_def V q)
  ultimately show ?thesis using D assms(3,4) q by (simp add: image_ok_def)
qed

lemma quiet_l2_cache:
  assumes "quiet q q'" "l2Cache q' = l2Cache q" "l2_cache_ok q"
  shows "l2_cache_ok q'"
  using assms quiet_view(3,6) [OF assms(1)] by (simp add: l2_cache_ok_def quiet_def same_shape_def)

lemma quiet_same_guest: "quiet q q' \<Longrightarrow> same_guest q q'"
  using quiet_view(5) by (auto simp: same_guest_def)

text \<open>A step that only consumes outcomes of the script.\<close>

lemma quiet_file:
  assumes "image_ok q" "fbytes f = fbytes (hfile q)" "fsize f = fsize (hfile q)"
  shows "quiet q (q\<lparr>hfile := f\<rparr>)" "image_ok (q\<lparr>hfile := f\<rparr>)"
proof -
  show quiet: "quiet q (q\<lparr>hfile := f\<rparr>)" using assms(2,3) by (simp add: quiet_def same_shape_def same_data_def)
  note V = quiet_view [OF this]
  have "l2_cache_ok (q\<lparr>hfile := f\<rparr>)" "rc_cache_ok (q\<lparr>hfile := f\<rparr>)"
    using image_okD(5,6) [OF assms(1)] V(3,6,7) by (simp_all add: l2_cache_ok_def rc_cache_ok_def)
  then show "image_ok (q\<lparr>hfile := f\<rparr>)"
    using quiet_image_ok [OF _ quiet] assms(1) by (simp add: image_ok_core)
qed

end
