(* ===== verification/Qcow2_Sample.thy ===== *)
theory Qcow2_Sample
  imports Qcow2_Invariant
begin

text \<open>
  A small image that satisfies the invariant: 512-byte clusters, a 32 KiB guest
  disk with no cluster allocated, the header in cluster 0, the L1 table in
  cluster 1, the refcount table in cluster 2 and one refcount block in cluster 3.
\<close>

section \<open>Definitions\<close>

definition sample_bytes :: "nat \<Rightarrow> byte" where
  "sample_bytes i = (if i = 1030 then 6 else if i = 1537 \<or> i = 1539 \<or> i = 1541 \<or> i = 1543 then 1 else 0)"

definition sample_image :: qcow2Image where
  "sample_image = \<lparr>hfile = \<lparr>fbytes = sample_bytes, fsize = 2048, script = []\<rparr>,
     version = 2, writeFault = None, imgSize = 32768, clusterSize = 512,
     l1TableOffset = 512, l1 = [0], refcountTableOffset = 1024, refcountTable = 1536 # replicate 63 0,
     refcountBlockEntries = 256, refcountCache = Map.empty, refcountBlocks = [], refcountCacheNext = 0,
     l2Entries = 64, l2Cache = Map.empty\<rparr>"

section \<open>Lemmas\<close>

lemma sample_fields [simp]:
  "hfile sample_image = \<lparr>fbytes = sample_bytes, fsize = 2048, script = []\<rparr>"
  "version sample_image = 2" "writeFault sample_image = None" "imgSize sample_image = 32768"
  "clusterSize sample_image = 512" "l1TableOffset sample_image = 512" "l1 sample_image = [0]"
  "refcountTableOffset sample_image = 1024" "refcountTable sample_image = 1536 # replicate 63 0"
  "refcountBlockEntries sample_image = 256" "refcountCache sample_image = Map.empty"
  "refcountBlocks sample_image = []" "refcountCacheNext sample_image = 0"
  "l2Entries sample_image = 64" "l2Cache sample_image = Map.empty"
  by (simp_all add: sample_image_def)

lemma bytes_at_2: "bytes_at f off 2 = [fbytes f off, fbytes f (off + 1)]"
  by (intro nth_equalityI) (auto simp: less_2_cases_iff)

lemma bytes_at_8: "bytes_at f off 8 = [fbytes f off, fbytes f (off + 1), fbytes f (off + 2), fbytes f (off + 3),
    fbytes f (off + 4), fbytes f (off + 5), fbytes f (off + 6), fbytes f (off + 7)]"
  by (simp add: bytes_at_def upt_rec numeral_eq_Suc)

lemma sample_target:
  "target sample_image s = Some c \<longleftrightarrow>
     (s = Header \<and> c = 0) \<or> (s = L1Reg 0 \<and> c = 1) \<or> (s = RtReg 0 \<and> c = 2) \<or> (s = RefBlock 0 \<and> c = 3)"
  by (cases s) (auto simp: l1_clusters_def rt_clusters_def nth_Cons' split: if_splits)

lemma sample_refcount: "c < 4 \<Longrightarrow> disk_refcount sample_image c = 1"
proof -
  assume "c < 4"
  then consider "c = 0" | "c = 1" | "c = 2" | "c = 3" by linarith
  then show ?thesis
    by cases (simp_all add: disk_refcount_def rc_at_def bytes_at_2 be_nat_def sample_bytes_def)
qed

lemma sample_rt: "tbl (hfile sample_image) 1024 64 = 1536 # replicate 63 0"
proof (rule nth_equalityI)
  fix i assume "i < length (tbl (hfile sample_image) 1024 64)"
  then have i: "i < 64" by simp
  show "tbl (hfile sample_image) 1024 64 ! i = (1536 # replicate 63 0) ! i"
  proof (cases "i = 0")
    case True
    then show ?thesis
      by (simp add: bytes_at_8 be_nat_def sample_bytes_def)
  next
    case False
    have "bytes_at (hfile sample_image) (1024 + 8 * i) 8 = replicate 8 0"
      using i False by (intro nth_equalityI) (auto simp: sample_bytes_def)
    then show ?thesis using False i by (simp add: nth_Cons')
  qed
qed simp

lemma sample_image_ok: "image_ok sample_image"
proof -
  have "geometry sample_image"
    by (auto simp: geometry_def max_int64_def intro!: exI [of _ 9])
  moreover have "entries_ok sample_image" by (auto simp: entries_ok_def nth_Cons')
  moreover have "bytes_at (hfile sample_image) 512 8 = replicate 8 0"
    by (intro nth_equalityI) (auto simp: sample_bytes_def)
  then have "tables_on_disk sample_image" using sample_rt
    by (simp add: tables_on_disk_def tbl_def)
  moreover have "slots_ok sample_image"
    unfolding slots_ok_def sample_target using sample_refcount by auto
  moreover have "l2_cache_ok sample_image" by (simp add: l2_cache_ok_def)
  moreover have "rc_cache_ok sample_image" by (simp add: rc_cache_ok_def qcow2RefcountCacheBytes_def)
  ultimately show ?thesis by (simp add: image_ok_def)
qed

end
