(* ===== verification/Qcow2_Read.thy ===== *)
theory Qcow2_Read
  imports Qcow2_Sample
begin

text \<open>
  The methods that only read the image. Under the invariant such a method leaves
  the guest disk, the tables and the file contents as they are, its result is a
  function of what is on disk whether or not a cache served it, and it fails only
  when the operating system failed one of its calls. The judgement \<open>reads\<close> says
  this once; every method of the read path is an instance.
\<close>

section \<open>Definitions\<close>

text \<open>Errors other than a run-time panic or a loop that exceeds its bound.\<close>

fun sane :: "qerr \<Rightarrow> bool" where
  "sane (QErr _) = True"
| "sane (QIo _) = True"
| "sane (QWrap _ e) = sane e"
| "sane (QJoin a b) = (sane a \<and> sane b)"
| "sane (QDisabled e) = sane e"
| "sane QPanic = False"
| "sane QDiverge = False"

definition follows :: "qcow2Image \<Rightarrow> qcow2Image \<Rightarrow> bool" where
  "follows q0 q \<longleftrightarrow> image_ok q \<and> quiet q0 q \<and> (script (hfile q0) = [] \<longrightarrow> script (hfile q) = [])"

definition reads :: "qcow2Image \<Rightarrow> 'a qcomp \<Rightarrow> ('a \<Rightarrow> bool) \<Rightarrow> bool" where
  "reads q0 m Q \<longleftrightarrow> (\<forall>q r q'. follows q0 q \<longrightarrow> m q = (r, q') \<longrightarrow>
     follows q0 q' \<and> (case r of Inl e \<Rightarrow> sane e \<and> script (hfile q0) \<noteq> [] | Inr x \<Rightarrow> Q x))"

section \<open>Lemmas\<close>

subsection \<open>The judgement\<close>

lemma follows_refl: "image_ok q \<Longrightarrow> follows q q"
  by (simp add: follows_def)

lemma followsD:
  assumes "follows q0 q"
  shows "image_ok q" "quiet q0 q" "script (hfile q0) = [] \<Longrightarrow> script (hfile q) = []"
  using assms by (auto simp: follows_def)

lemma follows_fields:
  assumes "follows q0 q"
  shows "clusterSize q = clusterSize q0" "l2Entries q = l2Entries q0" "l1 q = l1 q0"
    "refcountTable q = refcountTable q0" "refcountBlockEntries q = refcountBlockEntries q0"
    "imgSize q = imgSize q0" "version q = version q0" "writeFault q = writeFault q0"
    "fbytes (hfile q) = fbytes (hfile q0)" "fsize (hfile q) = fsize (hfile q0)"
  using assms by (auto simp: follows_def quiet_def same_shape_def same_data_def)

lemma follows_file:
  assumes "follows q0 q" "fbytes f = fbytes (hfile q)" "fsize f = fsize (hfile q)"
    "script (hfile q) = [] \<longrightarrow> script f = []"
  shows "follows q0 (q\<lparr>hfile := f\<rparr>)"
  using assms quiet_trans [of q0 q "q\<lparr>hfile := f\<rparr>"] quiet_file [of q f] by (simp add: follows_def)

lemma readsI:
  assumes "\<And>q e q'. follows q0 q \<Longrightarrow> m q = (Inl e, q') \<Longrightarrow> follows q0 q' \<and> sane e \<and> script (hfile q0) \<noteq> []"
    and "\<And>q x q'. follows q0 q \<Longrightarrow> m q = (Inr x, q') \<Longrightarrow> follows q0 q' \<and> Q x"
  shows "reads q0 m Q"
  unfolding reads_def
proof (intro allI impI)
  fix q r q' assume "follows q0 q" "m q = (r, q')"
  then show "follows q0 q' \<and> (case r of Inl e \<Rightarrow> sane e \<and> script (hfile q0) \<noteq> [] | Inr x \<Rightarrow> Q x)"
    using assms(1) [of q _ q'] assms(2) [of q _ q'] by (cases r) simp_all
qed

lemma reads_ok: "reads q0 m Q \<Longrightarrow> follows q0 q \<Longrightarrow> m q = (Inr x, q') \<Longrightarrow> follows q0 q' \<and> Q x"
  by (force simp: reads_def)

lemma reads_err:
  "reads q0 m Q \<Longrightarrow> follows q0 q \<Longrightarrow> m q = (Inl e, q') \<Longrightarrow> follows q0 q' \<and> sane e \<and> script (hfile q0) \<noteq> []"
  by (force simp: reads_def)

lemma reads_weaken: "reads q0 m Q \<Longrightarrow> (\<And>x. Q x \<Longrightarrow> Q' x) \<Longrightarrow> reads q0 m Q'"
  by (rule readsI) (metis reads_err, metis reads_ok)

lemma reads_ret: "Q x \<Longrightarrow> reads q0 (ret x) Q"
  by (auto simp: reads_def ret_def)

lemma reads_gets: "(\<And>q. follows q0 q \<Longrightarrow> Q (f q)) \<Longrightarrow> reads q0 (gets f) Q"
  by (auto simp: reads_def gets_def)

lemma reads_inspect: "(\<And>q. follows q0 q \<Longrightarrow> \<exists>x. f q = Inr x \<and> Q x) \<Longrightarrow> reads q0 (inspect f) Q"
  by (rule readsI) (metis Inl_Inr_False inspect_def prod.inject, metis inspect_def prod.inject sum.inject(2))

lemma reads_check: "(\<And>q. follows q0 q \<Longrightarrow> c q = None) \<Longrightarrow> Q () \<Longrightarrow> reads q0 (\<lambda>q. check (c q) q) Q"
  by (simp add: reads_def check_def ret_def)

text \<open>A step that reads the caches: what follows it runs in the very state that was read.\<close>

lemma reads_gets_andthen:
  assumes "\<And>q r q'. follows q0 q \<Longrightarrow> k (f q) q = (r, q') \<Longrightarrow>
    follows q0 q' \<and> (case r of Inl e \<Rightarrow> sane e \<and> script (hfile q0) \<noteq> [] | Inr x \<Rightarrow> Q x)"
  shows "reads q0 (andthen (gets f) k) Q"
  using assms by (simp add: reads_def andthen_def gets_def)

lemma readsD:
  "reads q0 m Q \<Longrightarrow> follows q0 q \<Longrightarrow> m q = (r, q') \<Longrightarrow>
    follows q0 q' \<and> (case r of Inl e \<Rightarrow> sane e \<and> script (hfile q0) \<noteq> [] | Inr x \<Rightarrow> Q x)"
  unfolding reads_def by blast

lemma reads_andthen:
  assumes "reads q0 m R" "\<And>x. R x \<Longrightarrow> reads q0 (k x) Q"
  shows "reads q0 (andthen m k) Q"
proof -
  have "follows q0 q' \<and> (case r of Inl e \<Rightarrow> sane e \<and> script (hfile q0) \<noteq> [] | Inr x \<Rightarrow> Q x)"
    if f: "follows q0 q" and m: "andthen m k q = (r, q')" for q r q'
  proof (cases "m q")
    case (Pair r1 q1)
    show ?thesis
    proof (cases r1)
      case (Inl e)
      then show ?thesis using Pair m reads_err [OF assms(1) f, of e q1] by (auto simp: andthen_def)
    next
      case (Inr x)
      then have "follows q0 q1" "R x" using Pair reads_ok [OF assms(1) f] by simp_all
      moreover have "k x q1 = (r, q')" using Inr Pair m by (simp add: andthen_def)
      ultimately show ?thesis using assms(2) unfolding reads_def by blast
    qed
  qed
  then show ?thesis by (simp add: reads_def)
qed

lemma reads_wrapping: "reads q0 m Q \<Longrightarrow> reads q0 (wrapping s m) Q"
  by (rule readsI) (auto simp: wrapping_def split: sum.splits prod.splits dest: reads_err reads_ok)

lemma reads_if:
  "(b \<Longrightarrow> reads q0 m Q) \<Longrightarrow> (\<not> b \<Longrightarrow> reads q0 m' Q) \<Longrightarrow> reads q0 (if b then m else m') Q"
  by simp

lemma reads_at_index: "i < length xs \<Longrightarrow> Q (xs ! i) \<Longrightarrow> reads q0 (at_index xs i) Q"
  by (simp add: at_index_def reads_ret)

subsection \<open>File calls\<close>

lemma reads_file:
  assumes "off < 2 ^ 63" "off + n \<le> fsize (hfile q0)" "Q (bytes_at (hfile q0) off n)"
  shows "reads q0 (on_file (fReadAt n off)) Q"
proof -
  have "follows q0 q' \<and> (case r of Inl e \<Rightarrow> sane e \<and> script (hfile q0) \<noteq> [] | Inr x \<Rightarrow> Q x)"
    if f: "follows q0 q" and m: "on_file (fReadAt n off) q = (r, q')" for q r q'
  proof -
    obtain bs eo f where rf: "file_ReadAt n off (hfile q) = ((bs, eo), f)" by (metis surj_pair)
    have r: "q' = q\<lparr>hfile := f\<rparr>" "r = (case eo of None \<Rightarrow> Inr bs | Some e \<Rightarrow> Inl (QIo e))"
      using m rf by (auto simp: on_file_def fReadAt_def split: option.splits)
    have scr: "script (hfile q) = [] \<longrightarrow> script f = []"
      using rf by (auto simp: file_ReadAt_def tick_def split: if_splits list.splits io_outcome.splits)
    have fq: "follows q0 q'" using follows_file [OF f file_ReadAt_data [OF rf] scr] r(1) by simp
    show ?thesis
    proof (cases eo)
      case None
      have "bytes_at (hfile q) = bytes_at (hfile q0)" using follows_fields(9) [OF f] by (rule bytes_at_same)
      then have "bs = bytes_at (hfile q0) off n" using file_ReadAt_ok(1) [of n off "hfile q" bs f] rf None by simp
      then show ?thesis using fq r None assms(3) by simp
    next
      case (Some e)
      have "script (hfile q) \<noteq> []"
        using rf Some file_ReadAt_no_fault [of "hfile q" off n] assms(1,2) follows_fields(10) [OF f] by auto
      then show ?thesis using fq r Some followsD(3) [OF f] by auto
    qed
  qed
  then show ?thesis by (simp add: reads_def)
qed

lemma reads_stat:
  assumes "Q (fsize (hfile q0))"
  shows "reads q0 (on_file fStat) Q"
proof -
  have "follows q0 q' \<and> (case r of Inl e \<Rightarrow> sane e \<and> script (hfile q0) \<noteq> [] | Inr x \<Rightarrow> Q x)"
    if f: "follows q0 q" and m: "on_file fStat q = (r, q')" for q r q'
  proof -
    obtain res f where rf: "file_Stat (hfile q) = (res, f)" by fastforce
    have r: "q' = q\<lparr>hfile := f\<rparr>" "r = (case res of Inr n \<Rightarrow> Inr n | Inl e \<Rightarrow> Inl (QIo e))"
      using m rf by (auto simp: on_file_def fStat_def split: sum.splits)
    have scr: "script (hfile q) = [] \<longrightarrow> script f = [] \<and> res = Inr (fsize (hfile q))"
      using rf by (auto simp: file_Stat_def tick_def split: list.splits io_outcome.splits)
    then have "follows q0 q'" using follows_file [OF f file_Stat_data(1,2) [OF rf]] r(1) by simp
    then show ?thesis using r file_Stat_data(3) [OF rf] scr assms follows_fields(10) [OF f] followsD(3) [OF f]
      by (cases res) auto
  qed
  then show ?thesis by (simp add: reads_def)
qed

subsection \<open>Refcounts\<close>

lemma bit_qcow2RefcountOffsetMask: "bit qcow2RefcountOffsetMask n \<longleftrightarrow> 9 \<le> n \<and> n < 64"
proof -
  have "qcow2RefcountOffsetMask = push_bit 9 (mask 55)"
    by (simp add: qcow2RefcountOffsetMask_def mask_eq_exp_minus_1 push_bit_eq_mult)
  then have "bit qcow2RefcountOffsetMask n \<longleftrightarrow> bit (push_bit 9 (mask 55 :: nat)) n" by (rule arg_cong)
  then show ?thesis by (simp only: bit_push_bit_iff bit_mask_iff possible_bit_nat) auto
qed

lemma refcount_mask_id:
  assumes "e < 2 ^ 64" "e mod 2 ^ 9 = 0"
  shows "e AND qcow2RefcountOffsetMask = e"
  by (rule bit_eqI)
    (use bit_aligned [OF assms(2)] bit_less [OF assms(1)] in
      \<open>auto simp: bit_and_iff bit_qcow2RefcountOffsetMask\<close>)

lemma mod_512_of_cs:
  assumes "geometry q" "x mod clusterSize q = 0" shows "x mod 2 ^ 9 = 0"
proof -
  have "512 dvd x" using geometry_cs(3) [OF assms(1)] assms(2) by (metis dvd_trans mod_eq_0_iff_dvd)
  then show ?thesis by simp
qed

lemma rt_entry:
  assumes "image_ok q" "i < length (refcountTable q)"
  shows "refcountTable q ! i < 2 ^ 64" "refcountTable q ! i mod clusterSize q = 0"
    "refcountTable q ! i AND qcow2RefcountOffsetMask = refcountTable q ! i"
proof -
  note D = image_okD [OF assms(1)]
  have "refcountTable q ! i = tbl (hfile q) (refcountTableOffset q) (length (refcountTable q)) ! i"
    using D(3) by (simp add: tables_on_disk_def)
  then show l: "refcountTable q ! i < 2 ^ 64" using assms(2) bytes_be_less by simp
  show a: "refcountTable q ! i mod clusterSize q = 0" using D(2) assms(2) by (simp add: entries_ok_def)
  show "refcountTable q ! i AND qcow2RefcountOffsetMask = refcountTable q ! i"
    using l mod_512_of_cs [OF D(1) a] by (rule refcount_mask_id)
qed

lemma refcountLocation_eq:
  assumes "image_ok q" "off mod clusterSize q = 0"
    "off div clusterSize q div refcountBlockEntries q < length (refcountTable q)"
  shows "refcountLocation off q =
    (let e = refcountTable q ! (off div clusterSize q div refcountBlockEntries q);
         j = off div clusterSize q mod refcountBlockEntries q
     in Inr (e, j, e \<noteq> 0))"
  using assms rt_entry [OF assms(1,3)] by (auto simp: refcountLocation_def Let_def)

lemma refcountLocation_Inr:
  assumes "image_ok q" "refcountLocation off q = Inr (b, j, ok)"
  shows "off mod clusterSize q = 0"
    "off div clusterSize q div refcountBlockEntries q < length (refcountTable q)"
    "b = refcountTable q ! (off div clusterSize q div refcountBlockEntries q)"
    "j = off div clusterSize q mod refcountBlockEntries q" "ok \<longleftrightarrow> b \<noteq> 0"
proof -
  show a: "off mod clusterSize q = 0"
    and l: "off div clusterSize q div refcountBlockEntries q < length (refcountTable q)"
    using assms(2) by (auto simp: refcountLocation_def Let_def split: if_splits)
  show "b = refcountTable q ! (off div clusterSize q div refcountBlockEntries q)"
    "j = off div clusterSize q mod refcountBlockEntries q" "ok \<longleftrightarrow> b \<noteq> 0"
    using assms(2) refcountLocation_eq [OF assms(1) a l] by (auto simp: Let_def)
qed

text \<open>Caching a block that was just read keeps the invariant.\<close>

lemma cacheRefcountBlock_quiet: "quiet q (cacheRefcountBlock b d q)"
  "hfile (cacheRefcountBlock b d q) = hfile q" "l2Cache (cacheRefcountBlock b d q) = l2Cache q"
  by (auto simp: cacheRefcountBlock_def quiet_def same_shape_def Let_def split: option.splits)

lemma cache_limit_pos: "geometry q \<Longrightarrow> 0 < qcow2RefcountCacheBytes div clusterSize q"
  using geometry_cs(1,2) [of q] by (simp add: qcow2RefcountCacheBytes_def div_greater_zero_iff)

lemma rc_cache_ok_cache:
  assumes "rc_cache_ok q" "geometry q" "b \<noteq> 0" "b \<in> set (refcountTable q)"
    "d = bytes_at (hfile q) b (clusterSize q)"
  shows "rc_cache_ok (cacheRefcountBlock b d q)"
proof (cases "refcountCache q b")
  case (Some index)
  then have "refcountBlocks q ! index = \<lparr>rb_offset = b, rb_data = Some d\<rparr>" "index < length (refcountBlocks q)"
    using assms(1,5) by (auto simp: rc_cache_ok_def)
  then have "(refcountBlocks q)[index := (refcountBlocks q ! index)\<lparr>rb_data := Some d\<rparr>] = refcountBlocks q"
    by (metis list_update_id qcow2RefcountBlock.update_convs(2))
  then show ?thesis using Some assms(1) by (simp add: cacheRefcountBlock_def)
next
  case None
  note C = assms(1) [unfolded rc_cache_ok_def]
  let ?lim = "qcow2RefcountCacheBytes div clusterSize q"
  let ?e = "\<lparr>rb_offset = b, rb_data = Some d\<rparr>"
  show ?thesis
  proof (cases "length (refcountBlocks q) < ?lim")
    case True
    have "(refcountBlocks q @ [?e]) ! j = refcountBlocks q ! j" if "refcountCache q b' = Some j" for b' j
      using C that by (simp add: nth_append)
    then show ?thesis using True C assms(3-5) None
      by (simp add: cacheRefcountBlock_def rc_cache_ok_def Let_def less_Suc_eq)
  next
    case False
    let ?i = "refcountCacheNext q" and ?B = "refcountBlocks q"
    have i: "?i < length ?B" using C False by linarith
    let ?c = "if rb_data (?B ! ?i) \<noteq> None then (refcountCache q)(rb_offset (?B ! ?i) := None) else refcountCache q"
    have keep: "j < length ?B \<and> ?B[?i := ?e] ! j = \<lparr>rb_offset = b', rb_data = Some (bytes_at (hfile q) b' (clusterSize q))\<rparr> \<and>
        b' \<noteq> 0 \<and> b' \<in> set (refcountTable q)" if "?c b' = Some j" for b' j
    proof -
      have o: "refcountCache q b' = Some j" using that by (simp split: if_splits)
      then have B: "?B ! j = \<lparr>rb_offset = b', rb_data = Some (bytes_at (hfile q) b' (clusterSize q))\<rparr>"
        using C by blast
      have "j \<noteq> ?i" using that B by (auto split: if_splits)
      then show ?thesis using o C B by simp
    qed
    have eq: "cacheRefcountBlock b d q = q\<lparr>refcountBlocks := ?B[?i := ?e], refcountCacheNext := (?i + 1) mod ?lim,
        refcountCache := ?c(b \<mapsto> ?i)\<rparr>"
      using False None by (simp add: cacheRefcountBlock_def Let_def)
    have "(?c(b \<mapsto> ?i)) b' = Some j \<Longrightarrow> j < length ?B \<and>
        ?B[?i := ?e] ! j = \<lparr>rb_offset = b', rb_data = Some (bytes_at (hfile q) b' (clusterSize q))\<rparr> \<and>
        b' \<noteq> 0 \<and> b' \<in> set (refcountTable q)" for b' j
      using keep [of b' j] i assms(3-5) by (cases "b' = b") auto
    then show ?thesis using C cache_limit_pos [OF assms(2)] unfolding eq rc_cache_ok_def by simp
  qed
qed

lemma image_ok_cache:
  assumes "image_ok q" "b \<noteq> 0" "b \<in> set (refcountTable q)" "d = bytes_at (hfile q) b (clusterSize q)"
  shows "image_ok (cacheRefcountBlock b d q)"
proof (rule quiet_image_ok [OF _ cacheRefcountBlock_quiet(1)])
  show "image_core q" using assms(1) by (simp add: image_ok_core)
  show "l2_cache_ok (cacheRefcountBlock b d q)"
    by (rule quiet_l2_cache [OF cacheRefcountBlock_quiet(1,3) image_okD(5) [OF assms(1)]])
  show "rc_cache_ok (cacheRefcountBlock b d q)"
    using rc_cache_ok_cache [OF image_okD(6,1) [OF assms(1)] assms(2-4)] .
qed

lemma reads_modify:
  "(\<And>q. follows q0 q \<Longrightarrow> follows q0 (f q)) \<Longrightarrow> Q () \<Longrightarrow> reads q0 (modify f) Q"
  by (simp add: reads_def modify_def)

lemma target_range:
  assumes "image_ok q" "target q s = Some (off div clusterSize q)" "off mod clusterSize q = 0"
  shows "off + clusterSize q \<le> fsize (hfile q)" "off + clusterSize q < 2 ^ 63"
proof -
  have "off div clusterSize q * clusterSize q = off" using assms(3) by (simp add: mod_0_imp_dvd)
  then have "(off div clusterSize q + 1) * clusterSize q = off + clusterSize q" by simp
  then show a: "off + clusterSize q \<le> fsize (hfile q)"
    using slots_okD(2) [OF image_okD(4) [OF assms(1)] assms(2)] by simp
  show "off + clusterSize q < 2 ^ 63" using a image_okD(8) [OF assms(1)] by linarith
qed

lemma slice_bytes_at: "k + m \<le> n \<Longrightarrow> slice (bytes_at f off n) k m = bytes_at f (off + k) m"
  by (intro nth_equalityI) (auto simp: slice_def add.assoc)

lemma follows_cache:
  assumes "follows q0 q" "b \<noteq> 0" "b \<in> set (refcountTable q0)" "d = bytes_at (hfile q0) b (clusterSize q0)"
  shows "follows q0 (cacheRefcountBlock b d q)"
proof -
  note F = follows_fields [OF assms(1)] and D = followsD [OF assms(1)]
  have "d = bytes_at (hfile q) b (clusterSize q)" using assms(4) F(1) quiet_view(7) [OF D(2)] by simp
  then have "image_ok (cacheRefcountBlock b d q)"
    using image_ok_cache [OF D(1) assms(2)] assms(3) F(4) by simp
  then show ?thesis
    using quiet_trans [OF D(2) cacheRefcountBlock_quiet(1)] D(3)
    by (simp add: follows_def cacheRefcountBlock_quiet)
qed

lemma refcount_reads:
  assumes ok: "image_ok q0" and c: "c div refcountBlockEntries q0 < length (refcountTable q0)"
    and off: "off = c * clusterSize q0"
  shows "reads q0 (refcount off) (\<lambda>v. v = disk_refcount q0 c)"
proof -
  let ?n = "refcountBlockEntries q0" and ?cs = "clusterSize q0"
  let ?b = "refcountTable q0 ! (c div ?n)" and ?j = "c mod ?n"
  note G = geometry_cs [OF image_okD(1) [OF ok]]
  have cs: "0 < ?cs" using G(1) by linarith
  have j: "2 * ?j + 2 \<le> ?cs" using G(5,7) mod_less_divisor [of ?n c] by linarith
  have loc: "refcountLocation off q = Inr (?b, ?j, ?b \<noteq> 0)" if "follows q0 q" for q
    using refcountLocation_eq [OF followsD(1) [OF that], of off] c off cs
    by (simp add: Let_def follows_fields [OF that])
  show ?thesis
  proof (cases "?b = 0")
    case True
    then show ?thesis unfolding refcount_def
      by (intro reads_andthen [OF reads_inspect [where Q = "\<lambda>x. x = (?b, ?j, False)"]])
        (auto simp: loc intro!: reads_ret simp: disk_refcount_def rc_at_def)
  next
    case False
    have mem: "?b \<in> set (refcountTable q0)" using c by simp
    have al: "?b mod ?cs = 0" using rt_entry(2) [OF ok c] .
    have "target q0 (RefBlock (c div ?n)) = Some (?b div ?cs)" using c False by simp
    note R = target_range [OF ok this al]
    have rc: "disk_refcount q0 c = be_nat (bytes_at (hfile q0) (?b + 2 * ?j) 2)"
      using c False by (simp add: disk_refcount_def rc_at_def)
    have blk: "be_nat (slice (bytes_at (hfile q0) ?b ?cs) (2 * ?j) 2) = disk_refcount q0 c"
      using rc j by (simp add: slice_bytes_at)
    have hit: "block_entry (refcountBlocks q) index ?j = Inr (disk_refcount q0 c)"
      if f: "follows q0 q" and i: "refcountCache q ?b = Some index" for q index
    proof -
      have "index < length (refcountBlocks q)"
        "refcountBlocks q ! index = \<lparr>rb_offset = ?b, rb_data = Some (bytes_at (hfile q0) ?b ?cs)\<rparr>"
        using i image_okD(6) [OF followsD(1) [OF f]]
        by (simp_all add: rc_cache_ok_def follows_fields [OF f] quiet_view(7) [OF followsD(2) [OF f]])
      then show ?thesis using blk j by (simp add: block_entry_def)
    qed
    have miss: "reads q0 (andthen (gets clusterSize) (\<lambda>cs. andthen (on_file (fReadAt cs ?b)) (\<lambda>block.
        andthen (modify (cacheRefcountBlock ?b block)) (\<lambda>_. ret (be_nat (slice block (2 * ?j) 2))))))
        (\<lambda>v. v = disk_refcount q0 c)"
      by (rule reads_andthen [OF reads_gets [where Q = "\<lambda>x. x = ?cs"]])
        (use R blk False mem in \<open>auto simp: follows_fields intro!: reads_ret reads_modify follows_cache
          reads_andthen [OF reads_file [where Q = "\<lambda>x. x = bytes_at (hfile q0) ?b ?cs"]]
          reads_andthen [OF reads_modify [where Q = "\<lambda>_. True"]]\<close>)
    show ?thesis unfolding refcount_def
      by (rule reads_andthen [OF reads_inspect [where Q = "\<lambda>x. x = (?b, ?j, True)"]])
        (use False in \<open>auto simp: loc intro!: reads_gets_andthen
          dest: readsD [OF miss] split: option.splits simp: inspect_def hit\<close>)
  qed
qed

subsection \<open>The mapping\<close>

lemma readUint64Table_reads:
  assumes "n \<le> qcow2MaxL1Bytes div 8" "off + 8 * n \<le> fsize (hfile q0)" "fsize (hfile q0) < 2 ^ 63"
  shows "reads q0 (readUint64Table off n) (\<lambda>t. t = tbl (hfile q0) off n)"
proof -
  have "qcow2FileRange (fsize (hfile q0)) off (n * 8) ''metadata table'' = None"
    using assms by (simp add: qcow2FileRange_iff max_int64_def)
  then have c: "reads q0 (check (qcow2FileRange (fsize (hfile q0)) off (n * 8) ''metadata table'')) (\<lambda>_. True)"
    by (simp add: check_def reads_ret)
  have r: "reads q0 (on_file (fReadAt (n * 8) off)) (\<lambda>x. x = bytes_at (hfile q0) off (n * 8))"
    using assms by (intro reads_file) auto
  have "\<not> qcow2MaxL1Bytes div 8 < n" using assms(1) by simp
  then show ?thesis unfolding readUint64Table_def
    by (auto intro!: reads_andthen [OF reads_stat [where Q = "\<lambda>x. x = fsize (hfile q0)"]]
      reads_andthen [OF c] reads_andthen [OF r] reads_ret simp: decode_table_tbl)
qed

lemma l2_range:
  assumes "image_ok q" "i < length (l1 q)" "l1 q ! i \<noteq> 0"
  shows "l2_off q i \<noteq> 0" "l2_off q i mod clusterSize q = 0"
    "l2_off q i + clusterSize q \<le> fsize (hfile q)" "target q (L2Tab i) = Some (l2_off q i div clusterSize q)"
proof -
  show z: "l2_off q i \<noteq> 0" and a: "l2_off q i mod clusterSize q = 0"
    using image_okD(2) [OF assms(1)] assms(2,3) by (auto simp: entries_ok_def)
  show t: "target q (L2Tab i) = Some (l2_off q i div clusterSize q)" using assms by simp
  show "l2_off q i + clusterSize q \<le> fsize (hfile q)" using target_range(1) [OF assms(1) t a] .
qed

lemma follows_l2Cache:
  assumes "follows q0 q" "i < length (l1 q0)" "l1 q0 ! i \<noteq> 0" "t = tbl (hfile q0) (l2_off q0 i) (l2Entries q0)"
  shows "follows q0 (q\<lparr>l2Cache := (l2Cache q)(i \<mapsto> t)\<rparr>)"
proof -
  let ?q = "q\<lparr>l2Cache := (l2Cache q)(i \<mapsto> t)\<rparr>"
  note F = follows_fields [OF assms(1)] and D = followsD [OF assms(1)]
  note V = quiet_view [OF D(2)]
  have u: "quiet q ?q" by (simp add: quiet_def same_shape_def)
  have "l2_off ?q = l2_off q" using quiet_view(3) [OF u] .
  then have "l2_cache_ok ?q"
    using image_okD(5) [OF D(1)] assms(2-4) by (auto simp: l2_cache_ok_def F V)
  moreover have "rc_cache_ok ?q" using image_okD(6) [OF D(1)] by (simp add: rc_cache_ok_def)
  ultimately have "image_ok ?q" using D(1) by (intro quiet_image_ok [OF _ u]) (simp_all add: image_ok_core)
  then show ?thesis using quiet_trans [OF D(2) u] D(3) by (simp add: follows_def)
qed

lemma loadL2_reads:
  assumes ok: "image_ok q0" and i: "i < length (l1 q0)" "l1 q0 ! i \<noteq> 0"
  shows "reads q0 (loadL2 i) (\<lambda>t. t = tbl (hfile q0) (l2_off q0 i) (l2Entries q0))" (is "reads q0 _ ?Q")
proof -
  note G = geometry_cs [OF image_okD(1) [OF ok]] and L = l2_range [OF ok i]
  have hit: "t = tbl (hfile q0) (l2_off q0 i) (l2Entries q0)" if "follows q0 q" "l2Cache q i = Some t" for q t
    using image_okD(5) [OF followsD(1) [OF that(1)]] that
    by (simp add: l2_cache_ok_def follows_fields [OF that(1)] quiet_view [OF followsD(2) [OF that(1)]])
  have tab: "reads q0 (wrapping s (readUint64Table (l2_off q0 i) (l2Entries q0))) ?Q" for s
    using G(4,8) L(3) image_okD(8) [OF ok]
    by (intro reads_wrapping readUint64Table_reads) (auto simp: qcow2MaxL1Bytes_def)
  have chk: "checkedInt (l2Entries q0) = Inr (l2Entries q0)"
    using G(8) by (simp add: checkedInt_def max_int64_def)
  have miss: "reads q0 (andthen (inspect (\<lambda>q. if length (l1 q) \<le> i then Inl QPanic
        else Inr (clusterOffset (l1 q ! i)))) (\<lambda>l2Off.
          if l2Off = 0 then fail (QErr ''missing l2 table'')
          else andthen (gets clusterSize) (\<lambda>cs.
            if l2Off mod cs \<noteq> 0 then fail (QErr ''unaligned l2 table'')
            else andthen (inspect (\<lambda>q. checkedInt (l2Entries q))) (\<lambda>l2Len.
                 andthen (wrapping ''read l2 table'' (readUint64Table l2Off l2Len)) (\<lambda>l2.
                 andthen (modify (\<lambda>q. q\<lparr>l2Cache := (l2Cache q)(i \<mapsto> l2)\<rparr>)) (\<lambda>_.
                 ret l2)))))) ?Q"
    by (rule reads_andthen [OF reads_inspect [where Q = "\<lambda>x. x = l2_off q0 i"]])
      (use i L in \<open>auto simp: follows_fields l2_off_def chk
        intro!: reads_andthen [OF reads_gets [where Q = "\<lambda>x. x = clusterSize q0"]]
          reads_andthen [OF reads_inspect [where Q = "\<lambda>x. x = l2Entries q0"]]
          reads_andthen [OF tab [unfolded l2_off_def]] reads_andthen [OF reads_modify [where Q = "\<lambda>_. True"]]
          reads_ret follows_l2Cache\<close>)
  show ?thesis unfolding loadL2_def
    by (rule reads_gets_andthen) (auto split: option.splits simp: ret_def hit dest: readsD [OF miss])
qed

lemma offset_fits:
  fixes a :: nat assumes "a < 2 ^ 56" "b < c" "c \<le> 2097152" shows "a + b < 2 ^ 63" "a + b < 2 ^ 64"
  using assms by simp_all

lemma tableIndexes_eq:
  assumes "geometry q" "x < imgSize q"
  shows "tableIndexes x q = Inr (x div clusterSize q div l2Entries q, x div clusterSize q mod l2Entries q)"
  using guest_index [OF assms] by (simp add: tableIndexes_def Let_def)

lemma hostOffset_reads:
  assumes ok: "image_ok q0" and x: "x < imgSize q0"
  shows "reads q0 (hostOffset x) (\<lambda>(h, z). let e = guest_entry q0 (x div clusterSize q0) in
    if clusterOffset e = 0 \<or> e AND qcow2OFlagZero \<noteq> 0 then z
    else \<not> z \<and> h = clusterOffset e + x mod clusterSize q0)" (is "reads q0 _ ?Q")
proof -
  let ?g = "x div clusterSize q0"
  let ?i = "?g div l2Entries q0" and ?j = "?g mod l2Entries q0"
  note geo = image_okD(1) [OF ok]
  note I = guest_index [OF geo x]
  have geo_q: "geometry q = geometry q0" "tableIndexes x q = Inr (?i, ?j)" if "follows q0 q" for q
    using tableIndexes_eq [OF image_okD(1) [OF followsD(1) [OF that]], of x] x geo
      image_okD(1) [OF followsD(1) [OF that]] by (simp_all add: follows_fields [OF that])
  show ?thesis
  proof (cases "l1 q0 ! ?i = 0")
    case True
    then have "guest_entry q0 ?g = 0" by (simp add: guest_entry_def)
    moreover have "reads q0 (l2Table x) (\<lambda>r. r = (None, ?j))"
      unfolding l2Table_def
      by (rule reads_andthen [OF reads_inspect [where Q = "\<lambda>x. x = (?i, ?j)"]])
        (use True I in \<open>auto simp: geo_q follows_fields clusterOffset_def
          intro!: reads_andthen [OF reads_gets [where Q = "\<lambda>x. x = l1 q0"]] reads_ret\<close>)
    ultimately show ?thesis unfolding hostOffset_def
      by (intro reads_andthen [where R = "\<lambda>r. r = (None, ?j)"]) (auto intro!: reads_ret simp: clusterOffset_def)
  next
    case False
    let ?t = "tbl (hfile q0) (l2_off q0 ?i) (l2Entries q0)"
    have e: "guest_entry q0 ?g = ?t ! ?j" using False I(2) by (simp add: guest_entry_def l2_entry_def Let_def)
    have "clusterOffset (l1 q0 ! ?i) \<noteq> 0" using l2_range(1) [OF ok I(1) False] by (simp add: l2_off_def)
    then have l2: "reads q0 (l2Table x) (\<lambda>r. r = (Some ?t, ?j))"
      unfolding l2Table_def
      by (intro reads_andthen [OF reads_inspect [where Q = "\<lambda>x. x = (?i, ?j)"]])
        (use I in \<open>auto simp: geo_q follows_fields
          intro!: reads_andthen [OF reads_gets [where Q = "\<lambda>x. x = l1 q0"]] reads_ret
            reads_andthen [OF loadL2_reads [OF ok I(1) False]]\<close>)
    let ?v = "guest_entry q0 ?g"
    have at: "reads q0 (at_index ?t ?j) (\<lambda>v. v = ?v)" using I(2) e by (intro reads_at_index) simp_all
    have v: "validateL2Entry ?v q = None" if "follows q0 q" for q
      using image_okD(2) [OF ok] I False
      by (simp add: entries_ok_def guest_entry_def Let_def validateL2Entry_def follows_fields [OF that])
    have chk: "reads q0 (\<lambda>q. check (validateL2Entry ?v q) q) (\<lambda>_. True)"
      by (rule reads_check) (simp_all add: v)
    have add: "add64 (clusterOffset ?v) (inCluster x q) = clusterOffset ?v + x mod clusterSize q0"
      if "follows q0 q" for q
    proof -
      have "x mod clusterSize q0 < clusterSize q0" using geometry_cs(1) [OF geo] by simp
      then have "clusterOffset ?v + x mod clusterSize q0 < 2 ^ 64"
        using offset_fits(2) [OF clusterOffset_less] geometry_cs(2) [OF geo] by blast
      then show ?thesis
        using inCluster_mod [OF image_okD(1) [OF followsD(1) [OF that]]]
        by (simp add: add64_id follows_fields [OF that])
    qed
    show ?thesis unfolding hostOffset_def
      by (rule reads_andthen [OF l2])
        (auto simp: Let_def add clusterOffset_def [of 0] intro!: reads_andthen [OF at] reads_andthen [OF chk] reads_ret reads_gets)
  qed
qed

subsection \<open>Guest reads\<close>

text \<open>The part of a request that lies in the guest cluster of its first byte.\<close>

lemma chunk_bounds:
  assumes "geometry q" "0 < n"
  shows "sub64 (clusterSize q) (inCluster x q) = clusterSize q - x mod clusterSize q"
    "0 < min n (clusterSize q - x mod clusterSize q)"
  using inCluster_mod [OF assms(1), of x] geometry_cs(1) [OF assms(1)] mod_less_divisor [of "clusterSize q" x] assms(2)
  by (simp_all add: sub64_def)

lemma chunk_same_cluster:
  fixes cs :: nat assumes "0 < cs" "k < cs - x mod cs"
  shows "(x + k) div cs = x div cs" "(x + k) mod cs = x mod cs + k"
proof -
  have "x mod cs + k < cs" using assms mod_less_divisor [OF assms(1), of x] by linarith
  moreover have "x + k = x div cs * cs + (x mod cs + k)" by (simp add: div_mult_mod_eq)
  ultimately show "(x + k) div cs = x div cs" "(x + k) mod cs = x mod cs + k"
    by (metis add.commute assms(1) div_less div_mult_self1 not_less_zero neq0_conv add.right_neutral,
        metis mod_less mod_mult_self3)
qed

lemma guest_chunk:
  assumes "image_ok q" "n \<le> clusterSize q - x mod clusterSize q"
    "e = guest_entry q (x div clusterSize q)"
  shows "map (\<lambda>i. guest_byte q (x + i)) [0..<n] =
    (if clusterOffset e = 0 \<or> e AND qcow2OFlagZero \<noteq> 0 then replicate n 0
     else bytes_at (hfile q) (clusterOffset e + x mod clusterSize q) n)"
proof -
  have "guest_byte q (x + i) = (if clusterOffset e = 0 \<or> e AND qcow2OFlagZero \<noteq> 0 then 0
      else fbytes (hfile q) (clusterOffset e + x mod clusterSize q + i))" if "i < n" for i
    using chunk_same_cluster [of "clusterSize q" i x] geometry_cs(1) [OF image_okD(1) [OF assms(1)]] assms that
    by (simp add: guest_byte_def Let_def add.assoc)
  then show ?thesis by (intro nth_equalityI) auto
qed

lemma guest_host_range:
  assumes ok: "image_ok q" and x: "x < imgSize q" and e: "e = guest_entry q (x div clusterSize q)" "clusterOffset e \<noteq> 0"
    and n: "n \<le> clusterSize q - x mod clusterSize q"
  shows "clusterOffset e + x mod clusterSize q + n \<le> fsize (hfile q)"
    "clusterOffset e + x mod clusterSize q < 2 ^ 63"
proof -
  note D = image_okD [OF ok]
  have c: "x mod clusterSize q < clusterSize q" using geometry_cs(1) [OF D(1)] by simp
  have "clusterOffset e + clusterSize q \<le> fsize (hfile q)"
    using target_range(1) [OF ok guest_slot_target [OF D(1) x] guest_entry_aligned [OF D(1,2) x]] e by simp
  then show "clusterOffset e + x mod clusterSize q + n \<le> fsize (hfile q)" using n c by linarith
  show "clusterOffset e + x mod clusterSize q < 2 ^ 63"
    using offset_fits(1) [OF clusterOffset_less c] geometry_cs(2) [OF D(1)] .
qed

text \<open>One round of the read loop as a computation of its own.\<close>

definition read_chunk :: "nat \<Rightarrow> nat \<Rightarrow> byte list qcomp" where
  "read_chunk x n = andthen (hostOffset x) (\<lambda>(h, z).
     if z then ret (replicate n 0) else on_file (fReadAt n h))"

lemma read_loop_round:
  "read_loop (Suc fuel) off remaining acc q =
     (if remaining \<le> length acc then ((acc, None), q)
      else let x = add64 off (length acc);
               n = min (remaining - length acc) (sub64 (clusterSize q) (inCluster x q))
           in case read_chunk x n q of
                (Inl e, q') \<Rightarrow> ((acc, Some e), q')
              | (Inr bs, q') \<Rightarrow> read_loop fuel off remaining (acc @ bs) q')"
  by (simp add: read_chunk_def andthen_def ret_def Let_def split: prod.split sum.split bool.split)

declare read_loop.simps(2) [simp del]

lemma read_chunk_reads:
  assumes ok: "image_ok q0" and x: "x < imgSize q0" and n: "n \<le> clusterSize q0 - x mod clusterSize q0"
  shows "reads q0 (read_chunk x n) (\<lambda>bs. bs = map (\<lambda>i. guest_byte q0 (x + i)) [0..<n])"
proof -
  let ?e = "guest_entry q0 (x div clusterSize q0)"
  have data: "reads q0 (on_file (fReadAt n (clusterOffset ?e + x mod clusterSize q0)))
      (\<lambda>bs. bs = bytes_at (hfile q0) (clusterOffset ?e + x mod clusterSize q0) n)" if "clusterOffset ?e \<noteq> 0"
    using guest_host_range [OF ok x refl that n] by (intro reads_file) auto
  show ?thesis unfolding read_chunk_def guest_chunk [OF ok n refl]
    by (rule reads_andthen [OF hostOffset_reads [OF ok x]])
      (use data in \<open>auto simp: Let_def intro!: reads_ret split: if_splits\<close>)
qed

lemma map_upt_extend:
  assumes "xs = map f [0..<length xs]" "ys = map (\<lambda>i. f (length xs + i)) [0..<length ys]"
  shows "xs @ ys = map f [0..<length (xs @ ys)]"
proof -
  have "[0..<length (xs @ ys)] = [0..<length xs] @ map (\<lambda>i. length xs + i) [0..<length ys]"
    by (simp add: upt_add_eq_append [of 0] map_add_upt add.commute)
  then have "map f [0..<length (xs @ ys)] = map f [0..<length xs] @ map (\<lambda>i. f (length xs + i)) [0..<length ys]"
    by (simp only: map_append map_map comp_def)
  then show ?thesis using assms by simp
qed

lemma read_loop_reads:
  assumes ok: "image_ok q0" and rem: "off + remaining \<le> imgSize q0"
  shows "follows q0 q \<Longrightarrow> acc = map (\<lambda>i. guest_byte q0 (off + i)) [0..<length acc] \<Longrightarrow>
    length acc \<le> remaining \<Longrightarrow> remaining - length acc < fuel \<Longrightarrow>
    read_loop fuel off remaining acc q = ((bs, e), q') \<Longrightarrow>
    follows q0 q' \<and> bs = map (\<lambda>i. guest_byte q0 (off + i)) [0..<length bs] \<and> length bs \<le> remaining \<and>
    (case e of None \<Rightarrow> length bs = remaining | Some e \<Rightarrow> sane e \<and> script (hfile q0) \<noteq> [])"
proof (induction fuel arbitrary: acc q)
  case 0
  then show ?case by simp
next
  case (Suc fuel)
  note f = Suc.prems(1) and geo = image_okD(1) [OF ok]
  let ?cs = "clusterSize q0" and ?x = "off + length acc"
  show ?case
  proof (cases "remaining \<le> length acc")
    case True
    then show ?thesis using Suc.prems by (auto simp: read_loop_round)
  next
    case False
    let ?n = "min (remaining - length acc) (?cs - ?x mod ?cs)"
    have x: "?x < imgSize q0" using False rem by linarith
    have "imgSize q0 \<le> max_int64" using geo unfolding geometry_def by blast
    then have add: "add64 off (length acc) = ?x" using x by (simp add: add64_id max_int64_def)
    have n: "min (remaining - length acc) (sub64 (clusterSize q) (inCluster ?x q)) = ?n" "0 < ?n"
      using chunk_bounds [OF image_okD(1) [OF followsD(1) [OF f]], of "remaining - length acc" ?x] False
      by (simp_all add: follows_fields [OF f])
    obtain r1 q1 where h: "read_chunk ?x ?n q = (r1, q1)" by fastforce
    have R: "follows q0 q1 \<and> (case r1 of Inl e \<Rightarrow> sane e \<and> script (hfile q0) \<noteq> []
        | Inr bs1 \<Rightarrow> bs1 = map (\<lambda>i. guest_byte q0 (?x + i)) [0..<?n])"
      using readsD [OF read_chunk_reads [OF ok x] f h] by simp
    show ?thesis
    proof (cases r1)
      case (Inl e1)
      then show ?thesis using R Suc.prems h by (auto simp: read_loop_round add n(1) Let_def split: if_splits)
    next
      case (Inr bs1)
      then have b: "length bs1 = ?n" "bs1 = map (\<lambda>i. guest_byte q0 (off + (length acc + i))) [0..<length bs1]"
        using R by (simp_all add: add.assoc)
      note ext = map_upt_extend [OF Suc.prems(2) b(2)]
      show ?thesis
        by (rule Suc.IH [of q1 "acc @ bs1", OF _ ext])
          (use R Inr b(1) n(2) Suc.prems h False in \<open>simp_all add: read_loop_round add n(1) Let_def\<close>)
    qed
  qed
qed

text \<open>\<^verbatim>\<open>ReadAt\<close> on a valid image returns a prefix of the guest's bytes.\<close>

lemma ReadAt_reads:
  assumes ok: "image_ok q" and r: "ReadAt n off q = ((bs, e), q')"
  shows "image_ok q'" "quiet q q'"
    "bs = map (\<lambda>i. guest_byte q (nat off + i)) [0..<length bs]"
    "script (hfile q) = [] \<Longrightarrow> 0 \<le> off \<Longrightarrow> length bs = min n (imgSize q - nat off) \<and>
       e = (if length bs < n then Some (QIo EOF) else None)"
    "e = None \<Longrightarrow> length bs = n"
    "\<forall>er. e = Some er \<longrightarrow> sane er"
proof -
  have "follows q q' \<and> bs = map (\<lambda>i. guest_byte q (nat off + i)) [0..<length bs] \<and>
    (script (hfile q) = [] \<longrightarrow> 0 \<le> off \<longrightarrow> length bs = min n (imgSize q - nat off) \<and>
       e = (if length bs < n then Some (QIo EOF) else None)) \<and>
    (e = None \<longrightarrow> length bs = n) \<and> (\<forall>er. e = Some er \<longrightarrow> sane er)"
  proof (cases "n = 0 \<or> off < 0 \<or> imgSize q \<le> nat off")
    case True
    then show ?thesis using r follows_refl [OF ok] by (auto simp: ReadAt_def split: if_splits)
  next
    case False
    let ?rem = "min n (imgSize q - nat off)"
    obtain bs1 e1 q1 where l: "read_loop (Suc ?rem) (nat off) ?rem [] q = ((bs1, e1), q1)" by (metis surj_pair)
    have "nat off + ?rem \<le> imgSize q" using False by linarith
    note L = read_loop_reads [OF ok this follows_refl [OF ok] _ _ _ l]
    show ?thesis using r L False by (auto simp: ReadAt_def l Let_def split: option.splits if_splits)
  qed
  then show "image_ok q'" "quiet q q'"
    "bs = map (\<lambda>i. guest_byte q (nat off + i)) [0..<length bs]"
    "script (hfile q) = [] \<Longrightarrow> 0 \<le> off \<Longrightarrow> length bs = min n (imgSize q - nat off) \<and>
       e = (if length bs < n then Some (QIo EOF) else None)"
    "e = None \<Longrightarrow> length bs = n"
    "\<forall>er. e = Some er \<longrightarrow> sane er" by (auto dest: followsD)
qed

section \<open>Properties\<close>

text \<open>
  C4. Reading a valid image. Whatever the operating system does, \<^verbatim>\<open>ReadAt\<close>
  places a prefix of the guest's bytes in the buffer, all of it when it reports no
  error; it leaves the image valid and the guest disk as it was, and it neither
  panics nor runs into a loop that does not end. The image is valid as \<open>image_ok\<close> says, which leaves out images whose refcount table covers more than 2^56 bytes (see \<open>geometry\<close>).
\<close>

theorem ReadAt_guest_bytes:
  assumes "image_ok q" "ReadAt n off q = ((bs, e), q')"
  shows "bs = map (\<lambda>i. guest_byte q (nat off + i)) [0..<length bs] \<and> (e = None \<longrightarrow> length bs = n) \<and>
    image_ok q' \<and> (\<forall>x. guest_byte q' x = guest_byte q x) \<and> e \<noteq> Some QPanic \<and> e \<noteq> Some QDiverge"
  using ReadAt_reads [OF assms] quiet_view(5) by fastforce

theorem ReadAt_guest_bytes_witness:
  "\<exists>bs e q'. ReadAt 8 508 sample_image = ((bs, e), q') \<and> bs = map (\<lambda>i. guest_byte sample_image (508 + i)) [0..<length bs] \<and>
     image_ok q'"
proof -
  obtain bs e q' where r: "ReadAt 8 508 sample_image = ((bs, e), q')" by (metis surj_pair)
  show ?thesis using r ReadAt_guest_bytes [OF sample_image_ok r] by auto
qed

text \<open>
  C5. When no call of the operating system fails, \<^verbatim>\<open>ReadAt\<close> at an offset that is not
  negative returns every byte of the request that lies on the disk, and \<^verbatim>\<open>io.EOF\<close>
  exactly when the request reaches past the end of the disk. The image is valid as \<open>image_ok\<close> says, which leaves out images whose refcount table covers more than 2^56 bytes (see \<open>geometry\<close>).
\<close>

theorem ReadAt_complete:
  assumes "image_ok q" "script (hfile q) = []"
  shows "fst (ReadAt n (int off) q) =
    (map (\<lambda>i. guest_byte q (off + i)) [0..<min n (imgSize q - off)],
     if imgSize q < off + n then (if n = 0 then None else Some (QIo EOF)) else None)"
proof -
  obtain bs e q' where r: "ReadAt n (int off) q = ((bs, e), q')" by (metis surj_pair)
  note R = ReadAt_reads(3,4) [OF assms(1) r]
  have "length bs = min n (imgSize q - off)" "e = (if length bs < n then Some (QIo EOF) else None)"
    using R(2) [OF assms(2)] by simp_all
  then show ?thesis using r R(1) by auto
qed

theorem ReadAt_complete_witness:
  "fst (ReadAt 8 (int 32764) sample_image) = (map (\<lambda>i. guest_byte sample_image (32764 + i)) [0..<4], Some (QIo EOF))"
  using ReadAt_complete [OF sample_image_ok, of 8 32764] by simp

end
