(* ===== verification/Qcow2_Alloc.thy ===== *)
theory Qcow2_Alloc
  imports Qcow2_Read
begin

text \<open>
  Growing an image: writes of metadata, refcount updates, and the allocation of
  host clusters with its recovery paths. A step that returns an error either
  leaves a valid image whose guest disk did not change, or has recorded the
  failed recovery in \<^verbatim>\<open>writeFault\<close>, which refuses every further write.
\<close>

section \<open>Definitions\<close>

definition fits :: "qcow2Image \<Rightarrow> nat \<Rightarrow> bool" where
  "fits q n \<longleftrightarrow> (\<forall>s c. target q s = Some c \<longrightarrow> (c + 1) * clusterSize q \<le> n)"

definition healthy :: "qcow2Image \<Rightarrow> bool" where
  "healthy q \<longleftrightarrow> script (hfile q) = []"

text \<open>The image is valid, and the guest disk and the mapping that gives it are those of \<open>q0\<close>.\<close>

definition same_map :: "qcow2Image \<Rightarrow> qcow2Image \<Rightarrow> bool" where
  "same_map q0 q \<longleftrightarrow> l1 q = l1 q0 \<and> (\<forall>i j. i < length (l1 q0) \<longrightarrow> l1 q0 ! i \<noteq> 0 \<longrightarrow> j < l2Entries q0 \<longrightarrow>
     l2_entry q i j = l2_entry q0 i j)"

definition kept :: "qcow2Image \<Rightarrow> qcow2Image \<Rightarrow> bool" where
  "kept q0 q \<longleftrightarrow> image_ok q \<and> same_shape q0 q \<and> same_guest q0 q \<and> same_map q0 q \<and> (healthy q0 \<longrightarrow> healthy q)"

text \<open>The errors that say the host file cannot grow.\<close>

definition full :: "qerr \<Rightarrow> bool" where
  "full e \<longleftrightarrow> e = QErr ''host image is too large'' \<or> e = QErr ''refcount table is too small''"

definition failed :: "qcow2Image \<Rightarrow> qerr \<Rightarrow> qcow2Image \<Rightarrow> bool" where
  "failed q0 e q \<longleftrightarrow> sane e \<and> (writeFault q \<noteq> None \<or> kept q0 q) \<and> (healthy q0 \<longrightarrow> full e \<and> kept q0 q)"

definition covered :: "qcow2Image \<Rightarrow> nat \<Rightarrow> bool" where
  "covered q c \<longleftrightarrow> c div refcountBlockEntries q < length (refcountTable q) \<and>
     refcountTable q ! (c div refcountBlockEntries q) \<noteq> 0"

text \<open>
  A cluster at the end of the file that nothing refers to, whose bytes are zero,
  and whose refcount has a place; all owned clusters lie below \<open>lo\<close>.
\<close>

definition free :: "qcow2Image \<Rightarrow> nat \<Rightarrow> nat \<Rightarrow> bool" where
  "free q lo c \<longleftrightarrow> \<not> owned q c \<and> covered q c \<and> fits q lo \<and> lo \<le> c * clusterSize q \<and>
     (c + 1) * clusterSize q \<le> fsize (hfile q) \<and>
     (\<forall>x. in_cluster q c x \<longrightarrow> fbytes (hfile q) x = 0)"

section \<open>Lemmas\<close>

subsection \<open>Steps that keep the guest disk\<close>

lemma keptD:
  assumes "kept q0 q"
  shows "image_ok q" "same_shape q0 q" "same_guest q0 q" "healthy q0 \<Longrightarrow> healthy q" "same_map q0 q"
  using assms by (auto simp: kept_def)

lemma kept_refl: "image_ok q \<Longrightarrow> kept q q"
  by (simp add: kept_def same_shape_def same_guest_def same_map_def)

lemma same_shape_trans: "same_shape a b \<Longrightarrow> same_shape b c \<Longrightarrow> same_shape a c"
  by (simp add: same_shape_def)

lemma kept_trans:
  assumes "kept q0 q1" "kept q1 q2" shows "kept q0 q2"
proof -
  have "same_guest q0 q2"
    using keptD(2,3) [OF assms(1)] keptD(3) [OF assms(2)] by (simp add: same_guest_def same_shape_def)
  moreover have "same_map q0 q2"
    using keptD(2,5) [OF assms(1)] keptD(5) [OF assms(2)] by (simp add: same_map_def same_shape_def)
  ultimately show ?thesis using assms same_shape_trans by (auto simp: kept_def)
qed

lemma follows_kept: "follows q0 q \<Longrightarrow> kept q0 q"
  using quiet_same_guest [of q0 q] quiet_view(2) [of q0 q]
  by (auto simp: follows_def kept_def healthy_def quiet_def same_map_def)

lemma failed_kept: "kept q0 q \<Longrightarrow> sane e \<Longrightarrow> \<not> healthy q0 \<or> full e \<Longrightarrow> failed q0 e q"
  by (auto simp: failed_def)

lemma failed_trans: "kept q0 q1 \<Longrightarrow> failed q1 e q2 \<Longrightarrow> failed q0 e q2"
  by (metis failed_def keptD(4) kept_trans)

text \<open>A read-only step between writes.\<close>

lemma hoare_reads:
  assumes "\<And>q. kept q0 q \<Longrightarrow> A q \<Longrightarrow> reads q m (R q)"
    and "\<And>q q' x. kept q0 q \<Longrightarrow> A q \<Longrightarrow> R q x \<Longrightarrow> follows q q' \<Longrightarrow> B x q'"
  shows "hoare (\<lambda>q. kept q0 q \<and> A q) m (\<lambda>x q. kept q0 q \<and> B x q) (failed q0)"
proof (rule hoareI)
  fix q x q' assume k: "kept q0 q \<and> A q" and m: "m q = (Inr x, q')"
  then have "follows q q' \<and> R q x" using assms(1) reads_ok follows_refl keptD(1) by metis
  then show "kept q0 q' \<and> B x q'" using assms(2) k follows_kept kept_trans by metis
next
  fix q e q' assume k: "kept q0 q \<and> A q" and m: "m q = (Inl e, q')"
  then have "follows q q' \<and> sane e \<and> script (hfile q) \<noteq> []"
    using assms(1) reads_err follows_refl keptD(1) by metis
  then show "failed q0 e q'" using k follows_kept [of q q'] kept_trans [of q0 q q'] keptD(4) [of q0 q]
    by (auto intro!: failed_kept simp: healthy_def)
qed

lemma follows_views:
  assumes "follows q q'"
  shows "target q' = target q" "owned q' c \<longleftrightarrow> owned q c" "covered q' c \<longleftrightarrow> covered q c"
    "fits q' n \<longleftrightarrow> fits q n" "free q' lo c \<longleftrightarrow> free q lo c" "disk_refcount q' = disk_refcount q"
  using follows_fields [OF assms] quiet_view [OF followsD(2) [OF assms]]
  by (simp_all add: owned_def covered_def fits_def free_def)

subsection \<open>Calls on the file\<close>

lemma fWriteAt_cases:
  assumes "on_file (fWriteAt bs off) q = (r, q')" "off < 2 ^ 63" "bs \<noteq> []"
  obtains f k where "q' = q\<lparr>hfile := f\<rparr>" "same_data f (store_bytes off (take k bs) (hfile q))"
    "healthy q \<Longrightarrow> healthy q' \<and> r = Inr (length bs)" "\<And>n. r = Inr n \<Longrightarrow> n = length bs \<and> take k bs = bs"
    "\<And>e. r = Inl e \<Longrightarrow> sane e"
proof -
  obtain o1 f1 where t: "tick (hfile q) = (o1, f1)" by fastforce
  note d = tick_data [OF t]
  have h: "healthy q \<Longrightarrow> o1 = IoOk \<and> f1 = hfile q" using t by (auto simp: healthy_def tick_def)
  have sd: "same_data (store_bytes off b f1) (store_bytes off b (hfile q))" for b
    using d by (simp add: same_data_def store_bytes_def cong: if_cong)
  show ?thesis
  proof (cases o1)
    case IoOk
    then have "q' = q\<lparr>hfile := store_bytes off bs f1\<rparr>" "r = Inr (length bs)"
      using assms t by (auto simp: on_file_def fWriteAt_def file_WriteAt_def)
    then show ?thesis by (intro that [of "store_bytes off bs f1" "length bs"]) (use sd h in \<open>auto simp: healthy_def\<close>)
  next
    case (IoFail k)
    then have "q' = q\<lparr>hfile := store_bytes off (take k bs) f1\<rparr>" "r = Inl (QIo EIO)"
      using assms t by (auto simp: on_file_def fWriteAt_def file_WriteAt_def)
    then show ?thesis by (intro that [of "store_bytes off (take k bs) f1" k]) (use sd h IoFail in \<open>auto simp: healthy_def\<close>)
  qed
qed

lemma writeMetadata_cases:
  assumes "writeMetadata bs off q = (r, q')" "off < 2 ^ 63" "bs \<noteq> []"
  obtains f k where "q' = q\<lparr>hfile := f\<rparr>" "same_data f (store_bytes off (take k bs) (hfile q))"
    "healthy q \<Longrightarrow> healthy q' \<and> r = Inr ()" "r = Inr () \<Longrightarrow> take k bs = bs"
    "\<And>e. r = Inl e \<Longrightarrow> sane e"
proof -
  obtain r1 q1 where w: "on_file (fWriteAt bs off) q = (r1, q1)" by fastforce
  obtain f k where c: "q1 = q\<lparr>hfile := f\<rparr>" "same_data f (store_bytes off (take k bs) (hfile q))"
    "healthy q \<Longrightarrow> healthy q1 \<and> r1 = Inr (length bs)" "\<And>n. r1 = Inr n \<Longrightarrow> n = length bs \<and> take k bs = bs"
    "\<And>e. r1 = Inl e \<Longrightarrow> sane e" by (rule fWriteAt_cases [OF w assms(2,3)]) blast
  show ?thesis
  proof (cases r1)
    case (Inl e)
    then have "q' = q1" "r = Inl e" using assms(1) w by (simp_all add: writeMetadata_def andthen_def)
    then show ?thesis by (intro that [of f k]) (use c Inl in auto)
  next
    case (Inr n)
    then have "q' = q1" "r = Inr ()"
      using assms(1) w c(4) [OF Inr] by (simp_all add: writeMetadata_def andthen_def ret_def)
    then show ?thesis by (intro that [of f k]) (use c c(4) [OF Inr] in auto)
  qed
qed

lemma fTruncate_cases:
  assumes "on_file (fTruncate n) q = (r, q')" "n < 2 ^ 63"
  obtains (Ok) f where "r = Inr ()" "q' = q\<lparr>hfile := f\<rparr>" "same_data f (resize n (hfile q))"
      "healthy q \<longrightarrow> healthy q'"
  | (Err) f e where "r = Inl e" "q' = q\<lparr>hfile := f\<rparr>" "same_data f (hfile q)" "sane e" "\<not> healthy q"
proof -
  obtain o1 f1 where t: "tick (hfile q) = (o1, f1)" by fastforce
  note d = tick_data [OF t]
  have h: "healthy q \<Longrightarrow> o1 = IoOk \<and> f1 = hfile q" using t by (auto simp: healthy_def tick_def)
  show ?thesis
  proof (cases o1)
    case IoOk
    then have "q' = q\<lparr>hfile := resize n f1\<rparr>" "r = Inr ()"
      using assms t by (auto simp: on_file_def fTruncate_def file_Truncate_def)
    then show ?thesis
      by (intro Ok [of "resize n f1"]) (use d h in \<open>auto simp: healthy_def same_data_def resize_def cong: if_cong\<close>)
  next
    case (IoFail k)
    then have "q' = q\<lparr>hfile := f1\<rparr>" "r = Inl (QIo EIO)"
      using assms t by (auto simp: on_file_def fTruncate_def file_Truncate_def)
    then show ?thesis
      by (intro Err [of "QIo EIO" f1]) (use d h IoFail in \<open>auto simp: healthy_def same_data_def\<close>)
  qed
qed

subsection \<open>Changes above the owned clusters\<close>

lemma fits_fsize: "image_ok q \<Longrightarrow> fits q (fsize (hfile q))"
  using slots_okD(2) image_okD(4) by (auto simp: fits_def)

lemma fits_mono: "fits q m \<Longrightarrow> m \<le> n \<Longrightarrow> fits q n"
  by (auto simp: fits_def intro: le_trans)

lemma fits_byte: "fits q n \<Longrightarrow> target q s = Some c \<Longrightarrow> in_cluster q c x \<Longrightarrow> x < n"
  by (auto simp: fits_def in_cluster_def intro: less_le_trans)

lemma tab_same_map: "geometry q \<Longrightarrow> entries_ok q \<Longrightarrow> tab_agree q f \<Longrightarrow> same_map q (q\<lparr>hfile := f\<rparr>)"
  by (simp add: same_map_def tab_agree_l2_entry)

lemma above_frame:
  assumes ok: "image_ok q" and lo: "fits q lo" "lo \<le> fsize f" and fs: "fsize f < 2 ^ 63"
    and same: "\<And>x. x < lo \<Longrightarrow> fbytes f x = fbytes (hfile q) x"
    and h: "healthy q \<longrightarrow> script f = []"
  shows "kept q (q\<lparr>hfile := f\<rparr>)" "target (q\<lparr>hfile := f\<rparr>) = target q"
    "disk_refcount (q\<lparr>hfile := f\<rparr>) = disk_refcount q"
proof -
  have all: "all_agree q f" using same fits_byte [OF lo(1)] by (simp add: all_agree_def)
  note m = all_agree_meta [OF all] and D = image_okD(1,2) [OF ok]
  have "image_ok (q\<lparr>hfile := f\<rparr>)"
    using lo by (intro image_ok_frame [OF ok m fs]) (auto simp: fits_def intro: le_trans)
  then show "kept q (q\<lparr>hfile := f\<rparr>)"
    using same_guest_frame [OF ok all] tab_same_map [OF D meta_tab [OF m]] h
    by (simp add: kept_def same_shape_def healthy_def)
  show "target (q\<lparr>hfile := f\<rparr>) = target q" using tab_agree_target [OF D meta_tab [OF m]] by blast
  show "disk_refcount (q\<lparr>hfile := f\<rparr>) = disk_refcount q" using meta_agree_refcount [OF D m] by blast
qed

subsection \<open>Refcount updates\<close>

text \<open>Different slots of a valid image lie in disjoint byte ranges.\<close>

lemma slot_disjoint:
  assumes "image_ok q" "target q s = Some c" "in_cluster q c x" "target q s' = Some c'" "in_cluster q c' x"
  shows "s = s'"
  using assms in_cluster_unique [OF assms(3,5)] slots_okD(1) [OF image_okD(4) [OF assms(1)] assms(2)] by simp

lemma owned_inside:
  assumes "image_ok q" "target q s = Some c" "in_cluster q c x" shows "x < fsize (hfile q)"
  using fits_byte [OF fits_fsize [OF assms(1)] assms(2,3)] .

definition rc_pos :: "qcow2Image \<Rightarrow> nat \<Rightarrow> nat" where
  "rc_pos q c = refcountTable q ! (c div refcountBlockEntries q) + 2 * (c mod refcountBlockEntries q)"

lemma covered_block:
  assumes "image_ok q" "covered q c"
  shows "target q (RefBlock (c div refcountBlockEntries q)) =
      Some (refcountTable q ! (c div refcountBlockEntries q) div clusterSize q)"
    "in_cluster q (refcountTable q ! (c div refcountBlockEntries q) div clusterSize q) (rc_pos q c)"
    "in_cluster q (refcountTable q ! (c div refcountBlockEntries q) div clusterSize q) (rc_pos q c + 1)"
    "2 * (c mod refcountBlockEntries q) + 2 \<le> clusterSize q"
    "refcountTable q ! (c div refcountBlockEntries q) mod clusterSize q = 0"
    "disk_refcount q c = be_nat (bytes_at (hfile q) (rc_pos q c) 2)"
proof -
  note G = geometry_cs [OF image_okD(1) [OF assms(1)]] and C = assms(2) [unfolded covered_def]
  show "target q (RefBlock (c div refcountBlockEntries q)) =
      Some (refcountTable q ! (c div refcountBlockEntries q) div clusterSize q)" using C by simp
  show j: "2 * (c mod refcountBlockEntries q) + 2 \<le> clusterSize q"
    using G(5,7) mod_less_divisor [of "refcountBlockEntries q" c] by linarith
  show a: "refcountTable q ! (c div refcountBlockEntries q) mod clusterSize q = 0"
    using rt_entry(2) [OF assms(1)] C by blast
  show "in_cluster q (refcountTable q ! (c div refcountBlockEntries q) div clusterSize q) (rc_pos q c)"
    "in_cluster q (refcountTable q ! (c div refcountBlockEntries q) div clusterSize q) (rc_pos q c + 1)"
    using j by (auto simp: rc_pos_def intro!: in_cluster_offset [OF a])
  show "disk_refcount q c = be_nat (bytes_at (hfile q) (rc_pos q c) 2)"
    using C by (simp add: disk_refcount_def rc_at_def rc_pos_def)
qed

lemma rc_pos_distinct:
  assumes ok: "image_ok q" and c: "covered q c" "covered q c'" "c \<noteq> c'" and x: "x = rc_pos q c \<or> x = rc_pos q c + 1"
  shows "x < rc_pos q c' \<or> rc_pos q c' + 2 \<le> x"
proof (cases "c div refcountBlockEntries q = c' div refcountBlockEntries q")
  case True
  then have "c mod refcountBlockEntries q \<noteq> c' mod refcountBlockEntries q"
    using c(3) by (metis div_mult_mod_eq)
  then show ?thesis using True x by (auto simp: rc_pos_def)
next
  case False
  note A = covered_block [OF ok c(1)] and B = covered_block [OF ok c(2)]
  have "x \<noteq> rc_pos q c'" "x \<noteq> rc_pos q c' + 1"
    using slot_disjoint [OF ok A(1) _ B(1), of x] A(2,3) B(2,3) x False by auto
  then show ?thesis by linarith
qed

text \<open>Only the refcount of cluster \<open>c\<close> is written.\<close>

definition rc_only :: "qcow2Image \<Rightarrow> nat \<Rightarrow> hostfile \<Rightarrow> bool" where
  "rc_only q c f \<longleftrightarrow> fsize f = fsize (hfile q) \<and>
     (\<forall>x < fsize (hfile q). x \<noteq> rc_pos q c \<longrightarrow> x \<noteq> rc_pos q c + 1 \<longrightarrow> fbytes f x = fbytes (hfile q) x)"

lemma rc_only_other_slot:
  assumes "image_ok q" "covered q c" "rc_only q c f" "target q s = Some d" "in_cluster q d x"
    "s \<noteq> RefBlock (c div refcountBlockEntries q)"
  shows "fbytes f x = fbytes (hfile q) x"
proof -
  note B = covered_block [OF assms(1,2)]
  have "x \<noteq> rc_pos q c" "x \<noteq> rc_pos q c + 1"
    using slot_disjoint [OF assms(1,4,5) B(1)] B(2,3) assms(6) by auto
  then show ?thesis using assms(3) owned_inside [OF assms(1,4,5)] by (simp add: rc_only_def)
qed

lemma rc_only_refcount:
  assumes "image_ok q" "covered q c" "rc_only q c f" "c' \<noteq> c"
  shows "disk_refcount (q\<lparr>hfile := f\<rparr>) c' = disk_refcount q c'"
proof (cases "covered q c'")
  case True
  note B = covered_block [OF assms(1) True]
  have "bytes_at f (rc_pos q c') 2 = bytes_at (hfile q) (rc_pos q c') 2"
  proof (rule bytes_at_cong)
    fix x assume x: "rc_pos q c' \<le> x" "x < rc_pos q c' + 2"
    then have "x = rc_pos q c' \<or> x = rc_pos q c' + 1" by linarith
    then have "x < fsize (hfile q)" "x \<noteq> rc_pos q c" "x \<noteq> rc_pos q c + 1"
      using owned_inside [OF assms(1) B(1)] B(2,3) rc_pos_distinct [OF assms(1) True assms(2,4)] by force+
    then show "fbytes f x = fbytes (hfile q) x" using assms(3) by (simp add: rc_only_def)
  qed
  then show ?thesis using B(6) True by (simp add: disk_refcount_def rc_at_def rc_pos_def covered_def)
next
  case False
  then show ?thesis by (auto simp: disk_refcount_def rc_at_def covered_def)
qed

lemma rc_only_core:
  assumes ok: "image_ok q" and c: "covered q c" "\<not> owned q c" and f: "rc_only q c f"
  shows "image_core (q\<lparr>hfile := f\<rparr>)" "target (q\<lparr>hfile := f\<rparr>) = target q" "same_guest q (q\<lparr>hfile := f\<rparr>)"
    "same_map q (q\<lparr>hfile := f\<rparr>)"
proof -
  note D = image_okD [OF ok]
  have t: "tab_agree q f"
    using rc_only_other_slot [OF ok c(1) f] by (fastforce simp: tab_agree_def)
  show "same_map q (q\<lparr>hfile := f\<rparr>)" using tab_same_map [OF D(1,2) t] .
  show "target (q\<lparr>hfile := f\<rparr>) = target q" using tab_agree_target [OF D(1,2) t] by blast
  show "same_guest q (q\<lparr>hfile := f\<rparr>)" unfolding same_guest_def
  proof (intro allI impI)
    fix x assume "x < imgSize q"
    then show "guest_byte (q\<lparr>hfile := f\<rparr>) x = guest_byte q x"
      by (rule guest_byte_frame [OF D(1,2) t])
        (rule rc_only_other_slot [OF ok c(1) f], auto simp: guest_slot_def Let_def)
  qed
  have "disk_refcount (q\<lparr>hfile := f\<rparr>) d = 1" if "target q s = Some d" for s d
    using rc_only_refcount [OF ok c(1) f, of d] slots_okD(3) [OF D(4) that] that c(2) by (auto simp: owned_def)
  moreover have "image_core q" using ok by (simp add: image_ok_core)
  moreover have "fsize f = fsize (hfile q)" using f by (simp add: rc_only_def)
  ultimately show "image_core (q\<lparr>hfile := f\<rparr>)"
    using D(8) slots_okD(2) [OF D(4)] by (intro image_core_frame [OF _ t]) auto
qed

lemma rc_only_block:
  assumes "image_ok q" "covered q c" "rc_only q c f" "b \<in> set (refcountTable q)" "b \<noteq> 0"
    "b \<noteq> refcountTable q ! (c div refcountBlockEntries q)"
  shows "bytes_at f b (clusterSize q) = bytes_at (hfile q) b (clusterSize q)"
proof (rule bytes_at_cong)
  fix x assume x: "b \<le> x" "x < b + clusterSize q"
  obtain i where i: "i < length (refcountTable q)" "refcountTable q ! i = b"
    using assms(4) by (auto simp: in_set_conv_nth)
  then obtain d where d: "target q (RefBlock i) = Some d" "in_cluster q d x"
    using rb_byte_slot [OF image_okD(2) [OF assms(1)] i(1)] assms(5) x by auto
  show "fbytes f x = fbytes (hfile q) x"
    by (rule rc_only_other_slot [OF assms(1-3) d]) (use i assms(6) in auto)
qed

text \<open>The two ways in which \<^verbatim>\<open>setRefcount\<close> brings the cache in line with the file.\<close>

lemma rc_cacheD:
  assumes "rc_cache_ok q" "refcountCache q b = Some index"
  shows "index < length (refcountBlocks q)"
    "refcountBlocks q ! index = \<lparr>rb_offset = b, rb_data = Some (bytes_at (hfile q) b (clusterSize q))\<rparr>"
    "b \<noteq> 0" "b \<in> set (refcountTable q)"
    "\<And>b'. refcountCache q b' = Some index \<Longrightarrow> b' = b"
proof -
  have C: "j < length (refcountBlocks q) \<and>
        refcountBlocks q ! j = \<lparr>rb_offset = a, rb_data = Some (bytes_at (hfile q) a (clusterSize q))\<rparr> \<and>
        a \<noteq> 0 \<and> a \<in> set (refcountTable q)" if "refcountCache q a = Some j" for a j
    using assms(1) that unfolding rc_cache_ok_def by blast
  show "index < length (refcountBlocks q)"
    "refcountBlocks q ! index = \<lparr>rb_offset = b, rb_data = Some (bytes_at (hfile q) b (clusterSize q))\<rparr>"
    "b \<noteq> 0" "b \<in> set (refcountTable q)" using C [OF assms(2)] by auto
  show "b' = b" if "refcountCache q b' = Some index" for b' using C [OF assms(2)] C [OF that] by simp
qed

lemma rc_cache_okI:
  assumes "\<And>b index. refcountCache q b = Some index \<Longrightarrow> index < length (refcountBlocks q) \<and>
      refcountBlocks q ! index = \<lparr>rb_offset = b, rb_data = Some (bytes_at (hfile q) b (clusterSize q))\<rparr> \<and>
      b \<noteq> 0 \<and> b \<in> set (refcountTable q)"
    and "length (refcountBlocks q) \<le> qcow2RefcountCacheBytes div clusterSize q"
    and "refcountCacheNext q < qcow2RefcountCacheBytes div clusterSize q"
  shows "rc_cache_ok q"
  using assms unfolding rc_cache_ok_def by blast

lemma rc_cache_room:
  assumes "rc_cache_ok q"
  shows "length (refcountBlocks q) \<le> qcow2RefcountCacheBytes div clusterSize q"
    "refcountCacheNext q < qcow2RefcountCacheBytes div clusterSize q"
  using assms by (auto simp: rc_cache_ok_def)

lemma rc_cache_invalidate:
  assumes C: "rc_cache_ok q"
    and f: "\<And>b'. b' \<in> set (refcountTable q) \<Longrightarrow> b' \<noteq> 0 \<Longrightarrow> b' \<noteq> b \<Longrightarrow>
      bytes_at f b' (clusterSize q) = bytes_at (hfile q) b' (clusterSize q)"
  shows "rc_cache_ok (invalidateRefcountBlock b (q\<lparr>hfile := f\<rparr>))" (is "rc_cache_ok ?q")
proof (rule rc_cache_okI)
  fix b' j assume "refcountCache ?q b' = Some j"
  then have b': "refcountCache q b' = Some j" "b' \<noteq> b"
    by (auto simp: invalidateRefcountBlock_def split: option.splits if_splits)
  note D = rc_cacheD [OF C b'(1)]
  have "refcountCache q b \<noteq> Some j" using D(5) b'(2) by auto
  then have "refcountBlocks ?q ! j = refcountBlocks q ! j"
    by (auto simp: invalidateRefcountBlock_def split: option.splits)
  moreover have "length (refcountBlocks ?q) = length (refcountBlocks q)" "refcountTable ?q = refcountTable q"
    "hfile ?q = f" "clusterSize ?q = clusterSize q"
    by (auto simp: invalidateRefcountBlock_def split: option.splits)
  ultimately show "j < length (refcountBlocks ?q) \<and>
      refcountBlocks ?q ! j = \<lparr>rb_offset = b', rb_data = Some (bytes_at (hfile ?q) b' (clusterSize ?q))\<rparr> \<and>
      b' \<noteq> 0 \<and> b' \<in> set (refcountTable ?q)"
    using D f [OF D(4,3) b'(2)] by simp
qed (use rc_cache_room [OF C] in \<open>auto simp: invalidateRefcountBlock_def split: option.splits\<close>)

lemma rc_cache_update:
  assumes C: "rc_cache_ok q"
    and f: "\<And>b'. b' \<in> set (refcountTable q) \<Longrightarrow> b' \<noteq> 0 \<Longrightarrow> b' \<noteq> b \<Longrightarrow>
      bytes_at f b' (clusterSize q) = bytes_at (hfile q) b' (clusterSize q)"
    and b: "bytes_at f b (clusterSize q) = copy_at (bytes_at (hfile q) b (clusterSize q)) (2 * j) (put_be 2 v)"
  shows "rc_cache_ok (update_cached b j v (q\<lparr>hfile := f\<rparr>))" (is "rc_cache_ok ?q")
proof (rule rc_cache_okI)
  fix b' i assume "refcountCache ?q b' = Some i"
  then have b': "refcountCache q b' = Some i" by (simp add: update_cached_def split: option.splits)
  note D = rc_cacheD [OF C b']
  have "refcountBlocks ?q ! i = \<lparr>rb_offset = b', rb_data = Some (bytes_at f b' (clusterSize q))\<rparr>"
  proof (cases "b' = b")
    case True
    then show ?thesis using b' D(1,2) b by (simp add: update_cached_def)
  next
    case False
    then have "refcountCache q b \<noteq> Some i" using D(5) by auto
    then show ?thesis using D(2) f [OF D(4,3) False] by (auto simp: update_cached_def split: option.splits)
  qed
  moreover have "length (refcountBlocks ?q) = length (refcountBlocks q)" "refcountTable ?q = refcountTable q"
    "hfile ?q = f" "clusterSize ?q = clusterSize q"
    by (auto simp: update_cached_def split: option.splits)
  ultimately show "i < length (refcountBlocks ?q) \<and>
      refcountBlocks ?q ! i = \<lparr>rb_offset = b', rb_data = Some (bytes_at (hfile ?q) b' (clusterSize ?q))\<rparr> \<and>
      b' \<noteq> 0 \<and> b' \<in> set (refcountTable ?q)"
    using D by simp
qed (use rc_cache_room [OF C] in \<open>auto simp: update_cached_def split: option.splits\<close>)

lemma cache_only:
  "quiet q (invalidateRefcountBlock b q)" "hfile (invalidateRefcountBlock b q) = hfile q"
  "l2Cache (invalidateRefcountBlock b q) = l2Cache q"
  "quiet q (update_cached b j v q)" "hfile (update_cached b j v q) = hfile q"
  "l2Cache (update_cached b j v q) = l2Cache q"
  by (auto simp: invalidateRefcountBlock_def update_cached_def quiet_def same_shape_def split: option.splits)

text \<open>A write into the refcount of a free cluster, with the cache brought in line.\<close>

lemma rc_only_step:
  assumes ok: "image_ok q" and free: "free q lo c" and f: "rc_only q c f"
    and q': "quiet (q\<lparr>hfile := f\<rparr>) q'" "l2Cache q' = l2Cache q" "rc_cache_ok q'" "healthy q \<longrightarrow> healthy q'"
  shows "kept q q'" "free q' lo c" "fsize (hfile q') = fsize (hfile q)"
    "disk_refcount q' c = be_nat (bytes_at f (rc_pos q c) 2)" "target q' = target q"
proof -
  note F = free [unfolded free_def]
  have c: "covered q c" "\<not> owned q c" using F by auto
  note R = rc_only_core [OF ok c f] and V = quiet_view [OF q'(1)]
  have fields: "clusterSize q' = clusterSize q" "refcountTable q' = refcountTable q"
    "refcountBlockEntries q' = refcountBlockEntries q" "fsize (hfile q') = fsize f" "fbytes (hfile q') = fbytes f"
    using q'(1) by (auto simp: quiet_def same_shape_def same_data_def)
  have "l2_cache_ok q'"
    using quiet_l2_cache [OF q'(1)] q'(2) R(1) by (simp add: image_core_def)
  then have "image_ok q'" by (rule quiet_image_ok [OF R(1) q'(1) _ q'(3)])
  moreover have "same_guest q q'" using R(3) V(5) by (simp add: same_guest_def)
  moreover have "same_shape q q'" using q'(1) by (auto simp: quiet_def same_shape_def)
  moreover have "same_map q q'" using R(4) V(2) q'(1) by (simp add: same_map_def quiet_def)
  ultimately show "kept q q'" using q'(4) by (simp add: kept_def)
  show t: "target q' = target q" using V(1) R(2) by simp
  show fs: "fsize (hfile q') = fsize (hfile q)" using f fields(4) by (simp add: rc_only_def)
  have "fbytes f x = 0" if "in_cluster q c x" for x
  proof -
    note B = covered_block [OF ok c(1)]
    have "x \<noteq> rc_pos q c" "x \<noteq> rc_pos q c + 1"
      using in_cluster_unique [OF that, of "refcountTable q ! (c div refcountBlockEntries q) div clusterSize q"] B(1-3) c(2)
      by (auto simp: owned_def simp del: target.simps)
    moreover have "x < fsize (hfile q)" using that F by (auto simp: in_cluster_def intro: less_le_trans)
    ultimately show ?thesis using f F that by (auto simp: rc_only_def)
  qed
  then show "free q' lo c" using F t fs fields by (simp add: free_def owned_def covered_def fits_def in_cluster_def)
  show "disk_refcount q' c = be_nat (bytes_at f (rc_pos q c) 2)"
    using c(1) bytes_at_same [OF fields(5)] fields by (simp add: disk_refcount_def rc_at_def rc_pos_def covered_def)
qed

lemma rc_pos_bounds:
  assumes "image_ok q" "covered q c"
  shows "rc_pos q c + 2 \<le> fsize (hfile q)" "rc_pos q c + 2 < 2 ^ 63"
    "add64 (refcountTable q ! (c div refcountBlockEntries q)) (2 * (c mod refcountBlockEntries q)) = rc_pos q c"
proof -
  note B = covered_block [OF assms]
  have "rc_pos q c + 1 < fsize (hfile q)" using owned_inside [OF assms(1) B(1,3)] .
  then show "rc_pos q c + 2 \<le> fsize (hfile q)" "rc_pos q c + 2 < 2 ^ 63"
    using image_okD(8) [OF assms(1)] by simp_all
  then show "add64 (refcountTable q ! (c div refcountBlockEntries q)) (2 * (c mod refcountBlockEntries q)) = rc_pos q c"
    by (simp add: rc_pos_def add64_id)
qed

lemma store_rc_only:
  assumes "same_data f (store_bytes (rc_pos q c) bs (hfile q))" "length bs \<le> 2" "rc_pos q c + 2 \<le> fsize (hfile q)"
  shows "rc_only q c f"
proof -
  have "fbytes (store_bytes (rc_pos q c) bs (hfile q)) x = fbytes (hfile q) x"
    if "x < fsize (hfile q)" "x \<noteq> rc_pos q c" "x \<noteq> rc_pos q c + 1" for x
    using that assms(2) by (intro fbytes_store_out) linarith+
  then show ?thesis using assms fsize_store_inside [of "rc_pos q c" bs "hfile q"]
    by (simp add: rc_only_def same_data_def)
qed

lemma store_block_copy:
  assumes "same_data f (store_bytes (b + k) bs g)" "k + length bs \<le> n" "b + n \<le> fsize g"
  shows "bytes_at f b n = copy_at (bytes_at g b n) k bs"
proof (rule nth_equalityI)
  fix i assume "i < length (bytes_at f b n)"
  then show "bytes_at f b n ! i = copy_at (bytes_at g b n) k bs ! i"
    using assms by (auto simp: nth_copy_at same_data_def fbytes_store_out)
qed (use assms(2) in simp)

lemma setRefcount_step:
  assumes ok: "image_ok q" and free: "free q lo c" and v: "v < 65536"
    and r: "setRefcount (c * clusterSize q) v q = (r, q')"
  shows "kept q q' \<and> free q' lo c \<and> fsize (hfile q') = fsize (hfile q) \<and>
    (case r of Inl e \<Rightarrow> sane e \<and> \<not> healthy q | Inr _ \<Rightarrow> disk_refcount q' c = v)"
proof -
  have c: "covered q c" using free by (simp add: free_def)
  let ?b = "refcountTable q ! (c div refcountBlockEntries q)" and ?j = "c mod refcountBlockEntries q"
  note B = covered_block [OF ok c] and P = rc_pos_bounds [OF ok c]
  have cs: "0 < clusterSize q" using geometry_cs(1) [OF image_okD(1) [OF ok]] by linarith
  have loc: "refcountLocation (c * clusterSize q) q = Inr (?b, ?j, True)"
    using refcountLocation_eq [OF ok, of "c * clusterSize q"] c cs by (simp add: covered_def Let_def)
  obtain r1 q1 where w: "writeMetadata (put_be 2 v) (rc_pos q c) q = (r1, q1)" by fastforce
  have bound: "rc_pos q c < 2 ^ 63" using P(2) by linarith
  obtain f k where W: "q1 = q\<lparr>hfile := f\<rparr>" "same_data f (store_bytes (rc_pos q c) (take k (put_be 2 v)) (hfile q))"
      "healthy q \<Longrightarrow> healthy q1 \<and> r1 = Inr ()" "r1 = Inr () \<Longrightarrow> take k (put_be 2 v) = put_be 2 v"
      "\<And>e. r1 = Inl e \<Longrightarrow> sane e"
    by (rule writeMetadata_cases [OF w bound]) (use length_put_be [of 2 v] in \<open>fastforce+\<close>)
  have only: "rc_only q c f" by (rule store_rc_only [OF W(2) _ P(1)]) simp
  note blocks = rc_only_block [OF ok c only]
  show ?thesis
  proof (cases r1)
    case (Inl e)
    then have q': "q' = invalidateRefcountBlock ?b q1" "r = Inl e"
      using r w P(3) by (simp_all add: setRefcount_def andthen_def inspect_def loc handle_def modify_def fail_def)
    have cache: "rc_cache_ok q'" using rc_cache_invalidate [OF image_okD(6) [OF ok] blocks] W(1) q'(1) by simp
    show ?thesis
      using rc_only_step [OF ok free only, of q'] cache W(1,3,5) q' Inl cache_only(1-3) [where q = q1 and b = ?b] by (auto simp: healthy_def)
  next
    case (Inr u)
    then have q': "q' = update_cached ?b ?j v q1" "r = Inr ()"
      using r w P(3) by (simp_all add: setRefcount_def andthen_def inspect_def loc handle_def modify_def)
    have full: "take k (put_be 2 v) = put_be 2 v" using W(4) Inr by simp
    have "?b + clusterSize q \<le> fsize (hfile q)" using target_range(1) [OF ok B(1,5)] .
    then have "bytes_at f ?b (clusterSize q) = copy_at (bytes_at (hfile q) ?b (clusterSize q)) (2 * ?j) (put_be 2 v)"
      using W(2) B(4) unfolding full rc_pos_def by (intro store_block_copy) auto
    then have cache: "rc_cache_ok q'" using rc_cache_update [OF image_okD(6) [OF ok] blocks] W(1) q'(1) by simp
    have "bytes_at f (rc_pos q c) 2 = put_be 2 v"
      using bytes_at_store_same [of "rc_pos q c" "put_be 2 v" "hfile q"] W(2) full bytes_at_same [of f]
      by (simp add: same_data_def)
    then show ?thesis
      using rc_only_step [OF ok free only, of q'] cache W(1,3) q' Inr cache_only(4-6) [where q = q1 and b = ?b and j = ?j and v = v] v
      by (auto simp: be_nat_put_be healthy_def)
  qed
qed

text \<open>What a step does from every state that kept the guest disk of \<open>q0\<close>.\<close>

lemma hoare_kept:
  assumes "\<And>q r q'. kept q0 q \<Longrightarrow> image_ok q \<Longrightarrow> A q \<Longrightarrow> m q = (r, q') \<Longrightarrow>
    kept q q' \<and> (case r of Inl e \<Rightarrow> E e q' \<and> sane e \<and> \<not> healthy q | Inr x \<Rightarrow> B x q')"
  shows "hoare (\<lambda>q. kept q0 q \<and> A q) m (\<lambda>x q. kept q0 q \<and> B x q)
    (\<lambda>e q. kept q0 q \<and> E e q \<and> sane e \<and> \<not> healthy q0)"
proof (rule hoareI)
  fix q x q' assume k: "kept q0 q \<and> A q" and m: "m q = (Inr x, q')"
  then show "kept q0 q' \<and> B x q'" using assms [OF _ _ _ m] keptD(1) kept_trans by auto
next
  fix q e q' assume k: "kept q0 q \<and> A q" and m: "m q = (Inl e, q')"
  then show "kept q0 q' \<and> E e q' \<and> sane e \<and> \<not> healthy q0"
    using assms [OF _ _ _ m] keptD(1,4) kept_trans by auto
qed

lemma setRefcount_hoare:
  assumes "v < 65536"
  shows "hoare (\<lambda>q. kept q0 q \<and> free q lo c \<and> fsize (hfile q) = sz) (setRefcount (c * clusterSize q0) v)
    (\<lambda>_ q. kept q0 q \<and> free q lo c \<and> fsize (hfile q) = sz \<and> disk_refcount q c = v)
    (\<lambda>e q. kept q0 q \<and> (free q lo c \<and> fsize (hfile q) = sz) \<and> sane e \<and> \<not> healthy q0)"
proof (rule hoare_kept)
  fix q r q' assume q: "kept q0 q" "image_ok q" "free q lo c \<and> fsize (hfile q) = sz"
    and r: "setRefcount (c * clusterSize q0) v q = (r, q')"
  have "clusterSize q = clusterSize q0" using keptD(2) [OF q(1)] by (simp add: same_shape_def)
  then show "kept q q' \<and> (case r of Inl e \<Rightarrow> (free q' lo c \<and> fsize (hfile q') = sz) \<and> sane e \<and> \<not> healthy q
      | Inr x \<Rightarrow> free q' lo c \<and> fsize (hfile q') = sz \<and> disk_refcount q' c = v)"
    using setRefcount_step [OF q(2) _ assms, of lo c r q'] q(3) r by (auto split: sum.splits)
qed

end
