(* ===== verification/Qcow2_Grow.thy ===== *)
theory Qcow2_Grow
  imports Qcow2_Alloc
begin

text \<open>
  Writing a table entry with its restore path, publishing a new refcount block,
  and \<^verbatim>\<open>allocateCluster\<close> and \<^verbatim>\<open>rollbackNewCluster\<close> on every outcome.
\<close>

section \<open>Lemmas\<close>

subsection \<open>Recovery by truncation\<close>

lemma disableWrites_failed:
  "hoare (\<lambda>q. sane e \<and> \<not> healthy q0) (disableWrites e) Q (failed q0)"
  by (rule hoareI) (auto simp: disableWrites_def failed_def)

lemma truncate_or_disable_hoare:
  assumes "n < 2 ^ 63"
  shows "hoare (\<lambda>q. kept q0 q \<and> fits q n \<and> n \<le> fsize (hfile q) \<and> sane err \<and> \<not> healthy q0)
    (truncate_or_disable n err) Q (failed q0)"
  unfolding truncate_or_disable_def
proof (rule hoare_handle)
  show "hoare (\<lambda>q. kept q0 q \<and> fits q n \<and> n \<le> fsize (hfile q) \<and> sane err \<and> \<not> healthy q0)
      (on_file (fTruncate n)) (\<lambda>_ q. kept q0 q \<and> sane err \<and> \<not> healthy q0)
      (\<lambda>e q. sane e \<and> sane err \<and> \<not> healthy q0)"
  proof (rule hoareI)
    fix q x q' assume q: "kept q0 q \<and> fits q n \<and> n \<le> fsize (hfile q) \<and> sane err \<and> \<not> healthy q0"
      and r: "on_file (fTruncate n) q = (Inr x, q')"
    from r assms show "kept q0 q' \<and> sane err \<and> \<not> healthy q0"
    proof (cases rule: fTruncate_cases)
      case (Ok f)
      have "kept q q'" unfolding Ok(2)
        by (rule above_frame(1) [of q n])
          (use q Ok keptD(1) [of q0 q] assms in \<open>auto simp: same_data_def fbytes_resize healthy_def\<close>)
      then show ?thesis using q kept_trans by blast
    qed simp
  next
    fix q e q' assume q: "kept q0 q \<and> fits q n \<and> n \<le> fsize (hfile q) \<and> sane err \<and> \<not> healthy q0"
      and r: "on_file (fTruncate n) q = (Inl e, q')"
    from r assms show "sane e \<and> sane err \<and> \<not> healthy q0"
      by (cases rule: fTruncate_cases) (use q in auto)
  qed
next
  show "hoare (\<lambda>q. kept q0 q \<and> sane err \<and> \<not> healthy q0) (fail err) Q (failed q0)" for x :: unit
    by (rule hoare_pre [OF hoare_fail]) (auto intro: failed_kept)
next
  show "hoare (\<lambda>q. sane e \<and> sane err \<and> \<not> healthy q0) (disableWrites (QJoin err e)) Q (failed q0)" for e
    by (rule hoare_pre [OF disableWrites_failed]) auto
qed

subsection \<open>Table entries\<close>

lemma store_twice:
  assumes "same_data g (store_bytes off bs1 f)" "same_data h (store_bytes off bs g)"
    "length bs1 \<le> length bs" "off + length bs \<le> fsize f" "bs = bytes_at f off (length bs)"
  shows "fsize h = fsize f" "\<And>x. x < fsize f \<Longrightarrow> fbytes h x = fbytes f x"
proof -
  have s: "fsize g = fsize f" using assms fsize_store_inside [of off bs1 f] by (simp add: same_data_def)
  then show "fsize h = fsize f" using assms fsize_store_inside [of off bs g] by (simp add: same_data_def)
  fix x assume x: "x < fsize f"
  show "fbytes h x = fbytes f x"
  proof (cases "off \<le> x \<and> x < off + length bs")
    case True
    then have "fbytes h x = bs ! (x - off)" using assms(2) by (simp add: same_data_def)
    also have "\<dots> = bytes_at f off (length bs) ! (x - off)" by (rule arg_cong [OF assms(5), of "\<lambda>l. l ! (x - off)"])
    also have "\<dots> = fbytes f (off + (x - off))" by (rule nth_bytes_at) (use True in linarith)
    also have "\<dots> = fbytes f x" using True by simp
    finally show ?thesis .
  next
    case False
    then have "fbytes h x = fbytes g x" using assms(2) x s by (auto simp: same_data_def intro: fbytes_store_out)
    moreover have "fbytes g x = fbytes f x"
      using False assms(1,3) x by (auto simp: same_data_def intro: fbytes_store_out)
    ultimately show ?thesis by simp
  qed
qed

lemma writeMetadataEntry_cases:
  assumes r: "writeMetadataEntry off previous next q = (r, q')"
    and off: "off + 8 \<le> fsize (hfile q)" "fsize (hfile q) < 2 ^ 63"
    and prev: "bytes_at (hfile q) off 8 = put_be 8 previous"
  obtains (Ok) f where "r = Inr ()" "q' = q\<lparr>hfile := f\<rparr>"
      "same_data f (store_bytes off (put_be 8 next) (hfile q))" "healthy q \<longrightarrow> healthy q'"
  | (Restored) f e where "r = Inl e" "q' = q\<lparr>hfile := f\<rparr>" "fsize f = fsize (hfile q)"
      "\<And>x. x < fsize (hfile q) \<Longrightarrow> fbytes f x = fbytes (hfile q) x" "sane e" "\<not> healthy q"
  | (Disabled) e where "r = Inl e" "writeFault q' \<noteq> None" "sane e" "\<not> healthy q"
proof -
  have o: "off < 2 ^ 63" using off by linarith
  have ne: "put_be 8 v \<noteq> []" for v using length_put_be [of 8 v] by fastforce
  obtain r1 q1 where w: "writeMetadata (put_be 8 next) off q = (r1, q1)" by fastforce
  obtain f k where W: "q1 = q\<lparr>hfile := f\<rparr>" "same_data f (store_bytes off (take k (put_be 8 next)) (hfile q))"
      "healthy q \<Longrightarrow> healthy q1 \<and> r1 = Inr ()" "r1 = Inr () \<Longrightarrow> take k (put_be 8 next) = put_be 8 next"
      "\<And>e. r1 = Inl e \<Longrightarrow> sane e"
    by (rule writeMetadata_cases [OF w o ne]) blast
  show ?thesis
  proof (cases r1)
    case (Inr u)
    then have "r = Inr ()" "q' = q1" using r w by (simp_all add: writeMetadataEntry_def handle_def ret_def)
    then show ?thesis by (intro Ok [of f]) (use W Inr in auto)
  next
    case (Inl e)
    then have bad: "\<not> healthy q" "sane e" using W(3,5) by auto
    obtain r2 q2 where w2: "writeMetadata (put_be 8 previous) off q1 = (r2, q2)" by fastforce
    obtain g m where G: "q2 = q1\<lparr>hfile := g\<rparr>" "same_data g (store_bytes off (take m (put_be 8 previous)) (hfile q1))"
        "r2 = Inr () \<Longrightarrow> take m (put_be 8 previous) = put_be 8 previous" "\<And>e. r2 = Inl e \<Longrightarrow> sane e"
      by (rule writeMetadata_cases [OF w2 o ne]) blast
    show ?thesis
    proof (cases r2)
      case (Inl e2)
      then have "r = Inl (QDisabled (QJoin e e2))" "writeFault q' \<noteq> None"
        using r w w2 \<open>r1 = Inl e\<close> by (auto simp: writeMetadataEntry_def handle_def disableWrites_def)
      then show ?thesis by (rule Disabled) (use bad G(4) [OF Inl] in auto)
    next
      case (Inr u)
      then have q': "r = Inl e" "q' = q2"
        using r w w2 \<open>r1 = Inl e\<close> by (simp_all add: writeMetadataEntry_def handle_def fail_def)
      have sg: "same_data g (store_bytes off (put_be 8 previous) f)" using G Inr W(1) by simp
      note T = store_twice [OF W(2) sg]
      show ?thesis
        by (rule Restored [of e g]) (use q' G(1) W(1) bad off prev T in auto)
    qed
  qed
qed

subsection \<open>Writes into one slot\<close>

text \<open>All owned clusters but that of slot \<open>s0\<close> have the same bytes in \<open>f\<close>.\<close>

definition only_slot :: "qcow2Image \<Rightarrow> slot \<Rightarrow> hostfile \<Rightarrow> bool" where
  "only_slot q s0 f \<longleftrightarrow> fsize f = fsize (hfile q) \<and>
     (\<forall>s c x. target q s = Some c \<longrightarrow> in_cluster q c x \<longrightarrow> s \<noteq> s0 \<longrightarrow> fbytes f x = fbytes (hfile q) x)"

lemma only_slotD:
  assumes "only_slot q s0 f" "\<exists>c. target q s = Some c \<and> in_cluster q c x" "s \<noteq> s0"
  shows "fbytes f x = fbytes (hfile q) x"
  using assms by (auto simp: only_slot_def)

lemma only_slot_l1:
  assumes "only_slot q s0 f" "geometry q" "\<And>k. s0 \<noteq> L1Reg k"
  shows "tbl f (l1TableOffset q) (length (l1 q)) = tbl (hfile q) (l1TableOffset q) (length (l1 q))"
  using assms l1_byte_slot [OF assms(2)] by (intro tbl_cong) (metis only_slotD)

lemma only_slot_rt:
  assumes "only_slot q s0 f" "geometry q" "\<And>k. s0 \<noteq> RtReg k"
  shows "tbl f (refcountTableOffset q) (length (refcountTable q)) =
    tbl (hfile q) (refcountTableOffset q) (length (refcountTable q))"
  using assms rt_byte_slot [OF assms(2)] by (intro tbl_cong) (metis only_slotD)

lemma only_slot_l2:
  assumes "only_slot q s0 f" "geometry q" "entries_ok q" "i < length (l1 q)" "l1 q ! i \<noteq> 0" "s0 \<noteq> L2Tab i"
  shows "tbl f (l2_off q i) (l2Entries q) = tbl (hfile q) (l2_off q i) (l2Entries q)"
  using assms l2_byte_slot [OF assms(2-5)] by (intro tbl_cong) (metis only_slotD)

lemma only_slot_l2_entry:
  assumes "only_slot q s0 f" "geometry q" "entries_ok q" "i < length (l1 q)" "l1 q ! i \<noteq> 0" "s0 \<noteq> L2Tab i"
    "j < l2Entries q"
  shows "be_nat (bytes_at f (l2_off q i + 8 * j) 8) = l2_entry q i j"
  using arg_cong [OF only_slot_l2 [OF assms(1-6)], of "\<lambda>t. t ! j"] assms(7) by (simp add: l2_entry_def)

lemma only_slot_block:
  assumes "only_slot q s0 f" "entries_ok q" "i < length (refcountTable q)" "refcountTable q ! i \<noteq> 0" "s0 \<noteq> RefBlock i"
  shows "bytes_at f (refcountTable q ! i) (clusterSize q) = bytes_at (hfile q) (refcountTable q ! i) (clusterSize q)"
  using assms rb_byte_slot [OF assms(2-4)] by (intro bytes_at_cong) (metis only_slotD)

lemma only_slot_refcount:
  assumes "only_slot q s0 f" "geometry q" "entries_ok q" "\<And>i. s0 \<noteq> RefBlock i"
  shows "rc_at f (refcountTable q) (refcountBlockEntries q) c = disk_refcount q c"
proof -
  let ?n = "refcountBlockEntries q"
  have "2 * (c mod ?n) + 2 \<le> clusterSize q"
    using geometry_cs(5,7) [OF assms(2)] mod_less_divisor [of ?n c] by linarith
  then show ?thesis
    using bytes_at_sub [OF only_slot_block [OF assms(1,3), of "c div ?n"]] assms(4)
    by (simp add: disk_refcount_def rc_at_def)
qed

lemma only_slot_rc_cache:
  assumes "only_slot q s0 f" "entries_ok q" "\<And>i. s0 \<noteq> RefBlock i" "rc_cache_ok q"
    "refcountCache q b = Some index"
  shows "refcountBlocks q ! index = \<lparr>rb_offset = b, rb_data = Some (bytes_at f b (clusterSize q))\<rparr>"
proof -
  note D = rc_cacheD [OF assms(4,5)]
  obtain i where "i < length (refcountTable q)" "refcountTable q ! i = b" using D(4) by (auto simp: in_set_conv_nth)
  then show ?thesis using only_slot_block [OF assms(1,2), of i] D(2,3) assms(3) by auto
qed

lemma only_slot_guest:
  assumes "only_slot q s0 f" "image_ok q" "x < imgSize q" "\<not> is_data s0"
    "clusterOffset (guest_entry q (x div clusterSize q)) \<noteq> 0"
  shows "fbytes f (clusterOffset (guest_entry q (x div clusterSize q)) + x mod clusterSize q) =
    fbytes (hfile q) (clusterOffset (guest_entry q (x div clusterSize q)) + x mod clusterSize q)"
proof -
  have "guest_slot q x \<noteq> s0" using assms(4) by (auto simp: guest_slot_def Let_def)
  then show ?thesis
    using only_slotD [OF assms(1), of "guest_slot q x"] guest_slot_target [OF image_okD(1) [OF assms(2)] assms(3,5)]
      guest_host_in_cluster [OF image_okD(1,2) [OF assms(2)] assms(3)] by metis
qed

lemma store_only_slot:
  assumes ok: "image_ok q" and s: "target q s0 = Some d" and p: "in_cluster q d pos" "in_cluster q d (pos + length bs - 1)"
    "bs \<noteq> []" and f: "same_data f (store_bytes pos bs (hfile q))"
  shows "only_slot q s0 f" "\<And>c x. \<not> owned q c \<Longrightarrow> in_cluster q c x \<Longrightarrow> x < fsize (hfile q) \<Longrightarrow> fbytes f x = fbytes (hfile q) x"
proof -
  have len: "0 < length bs" using p(3) by simp
  have inside: "pos + length bs \<le> fsize (hfile q)" using owned_inside [OF ok s p(2)] len by linarith
  have other: "fbytes f x = fbytes (hfile q) x" if "in_cluster q c x" "c \<noteq> d" "x < fsize (hfile q)" for c x
  proof -
    have "\<not> in_cluster q d x" using in_cluster_unique that(1,2) by blast
    then have "x < pos \<or> pos + length bs \<le> x" using p(1,2) len unfolding in_cluster_def by linarith
    then show ?thesis using f that(3) by (simp add: same_data_def fbytes_store_out)
  qed
  show "only_slot q s0 f"
    using other slots_okD(1) [OF image_okD(4) [OF ok]] s owned_inside [OF ok] f inside fsize_store_inside
    unfolding only_slot_def same_data_def by metis
  show "fbytes f x = fbytes (hfile q) x" if "\<not> owned q c" "in_cluster q c x" "x < fsize (hfile q)" for c x
    using other that s by (auto simp: owned_def)
qed

lemma store_entry_slot:
  assumes "image_ok q" "target q s0 = Some d" "in_cluster q d pos" "in_cluster q d (pos + 7)"
    "same_data f (store_bytes pos (put_be 8 v) (hfile q))"
  shows "only_slot q s0 f"
    "\<And>c x. \<not> owned q c \<Longrightarrow> (c + 1) * clusterSize q \<le> fsize (hfile q) \<Longrightarrow> in_cluster q c x \<Longrightarrow>
       fbytes f x = fbytes (hfile q) x"
proof -
  have p: "in_cluster q d (pos + length (put_be 8 v) - 1)" "put_be 8 v \<noteq> []"
    using assms(4) length_put_be [of 8 v] by (auto simp: add.commute simp del: length_put_be)
  show "only_slot q s0 f" by (rule store_only_slot(1) [OF assms(1-3) p assms(5)])
  show "fbytes f x = fbytes (hfile q) x"
    if "\<not> owned q c" "(c + 1) * clusterSize q \<le> fsize (hfile q)" "in_cluster q c x" for c x
    by (rule store_only_slot(2) [OF assms(1-3) p assms(5) that(1,3)]) (use that in \<open>auto simp: in_cluster_def\<close>)
qed

subsection \<open>Publishing a refcount block\<close>

lemma dvd_less_step: "(n :: nat) dvd a \<Longrightarrow> n dvd b \<Longrightarrow> a < b \<Longrightarrow> a + n \<le> b"
  by (metis add.commute dvd_diff_nat dvd_imp_le less_diff_conv2 less_imp_le_nat zero_less_diff le_diff_conv2)

text \<open>The region of a table that holds entry \<open>i\<close>.\<close>

lemma entry_in_region:
  assumes "geometry q" "off mod clusterSize q = 0" "i < n"
  shows "\<exists>k < (8 * n + clusterSize q - 1) div clusterSize q.
    in_cluster q (off div clusterSize q + k) (off + 8 * i) \<and> in_cluster q (off div clusterSize q + k) (off + 8 * i + 7)"
proof -
  let ?cs = "clusterSize q"
  note G = geometry_cs [OF assms(1)]
  have cs: "0 < ?cs" using G(1) by linarith
  obtain k where k: "k < (8 * n + ?cs - 1) div ?cs" "in_cluster q (off div ?cs + k) (off + 8 * i)"
    using region_cluster [of q off "off + 8 * i" "8 * n"] cs assms(2,3) by auto
  have "8 dvd ?cs" using G(4) by (metis dvd_triv_left)
  moreover have "8 dvd off" using \<open>8 dvd ?cs\<close> assms(2) by (meson dvd_trans mod_0_imp_dvd)
  ultimately have "8 dvd (off div ?cs + k + 1) * ?cs" "8 dvd off + 8 * i" by simp_all
  moreover have "off + 8 * i < (off div ?cs + k + 1) * ?cs" using k(2) by (simp add: in_cluster_def)
  ultimately have "off + 8 * i + 8 \<le> (off div ?cs + k + 1) * ?cs"
    by (intro dvd_less_step)
  then have "in_cluster q (off div ?cs + k) (off + 8 * i + 7)" using k(2) by (simp add: in_cluster_def)
  then show ?thesis using k by blast
qed

lemma rt_entry_slot:
  assumes "geometry q" "i < length (refcountTable q)"
  shows "\<exists>k d. target q (RtReg k) = Some d \<and> in_cluster q d (refcountTableOffset q + 8 * i) \<and>
    in_cluster q d (refcountTableOffset q + 8 * i + 7)"
  using entry_in_region [OF assms(1) _ assms(2), of "refcountTableOffset q"] assms(1)
  by (auto simp: geometry_def rt_clusters_def)

lemma l1_entry_slot:
  assumes "geometry q" "i < length (l1 q)"
  shows "\<exists>k d. target q (L1Reg k) = Some d \<and> in_cluster q d (l1TableOffset q + 8 * i) \<and>
    in_cluster q d (l1TableOffset q + 8 * i + 7)"
  using entry_in_region [OF assms(1) _ assms(2), of "l1TableOffset q"] assms(1)
  by (auto simp: geometry_def l1_clusters_def)

lemma mult_cluster:
  assumes "geometry q"
  shows "c * clusterSize q div clusterSize q = c" "c * clusterSize q mod clusterSize q = 0"
    "in_cluster q c x \<longleftrightarrow> c * clusterSize q \<le> x \<and> x < c * clusterSize q + clusterSize q"
  using geometry_cs(1) [OF assms] by (auto simp: in_cluster_def)

lemma new_block_refcount:
  assumes "2 * j + 2 \<le> cs" "2 * j' + 2 \<le> cs"
  shows "be_nat (slice (new_refcount_block cs j) (2 * j') 2) = (if j' = j then 1 else 0)"
proof -
  have "slice (new_refcount_block cs j) (2 * j') 2 = (if j' = j then put_be 2 1 else replicate 2 0)"
    by (rule nth_equalityI)
      (use assms in \<open>auto simp: new_refcount_block_def slice_def nth_copy_at less_2_cases_iff\<close>)
  then show ?thesis by (simp add: be_nat_put_be)
qed

lemma rt_inside:
  assumes "image_ok q" "i < length (refcountTable q)"
  shows "refcountTableOffset q + 8 * length (refcountTable q) \<le> fsize (hfile q)"
proof -
  have last: "length (refcountTable q) - 1 < length (refcountTable q)" using assms(2) by linarith
  obtain k d where "target q (RtReg k) = Some d"
      "in_cluster q d (refcountTableOffset q + 8 * (length (refcountTable q) - 1) + 7)"
    using rt_entry_slot [OF image_okD(1) [OF assms(1)] last] by blast
  then have "refcountTableOffset q + 8 * (length (refcountTable q) - 1) + 7 < fsize (hfile q)"
    using owned_inside [OF assms(1)] by blast
  then show ?thesis using assms(2) by linarith
qed

lemma l1_inside:
  assumes "image_ok q" "i < length (l1 q)"
  shows "l1TableOffset q + 8 * length (l1 q) \<le> fsize (hfile q)"
proof -
  have last: "length (l1 q) - 1 < length (l1 q)" using assms(2) by linarith
  obtain k d where "target q (L1Reg k) = Some d" "in_cluster q d (l1TableOffset q + 8 * (length (l1 q) - 1) + 7)"
    using l1_entry_slot [OF image_okD(1) [OF assms(1)] last] by blast
  then have "l1TableOffset q + 8 * (length (l1 q) - 1) + 7 < fsize (hfile q)"
    using owned_inside [OF assms(1)] by blast
  then show ?thesis using assms(2) by linarith
qed

lemma tbl_store:
  assumes "same_data f (store_bytes (off + 8 * i) (put_be 8 v) g)" "i < n" "v < 2 ^ 64" "off + 8 * n \<le> fsize g"
  shows "tbl f off n = (tbl g off n)[i := v]"
  using tbl_cong [of off n f "store_bytes (off + 8 * i) (put_be 8 v) g"] tbl_store_entry [OF assms(2-4)] assms(1)
  by (simp add: same_data_def)

text \<open>
  Cluster \<open>c\<close> holds a block that counts itself and nothing else, and the table
  entry that covers \<open>c\<close> is written.
\<close>

definition refblock_published :: "qcow2Image \<Rightarrow> nat \<Rightarrow> hostfile \<Rightarrow> qcow2Image \<Rightarrow> bool" where
  "refblock_published q c f q1 \<longleftrightarrow> (let i = c div refcountBlockEntries q in
     i < length (refcountTable q) \<and> refcountTable q ! i = 0 \<and>
     \<not> owned q c \<and> (c + 1) * clusterSize q \<le> fsize (hfile q) \<and> c \<noteq> 0 \<and>
     bytes_at (hfile q) (c * clusterSize q) (clusterSize q) =
       new_refcount_block (clusterSize q) (c mod refcountBlockEntries q) \<and>
     same_data f (store_bytes (refcountTableOffset q + 8 * i) (put_be 8 (c * clusterSize q)) (hfile q)) \<and>
     q1 = q\<lparr>hfile := f, refcountTable := (refcountTable q)[i := c * clusterSize q]\<rparr>)"

lemma refblock_published_fields:
  assumes "refblock_published q c f q1"
  shows "clusterSize q1 = clusterSize q" "l2Entries q1 = l2Entries q" "l1 q1 = l1 q" "hfile q1 = f"
    "refcountBlockEntries q1 = refcountBlockEntries q"
    "refcountTable q1 = (refcountTable q)[c div refcountBlockEntries q := c * clusterSize q]"
    "l1TableOffset q1 = l1TableOffset q"
    "refcountTableOffset q1 = refcountTableOffset q" "imgSize q1 = imgSize q" "version q1 = version q"
    "l2Cache q1 = l2Cache q" "refcountCache q1 = refcountCache q" "refcountBlocks q1 = refcountBlocks q"
    "refcountCacheNext q1 = refcountCacheNext q" "writeFault q1 = writeFault q" "l2_off q1 = l2_off q"
  using assms by (auto simp: refblock_published_def Let_def l2_off_def)

lemma refblock_published_file:
  assumes "image_ok q" "refblock_published q c f q1"
  shows "\<exists>k. only_slot q (RtReg k) f"
    "bytes_at f (c * clusterSize q) (clusterSize q) = new_refcount_block (clusterSize q) (c mod refcountBlockEntries q)"
proof -
  note P = assms(2) [unfolded refblock_published_def Let_def]
  let ?i = "c div refcountBlockEntries q"
  obtain k d where kd: "target q (RtReg k) = Some d" "in_cluster q d (refcountTableOffset q + 8 * ?i)"
      "in_cluster q d (refcountTableOffset q + 8 * ?i + 7)"
    using rt_entry_slot [OF image_okD(1) [OF assms(1)]] P by blast
  have f: "same_data f (store_bytes (refcountTableOffset q + 8 * ?i) (put_be 8 (c * clusterSize q)) (hfile q))"
    and un: "\<not> owned q c" "(c + 1) * clusterSize q \<le> fsize (hfile q)" using P by blast+
  show "\<exists>k. only_slot q (RtReg k) f" using store_entry_slot(1) [OF assms(1) kd f] by blast
  have "bytes_at f (c * clusterSize q) (clusterSize q) = bytes_at (hfile q) (c * clusterSize q) (clusterSize q)"
    using store_entry_slot(2) [OF assms(1) kd f un] mult_cluster(3) [OF image_okD(1) [OF assms(1)]]
    by (intro bytes_at_cong) blast
  then show "bytes_at f (c * clusterSize q) (clusterSize q) =
      new_refcount_block (clusterSize q) (c mod refcountBlockEntries q)" using P by simp
qed

lemma refblock_published_views:
  assumes ok: "image_ok q" and p: "refblock_published q c f q1"
  shows "target q1 = (target q)(RefBlock (c div refcountBlockEntries q) := Some c)"
    "same_guest q q1" "same_shape q q1"
    "\<And>i j. i < length (l1 q) \<Longrightarrow> l1 q ! i \<noteq> 0 \<Longrightarrow> j < l2Entries q \<Longrightarrow> l2_entry q1 i j = l2_entry q i j"
proof -
  note D = image_okD [OF ok] and sel = refblock_published_fields [OF p]
  obtain k where only: "only_slot q (RtReg k) f" using refblock_published_file(1) [OF ok p] by blast
  show e2: "l2_entry q1 i j = l2_entry q i j" if "i < length (l1 q)" "l1 q ! i \<noteq> 0" "j < l2Entries q" for i j
    using only_slot_l2_entry [OF only D(1,2) that(1,2) _ that(3)] by (simp add: l2_entry_def sel)
  show "same_shape q q1" by (simp add: same_shape_def sel)
  show "target q1 = (target q)(RefBlock (c div refcountBlockEntries q) := Some c)"
  proof
    fix s show "target q1 s = ((target q)(RefBlock (c div refcountBlockEntries q) := Some c)) s"
      by (cases s) (use p geometry_cs(1) [OF D(1)] e2 mult_cluster(1) [OF D(1), of c] in
        \<open>auto simp: sel l1_clusters_def rt_clusters_def refblock_published_def Let_def\<close>)
  qed
  show "same_guest q q1" unfolding same_guest_def
  proof (intro allI impI)
    fix x assume x: "x < imgSize q"
    have e: "guest_entry q1 (x div clusterSize q) = guest_entry q (x div clusterSize q)"
      using guest_index [OF D(1) x] e2 by (simp add: guest_entry_def sel Let_def)
    show "guest_byte q1 x = guest_byte q x"
      using only_slot_guest [OF only ok x] e by (auto simp: guest_byte_def sel Let_def)
  qed
qed

lemma refblock_published_refcount:
  assumes ok: "image_ok q" and p: "refblock_published q c f q1"
  shows "disk_refcount q1 c = 1" "disk_refcount q c' = 1 \<Longrightarrow> disk_refcount q1 c' = 1"
proof -
  note D = image_okD [OF ok] and sel = refblock_published_fields [OF p] and P = p [unfolded refblock_published_def Let_def]
  note G = geometry_cs [OF D(1)]
  obtain k where only: "only_slot q (RtReg k) f" using refblock_published_file(1) [OF ok p] by blast
  let ?n = "refcountBlockEntries q" and ?cs = "clusterSize q"
  have j: "2 * (c mod ?n) + 2 \<le> ?cs" using G(5,7) mod_less_divisor [of ?n c] by linarith
  have "be_nat (bytes_at f (c * ?cs + 2 * (c mod ?n)) 2) = 1"
    using new_block_refcount [OF j j] refblock_published_file(2) [OF ok p] slice_bytes_at [OF j, of f "c * ?cs"] by simp
  then show "disk_refcount q1 c = 1" using P G(1) by (auto simp: disk_refcount_def rc_at_def sel)
  assume a: "disk_refcount q c' = 1"
  then have "c' div ?n \<noteq> c div ?n" using P by (auto simp: disk_refcount_def rc_at_def split: if_splits)
  then have "disk_refcount q1 c' = rc_at f (refcountTable q) ?n c'" by (simp add: disk_refcount_def rc_at_def sel)
  then show "disk_refcount q1 c' = 1" using only_slot_refcount [OF only D(1,2)] a by simp
qed

lemma slots_ok_publish:
  assumes "slots_ok q" "target q1 = (target q)(s := Some c)" "\<not> owned q c" "(c + 1) * clusterSize q \<le> fsize (hfile q)"
    "clusterSize q1 = clusterSize q" "fsize (hfile q1) = fsize (hfile q)" "disk_refcount q1 c = 1"
    "\<And>c'. disk_refcount q c' = 1 \<Longrightarrow> disk_refcount q1 c' = 1"
  shows "slots_ok q1"
  using assms unfolding slots_ok_def owned_def by (simp add: fun_upd_apply) metis

lemma refblock_published_ok:
  assumes ok: "image_ok q" and p: "refblock_published q c f q1"
  shows "image_ok q1"
proof -
  note D = image_okD [OF ok] and sel = refblock_published_fields [OF p] and P = p [unfolded refblock_published_def Let_def]
  note V = refblock_published_views [OF ok p] and R = refblock_published_refcount [OF ok p]
  let ?i = "c div refcountBlockEntries q" and ?cs = "clusterSize q"
  obtain k where only: "only_slot q (RtReg k) f" using refblock_published_file(1) [OF ok p] by blast
  then have fs: "fsize f = fsize (hfile q)" by (simp add: only_slot_def)
  have i: "?i < length (refcountTable q)" "refcountTable q ! ?i = 0"
    and un: "\<not> owned q c" "(c + 1) * ?cs \<le> fsize (hfile q)" using P by blast+
  have "geometry q1 = geometry q" by (simp add: geometry_def sel)
  then have geo: "geometry q1" using D(1) by simp
  have "(refcountTable q)[?i := c * ?cs] ! j mod ?cs = 0" if "j < length (refcountTable q)" for j
    using D(2) that by (cases "j = ?i") (auto simp: entries_ok_def)
  then have ent: "entries_ok q1" using D(2) V(4) by (simp add: entries_ok_def sel validateL2Entry_def)
  have "c * ?cs < 2 ^ 64" using P D(8) by simp
  then have "tbl f (refcountTableOffset q) (length (refcountTable q)) = (refcountTable q)[?i := c * ?cs]"
    using tbl_store [of f "refcountTableOffset q" ?i "c * ?cs" "hfile q"] rt_inside [OF ok i(1)] P D(3)
    by (simp add: tables_on_disk_def)
  then have tab: "tables_on_disk q1"
    using only_slot_l1 [OF only D(1)] D(3) by (simp add: tables_on_disk_def sel)
  have slots: "slots_ok q1"
    by (rule slots_ok_publish [OF D(4) V(1) un _ _ R]) (simp_all add: sel fs)
  have l2: "l2_cache_ok q1"
    using D(5) only_slot_l2 [OF only D(1,2)] by (fastforce simp: l2_cache_ok_def sel)
  have "rc_cache_ok q1"
  proof (rule rc_cache_okI)
    fix b index assume "refcountCache q1 b = Some index"
    then have b: "refcountCache q b = Some index" by (simp add: sel)
    note C = rc_cacheD [OF D(6) b]
    obtain j where "j < length (refcountTable q)" "refcountTable q ! j = b" using C(4) by (auto simp: in_set_conv_nth)
    moreover from this have "j \<noteq> ?i" using i(2) C(3) by auto
    ultimately have "b \<in> set ((refcountTable q)[?i := c * ?cs])" by (auto simp: in_set_conv_nth intro!: exI [of _ j])
    then show "index < length (refcountBlocks q1) \<and>
        refcountBlocks q1 ! index = \<lparr>rb_offset = b, rb_data = Some (bytes_at (hfile q1) b (clusterSize q1))\<rparr> \<and>
        b \<noteq> 0 \<and> b \<in> set (refcountTable q1)"
      using C(1,3) only_slot_rc_cache [OF only D(2) _ D(6) b] by (simp add: sel)
  qed (use rc_cache_room [OF D(6)] in \<open>simp_all add: sel\<close>)
  then show ?thesis using geo ent tab slots l2 D(7,8) fs by (simp add: image_ok_def sel)
qed

subsection \<open>Appending a refcount block\<close>

definition grow :: "qcow2Image \<Rightarrow> nat \<Rightarrow> nat \<Rightarrow> bool" where
  "grow q lo c \<longleftrightarrow> fits q lo \<and> lo \<le> fsize (hfile q) \<and> fsize (hfile q) \<le> c * clusterSize q"

definition uncovered :: "qcow2Image \<Rightarrow> nat \<Rightarrow> bool" where
  "uncovered q c \<longleftrightarrow> c div refcountBlockEntries q < length (refcountTable q) \<and>
     refcountTable q ! (c div refcountBlockEntries q) = 0"

definition block_written :: "qcow2Image \<Rightarrow> nat \<Rightarrow> nat \<Rightarrow> bool" where
  "block_written q lo c \<longleftrightarrow> fits q lo \<and> lo \<le> c * clusterSize q \<and> fsize (hfile q) = (c + 1) * clusterSize q \<and>
     bytes_at (hfile q) (c * clusterSize q) (clusterSize q) =
       new_refcount_block (clusterSize q) (c mod refcountBlockEntries q) \<and> uncovered q c"

lemma reach:
  assumes "geometry q" "c div refcountBlockEntries q < length (refcountTable q)"
  shows "(c + 1) * clusterSize q \<le> 2 ^ 56"
proof -
  let ?n = "refcountBlockEntries q"
  have "0 < ?n" using geometry_cs(7) [OF assms(1)] by linarith
  then have "c < (c div ?n + 1) * ?n" by (simp add: dividend_less_div_times)
  then have "c + 1 \<le> (c div ?n + 1) * ?n" by linarith
  also have "\<dots> \<le> length (refcountTable q) * ?n" using assms(2) by (intro mult_le_mono1) linarith
  finally have "(c + 1) * clusterSize q \<le> length (refcountTable q) * (?n * clusterSize q)"
    by (metis mult.assoc mult_le_mono1)
  then show ?thesis using assms(1) unfolding geometry_def by (meson le_trans)
qed

lemma fits_unowned:
  assumes "fits q lo" "lo \<le> c * clusterSize q" "0 < clusterSize q" shows "\<not> owned q c"
proof
  assume "owned q c"
  then obtain s where "target q s = Some c" by (auto simp: owned_def)
  then have "(c + 1) * clusterSize q \<le> lo" using assms(1) unfolding fits_def by blast
  then show False using assms(2,3) by simp
qed

lemma fits_header: "fits q lo \<Longrightarrow> clusterSize q \<le> lo"
  unfolding fits_def by (drule spec [of _ Header]) simp

lemma fits_pos: "fits q lo \<Longrightarrow> lo \<le> c * clusterSize q \<Longrightarrow> 0 < clusterSize q \<Longrightarrow> c \<noteq> 0"
  using fits_header [of q lo] by (cases c) auto

lemma length_new_refcount_block: "2 * j + 2 \<le> cs \<Longrightarrow> length (new_refcount_block cs j) = cs"
  by (simp add: new_refcount_block_def)

text \<open>Writing at or above the end of the file, from a state in which the owned clusters lie below \<open>lo\<close>.\<close>

lemma append_frame:
  assumes ok: "image_ok q" and g: "grow q lo c" and top: "c * clusterSize q + length bs < 2 ^ 63"
    and f: "same_data f (store_bytes (c * clusterSize q) bs (hfile q))" "healthy q \<longrightarrow> script f = []"
  shows "kept q (q\<lparr>hfile := f\<rparr>)" "fits (q\<lparr>hfile := f\<rparr>) lo" "lo \<le> fsize f"
proof -
  have lo: "fits q lo" "lo \<le> fsize (hfile q)" "fsize (hfile q) \<le> c * clusterSize q" using g by (auto simp: grow_def)
  have fs: "fsize (hfile q) \<le> fsize f" "fsize f < 2 ^ 63"
    using f(1) image_okD(8) [OF ok] top by (auto simp: same_data_def store_bytes_def)
  then show le: "lo \<le> fsize f" using lo(2) by linarith
  have same: "fbytes f x = fbytes (hfile q) x" if "x < lo" for x
    using f(1) lo that by (auto simp: same_data_def intro: fbytes_store_out)
  note A = above_frame [OF ok lo(1) le fs(2) same f(2)]
  show "kept q (q\<lparr>hfile := f\<rparr>)" using A(1) by simp
  show "fits (q\<lparr>hfile := f\<rparr>) lo" using A(2) lo(1) by (simp add: fits_def)
qed

lemma write_block_step:
  assumes ok: "image_ok q" and g: "grow q lo c" and u: "uncovered q c"
    and r: "writeMetadata (new_refcount_block (clusterSize q) (c mod refcountBlockEntries q)) (c * clusterSize q) q = (r, q')"
  shows "kept q q' \<and> fits q' lo \<and> lo \<le> fsize (hfile q') \<and>
    (case r of Inl e \<Rightarrow> sane e \<and> \<not> healthy q | Inr _ \<Rightarrow> block_written q' lo c)"
proof -
  note D = image_okD [OF ok]
  let ?cs = "clusterSize q" and ?j = "c mod refcountBlockEntries q"
  let ?bs = "new_refcount_block ?cs ?j"
  have "2 * ?j + 2 \<le> ?cs"
    using geometry_cs(5,7) [OF D(1)] mod_less_divisor [of "refcountBlockEntries q" c] by linarith
  then have len: "length ?bs = ?cs" by (rule length_new_refcount_block)
  have cs: "0 < ?cs" using geometry_cs(1) [OF D(1)] by linarith
  have "(c + 1) * ?cs \<le> 2 ^ 56" using reach [OF D(1)] u by (simp add: uncovered_def)
  then have top: "c * ?cs + ?cs < 2 ^ 63" by simp
  then have o: "c * ?cs < 2 ^ 63" "?bs \<noteq> []" using len cs by (auto simp del: length_0_conv simp: length_0_conv [symmetric])
  obtain f k where W: "q' = q\<lparr>hfile := f\<rparr>" "same_data f (store_bytes (c * ?cs) (take k ?bs) (hfile q))"
      "healthy q \<Longrightarrow> healthy q' \<and> r = Inr ()" "r = Inr () \<Longrightarrow> take k ?bs = ?bs" "\<And>e. r = Inl e \<Longrightarrow> sane e"
    by (rule writeMetadata_cases [OF r o]) blast
  have "c * ?cs + length (take k ?bs) < 2 ^ 63" using top len by simp
  note F = append_frame [OF ok g this W(2)]
  have F': "kept q q'" "fits q' lo" "lo \<le> fsize (hfile q')" using F W(1,3) by (auto simp: healthy_def)
  moreover have "block_written q' lo c" if "r = Inr ()"
  proof -
    have sd: "same_data f (store_bytes (c * ?cs) ?bs (hfile q))" using W(2,4) that by simp
    have "fsize f = (c + 1) * ?cs" using sd len cs g by (auto simp: same_data_def store_bytes_def grow_def)
    moreover have "bytes_at f (c * ?cs) ?cs = ?bs"
      using bytes_at_store_same [of "c * ?cs" ?bs "hfile q"] sd len bytes_at_same [of f] by (simp add: same_data_def)
    moreover have "lo \<le> c * ?cs" using g by (simp add: grow_def)
    ultimately show ?thesis using F'(2) u W(1) by (simp add: block_written_def uncovered_def)
  qed
  ultimately show ?thesis using W(3,5) by (auto split: sum.splits)
qed

lemma rt_entry_bytes:
  assumes "image_ok q" "i < length (refcountTable q)"
  shows "bytes_at (hfile q) (refcountTableOffset q + 8 * i) 8 = put_be 8 (refcountTable q ! i)"
    "refcountTableOffset q + 8 * i + 8 \<le> fsize (hfile q)"
    "add64 (refcountTableOffset q) (i * 8) = refcountTableOffset q + 8 * i"
proof -
  have "refcountTable q ! i = tbl (hfile q) (refcountTableOffset q) (length (refcountTable q)) ! i"
    using image_okD(3) [OF assms(1)] by (simp add: tables_on_disk_def)
  then show "bytes_at (hfile q) (refcountTableOffset q + 8 * i) 8 = put_be 8 (refcountTable q ! i)"
    using assms(2) put_be_be_nat [of _ 8] by simp
  show "refcountTableOffset q + 8 * i + 8 \<le> fsize (hfile q)" using rt_inside [OF assms] assms(2) by linarith
  then show "add64 (refcountTableOffset q) (i * 8) = refcountTableOffset q + 8 * i"
    using image_okD(8) [OF assms(1)] by (simp add: add64_id mult.commute)
qed

lemma block_written_published:
  assumes ok: "image_ok q" and b: "block_written q lo c" and i: "i = c div refcountBlockEntries q"
    and f: "same_data f (store_bytes (refcountTableOffset q + 8 * i) (put_be 8 (c * clusterSize q)) (hfile q))"
      "healthy q \<longrightarrow> script f = []"
    and q1: "q1 = cacheRefcountBlock (c * clusterSize q) (new_refcount_block (clusterSize q) (c mod refcountBlockEntries q))
      (q\<lparr>hfile := f, refcountTable := (refcountTable q)[i := c * clusterSize q]\<rparr>)"
  shows "kept q q1 \<and> grow q1 ((c + 1) * clusterSize q) (c + 1) \<and> covered q1 c"
proof -
  note D = image_okD [OF ok] and B = b [unfolded block_written_def uncovered_def]
  let ?p = "q\<lparr>hfile := f, refcountTable := (refcountTable q)[i := c * clusterSize q]\<rparr>"
  have cs: "0 < clusterSize q" using geometry_cs(1) [OF D(1)] by linarith
  have c0: "c \<noteq> 0" using fits_pos [of q lo c] B cs by blast
  have pub: "refblock_published q c f ?p"
    using B f(1) i c0 fits_unowned [of q lo c] cs by (simp add: refblock_published_def Let_def)
  note ok1 = refblock_published_ok [OF ok pub] and V = refblock_published_views [OF ok pub]
    and sel = refblock_published_fields [OF pub] and F = refblock_published_file [OF ok pub]
  have "i < length (refcountTable q)" using B i by simp
  then have "c * clusterSize q \<in> set (refcountTable ?p)" by (simp add: set_update_memI)
  then have ok2: "image_ok q1" unfolding q1
    using F(2) c0 cs by (intro image_ok_cache [OF ok1]) auto
  have u: "quiet ?p q1" unfolding q1 by (rule cacheRefcountBlock_quiet)
  have sg: "same_guest q q1" using V(2) quiet_view(5) [OF u] by (simp add: same_guest_def)
  have ss: "same_shape q q1" using same_shape_trans [OF V(3)] u by (simp add: quiet_def)
  have fs: "fsize f = fsize (hfile q)" using F(1) by (auto simp: only_slot_def)
  have hf: "hfile q1 = f" by (simp add: q1 cacheRefcountBlock_quiet)
  have cs1: "clusterSize q1 = clusterSize q" using ss by (simp add: same_shape_def)
  have le: "(d + 1) * clusterSize q \<le> (c + 1) * clusterSize q" if "target q s = Some d" for s d
  proof -
    have "(d + 1) * clusterSize q \<le> lo" using B that unfolding fits_def by blast
    also have "lo \<le> c * clusterSize q" using B by blast
    also have "\<dots> \<le> (c + 1) * clusterSize q" by simp
    finally show ?thesis .
  qed
  have "fits q1 ((c + 1) * clusterSize q)"
    unfolding fits_def quiet_view(1) [OF u] V(1) cs1 fun_upd_apply by (metis le option.inject le_refl)
  then have "grow q1 ((c + 1) * clusterSize q) (c + 1)" using B fs by (simp add: grow_def hf cs1)
  moreover have "covered q1 c" using u B c0 cs i by (simp add: covered_def quiet_def same_shape_def)
  moreover have "healthy q \<longrightarrow> healthy q1" using f(2) hf by (simp add: healthy_def)
  moreover have "same_map q q1" using V(4) quiet_view(2) [OF u] u sel(3) by (simp add: same_map_def quiet_def)
  ultimately show ?thesis using ok2 sg ss by (simp add: kept_def)
qed

lemma write_entry_step:
  assumes ok: "image_ok q" and b: "block_written q lo c" and i: "i = c div refcountBlockEntries q"
    and r: "writeMetadataEntry (add64 (refcountTableOffset q) (i * 8)) 0 (c * clusterSize q) q = (r, q')"
  shows "case r of
      Inl e \<Rightarrow> sane e \<and> \<not> healthy q \<and>
        (writeFault q' \<noteq> None \<or> (kept q q' \<and> fits q' lo \<and> lo \<le> fsize (hfile q')))
    | Inr _ \<Rightarrow> \<exists>f. q' = q\<lparr>hfile := f\<rparr> \<and> (healthy q \<longrightarrow> script f = []) \<and>
        same_data f (store_bytes (refcountTableOffset q + 8 * i) (put_be 8 (c * clusterSize q)) (hfile q))"
proof -
  have u: "i < length (refcountTable q)" "refcountTable q ! i = 0"
    and lo: "fits q lo" "lo \<le> fsize (hfile q)" using b i by (auto simp: block_written_def uncovered_def)
  note R = rt_entry_bytes [OF ok u(1)]
  have p: "bytes_at (hfile q) (refcountTableOffset q + 8 * i) 8 = put_be 8 0" using R(1) u(2) by simp
  note r' = r [unfolded R(3)]
  from r' R(2) image_okD(8) [OF ok] p show ?thesis
  proof (cases rule: writeMetadataEntry_cases)
    case (Ok f)
    then show ?thesis by (auto simp: healthy_def)
  next
    case (Restored f e)
    have "lo \<le> fsize f" "fsize f < 2 ^ 63" using lo Restored(3) image_okD(8) [OF ok] by auto
    note A = above_frame [OF ok lo(1) this, OF Restored(4)]
    have "kept q q'" "target q' = target q" using A(1,2) Restored lo(2) by auto
    then show ?thesis using Restored lo \<open>lo \<le> fsize f\<close> by (simp add: fits_def)
  qed auto
qed

lemma shape_fields:
  assumes "kept q0 q"
  shows "clusterSize q = clusterSize q0" "refcountBlockEntries q = refcountBlockEntries q0"
    "refcountTableOffset q = refcountTableOffset q0" "l1TableOffset q = l1TableOffset q0"
    "l2Entries q = l2Entries q0" "imgSize q = imgSize q0" "version q = version q0"
    "length (l1 q) = length (l1 q0)" "length (refcountTable q) = length (refcountTable q0)"
  using keptD(2) [OF assms] by (auto simp: same_shape_def)

lemma hoare_write_block:
  assumes "cs = clusterSize q0" "n = refcountBlockEntries q0"
  shows "hoare (\<lambda>q. kept q0 q \<and> grow q lo c \<and> uncovered q c) (writeMetadata (new_refcount_block cs (c mod n)) (c * cs))
    (\<lambda>_ q. kept q0 q \<and> block_written q lo c)
    (\<lambda>e q. kept q0 q \<and> (fits q lo \<and> lo \<le> fsize (hfile q)) \<and> sane e \<and> \<not> healthy q0)"
proof (rule hoare_kept)
  fix q r q' assume "kept q0 q" "image_ok q" "grow q lo c \<and> uncovered q c"
    "writeMetadata (new_refcount_block cs (c mod n)) (c * cs) q = (r, q')"
  then show "kept q q' \<and> (case r of Inl e \<Rightarrow> (fits q' lo \<and> lo \<le> fsize (hfile q')) \<and> sane e \<and> \<not> healthy q
      | Inr x \<Rightarrow> block_written q' lo c)"
    using write_block_step [of q lo c r q'] shape_fields [of q0 q] assms by (auto split: sum.splits)
qed

text \<open>The state after the table entry was written, before the table in memory follows.\<close>

definition entry_written :: "qcow2Image \<Rightarrow> nat \<Rightarrow> nat \<Rightarrow> qcow2Image \<Rightarrow> bool" where
  "entry_written q0 lo c q \<longleftrightarrow> (\<exists>p f. kept q0 p \<and> block_written p lo c \<and> q = p\<lparr>hfile := f\<rparr> \<and>
     (healthy p \<longrightarrow> script f = []) \<and>
     same_data f (store_bytes (refcountTableOffset q0 + 8 * (c div refcountBlockEntries q0))
       (put_be 8 (c * clusterSize q0)) (hfile p)))"

definition restorable :: "qcow2Image \<Rightarrow> nat \<Rightarrow> qerr \<Rightarrow> qcow2Image \<Rightarrow> bool" where
  "restorable q0 lo e q \<longleftrightarrow> sane e \<and> \<not> healthy q0 \<and>
     (writeFault q \<noteq> None \<or> (kept q0 q \<and> fits q lo \<and> lo \<le> fsize (hfile q)))"

lemma hoare_write_entry:
  assumes "cs = clusterSize q0" "i = c div refcountBlockEntries q0"
  shows "hoare (\<lambda>q. kept q0 q \<and> block_written q lo c)
    (writeMetadataEntry (add64 (refcountTableOffset q0) (i * 8)) 0 (c * cs))
    (\<lambda>_. entry_written q0 lo c) (restorable q0 lo)"
proof (rule hoareI)
  fix q x q' assume k: "kept q0 q \<and> block_written q lo c"
    and r: "writeMetadataEntry (add64 (refcountTableOffset q0) (i * 8)) 0 (c * cs) q = (Inr x, q')"
  have "image_ok q" using k keptD(1) by blast
  then have "\<exists>f. q' = q\<lparr>hfile := f\<rparr> \<and> (healthy q \<longrightarrow> script f = []) \<and>
      same_data f (store_bytes (refcountTableOffset q0 + 8 * i) (put_be 8 (c * cs)) (hfile q))"
    using write_entry_step [of q lo c i "Inr x" q'] k r shape_fields [of q0 q] assms by simp
  then show "entry_written q0 lo c q'" using k assms unfolding entry_written_def by blast
next
  fix q e q' assume k: "kept q0 q \<and> block_written q lo c"
    and r: "writeMetadataEntry (add64 (refcountTableOffset q0) (i * 8)) 0 (c * cs) q = (Inl e, q')"
  have "image_ok q" using k keptD(1) by blast
  then have "sane e \<and> \<not> healthy q \<and> (writeFault q' \<noteq> None \<or> (kept q q' \<and> fits q' lo \<and> lo \<le> fsize (hfile q')))"
    using write_entry_step [of q lo c i "Inl e" q'] k r shape_fields [of q0 q] assms by simp
  then show "restorable q0 lo e q'" using k keptD(4) kept_trans unfolding restorable_def by blast
qed

lemma hoare_publish_block:
  assumes "cs = clusterSize q0" "n = refcountBlockEntries q0"
  shows "hoare (entry_written q0 lo c)
    (modify (\<lambda>q. cacheRefcountBlock (c * cs) (new_refcount_block cs (c mod n))
       (q\<lparr>refcountTable := (refcountTable q)[c div n := c * cs]\<rparr>)))
    (\<lambda>_ q. kept q0 q \<and> grow q ((c + 1) * cs) (c + 1) \<and> covered q c) E"
proof (rule hoare_pre [OF hoare_modify])
  fix s assume "entry_written q0 lo c s"
  then obtain p f where p: "kept q0 p" "block_written p lo c" "s = p\<lparr>hfile := f\<rparr>" "healthy p \<longrightarrow> script f = []"
    "same_data f (store_bytes (refcountTableOffset q0 + 8 * (c div n)) (put_be 8 (c * cs)) (hfile p))"
    using assms unfolding entry_written_def by blast
  note S = shape_fields [OF p(1)]
  let ?q = "cacheRefcountBlock (c * cs) (new_refcount_block cs (c mod n)) (s\<lparr>refcountTable := (refcountTable s)[c div n := c * cs]\<rparr>)"
  have "kept p ?q \<and> grow ?q ((c + 1) * cs) (c + 1) \<and> covered ?q c"
    using block_written_published [OF keptD(1) [OF p(1)] p(2), of "c div n" f ?q] p(3-5) assms by (simp add: S)
  then show "kept q0 ?q \<and> grow ?q ((c + 1) * cs) (c + 1) \<and> covered ?q c" using kept_trans [OF p(1)] by blast
qed

lemma hoare_recover:
  assumes "lo < 2 ^ 63"
  shows "hoare (restorable q0 lo e) (andthen (gets writeFault) (\<lambda>fault.
    if fault \<noteq> None then fail e else truncate_or_disable lo e)) Q (failed q0)"
proof (rule hoare_andthen [where R = "\<lambda>fault q. restorable q0 lo e q \<and> writeFault q = fault"])
  show "hoare (restorable q0 lo e) (gets writeFault) (\<lambda>fault q. restorable q0 lo e q \<and> writeFault q = fault) (failed q0)"
    by (rule hoare_pre [OF hoare_gets]) simp
  show "hoare (\<lambda>q. restorable q0 lo e q \<and> writeFault q = fault)
      (if fault \<noteq> None then fail e else truncate_or_disable lo e) Q (failed q0)" for fault
    by (rule hoare_if; rule hoare_pre, rule hoare_fail truncate_or_disable_hoare [OF assms])
      (auto simp: restorable_def failed_def)
qed

lemma appendRefcountBlock_hoare:
  assumes ok: "image_ok q0" and lo: "lo < 2 ^ 63"
  shows "hoare (\<lambda>q. kept q0 q \<and> grow q lo c \<and> uncovered q c) (appendRefcountBlock (c * clusterSize q0) lo)
    (\<lambda>_ q. kept q0 q \<and> grow q ((c + 1) * clusterSize q0) (c + 1) \<and> covered q c) (failed q0)"
proof (rule hoare_cong)
  let ?cs = "clusterSize q0" and ?n = "refcountBlockEntries q0"
  note M = mult_cluster [OF image_okD(1) [OF ok]]
  let ?block = "new_refcount_block ?cs (c mod ?n)"
  fix q assume "kept q0 q \<and> grow q lo c \<and> uncovered q c"
  then show "appendRefcountBlock (c * ?cs) lo q =
    handle (writeMetadata ?block (c * ?cs))
      (\<lambda>err. truncate_or_disable lo (QWrap ''append refcount block'' err))
      (\<lambda>_. handle (writeMetadataEntry (add64 (refcountTableOffset q0) (c div ?n * 8)) 0 (c * ?cs))
         (\<lambda>err. andthen (gets writeFault) (\<lambda>fault.
            if fault \<noteq> None then fail err else truncate_or_disable lo err))
         (\<lambda>_. modify (\<lambda>q. cacheRefcountBlock (c * ?cs) ?block
            (q\<lparr>refcountTable := (refcountTable q)[c div ?n := c * ?cs]\<rparr>)))) q"
    using shape_fields [of q0 q] M(1) by (simp add: appendRefcountBlock_def Let_def)
next
  show "hoare (\<lambda>q. kept q0 q \<and> grow q lo c \<and> uncovered q c)
    (handle (writeMetadata (new_refcount_block (clusterSize q0) (c mod refcountBlockEntries q0)) (c * clusterSize q0))
      (\<lambda>err. truncate_or_disable lo (QWrap ''append refcount block'' err))
      (\<lambda>_. handle (writeMetadataEntry (add64 (refcountTableOffset q0) (c div refcountBlockEntries q0 * 8)) 0 (c * clusterSize q0))
         (\<lambda>err. andthen (gets writeFault) (\<lambda>fault.
            if fault \<noteq> None then fail err else truncate_or_disable lo err))
         (\<lambda>_. modify (\<lambda>q. cacheRefcountBlock (c * clusterSize q0)
            (new_refcount_block (clusterSize q0) (c mod refcountBlockEntries q0))
            (q\<lparr>refcountTable := (refcountTable q)[c div refcountBlockEntries q0 := c * clusterSize q0]\<rparr>)))))
    (\<lambda>_ q. kept q0 q \<and> grow q ((c + 1) * clusterSize q0) (c + 1) \<and> covered q c) (failed q0)"
    by (rule hoare_handle [OF hoare_write_block [OF refl refl]],
        rule hoare_handle [OF hoare_write_entry [OF refl refl] hoare_publish_block [OF refl refl] hoare_recover [OF lo]],
        rule hoare_pre [OF truncate_or_disable_hoare [OF lo]]) auto
qed

end
