(* ===== verification/Qcow2_Cluster.thy ===== *)
theory Qcow2_Cluster
  imports Qcow2_Grow
begin

text \<open>
  \<^verbatim>\<open>allocateCluster\<close> and \<^verbatim>\<open>rollbackNewCluster\<close>. An allocation appends the missing
  refcount blocks, then one zeroed cluster, and records its refcount. The two
  loops end after at most three rounds, so the fuel of the model is enough.
\<close>

section \<open>Definitions\<close>

definition rounds :: "qcow2Image \<Rightarrow> nat \<Rightarrow> nat" where
  "rounds q c = (if \<not> uncovered q c then 1
     else if c mod refcountBlockEntries q = refcountBlockEntries q - 1 then 3 else 2)"

text \<open>A cluster that an allocation returned and that no table refers to yet.\<close>

definition fresh :: "qcow2Image \<Rightarrow> nat \<Rightarrow> bool" where
  "fresh q c \<longleftrightarrow> free q (c * clusterSize q) c \<and> disk_refcount q c = 1 \<and> c * clusterSize q < 2 ^ 56 \<and> c \<noteq> 0"

section \<open>Lemmas\<close>

lemma next_region:
  fixes n :: nat assumes "1 < n"
  shows "c mod n \<noteq> n - 1 \<Longrightarrow> (c + 1) div n = c div n" "c mod n = n - 1 \<Longrightarrow> (c + 1) mod n = 0"
    "(c + 1) div n \<noteq> c div n \<Longrightarrow> (c + 1) mod n = 0"
proof -
  have m: "c mod n < n" using assms by simp
  show a: "(c + 1) div n = c div n" if "c mod n \<noteq> n - 1"
    using that m chunk_same_cluster(1) [of n 1 c] by linarith
  show b: "(c + 1) mod n = 0" if "c mod n = n - 1"
    using that assms by (simp add: mod_Suc)
  show "(c + 1) mod n = 0" if "(c + 1) div n \<noteq> c div n" using a b that by blast
qed

lemma refcountLocation_outcome:
  assumes "image_ok q"
  shows "refcountLocation (c * clusterSize q) q =
    (if c div refcountBlockEntries q < length (refcountTable q)
     then Inr (refcountTable q ! (c div refcountBlockEntries q), c mod refcountBlockEntries q, covered q c)
     else Inl (QErr ''refcount table is too small''))"
  using refcountLocation_eq [OF assms, of "c * clusterSize q"] mult_cluster [OF image_okD(1) [OF assms], of c]
  by (auto simp: covered_def Let_def refcountLocation_def)

lemma append_capacity_full:
  assumes ok: "image_ok q"
  shows "append_capacity fuel (c * clusterSize q) q = Some e \<Longrightarrow>
    (if c mod refcountBlockEntries q = refcountBlockEntries q - 1 then 2 else 1) \<le> fuel \<Longrightarrow> full e"
proof (induction fuel arbitrary: c)
  case (Suc fuel)
  let ?n = "refcountBlockEntries q"
  note M = mult_cluster [OF image_okD(1) [OF ok]]
  have n: "1 < ?n" using geometry_cs(7) [OF image_okD(1) [OF ok]] by linarith
  note R = refcountLocation_outcome [OF ok, of c]
  show ?case
  proof (cases "full e")
    case False
    have nx: "c * clusterSize q + clusterSize q = (c + 1) * clusterSize q" by simp
    have rec: "append_capacity fuel ((c + 1) * clusterSize q) q = Some e" "(c + 1) div ?n \<noteq> c div ?n"
      using Suc.prems(1) False M(1) [of c] M(1) [of "c + 1"] unfolding nx [symmetric]
      by (auto simp: R full_def Let_def split: if_splits)
    have "c mod ?n = ?n - 1" "(c + 1) mod ?n = 0" using rec(2) next_region [OF n, of c] by auto
    then show ?thesis using Suc.IH [OF rec(1)] Suc.prems(2) n by (simp split: if_splits)
  qed simp
qed (simp split: if_splits)

lemma rounds_next:
  assumes "geometry q" "covered q c"
    "(if c mod refcountBlockEntries q = refcountBlockEntries q - 1 then 3 else 2) \<le> Suc fuel"
  shows "rounds q (c + 1) \<le> fuel"
proof -
  let ?n = "refcountBlockEntries q"
  have n: "1 < ?n" using geometry_cs(7) [OF assms(1)] by linarith
  show ?thesis
  proof (cases "c mod ?n = ?n - 1")
    case True
    then have "(c + 1) mod ?n = 0" using next_region(2) [OF n] by blast
    then show ?thesis using assms(3) True n by (auto simp: rounds_def split: if_splits)
  next
    case False
    then have "(c + 1) div ?n = c div ?n" using next_region(1) [OF n] by blast
    then have "\<not> uncovered q (c + 1)" using assms(2) by (simp add: covered_def uncovered_def)
    then show ?thesis using assms(3) False by (auto simp: rounds_def split: if_splits)
  qed
qed

lemma append_blocks_hoare:
  assumes ok: "image_ok q0"
  shows "lo < 2 ^ 63 \<Longrightarrow> hoare (\<lambda>q. kept q0 q \<and> grow q lo c \<and> rounds q c \<le> fuel)
    (append_blocks fuel (c * clusterSize q0) lo)
    (\<lambda>(off, old) q. kept q0 q \<and> (\<exists>c. off = c * clusterSize q0 \<and> grow q old c \<and> covered q c)) (failed q0)"
proof (induction fuel arbitrary: c lo)
  case 0
  then show ?case by (auto simp: hoare_def rounds_def)
next
  case (Suc fuel)
  let ?cs = "clusterSize q0" and ?n = "refcountBlockEntries q0"
  let ?Q = "\<lambda>(off, old) q. kept q0 q \<and> (\<exists>c. off = c * ?cs \<and> grow q old c \<and> covered q c)"
  let ?R = "\<lambda>(b :: nat, j :: nat, ex) q. kept q0 q \<and> grow q lo c \<and> rounds q c \<le> Suc fuel \<and>
      (if ex then covered q c else uncovered q c)"
  have loc: "hoare (\<lambda>q. kept q0 q \<and> grow q lo c \<and> rounds q c \<le> Suc fuel) (inspect (refcountLocation (c * ?cs))) ?R (failed q0)"
  proof (rule hoare_pre [OF hoare_inspect])
    fix q assume q: "kept q0 q \<and> grow q lo c \<and> rounds q c \<le> Suc fuel"
    then show "case refcountLocation (c * ?cs) q of Inl e \<Rightarrow> failed q0 e q | Inr x \<Rightarrow> ?R x q"
      using refcountLocation_outcome [OF keptD(1) [of q0 q], of c] shape_fields [of q0 q]
      by (auto simp: covered_def uncovered_def full_def intro!: failed_kept)
  qed
  have rec: "hoare (\<lambda>q. kept q0 q \<and> grow q lo c \<and> rounds q c \<le> Suc fuel \<and> uncovered q c)
      (andthen (appendRefcountBlock (c * ?cs) lo) (\<lambda>_. andthen (gets clusterSize) (\<lambda>cs.
         append_blocks fuel (add64 (c * ?cs) cs) (add64 (c * ?cs) cs)))) ?Q (failed q0)"
  proof (rule hoare_fact)
    let ?F = "(if c mod ?n = ?n - 1 then 3 else 2) \<le> Suc fuel \<and> c div ?n < length (refcountTable q0)"
    show ?F if "kept q0 q \<and> grow q lo c \<and> rounds q c \<le> Suc fuel \<and> uncovered q c" for q
      using that shape_fields [of q0 q] by (auto simp: rounds_def uncovered_def split: if_splits)
    assume F: ?F
    have top: "(c + 1) * ?cs < 2 ^ 63" using reach [OF image_okD(1) [OF ok], of c] F by simp
    then have add: "add64 (c * ?cs) ?cs = (c + 1) * ?cs" by (simp add: add64_id)
    have app: "hoare (\<lambda>q. kept q0 q \<and> grow q lo c \<and> rounds q c \<le> Suc fuel \<and> uncovered q c)
        (appendRefcountBlock (c * ?cs) lo)
        (\<lambda>_ q. kept q0 q \<and> grow q ((c + 1) * ?cs) (c + 1) \<and> rounds q (c + 1) \<le> fuel) (failed q0)"
      by (rule hoare_weaken [OF appendRefcountBlock_hoare [OF ok Suc.prems]])
        (use F rounds_next keptD(1) image_okD(1) shape_fields in \<open>auto simp del: One_nat_def\<close>)
    show "hoare (\<lambda>q. kept q0 q \<and> grow q lo c \<and> rounds q c \<le> Suc fuel \<and> uncovered q c)
        (andthen (appendRefcountBlock (c * ?cs) lo) (\<lambda>_. andthen (gets clusterSize) (\<lambda>cs.
           append_blocks fuel (add64 (c * ?cs) cs) (add64 (c * ?cs) cs)))) ?Q (failed q0)"
    proof (rule hoare_andthen [OF app])
      show "hoare (\<lambda>q. kept q0 q \<and> grow q ((c + 1) * ?cs) (c + 1) \<and> rounds q (c + 1) \<le> fuel)
          (andthen (gets clusterSize) (\<lambda>cs. append_blocks fuel (add64 (c * ?cs) cs) (add64 (c * ?cs) cs))) ?Q (failed q0)"
        by (rule hoare_gets_const) (auto simp only: shape_fields add intro: Suc.IH [OF top])
    qed
  qed
  show ?case unfolding append_blocks.simps
    by (rule hoare_andthen [OF loc]) (auto intro!: hoare_if intro: rec hoare_pre [OF hoare_ret] split: prod.splits)
qed

text \<open>The new cluster: the file grows by it, and its bytes are zero.\<close>

lemma grow_truncate:
  assumes ok: "image_ok q" and g: "grow q lo c" "covered q c"
    and f: "same_data f (resize ((c + 1) * clusterSize q) (hfile q))" "healthy q \<longrightarrow> script f = []"
  shows "kept q (q\<lparr>hfile := f\<rparr>)" "free (q\<lparr>hfile := f\<rparr>) lo c"
proof -
  note D = image_okD [OF ok] and G = g(1) [unfolded grow_def]
  have cs: "0 < clusterSize q" using geometry_cs(1) [OF D(1)] by linarith
  have top: "(c + 1) * clusterSize q < 2 ^ 63"
    using reach [OF D(1), of c] g(2) by (simp add: covered_def)
  have fs: "fsize f = (c + 1) * clusterSize q" using f(1) by (simp add: same_data_def)
  have lo: "lo \<le> c * clusterSize q" using G by linarith
  have le: "lo \<le> fsize f" "fsize f < 2 ^ 63" using fs lo top by auto
  have same: "fbytes f x = fbytes (hfile q) x" if "x < lo" for x
    using f(1) that G lo by (auto simp: same_data_def intro!: fbytes_resize)
  have lo1: "fits q lo" using G by blast
  note A = above_frame [OF ok lo1 le same f(2)]
  show "kept q (q\<lparr>hfile := f\<rparr>)" using A(1) by simp
  have "fbytes f x = 0" if "in_cluster q c x" for x
    using that f(1) G by (auto simp: same_data_def in_cluster_def intro!: fbytes_resize_grown)
  moreover have "\<not> owned q c" using fits_unowned [OF lo1 lo cs] .
  ultimately show "free (q\<lparr>hfile := f\<rparr>) lo c"
    using A(2) lo1 lo g(2) fs by (simp add: free_def owned_def covered_def fits_def in_cluster_def)
qed

lemma hoare_grow:
  assumes ok: "image_ok q0" and top: "(c + 1) * clusterSize q0 < 2 ^ 63"
  shows "hoare (\<lambda>q. kept q0 q \<and> grow q lo c \<and> covered q c) (on_file (fTruncate (add64 (c * clusterSize q0) (clusterSize q0))))
    (\<lambda>_ q. kept q0 q \<and> free q lo c \<and> fsize (hfile q) = (c + 1) * clusterSize q0) (failed q0)"
proof -
  let ?cs = "clusterSize q0"
  have add: "add64 (c * ?cs) ?cs = (c + 1) * ?cs" using top by (simp add: add64_id)
  show ?thesis unfolding add
  proof (rule hoareI)
    fix q x q' assume q: "kept q0 q \<and> grow q lo c \<and> covered q c" and r: "on_file (fTruncate ((c + 1) * ?cs)) q = (Inr x, q')"
    from r top show "kept q0 q' \<and> free q' lo c \<and> fsize (hfile q') = (c + 1) * ?cs"
    proof (cases rule: fTruncate_cases)
      case (Ok f)
      then have "kept q q'" "free q' lo c"
        using grow_truncate [of q lo c f] q keptD(1) [of q0 q] shape_fields(1) [of q0 q] by (auto simp: healthy_def)
      moreover have "fsize (hfile q') = (c + 1) * ?cs" using Ok by (simp add: same_data_def)
      ultimately show ?thesis using q kept_trans by blast
    qed simp
  next
    fix q e q' assume q: "kept q0 q \<and> grow q lo c \<and> covered q c" and r: "on_file (fTruncate ((c + 1) * ?cs)) q = (Inl e, q')"
    from r top show "failed q0 e q'"
    proof (cases rule: fTruncate_cases)
      case (Err f e')
      have ok: "image_ok q" using q keptD(1) by blast
      have "kept q q'" unfolding Err(2)
        using above_frame(1) [OF ok fits_fsize [OF ok], of f] Err(3,5) image_okD(8) [OF ok] by (simp add: same_data_def)
      then show ?thesis using q Err keptD(4) [of q0 q] by (auto intro!: failed_kept intro: kept_trans)
    qed simp
  qed
qed

lemma free_mono: "free q lo c \<Longrightarrow> free q (c * clusterSize q) c"
  using fits_mono by (auto simp: free_def)

text \<open>Recording the refcount of the new cluster, with the recovery of the source.\<close>

lemma hoare_count_new:
  assumes ok: "image_ok q0" and lo: "lo < 2 ^ 63" and c: "c * clusterSize q0 < 2 ^ 56"
  shows "hoare (\<lambda>q. kept q0 q \<and> free q lo c \<and> fsize (hfile q) = sz)
    (handle (setRefcount (c * clusterSize q0) 1)
       (\<lambda>err. handle (setRefcount (c * clusterSize q0) 0)
          (\<lambda>restoreErr. disableWrites (QJoin err restoreErr))
          (\<lambda>_. truncate_or_disable lo err))
       (\<lambda>_. ret (c * clusterSize q0)))
    (\<lambda>off q. kept q0 q \<and> (\<exists>c. off = c * clusterSize q0 \<and> fresh q c)) (failed q0)"
proof (rule hoare_handle [OF setRefcount_hoare])
  show "hoare (\<lambda>q. kept q0 q \<and> free q lo c \<and> fsize (hfile q) = sz \<and> disk_refcount q c = 1) (ret (c * clusterSize q0))
      (\<lambda>off q. kept q0 q \<and> (\<exists>c. off = c * clusterSize q0 \<and> fresh q c)) (failed q0)" for x :: unit
  proof (rule hoare_pre [OF hoare_ret])
    fix q assume q: "kept q0 q \<and> free q lo c \<and> fsize (hfile q) = sz \<and> disk_refcount q c = 1"
    have "0 < clusterSize q" using q geometry_cs(1) [OF image_okD(1) [OF keptD(1) [of q0 q]]] by linarith
    then have "c \<noteq> 0" using fits_pos [of q lo c] q by (simp add: free_def)
    then show "kept q0 q \<and> (\<exists>c'. c * clusterSize q0 = c' * clusterSize q0 \<and> fresh q c')"
      using q c shape_fields(1) [of q0 q] free_mono [of q lo c] by (auto simp: fresh_def)
  qed
next
  let ?F = "\<lambda>e q. kept q0 q \<and> (free q lo c \<and> fsize (hfile q) = sz) \<and> sane e \<and> \<not> healthy q0"
  show "hoare (?F err) (handle (setRefcount (c * clusterSize q0) 0)
      (\<lambda>restoreErr. disableWrites (QJoin err restoreErr)) (\<lambda>_. truncate_or_disable lo err))
      (\<lambda>off q. kept q0 q \<and> (\<exists>c. off = c * clusterSize q0 \<and> fresh q c)) (failed q0)" for err
  proof (cases "sane err \<and> \<not> healthy q0")
    case True
    show ?thesis
      by (rule hoare_pre, rule hoare_handle [OF setRefcount_hoare [of 0 q0 lo c sz]];
          (rule hoare_pre [OF truncate_or_disable_hoare [OF lo]] hoare_pre [OF disableWrites_failed])?)
        (use True mult_le_mono1 [of c "c + 1"] in \<open>auto simp: free_def intro: le_trans\<close>)
  qed (auto simp: hoare_def)
qed simp

lemma alignUp_cluster:
  assumes "image_ok q" "v < 2 ^ 63"
  shows "\<exists>c. alignUp v (clusterSize q) = c * clusterSize q \<and> v \<le> c * clusterSize q"
proof -
  have cs: "0 < clusterSize q" "v + clusterSize q < 2 ^ 64"
    using geometry_cs(1,2) [OF image_okD(1) [OF assms(1)]] assms(2) by auto
  then have "alignUp v (clusterSize q) = alignUp v (clusterSize q) div clusterSize q * clusterSize q"
    using alignUp_aligned [OF cs(2,1)] by (simp add: mod_0_imp_dvd)
  then show ?thesis using alignUp_ge [OF cs(2,1)] by metis
qed

lemma rounds_le: "rounds q c \<le> 4"
  by (simp add: rounds_def)

lemma hoare_capacity:
  assumes "off = c * clusterSize q0"
  shows "hoare (\<lambda>q. kept q0 q \<and> A q) (\<lambda>q. check (validateAppendCapacity off q) q) (\<lambda>_ q. kept q0 q \<and> A q) (failed q0)"
proof (rule hoareI)
  fix q e q' assume q: "kept q0 q \<and> A q" and r: "check (validateAppendCapacity off q) q = (Inl e, q')"
  then have "append_capacity 3 (c * clusterSize q) q = Some e" "q' = q"
    using shape_fields(1) [of q0 q] assms by (auto simp: check_def ret_def fail_def validateAppendCapacity_def split: option.splits)
  then have "full e" using append_capacity_full [of q 3 c e] q keptD(1) by auto
  then show "failed q0 e q'" using q \<open>q' = q\<close> by (auto intro!: failed_kept simp: full_def)
qed (auto simp: check_def ret_def fail_def split: option.splits)

lemma hoare_new_cluster:
  assumes ok: "image_ok q0"
  shows "hoare (\<lambda>q. kept q0 q \<and> (\<exists>c. off = c * clusterSize q0 \<and> grow q lo c \<and> covered q c))
    (andthen (on_file (fTruncate (add64 off (clusterSize q0)))) (\<lambda>_.
       handle (setRefcount off 1)
         (\<lambda>err. handle (setRefcount off 0)
            (\<lambda>restoreErr. disableWrites (QJoin err restoreErr))
            (\<lambda>_. truncate_or_disable lo err))
         (\<lambda>_. ret off)))
    (\<lambda>off q. kept q0 q \<and> (\<exists>c. off = c * clusterSize q0 \<and> fresh q c)) (failed q0)" (is "hoare _ (?m off) ?Q _")
proof (rule hoare_pre)
  show "hoare (\<lambda>q. \<exists>c. off = c * clusterSize q0 \<and> kept q0 q \<and> grow q lo c \<and> covered q c) (?m off) ?Q (failed q0)"
  proof (rule hoare_ex)
    fix c
    let ?P = "\<lambda>q. off = c * clusterSize q0 \<and> kept q0 q \<and> grow q lo c \<and> covered q c"
    show "hoare ?P (?m off) ?Q (failed q0)"
    proof (rule hoare_fact)
      let ?F = "off = c * clusterSize q0 \<and> lo < 2 ^ 63 \<and> (c + 1) * clusterSize q0 \<le> 2 ^ 56"
      show ?F if "?P q" for q
      proof -
        have k: "image_ok q" "clusterSize q = clusterSize q0" using that keptD(1) shape_fields(1) by blast+
        have "(c + 1) * clusterSize q0 \<le> 2 ^ 56" using reach [OF image_okD(1) [OF k(1)], of c] k(2) that by (simp add: covered_def)
        moreover have "lo < 2 ^ 63" using that image_okD(8) [OF k(1)] by (simp add: grow_def)
        ultimately show ?thesis using that by blast
      qed
      assume F: ?F
      have c: "c * clusterSize q0 < 2 ^ 56" "(c + 1) * clusterSize q0 < 2 ^ 63"
        using F geometry_cs(1) [OF image_okD(1) [OF ok]] by auto
      have off: "off = c * clusterSize q0" and lo: "lo < 2 ^ 63" using F by auto
      show "hoare ?P (?m off) ?Q (failed q0)" unfolding off
        by (rule hoare_pre [OF hoare_andthen [OF hoare_grow [OF ok c(2)] hoare_count_new [OF ok lo c(1)]]]) simp
    qed
  qed
qed blast

lemma allocateCluster_hoare:
  assumes ok: "image_ok q0"
  shows "hoare (kept q0) allocateCluster
    (\<lambda>off q. kept q0 q \<and> (\<exists>c. off = c * clusterSize q0 \<and> fresh q c)) (failed q0)"
  unfolding allocateCluster_def
proof (rule hoare_andthen [where R = "\<lambda>n q. kept q0 q \<and> n = fsize (hfile q)"])
  show "hoare (kept q0) (on_file fStat) (\<lambda>n q. kept q0 q \<and> n = fsize (hfile q)) (failed q0)"
  proof (rule hoare_pre [OF hoare_reads [where A = "\<lambda>_. True" and R = "\<lambda>q n. n = fsize (hfile q)"]])
    show "reads q (on_file fStat) (\<lambda>n. n = fsize (hfile q))" for q by (rule reads_stat) simp
  qed (simp_all add: follows_fields)
next
  fix old
  let ?P = "\<lambda>q. kept q0 q \<and> old = fsize (hfile q)" and ?cs = "clusterSize q0"
  let ?Q = "\<lambda>off q. kept q0 q \<and> (\<exists>c. off = c * ?cs \<and> fresh q c)"
  let ?tail = "\<lambda>cs. andthen (\<lambda>q. check (validateAppendCapacity (alignUp old cs) q) q) (\<lambda>_.
     andthen (append_blocks 4 (alignUp old cs) old) (\<lambda>(offset, oldSize).
     andthen (on_file (fTruncate (add64 offset cs))) (\<lambda>_.
     handle (setRefcount offset 1)
       (\<lambda>err. handle (setRefcount offset 0)
          (\<lambda>restoreErr. disableWrites (QJoin err restoreErr))
          (\<lambda>_. truncate_or_disable oldSize err))
       (\<lambda>_. ret offset))))"
  show "hoare ?P (andthen (gets clusterSize) ?tail) ?Q (failed q0)"
  proof (rule hoare_fact [of _ "old < 2 ^ 63"])
    show "old < 2 ^ 63" if "?P q" for q using that image_okD(8) [OF keptD(1)] by blast
    assume old: "old < 2 ^ 63"
    obtain c where c: "alignUp old ?cs = c * ?cs" "old \<le> c * ?cs" using alignUp_cluster [OF ok old] by blast
    let ?G = "\<lambda>(off, old) q. kept q0 q \<and> (\<exists>c. off = c * ?cs \<and> grow q old c \<and> covered q c)"
    have blocks: "hoare ?P (append_blocks 4 (c * ?cs) old) ?G (failed q0)"
    proof (rule hoare_pre [OF append_blocks_hoare [OF ok old]])
      fix q assume q: "?P q"
      then show "kept q0 q \<and> grow q old c \<and> rounds q c \<le> 4"
        using c(2) rounds_le [of q c] fits_fsize [OF keptD(1)] shape_fields(1) [of q0 q] by (auto simp: grow_def)
    qed
    show "hoare ?P (andthen (gets clusterSize) ?tail) ?Q (failed q0)"
    proof (rule hoare_gets_const)
      show "clusterSize q = ?cs" if "?P q" for q using that shape_fields(1) by blast
      show "hoare ?P (?tail ?cs) ?Q (failed q0)" unfolding c(1)
        by (rule hoare_andthen [OF hoare_capacity [OF refl]], rule hoare_andthen [OF blocks])
          (simp only: split_beta hoare_new_cluster [OF ok])
    qed
  qed
qed

subsection \<open>Giving a new cluster back\<close>

lemma rollbackNewCluster_hoare:
  assumes ok: "image_ok q0" and c: "c * clusterSize q0 < 2 ^ 63"
  shows "hoare (\<lambda>q. sane e \<and> \<not> healthy q0 \<and> (writeFault q \<noteq> None \<or> (kept q0 q \<and> free q (c * clusterSize q) c)))
    (rollbackNewCluster (c * clusterSize q0) e) Q (failed q0)"
  unfolding rollbackNewCluster_def
proof (rule hoare_andthen [where R = "\<lambda>fault q. fault = writeFault q \<and> sane e \<and> \<not> healthy q0 \<and>
    (writeFault q \<noteq> None \<or> (kept q0 q \<and> free q (c * clusterSize q0) c))"], rule hoare_pre [OF hoare_gets])
  fix fault
  let ?lo = "c * clusterSize q0"
  let ?P = "\<lambda>q. fault = writeFault q \<and> sane e \<and> \<not> healthy q0 \<and> (writeFault q \<noteq> None \<or> (kept q0 q \<and> free q ?lo c))"
  show "hoare ?P (if fault \<noteq> None then fail e else handle (setRefcount ?lo 0)
      (\<lambda>err. disableWrites (QJoin e err)) (\<lambda>_. truncate_or_disable ?lo e)) Q (failed q0)"
  proof (rule hoare_if)
    show "hoare ?P (fail e) Q (failed q0)" if "fault \<noteq> None"
      by (rule hoare_pre [OF hoare_fail]) (use that in \<open>auto simp: failed_def\<close>)
    assume n: "\<not> fault \<noteq> None"
    show "hoare ?P (handle (setRefcount ?lo 0) (\<lambda>err. disableWrites (QJoin e err)) (\<lambda>_. truncate_or_disable ?lo e)) Q (failed q0)"
    proof (rule hoare_fact)
      show "sane e \<and> \<not> healthy q0" if "?P q" for q using that by blast
      assume bad: "sane e \<and> \<not> healthy q0"
      have "hoare (\<lambda>q. \<exists>sz. kept q0 q \<and> free q ?lo c \<and> fsize (hfile q) = sz)
          (handle (setRefcount ?lo 0) (\<lambda>err. disableWrites (QJoin e err)) (\<lambda>_. truncate_or_disable ?lo e)) Q (failed q0)"
        by (rule hoare_ex, rule hoare_handle [OF setRefcount_hoare [of 0 q0 ?lo c]];
          (rule hoare_pre [OF truncate_or_disable_hoare [OF c]] hoare_pre [OF disableWrites_failed])?)
          (use bad shape_fields(1) in \<open>auto simp: free_def intro: le_trans\<close>)
      then show ?thesis by (rule hoare_pre) (use n in auto)
    qed
  qed
qed (auto simp: shape_fields(1))

end
