(* ===== verification/Qcow2_Mapping.thy ===== *)
theory Qcow2_Mapping
  imports Qcow2_Cluster
begin

text \<open>
  Changing the two-level mapping: a new L2 table is published in the L1 table, a
  new data cluster in an L2 table, and a cluster that reads as zeros becomes an
  ordinary one. In each case the new pointer appears on disk before memory
  follows, and the guest disk stays the same.
\<close>

section \<open>Lemmas\<close>

subsection \<open>A new L2 table\<close>

lemma copied_entry:
  assumes "geometry q" "c * clusterSize q < 2 ^ 56" "c \<noteq> 0"
  shows "clusterOffset (c * clusterSize q OR qcow2OFlagCopied) = c * clusterSize q"
    "(c * clusterSize q OR qcow2OFlagCopied) AND qcow2OFlagZero = 0"
    "c * clusterSize q OR qcow2OFlagCopied < 2 ^ 64"
    "validateL2Entry (c * clusterSize q OR qcow2OFlagCopied) q = None"
    "c * clusterSize q OR qcow2OFlagCopied \<noteq> 0"
proof -
  have a: "c * clusterSize q mod 2 ^ 9 = 0" using mod_512_of_cs [OF assms(1) mult_cluster(2) [OF assms(1)]] .
  show co: "clusterOffset (c * clusterSize q OR qcow2OFlagCopied) = c * clusterSize q"
    using clusterOffset_copied [OF assms(2) a] .
  note F = copied_flags [OF assms(2) a]
  show "(c * clusterSize q OR qcow2OFlagCopied) AND qcow2OFlagZero = 0" using F(1) .
  show "c * clusterSize q OR qcow2OFlagCopied < 2 ^ 64" using copied_less [OF assms(2)] .
  have nz: "c * clusterSize q \<noteq> 0" using assms(3) geometry_cs(1) [OF assms(1)] by simp
  then show "validateL2Entry (c * clusterSize q OR qcow2OFlagCopied) q = None"
    using F co by (simp add: validateL2Entry_def)
  have "clusterOffset 0 = 0" by (simp add: clusterOffset_def)
  then show "c * clusterSize q OR qcow2OFlagCopied \<noteq> 0" using co nz by metis
qed

definition l2tab_published :: "qcow2Image \<Rightarrow> nat \<Rightarrow> nat \<Rightarrow> hostfile \<Rightarrow> qcow2Image \<Rightarrow> bool" where
  "l2tab_published q i c f q1 \<longleftrightarrow> i < length (l1 q) \<and> l1 q ! i = 0 \<and> fresh q c \<and>
     same_data f (store_bytes (l1TableOffset q + 8 * i) (put_be 8 (c * clusterSize q OR qcow2OFlagCopied)) (hfile q)) \<and>
     q1 = q\<lparr>hfile := f, l1 := (l1 q)[i := c * clusterSize q OR qcow2OFlagCopied]\<rparr>"

lemma l2tab_published_fields:
  assumes "l2tab_published q i c f q1"
  shows "clusterSize q1 = clusterSize q" "l2Entries q1 = l2Entries q" "hfile q1 = f"
    "l1 q1 = (l1 q)[i := c * clusterSize q OR qcow2OFlagCopied]" "refcountTable q1 = refcountTable q"
    "refcountBlockEntries q1 = refcountBlockEntries q" "l1TableOffset q1 = l1TableOffset q"
    "refcountTableOffset q1 = refcountTableOffset q" "imgSize q1 = imgSize q" "version q1 = version q"
    "l2Cache q1 = l2Cache q" "refcountCache q1 = refcountCache q" "refcountBlocks q1 = refcountBlocks q"
    "refcountCacheNext q1 = refcountCacheNext q" "writeFault q1 = writeFault q"
    "i < length (l1 q)" "l1 q ! i = 0" "fresh q c"
  using assms by (auto simp: l2tab_published_def)

lemma freshD:
  assumes "fresh q c"
  shows "\<not> owned q c" "(c + 1) * clusterSize q \<le> fsize (hfile q)" "c * clusterSize q < 2 ^ 56" "c \<noteq> 0"
    "disk_refcount q c = 1" "\<And>x. in_cluster q c x \<Longrightarrow> fbytes (hfile q) x = 0" "fits q (c * clusterSize q)" "covered q c"
  using assms by (auto simp: fresh_def free_def)

lemma l2tab_published_file:
  assumes "image_ok q" "l2tab_published q i c f q1"
  shows "\<exists>k. only_slot q (L1Reg k) f" "\<And>x. in_cluster q c x \<Longrightarrow> fbytes f x = 0"
proof -
  note P = assms(2) [unfolded l2tab_published_def]
  have i: "i < length (l1 q)" and fr: "fresh q c" and
    f: "same_data f (store_bytes (l1TableOffset q + 8 * i) (put_be 8 (c * clusterSize q OR qcow2OFlagCopied)) (hfile q))"
    using P by blast+
  obtain k d where kd: "target q (L1Reg k) = Some d" "in_cluster q d (l1TableOffset q + 8 * i)"
      "in_cluster q d (l1TableOffset q + 8 * i + 7)"
    using l1_entry_slot [OF image_okD(1) [OF assms(1)] i] by blast
  show "\<exists>k. only_slot q (L1Reg k) f" using store_entry_slot(1) [OF assms(1) kd f] by blast
  show "fbytes f x = 0" if "in_cluster q c x" for x
    using store_entry_slot(2) [OF assms(1) kd f freshD(1,2) [OF fr] that] freshD(6) [OF fr that] by simp
qed

lemma l2tab_published_views:
  assumes ok: "image_ok q" and p: "l2tab_published q i c f q1"
  shows "l2_off q1 i = c * clusterSize q" "\<And>i'. i' \<noteq> i \<Longrightarrow> l2_off q1 i' = l2_off q i'"
    "\<And>j. j < l2Entries q \<Longrightarrow> l2_entry q1 i j = 0"
    "\<And>i' j. i' < length (l1 q) \<Longrightarrow> l1 q ! i' \<noteq> 0 \<Longrightarrow> j < l2Entries q \<Longrightarrow> l2_entry q1 i' j = l2_entry q i' j"
    "target q1 = (target q)(L2Tab i := Some c)"
proof -
  note D = image_okD [OF ok] and sel = l2tab_published_fields [OF p]
  note fr = freshD [OF sel(18)] and G = geometry_cs [OF D(1)] and M = mult_cluster [OF D(1)]
  note E = copied_entry [OF D(1) fr(3,4)]
  obtain k where only: "only_slot q (L1Reg k) f" using l2tab_published_file(1) [OF ok p] by blast
  show o: "l2_off q1 i = c * clusterSize q" using E(1) sel(16) by (simp add: l2_off_def sel)
  show o': "l2_off q1 i' = l2_off q i'" if "i' \<noteq> i" for i' using that by (simp add: l2_off_def sel)
  show z: "l2_entry q1 i j = 0" if "j < l2Entries q" for j
  proof -
    have "bytes_at f (c * clusterSize q + 8 * j) 8 = replicate 8 0"
      using l2tab_published_file(2) [OF ok p] that G(4) by (intro nth_equalityI) (auto simp: M(3))
    then show ?thesis by (simp add: l2_entry_def o sel)
  qed
  show e: "l2_entry q1 i' j = l2_entry q i' j" if "i' < length (l1 q)" "l1 q ! i' \<noteq> 0" "j < l2Entries q" for i' j
  proof -
    have "i' \<noteq> i" using that(2) sel(17) by auto
    then show ?thesis using only_slot_l2_entry [OF only D(1,2) that(1,2) _ that(3)] o' by (simp add: l2_entry_def sel)
  qed
  show "target q1 = (target q)(L2Tab i := Some c)"
  proof
    fix s show "target q1 s = ((target q)(L2Tab i := Some c)) s"
    proof (cases s)
      case (L2Tab i')
      then show ?thesis using o o' E(5) M(1) sel(16) by (cases "i' = i") (auto simp: sel)
    next
      case (Data i' j)
      then show ?thesis using z e sel(16,17) by (cases "i' = i") (auto simp: sel clusterOffset_def)
    qed (auto simp: sel l1_clusters_def rt_clusters_def)
  qed
qed

lemma l2tab_published_guest:
  assumes ok: "image_ok q" and p: "l2tab_published q i c f q1"
  shows "same_guest q q1" "same_shape q q1"
proof -
  note D = image_okD [OF ok] and sel = l2tab_published_fields [OF p] and V = l2tab_published_views [OF ok p]
  obtain k where only: "only_slot q (L1Reg k) f" using l2tab_published_file(1) [OF ok p] by blast
  show "same_shape q q1" by (simp add: same_shape_def sel)
  show "same_guest q q1" unfolding same_guest_def
  proof (intro allI impI)
    fix x assume x: "x < imgSize q"
    note I = guest_index [OF D(1) x]
    have e: "guest_entry q1 (x div clusterSize q) = guest_entry q (x div clusterSize q)"
      using V(3) [OF I(2)] V(4) [OF I(1) _ I(2)] sel(16,17) I(1)
      by (cases "x div clusterSize q div l2Entries q = i") (auto simp: guest_entry_def sel Let_def)
    show "guest_byte q1 x = guest_byte q x"
      using only_slot_guest [OF only ok x] e by (auto simp: guest_byte_def sel Let_def)
  qed
qed

lemma l2tab_published_ok:
  assumes ok: "image_ok q" and p: "l2tab_published q i c f q1"
  shows "image_ok q1"
proof -
  note D = image_okD [OF ok] and sel = l2tab_published_fields [OF p] and V = l2tab_published_views [OF ok p]
  note fr = freshD [OF sel(18)] and M = mult_cluster [OF D(1)]
  note E = copied_entry [OF D(1) fr(3,4)]
  obtain k where only: "only_slot q (L1Reg k) f" using l2tab_published_file(1) [OF ok p] by blast
  then have fs: "fsize f = fsize (hfile q)" by (simp add: only_slot_def)
  have "geometry q1 = geometry q" by (simp add: geometry_def sel)
  then have geo: "geometry q1" using D(1) by simp
  have nz: "c * clusterSize q \<noteq> 0" using fr(4) geometry_cs(1) [OF D(1)] by simp
  have "l2_off q1 i' \<noteq> 0 \<and> l2_off q1 i' mod clusterSize q = 0 \<and> (\<forall>j < l2Entries q.
      validateL2Entry (l2_entry q1 i' j) q1 = None \<and> clusterOffset (l2_entry q1 i' j) mod clusterSize q = 0)"
    if "i' < length (l1 q)" "l1 q1 ! i' \<noteq> 0" for i'
  proof (cases "i' = i")
    case True
    then show ?thesis using V(1,3) nz M(2) by (simp add: validateL2Entry_def clusterOffset_def)
  next
    case False
    then have "l1 q ! i' \<noteq> 0" using that(2) by (simp add: sel)
    then show ?thesis using D(2) that(1) V(2) [OF False] V(4) [OF that(1)]
      by (simp add: entries_ok_def validateL2Entry_def sel)
  qed
  then have ent: "entries_ok q1" using D(2) by (simp add: entries_ok_def sel(1,2,5)) (simp add: sel)
  have "tbl (hfile q) (l1TableOffset q) (length (l1 q)) = l1 q" using D(3) by (simp add: tables_on_disk_def)
  then have "tbl f (l1TableOffset q) (length (l1 q)) = (l1 q)[i := c * clusterSize q OR qcow2OFlagCopied]"
    using tbl_store [OF _ sel(16) E(3) l1_inside [OF ok sel(16)]] p by (simp add: l2tab_published_def)
  then have tab: "tables_on_disk q1"
    using only_slot_rt [OF only D(1)] D(3) by (simp add: tables_on_disk_def sel)
  have rc: "disk_refcount q1 c' = disk_refcount q c'" for c'
    using only_slot_refcount [OF only D(1,2), of c'] by (simp add: disk_refcount_def sel)
  have slots: "slots_ok q1"
    by (rule slots_ok_publish [OF D(4) V(5) fr(1,2)]) (simp_all add: sel fs rc fr(5) del: One_nat_def)
  have l2: "l2_cache_ok q1" unfolding l2_cache_ok_def
  proof (intro allI impI)
    fix i' t assume "l2Cache q1 i' = Some t"
    then have c: "i' < length (l1 q)" "l1 q ! i' \<noteq> 0" "t = tbl (hfile q) (l2_off q i') (l2Entries q)"
      using D(5) by (auto simp: l2_cache_ok_def sel)
    then have "i' \<noteq> i" using sel(17) by auto
    then show "i' < length (l1 q1) \<and> l1 q1 ! i' \<noteq> 0 \<and> t = tbl (hfile q1) (l2_off q1 i') (l2Entries q1)"
      using c V(2) only_slot_l2 [OF only D(1,2) c(1,2)] by (simp add: sel)
  qed
  have "rc_cache_ok q1"
    by (rule rc_cache_okI) (use only_slot_rc_cache [OF only D(2) _ D(6)] rc_cacheD [OF D(6)] rc_cache_room [OF D(6)] in
      \<open>auto simp: sel\<close>)
  then show ?thesis using geo ent tab slots l2 D(7,8) fs by (simp add: image_ok_def sel)
qed

subsection \<open>An L2 entry\<close>

text \<open>
  Entry \<open>j\<close> of L2 table \<open>i\<close>, which so far reads as zeros, now refers to the
  zeroed cluster \<open>c\<close>: either a fresh one, or the one the entry already had.
\<close>

definition l2_entry_set :: "qcow2Image \<Rightarrow> nat \<Rightarrow> nat \<Rightarrow> nat \<Rightarrow> hostfile \<Rightarrow> qcow2Image \<Rightarrow> bool" where
  "l2_entry_set q i j c f q1 \<longleftrightarrow> i < length (l1 q) \<and> l1 q ! i \<noteq> 0 \<and> j < l2Entries q \<and>
     (clusterOffset (l2_entry q i j) = 0 \<or> l2_entry q i j AND qcow2OFlagZero \<noteq> 0) \<and>
     (fresh q c \<and> clusterOffset (l2_entry q i j) = 0 \<or> target q (Data i j) = Some c) \<and>
     (\<forall>x. in_cluster q c x \<longrightarrow> fbytes (hfile q) x = 0) \<and> c * clusterSize q < 2 ^ 56 \<and> c \<noteq> 0 \<and>
     same_data f (store_bytes (l2_off q i + 8 * j) (put_be 8 (c * clusterSize q OR qcow2OFlagCopied)) (hfile q)) \<and>
     q1 = q\<lparr>hfile := f, l2Cache := (l2Cache q)(i \<mapsto>
       (tbl (hfile q) (l2_off q i) (l2Entries q))[j := c * clusterSize q OR qcow2OFlagCopied])\<rparr>"

lemma l2_entry_set_fields:
  assumes "l2_entry_set q i j c f q1"
  shows "clusterSize q1 = clusterSize q" "l2Entries q1 = l2Entries q" "hfile q1 = f"
    "l1 q1 = l1 q" "refcountTable q1 = refcountTable q"
    "refcountBlockEntries q1 = refcountBlockEntries q" "l1TableOffset q1 = l1TableOffset q"
    "refcountTableOffset q1 = refcountTableOffset q" "imgSize q1 = imgSize q" "version q1 = version q"
    "l2Cache q1 = (l2Cache q)(i \<mapsto> (tbl (hfile q) (l2_off q i) (l2Entries q))[j := c * clusterSize q OR qcow2OFlagCopied])"
    "refcountCache q1 = refcountCache q" "refcountBlocks q1 = refcountBlocks q"
    "refcountCacheNext q1 = refcountCacheNext q" "writeFault q1 = writeFault q" "l2_off q1 = l2_off q"
    "i < length (l1 q)" "l1 q ! i \<noteq> 0" "j < l2Entries q" "c * clusterSize q < 2 ^ 56" "c \<noteq> 0"
  using assms by (auto simp: l2_entry_set_def l2_off_def)

lemma l2_entry_slot:
  assumes "image_ok q" "i < length (l1 q)" "l1 q ! i \<noteq> 0" "j < l2Entries q"
  shows "target q (L2Tab i) = Some (l2_off q i div clusterSize q)"
    "in_cluster q (l2_off q i div clusterSize q) (l2_off q i + 8 * j)"
    "in_cluster q (l2_off q i div clusterSize q) (l2_off q i + 8 * j + 7)"
    "l2_off q i + 8 * l2Entries q \<le> fsize (hfile q)"
  using l2_range [OF assms(1-3)] geometry_cs(4) [OF image_okD(1) [OF assms(1)]] assms(4)
  by (auto intro!: in_cluster_offset simp del: target.simps)

lemma l2_entry_set_file:
  assumes ok: "image_ok q" and p: "l2_entry_set q i j c f q1"
  shows "only_slot q (L2Tab i) f" "\<And>x. in_cluster q c x \<Longrightarrow> fbytes f x = 0"
    "tbl f (l2_off q i) (l2Entries q) =
      (tbl (hfile q) (l2_off q i) (l2Entries q))[j := c * clusterSize q OR qcow2OFlagCopied]"
proof -
  note sel = l2_entry_set_fields [OF p] and P = p [unfolded l2_entry_set_def]
  note S = l2_entry_slot [OF ok sel(17-19)]
  have f: "same_data f (store_bytes (l2_off q i + 8 * j) (put_be 8 (c * clusterSize q OR qcow2OFlagCopied)) (hfile q))"
    and z: "\<And>x. in_cluster q c x \<Longrightarrow> fbytes (hfile q) x = 0" using P by blast+
  show only: "only_slot q (L2Tab i) f" using store_entry_slot(1) [OF ok S(1-3) f] .
  show "fbytes f x = 0" if x: "in_cluster q c x" for x
  proof (cases "target q (Data i j) = Some c")
    case True
    then have "fbytes f x = fbytes (hfile q) x" using only_slotD [OF only, of "Data i j" x] x by blast
    then show ?thesis using z x by simp
  next
    case False
    then have "fresh q c" using P by blast
    then show ?thesis using store_entry_slot(2) [OF ok S(1-3) f freshD(1,2) x] z x by simp
  qed
  show "tbl f (l2_off q i) (l2Entries q) =
      (tbl (hfile q) (l2_off q i) (l2Entries q))[j := c * clusterSize q OR qcow2OFlagCopied]"
    using tbl_store [OF f sel(19) copied_entry(3) [OF image_okD(1) [OF ok] sel(20,21)] S(4)] .
qed

lemma l2_entry_set_views:
  assumes ok: "image_ok q" and p: "l2_entry_set q i j c f q1"
  shows "l2_entry q1 i j = c * clusterSize q OR qcow2OFlagCopied"
    "\<And>i' j'. i' < length (l1 q) \<Longrightarrow> l1 q ! i' \<noteq> 0 \<Longrightarrow> j' < l2Entries q \<Longrightarrow> (i', j') \<noteq> (i, j) \<Longrightarrow>
       l2_entry q1 i' j' = l2_entry q i' j'"
    "target q1 = (target q)(Data i j := Some c)"
proof -
  note D = image_okD [OF ok] and sel = l2_entry_set_fields [OF p] and F = l2_entry_set_file [OF ok p]
  note E = copied_entry [OF D(1) sel(20,21)]
  have tab: "l2_entry q1 i j' = (if j' = j then c * clusterSize q OR qcow2OFlagCopied else l2_entry q i j')"
    if "j' < l2Entries q" for j'
    using arg_cong [OF F(3), of "\<lambda>t. t ! j'"] that sel(19) by (auto simp: l2_entry_def sel nth_list_update)
  show e: "l2_entry q1 i j = c * clusterSize q OR qcow2OFlagCopied" using tab [OF sel(19)] by simp
  show e': "l2_entry q1 i' j' = l2_entry q i' j'"
    if "i' < length (l1 q)" "l1 q ! i' \<noteq> 0" "j' < l2Entries q" "(i', j') \<noteq> (i, j)" for i' j'
    using that tab [of j'] only_slot_l2_entry [OF F(1) D(1,2) that(1,2) _ that(3)]
    by (cases "i' = i") (auto simp: l2_entry_def sel)
  have nz: "c * clusterSize q \<noteq> 0" using sel(21) geometry_cs(1) [OF D(1)] by simp
  show "target q1 = (target q)(Data i j := Some c)"
  proof
    fix s show "target q1 s = ((target q)(Data i j := Some c)) s"
    proof (cases s)
      case (Data i' j')
      then show ?thesis using e e' E(1) sel(17-19) nz mult_cluster(1) [OF D(1), of c]
        by (cases "(i', j') = (i, j)") (auto simp: sel)
    qed (auto simp: sel l1_clusters_def rt_clusters_def)
  qed
qed

lemma l2_entry_set_guest:
  assumes ok: "image_ok q" and p: "l2_entry_set q i j c f q1"
  shows "same_guest q q1" "same_shape q q1"
proof -
  note D = image_okD [OF ok] and sel = l2_entry_set_fields [OF p] and F = l2_entry_set_file [OF ok p]
    and V = l2_entry_set_views [OF ok p] and P = p [unfolded l2_entry_set_def]
  note E = copied_entry [OF D(1) sel(20,21)]
  have nz: "c * clusterSize q \<noteq> 0" using sel(21) geometry_cs(1) [OF D(1)] by simp
  have old: "clusterOffset (l2_entry q i j) = 0 \<or> l2_entry q i j AND qcow2OFlagZero \<noteq> 0" using P by blast
  show "same_shape q q1" by (simp add: same_shape_def sel)
  show "same_guest q q1" unfolding same_guest_def
  proof (intro allI impI)
    fix x assume x: "x < imgSize q"
    let ?g = "x div clusterSize q"
    note I = guest_index [OF D(1) x]
    show "guest_byte q1 x = guest_byte q x"
    proof (cases "(?g div l2Entries q, ?g mod l2Entries q) = (i, j)")
      case True
      then have "guest_entry q ?g = l2_entry q i j" "guest_entry q1 ?g = c * clusterSize q OR qcow2OFlagCopied"
        using sel(18) V(1) by (auto simp: guest_entry_def sel Let_def)
      moreover have "in_cluster q c (c * clusterSize q + x mod clusterSize q)"
        using mult_cluster(3) [OF D(1)] geometry_cs(1) [OF D(1)] by simp
      ultimately show ?thesis using old F(2) E(1,2) nz by (auto simp: guest_byte_def sel Let_def)
    next
      case False
      then have "guest_entry q1 ?g = guest_entry q ?g"
        using V(2) [OF I(1) _ I(2) False] by (simp add: guest_entry_def sel Let_def)
      then show ?thesis using only_slot_guest [OF F(1) ok x] by (auto simp: guest_byte_def sel Let_def)
    qed
  qed
qed

lemma l2_entry_set_slots:
  assumes ok: "image_ok q" and p: "l2_entry_set q i j c f q1"
  shows "slots_ok q1"
proof -
  note D = image_okD [OF ok] and sel = l2_entry_set_fields [OF p] and F = l2_entry_set_file [OF ok p]
    and V = l2_entry_set_views [OF ok p] and P = p [unfolded l2_entry_set_def]
  have fs: "fsize f = fsize (hfile q)" using F(1) by (simp add: only_slot_def)
  have rc: "disk_refcount q1 c' = disk_refcount q c'" for c'
    using only_slot_refcount [OF F(1) D(1,2), of c'] by (simp add: disk_refcount_def sel)
  show ?thesis
  proof (cases "target q (Data i j) = Some c")
    case True
    then have "target q1 = target q" using V(3) by (simp add: fun_upd_idem del: target.simps)
    then show ?thesis using D(4) by (simp add: slots_ok_def sel fs rc)
  next
    case False
    then have fr: "fresh q c" using P by blast
    show ?thesis
      by (rule slots_ok_publish [OF D(4) V(3) freshD(1,2) [OF fr]]) (simp_all add: sel fs rc freshD(5) [OF fr] del: One_nat_def)
  qed
qed

lemma l2_entry_set_ok:
  assumes ok: "image_ok q" and p: "l2_entry_set q i j c f q1"
  shows "image_ok q1"
proof -
  note D = image_okD [OF ok] and sel = l2_entry_set_fields [OF p] and F = l2_entry_set_file [OF ok p]
    and V = l2_entry_set_views [OF ok p]
  note E = copied_entry [OF D(1) sel(20,21)]
  have fs: "fsize f = fsize (hfile q)" using F(1) by (simp add: only_slot_def)
  have "geometry q1 = geometry q" by (simp add: geometry_def sel)
  then have geo: "geometry q1" using D(1) by simp
  have "validateL2Entry (l2_entry q1 i' j') q1 = None \<and> clusterOffset (l2_entry q1 i' j') mod clusterSize q = 0"
    if "i' < length (l1 q)" "l1 q ! i' \<noteq> 0" "j' < l2Entries q" for i' j'
    using D(2) that V(1) V(2) [OF that] E(1,4) mult_cluster(2) [OF D(1), of c]
    by (cases "(i', j') = (i, j)") (auto simp: entries_ok_def validateL2Entry_def sel)
  then have ent: "entries_ok q1" using D(2) by (simp add: entries_ok_def sel)
  have tab: "tables_on_disk q1"
    using only_slot_rt [OF F(1) D(1)] only_slot_l1 [OF F(1) D(1)] D(3) by (simp add: tables_on_disk_def sel)
  have "l2Cache q1 i' = Some t \<Longrightarrow> i' < length (l1 q) \<and> l1 q ! i' \<noteq> 0 \<and> t = tbl f (l2_off q i') (l2Entries q)" for i' t
    using F(3) sel(17,18) D(5) only_slot_l2 [OF F(1) D(1,2), of i'] by (cases "i' = i") (auto simp: sel l2_cache_ok_def)
  then have l2: "l2_cache_ok q1" by (simp add: l2_cache_ok_def sel)
  have "rc_cache_ok q1"
    by (rule rc_cache_okI) (use only_slot_rc_cache [OF F(1) D(2) _ D(6)] rc_cacheD [OF D(6)] rc_cache_room [OF D(6)] in
      \<open>auto simp: sel\<close>)
  then show ?thesis using geo ent tab l2_entry_set_slots [OF ok p] l2 D(7,8) fs by (simp add: image_ok_def sel)
qed

subsection \<open>Updating table entries\<close>

lemma restored_kept:
  assumes ok: "image_ok q" and f: "fsize f = fsize (hfile q)" "\<And>x. x < fsize (hfile q) \<Longrightarrow> fbytes f x = fbytes (hfile q) x"
    and h: "\<not> healthy q"
  shows "kept q (q\<lparr>hfile := f\<rparr>)" "fresh q c \<Longrightarrow> fresh (q\<lparr>hfile := f\<rparr>) c"
proof -
  note A = above_frame [OF ok fits_fsize [OF ok], of f]
  have a: "fsize (hfile q) \<le> fsize f" "fsize f < 2 ^ 63" using f(1) image_okD(8) [OF ok] by auto
  show "kept q (q\<lparr>hfile := f\<rparr>)" using A(1) [OF a f(2)] h by blast
  have t: "target (q\<lparr>hfile := f\<rparr>) = target q" "disk_refcount (q\<lparr>hfile := f\<rparr>) = disk_refcount q"
    using A(2,3) [OF a f(2)] h by blast+
  assume fr: "fresh q c"
  have "fbytes f x = 0" if "in_cluster q c x" for x
  proof -
    have "x < fsize (hfile q)" using that freshD(2) [OF fr] by (auto simp: in_cluster_def)
    then show ?thesis using f(2) freshD(6) [OF fr that] by simp
  qed
  then show "fresh (q\<lparr>hfile := f\<rparr>) c"
    using fr t f(1) by (simp add: fresh_def free_def owned_def covered_def fits_def in_cluster_def)
qed

lemma l1_entry_bytes:
  assumes "image_ok q" "i < length (l1 q)"
  shows "bytes_at (hfile q) (l1TableOffset q + 8 * i) 8 = put_be 8 (l1 q ! i)"
    "l1TableOffset q + 8 * i + 8 \<le> fsize (hfile q)"
    "add64 (l1TableOffset q) (i * 8) = l1TableOffset q + 8 * i"
proof -
  have "l1 q ! i = tbl (hfile q) (l1TableOffset q) (length (l1 q)) ! i"
    using image_okD(3) [OF assms(1)] by (simp add: tables_on_disk_def)
  then show "bytes_at (hfile q) (l1TableOffset q + 8 * i) 8 = put_be 8 (l1 q ! i)"
    using assms(2) put_be_be_nat [of _ 8] by simp
  show "l1TableOffset q + 8 * i + 8 \<le> fsize (hfile q)" using l1_inside [OF assms] assms(2) by linarith
  then show "add64 (l1TableOffset q) (i * 8) = l1TableOffset q + 8 * i"
    using image_okD(8) [OF assms(1)] by (simp add: add64_id mult.commute)
qed

end
