(* ===== verification/Qcow2_Update.thy ===== *)
theory Qcow2_Update
  imports Qcow2_Mapping
begin

text \<open>
  The methods that make a guest cluster writable: \<^verbatim>\<open>updateL1Entry\<close>,
  \<^verbatim>\<open>updateL2Entry\<close>, \<^verbatim>\<open>ensureL2Table\<close>, \<^verbatim>\<open>prepareMappedCluster\<close> and
  \<^verbatim>\<open>ensureWritableCluster\<close>, on every outcome of the file calls they make.
\<close>

section \<open>Definitions\<close>

text \<open>The image is valid and the guest disk is that of \<open>q0\<close>; the mapping may have changed.\<close>

definition same_disk :: "qcow2Image \<Rightarrow> qcow2Image \<Rightarrow> bool" where
  "same_disk q0 q \<longleftrightarrow> image_ok q \<and> same_shape q0 q \<and> same_guest q0 q \<and> (healthy q0 \<longrightarrow> healthy q)"

definition refused :: "qcow2Image \<Rightarrow> qerr \<Rightarrow> qcow2Image \<Rightarrow> bool" where
  "refused q0 e q \<longleftrightarrow> sane e \<and> (writeFault q \<noteq> None \<or> same_disk q0 q) \<and> (healthy q0 \<longrightarrow> full e \<and> same_disk q0 q)"

text \<open>An error after which the new cluster \<open>c\<close> can be given back, if there was one.\<close>

definition undoable :: "qcow2Image \<Rightarrow> bool \<Rightarrow> nat \<Rightarrow> qerr \<Rightarrow> qcow2Image \<Rightarrow> bool" where
  "undoable q0 new c e q \<longleftrightarrow> sane e \<and> \<not> healthy q0 \<and>
     (writeFault q \<noteq> None \<or> (same_disk q0 q \<and> (new \<longrightarrow> fresh q c)))"

definition l2_zero :: "qcow2Image \<Rightarrow> nat \<Rightarrow> bool" where
  "l2_zero q i \<longleftrightarrow> l1 q ! i \<noteq> 0 \<and> tbl (hfile q) (l2_off q i) (l2Entries q) = replicate (l2Entries q) 0"

section \<open>Lemmas\<close>

subsection \<open>Steps that keep the guest disk\<close>

lemma same_diskD:
  assumes "same_disk q0 q"
  shows "image_ok q" "same_shape q0 q" "same_guest q0 q" "healthy q0 \<Longrightarrow> healthy q"
  using assms by (auto simp: same_disk_def)

lemma same_disk_refl: "image_ok q \<Longrightarrow> same_disk q q"
  by (simp add: same_disk_def same_shape_def same_guest_def)

lemma same_disk_trans:
  assumes "same_disk q0 q1" "same_disk q1 q2" shows "same_disk q0 q2"
  using assms same_shape_trans [of q0 q1 q2] by (auto simp: same_disk_def same_guest_def same_shape_def)

lemma kept_disk: "kept q0 q \<Longrightarrow> same_disk q0 q"
  by (auto simp: kept_def same_disk_def)

lemma disk_fields:
  assumes "same_disk q0 q"
  shows "clusterSize q = clusterSize q0" "refcountBlockEntries q = refcountBlockEntries q0"
    "l2Entries q = l2Entries q0" "imgSize q = imgSize q0" "version q = version q0"
    "length (l1 q) = length (l1 q0)"
  using same_diskD(2) [OF assms] by (auto simp: same_shape_def)

lemma refusedI: "same_disk q0 q \<Longrightarrow> sane e \<Longrightarrow> \<not> healthy q0 \<or> full e \<Longrightarrow> refused q0 e q"
  by (auto simp: refused_def)

lemma failed_refused: "same_disk q0 q \<Longrightarrow> failed q e q' \<Longrightarrow> refused q0 e q'"
  unfolding refused_def failed_def using kept_disk same_disk_trans same_diskD(4) by blast

lemma follows_fresh: "follows q q' \<Longrightarrow> fresh q' c \<longleftrightarrow> fresh q c"
  using follows_views follows_fields by (simp add: fresh_def)

lemma undoable_refused: "undoable q0 new c e q \<Longrightarrow> refused q0 e q"
  by (auto simp: undoable_def refused_def)

lemma hoare_kept_disk:
  assumes "\<And>q. same_disk q0 q \<Longrightarrow> A q \<Longrightarrow> hoare (kept q) m (\<lambda>x q'. kept q q' \<and> R q x q') (failed q)"
    and "\<And>q q' x. same_disk q0 q \<Longrightarrow> A q \<Longrightarrow> kept q q' \<Longrightarrow> R q x q' \<Longrightarrow> B x q'"
  shows "hoare (\<lambda>q. same_disk q0 q \<and> A q) m (\<lambda>x q. same_disk q0 q \<and> B x q) (refused q0)"
proof (rule hoareI)
  fix q x q' assume q: "same_disk q0 q \<and> A q" and m: "m q = (Inr x, q')"
  then have "kept q q' \<and> R q x q'" using hoare_ok [OF assms(1) _ m] kept_refl same_diskD(1) by blast
  then show "same_disk q0 q' \<and> B x q'" using assms(2) q kept_disk same_disk_trans by blast
next
  fix q e q' assume q: "same_disk q0 q \<and> A q" and m: "m q = (Inl e, q')"
  then have "failed q e q'" using hoare_err [OF assms(1) _ m] kept_refl same_diskD(1) by blast
  then show "refused q0 e q'" using failed_refused q by blast
qed

lemma hoare_reads_disk:
  assumes "\<And>q. same_disk q0 q \<Longrightarrow> A q \<Longrightarrow> reads q m (R q)"
    and "\<And>q q' x. same_disk q0 q \<Longrightarrow> A q \<Longrightarrow> R q x \<Longrightarrow> follows q q' \<Longrightarrow> B x q'"
    and "\<And>e q q'. same_disk q0 q \<Longrightarrow> A q \<Longrightarrow> follows q q' \<Longrightarrow> sane e \<Longrightarrow> \<not> healthy q0 \<Longrightarrow> E e q'"
  shows "hoare (\<lambda>q. same_disk q0 q \<and> A q) m (\<lambda>x q. same_disk q0 q \<and> B x q) E"
proof (rule hoareI)
  fix q x q' assume q: "same_disk q0 q \<and> A q" and m: "m q = (Inr x, q')"
  then have "follows q q' \<and> R q x" using assms(1) reads_ok follows_refl same_diskD(1) by metis
  then show "same_disk q0 q' \<and> B x q'" using assms(2) q follows_kept kept_disk same_disk_trans by metis
next
  fix q e q' assume q: "same_disk q0 q \<and> A q" and m: "m q = (Inl e, q')"
  then have "follows q q' \<and> sane e \<and> \<not> healthy q"
    using assms(1) reads_err follows_refl same_diskD(1) unfolding healthy_def by metis
  then show "E e q'" using q assms(3) same_diskD(4) by blast
qed

lemma follows_refused:
  assumes "same_disk q0 q" "follows q q'" "sane e" "\<not> healthy q0"
  shows "refused q0 e q'"
  using assms follows_kept kept_disk same_disk_trans refusedI by blast

subsection \<open>The L1 table\<close>

lemma updateL1Entry_step:
  assumes ok: "image_ok q" and fr: "fresh q c" and i: "i < length (l1 q)" "l1 q ! i = 0"
    and r: "updateL1Entry i (c * clusterSize q OR qcow2OFlagCopied) q = (r, q')"
  shows "case r of Inl e \<Rightarrow> sane e \<and> \<not> healthy q \<and> (writeFault q' \<noteq> None \<or> (same_disk q q' \<and> fresh q' c))
    | Inr _ \<Rightarrow> same_disk q q' \<and> l2_zero q' i"
proof -
  let ?v = "c * clusterSize q OR qcow2OFlagCopied"
  note B = l1_entry_bytes [OF ok i(1)]
  obtain r1 q1 where w: "writeMetadataEntry (l1TableOffset q + 8 * i) (l1 q ! i) ?v q = (r1, q1)" by fastforce
  have red: "(r, q') = (case r1 of Inl e \<Rightarrow> (Inl e, q1) | Inr _ \<Rightarrow> (Inr (), q1\<lparr>l1 := (l1 q1)[i := ?v]\<rparr>))"
    using r w B(3) i(1)
    by (auto simp: updateL1Entry_def andthen_def gets_def at_index_def ret_def modify_def split: sum.splits)
  from w B(2) image_okD(8) [OF ok] B(1) show ?thesis
  proof (cases rule: writeMetadataEntry_cases)
    case (Ok f)
    then have pub: "l2tab_published q i c f q'" using red i fr by (simp add: l2tab_published_def)
    note V = l2tab_published_views [OF ok pub] and G = l2tab_published_guest [OF ok pub]
    have "same_disk q q'" using l2tab_published_ok [OF ok pub] G Ok red by (auto simp: same_disk_def healthy_def)
    moreover have "tbl (hfile q') (l2_off q' i) (l2Entries q') = replicate (l2Entries q') 0"
      using V(3) l2tab_published_fields(2) [OF pub] by (intro nth_equalityI) (auto simp: l2_entry_def)
    moreover have "l1 q' ! i \<noteq> 0"
      using copied_entry(5) [OF image_okD(1) [OF ok] freshD(3,4) [OF fr]] i l2tab_published_fields(4) [OF pub] by simp
    ultimately show ?thesis using Ok(1) red by (simp add: l2_zero_def)
  next
    case (Restored f e)
    then show ?thesis using red restored_kept [OF ok Restored(3,4,6)] fr kept_disk by auto
  next
    case (Disabled e)
    then show ?thesis using red by auto
  qed
qed

lemma hoare_updateL1:
  assumes "v = c * clusterSize q0 OR qcow2OFlagCopied"
  shows "hoare (\<lambda>q. same_disk q0 q \<and> fresh q c \<and> i < length (l1 q) \<and> l1 q ! i = 0) (updateL1Entry i v)
    (\<lambda>_ q. same_disk q0 q \<and> l2_zero q i) (undoable q0 True c)"
proof (rule hoareI)
  fix q x q' assume q: "same_disk q0 q \<and> fresh q c \<and> i < length (l1 q) \<and> l1 q ! i = 0" and r: "updateL1Entry i v q = (Inr x, q')"
  then show "same_disk q0 q' \<and> l2_zero q' i"
    using updateL1Entry_step [OF same_diskD(1), of q0 q c i "Inr x" q'] disk_fields(1) [of q0 q] assms same_disk_trans by auto
next
  fix q e q' assume q: "same_disk q0 q \<and> fresh q c \<and> i < length (l1 q) \<and> l1 q ! i = 0" and r: "updateL1Entry i v q = (Inl e, q')"
  then have "sane e \<and> \<not> healthy q \<and> (writeFault q' \<noteq> None \<or> (same_disk q q' \<and> fresh q' c))"
    using updateL1Entry_step [OF same_diskD(1), of q0 q c i "Inl e" q'] disk_fields(1) [of q0 q] assms by auto
  then show "undoable q0 True c e q'" using q same_diskD(4) [of q0 q] same_disk_trans [of q0 q q'] by (auto simp: undoable_def)
qed

subsection \<open>Refcounts of owned clusters\<close>

lemma owned_refcount_reads:
  assumes "image_ok q" "target q s = Some (off div clusterSize q)" "off mod clusterSize q = 0"
  shows "reads q (refcount off) (\<lambda>v. v = 1)"
proof -
  have rc: "disk_refcount q (off div clusterSize q) = 1" using slots_okD(3) [OF image_okD(4) [OF assms(1)] assms(2)] .
  then have "off div clusterSize q div refcountBlockEntries q < length (refcountTable q)"
    by (auto simp: disk_refcount_def rc_at_def split: if_splits)
  moreover have "off = off div clusterSize q * clusterSize q" using assms(3) by (simp add: mod_0_imp_dvd)
  ultimately show ?thesis using refcount_reads [OF assms(1)] rc by metis
qed

subsection \<open>L2 tables\<close>

lemma hoare_load_l2:
  assumes "i < length (l1 q0)"
  shows "hoare (\<lambda>q. same_disk q0 q \<and> l1 q ! i \<noteq> 0) (loadL2 i)
    (\<lambda>t q. same_disk q0 q \<and> l1 q ! i \<noteq> 0 \<and> t = tbl (hfile q) (l2_off q i) (l2Entries q)) (refused q0)"
proof (rule hoare_reads_disk)
  fix q assume q: "same_disk q0 q" "l1 q ! i \<noteq> 0"
  then show "reads q (loadL2 i) (\<lambda>t. t = tbl (hfile q) (l2_off q i) (l2Entries q))"
    using loadL2_reads [OF same_diskD(1) [OF q(1)]] disk_fields(6) [OF q(1)] assms by simp
next
  fix q q' t assume "same_disk q0 q" "l1 q ! i \<noteq> 0" "t = tbl (hfile q) (l2_off q i) (l2Entries q)" "follows q q'"
  then show "l1 q' ! i \<noteq> 0 \<and> t = tbl (hfile q') (l2_off q' i) (l2Entries q')"
    using follows_fields quiet_view(3,6) [OF followsD(2)] by simp
qed (rule follows_refused)

lemma hoare_count_l2:
  assumes "i < length (l1 q0)"
  shows "hoare (\<lambda>q. same_disk q0 q \<and> l1 q ! i \<noteq> 0 \<and> l2_off q i = off) (refcount off)
    (\<lambda>v q. same_disk q0 q \<and> l1 q ! i \<noteq> 0 \<and> v = 1) (refused q0)"
proof (rule hoare_reads_disk)
  fix q assume q: "same_disk q0 q" "l1 q ! i \<noteq> 0 \<and> l2_off q i = off"
  then have "image_ok q" "i < length (l1 q)" using same_diskD(1) disk_fields(6) assms by simp_all
  then show "reads q (refcount off) (\<lambda>v. v = 1)"
    using l2_range [of q i] owned_refcount_reads [of q "L2Tab i" off] q(2) by simp
qed (simp_all add: follows_fields follows_refused)

lemma set_l2_cache:
  assumes "same_disk q0 q" "i < length (l1 q)" "l2_zero q i" "t = replicate (l2Entries q) 0"
  shows "same_disk q0 (q\<lparr>l2Cache := (l2Cache q)(i \<mapsto> t)\<rparr>)"
proof -
  have "follows q (q\<lparr>l2Cache := (l2Cache q)(i \<mapsto> t)\<rparr>)"
    using assms same_diskD(1) [OF assms(1)] by (intro follows_l2Cache follows_refl) (auto simp: l2_zero_def)
  then show ?thesis using follows_kept kept_disk same_disk_trans assms(1) by blast
qed

lemma hoare_allocate:
  assumes "\<And>q q'. same_disk q0 q \<Longrightarrow> A q \<Longrightarrow> kept q q' \<Longrightarrow> A q'"
  shows "hoare (\<lambda>q. same_disk q0 q \<and> A q) allocateCluster
    (\<lambda>off q. same_disk q0 q \<and> A q \<and> (\<exists>c. off = c * clusterSize q0 \<and> fresh q c)) (refused q0)"
proof (rule hoare_kept_disk)
  show "hoare (kept q) allocateCluster (\<lambda>off q'. kept q q' \<and> (\<exists>c. off = c * clusterSize q \<and> fresh q' c)) (failed q)"
    if "same_disk q0 q" "A q" for q using allocateCluster_hoare [OF same_diskD(1)] that by blast
qed (use assms disk_fields(1) in fastforce)

text \<open>After an I/O error, the state a step starts from may be taken to be one with errors ahead.\<close>

lemma unhealthy_base:
  assumes "same_disk q0 q" "\<not> healthy q0"
  obtains b where "same_disk q0 b" "kept b q" "\<not> healthy b" "clusterSize b = clusterSize q"
proof -
  define b where "b = q\<lparr>hfile := (hfile q)\<lparr>script := [IoFail 0]\<rparr>\<rparr>"
  have q: "image_ok q" using same_diskD(1) [OF assms(1)] .
  have u: "quiet q b" "image_ok b" unfolding b_def using quiet_file [OF q] by simp_all
  have "quiet b q" using u(1) by (auto simp: quiet_def same_shape_def same_data_def)
  then have "follows b q" using q by (simp add: follows_def b_def)
  moreover have "same_disk q0 b"
    using u quiet_same_guest [OF u(1)] assms same_shape_trans [OF same_diskD(2) [OF assms(1)], of b] same_diskD(2,3) [OF assms(1)]
    by (auto simp: same_disk_def same_guest_def quiet_def same_shape_def)
  ultimately show ?thesis using that [of b] follows_kept by (simp add: b_def healthy_def)
qed

lemma hoare_rollback:
  assumes c: "c * clusterSize q0 < 2 ^ 63"
  shows "hoare (undoable q0 True c e) (rollbackNewCluster (c * clusterSize q0) e) Q (refused q0)"
proof (rule hoare_at)
  let ?P = "\<lambda>b q. sane e \<and> \<not> healthy b \<and> (writeFault q \<noteq> None \<or> (kept b q \<and> free q (c * clusterSize q) c))"
  fix q assume u: "undoable q0 True c e q"
  show "\<exists>P' E'. P' q \<and> hoare P' (rollbackNewCluster (c * clusterSize q0) e) Q E' \<and> (\<forall>e s. E' e s \<longrightarrow> refused q0 e s)"
  proof (cases "writeFault q = None")
    case False
    have "hoare (\<lambda>q. writeFault q \<noteq> None) (rollbackNewCluster (c * clusterSize q0) e) Q (refused q0)"
      by (rule hoareI) (use u in \<open>auto simp: rollbackNewCluster_def andthen_def gets_def fail_def undoable_def refused_def\<close>)
    then show ?thesis using False
      by (intro exI [of _ "\<lambda>q. writeFault q \<noteq> None"] exI [of _ "refused q0"]) simp
  next
    case True
    then have d: "same_disk q0 q" "fresh q c" "\<not> healthy q0" "sane e" using u by (auto simp: undoable_def)
    obtain b where b: "same_disk q0 b" "kept b q" "\<not> healthy b" "clusterSize b = clusterSize q"
      by (rule unhealthy_base [OF d(1,3)])
    have "hoare (?P b) (rollbackNewCluster (c * clusterSize q0) e) Q (failed b)"
      using rollbackNewCluster_hoare [OF same_diskD(1) [OF b(1)], of c e Q] c disk_fields(1) [OF b(1)] by simp
    moreover have "?P b q" using b d by (simp add: fresh_def)
    ultimately show ?thesis using failed_refused [OF b(1)]
      by (intro exI [of _ "?P b"] exI [of _ "failed b"]) simp
  qed
qed

text \<open>The branch of \<^verbatim>\<open>ensureL2Table\<close> that appends a new table.\<close>

lemma hoare_new_l2:
  assumes i: "i < length (l1 q0)" and n: "n = l2Entries q0"
  shows "hoare (\<lambda>q. same_disk q0 q \<and> l1 q ! i = 0)
    (andthen allocateCluster (\<lambda>l2Off.
       handle (updateL1Entry i (l2Off OR qcow2OFlagCopied))
         (\<lambda>err. rollbackNewCluster l2Off err)
         (\<lambda>_. andthen (modify (\<lambda>q. q\<lparr>l2Cache := (l2Cache q)(i \<mapsto> replicate n 0)\<rparr>)) (\<lambda>_.
              ret (replicate n 0)))))
    (\<lambda>t q. same_disk q0 q \<and> l1 q ! i \<noteq> 0 \<and> t = tbl (hfile q) (l2_off q i) (l2Entries q)) (refused q0)"
    (is "hoare _ (andthen _ ?k) ?Q _")
proof (rule hoare_andthen [OF hoare_allocate])
  show "l1 q' ! i = 0" if "l1 q ! i = 0" "kept q q'" for q q' using that keptD(5) [of q q'] by (simp add: same_map_def)
  show "hoare (\<lambda>q. same_disk q0 q \<and> l1 q ! i = 0 \<and> (\<exists>c. off = c * clusterSize q0 \<and> fresh q c)) (?k off) ?Q (refused q0)" for off
  proof (rule hoare_pre)
    show "hoare (\<lambda>q. \<exists>c. off = c * clusterSize q0 \<and> same_disk q0 q \<and> fresh q c \<and> i < length (l1 q) \<and> l1 q ! i = 0)
        (?k off) ?Q (refused q0)"
    proof (rule hoare_ex, rule hoare_fact)
      fix c
      let ?P = "\<lambda>q. off = c * clusterSize q0 \<and> same_disk q0 q \<and> fresh q c \<and> i < length (l1 q) \<and> l1 q ! i = 0"
      show "off = c * clusterSize q0 \<and> c * clusterSize q0 < 2 ^ 63" if "?P q" for q
        using that freshD(3) [of q c] disk_fields(1) [of q0 q] by auto
      assume F: "off = c * clusterSize q0 \<and> c * clusterSize q0 < 2 ^ 63"
      have fin: "hoare (\<lambda>q. same_disk q0 q \<and> l2_zero q i)
          (andthen (modify (\<lambda>q. q\<lparr>l2Cache := (l2Cache q)(i \<mapsto> replicate n 0)\<rparr>)) (\<lambda>_. ret (replicate n 0))) ?Q (refused q0)"
        by (rule hoareI) (use set_l2_cache disk_fields i n in \<open>auto simp: andthen_def modify_def ret_def l2_zero_def l2_off_def\<close>)
      have "hoare (\<lambda>q. same_disk q0 q \<and> fresh q c \<and> i < length (l1 q) \<and> l1 q ! i = 0) (?k (c * clusterSize q0)) ?Q (refused q0)"
        using F by (intro hoare_handle [OF hoare_updateL1 [OF refl] fin] hoare_rollback) blast
      moreover have "off = c * clusterSize q0" using F by blast
      ultimately show "hoare ?P (?k off) ?Q (refused q0)" by (simp only:) (erule hoare_pre, blast)
    qed
  qed (use i disk_fields(6) in auto)
qed

lemma ensureL2Table_hoare:
  assumes ok: "image_ok q0" and i: "i < length (l1 q0)"
  shows "hoare (same_disk q0) (ensureL2Table i)
    (\<lambda>t q. same_disk q0 q \<and> l1 q ! i \<noteq> 0 \<and> t = tbl (hfile q) (l2_off q i) (l2Entries q)) (refused q0)" (is "hoare _ _ ?Q _")
proof -
  have chk: "checkedInt (l2Entries q) = Inr (l2Entries q0)" if "same_disk q0 q" for q
    using that disk_fields(3) geometry_cs(8) [OF image_okD(1) [OF ok]] by (simp add: checkedInt_def max_int64_def)
  have new: "hoare (\<lambda>q. same_disk q0 q \<and> l1 q ! i = 0) (andthen (inspect (\<lambda>q. checkedInt (l2Entries q))) (\<lambda>l2Len.
       andthen allocateCluster (\<lambda>l2Off.
       handle (updateL1Entry i (l2Off OR qcow2OFlagCopied))
         (\<lambda>err. rollbackNewCluster l2Off err)
         (\<lambda>_. andthen (modify (\<lambda>q. q\<lparr>l2Cache := (l2Cache q)(i \<mapsto> replicate l2Len 0)\<rparr>)) (\<lambda>_.
              ret (replicate l2Len 0)))))) ?Q (refused q0)"
    by (rule hoare_inspect_const [where v = "l2Entries q0"]) (simp add: chk, rule hoare_new_l2 [OF i refl])
  have old: "hoare (\<lambda>q. same_disk q0 q \<and> l1 q ! i \<noteq> 0 \<and> l2_off q i = off) (andthen (refcount off) (\<lambda>rc.
      if rc \<noteq> 1 then fail (QErr ''l2 copy-on-write refcount is unsupported'') else loadL2 i)) ?Q (refused q0)" for off
  proof (rule hoare_andthen [OF hoare_count_l2 [OF i]])
    show "hoare (\<lambda>q. same_disk q0 q \<and> l1 q ! i \<noteq> 0 \<and> rc = 1)
        (if rc \<noteq> 1 then fail (QErr ''l2 copy-on-write refcount is unsupported'') else loadL2 i) ?Q (refused q0)" for rc
      by (cases "rc = 1") (simp_all add: hoare_load_l2 [OF i, simplified], simp add: hoare_def)
  qed
  show ?thesis
  proof (rule hoare_each)
    fix q assume d: "same_disk q0 q"
    note D = image_okD [OF same_diskD(1) [OF d]]
    have len: "i < length (l1 q)" using i disk_fields(6) [OF d] by simp
    show "hoare (\<lambda>s. s = q) (ensureL2Table i) ?Q (refused q0)"
    proof (cases "l2Cache q i")
      case (Some t)
      then show ?thesis using d D(5) by (auto simp: hoare_def ensureL2Table_def andthen_def gets_def ret_def l2_cache_ok_def)
    next
      case None
      show ?thesis
      proof (cases "l1 q ! i = 0")
        case True
        show ?thesis
          by (rule hoare_cong [OF _ hoare_pre [OF new]])
            (use None True d len in \<open>auto simp: ensureL2Table_def andthen_def gets_def\<close>)
      next
        case False
        then have "clusterOffset (l1 q ! i) \<noteq> 0"
          using l2_range(1) [OF same_diskD(1) [OF d] len] by (simp add: l2_off_def)
        then show ?thesis
          by (intro hoare_cong [OF _ hoare_pre [OF old [of "l2_off q i"]]])
            (use None False d len in \<open>auto simp: ensureL2Table_def andthen_def gets_def l2_off_def Let_def\<close>)
      qed
    qed
  qed
qed

subsection \<open>L2 entries\<close>

definition settable :: "qcow2Image \<Rightarrow> nat \<Rightarrow> nat \<Rightarrow> nat \<Rightarrow> bool" where
  "settable q i j c \<longleftrightarrow> i < length (l1 q) \<and> l1 q ! i \<noteq> 0 \<and> j < l2Entries q \<and>
     (clusterOffset (l2_entry q i j) = 0 \<or> l2_entry q i j AND qcow2OFlagZero \<noteq> 0) \<and>
     (fresh q c \<and> clusterOffset (l2_entry q i j) = 0 \<or> target q (Data i j) = Some c) \<and>
     (\<forall>x. in_cluster q c x \<longrightarrow> fbytes (hfile q) x = 0) \<and> c * clusterSize q < 2 ^ 56 \<and> c \<noteq> 0"

lemma follows_settable:
  assumes "follows q q'" shows "settable q' i j c \<longleftrightarrow> settable q i j c"
  using follows_fields [OF assms] quiet_view [OF followsD(2) [OF assms]] follows_fresh [OF assms]
  by (simp add: settable_def del: target.simps)

lemma l2_entry_bytes:
  assumes "image_ok q" "i < length (l1 q)" "l1 q ! i \<noteq> 0" "j < l2Entries q"
  shows "bytes_at (hfile q) (l2_off q i + 8 * j) 8 = put_be 8 (l2_entry q i j)"
    "l2_off q i + 8 * j + 8 \<le> fsize (hfile q)" "add64 (l2_off q i) (j * 8) = l2_off q i + 8 * j"
proof -
  show "bytes_at (hfile q) (l2_off q i + 8 * j) 8 = put_be 8 (l2_entry q i j)"
    using put_be_be_nat [of _ 8] by (simp add: l2_entry_def)
  show "l2_off q i + 8 * j + 8 \<le> fsize (hfile q)" using l2_entry_slot(4) [OF assms] assms(4) by linarith
  then show "add64 (l2_off q i) (j * 8) = l2_off q i + 8 * j"
    using image_okD(8) [OF assms(1)] by (simp add: add64_id mult.commute)
qed

lemma write_l2_step:
  assumes ok: "image_ok q" and s: "settable q i j c"
    and w: "writeMetadataEntry (l2_off q i + 8 * j) (l2_entry q i j) (c * clusterSize q OR qcow2OFlagCopied) q = (r1, q1)"
    and q': "q' = (case r1 of Inl _ \<Rightarrow> q1 | Inr _ \<Rightarrow> q1\<lparr>l2Cache := (l2Cache q1)(i \<mapsto>
      (tbl (hfile q) (l2_off q i) (l2Entries q))[j := c * clusterSize q OR qcow2OFlagCopied])\<rparr>)"
  shows "case r1 of Inl e \<Rightarrow> sane e \<and> \<not> healthy q \<and> (writeFault q' \<noteq> None \<or> (same_disk q q' \<and> (fresh q c \<longrightarrow> fresh q' c)))
    | Inr _ \<Rightarrow> same_disk q q' \<and> l1 q' = l1 q \<and> l2_entry q' i j = c * clusterSize q OR qcow2OFlagCopied"
proof -
  have S: "i < length (l1 q)" "l1 q ! i \<noteq> 0" "j < l2Entries q" using s by (auto simp: settable_def)
  note B = l2_entry_bytes [OF ok S]
  from w B(2) image_okD(8) [OF ok] B(1) show ?thesis
  proof (cases rule: writeMetadataEntry_cases)
    case (Ok f)
    then have set: "l2_entry_set q i j c f q'" using q' s by (simp add: l2_entry_set_def settable_def del: target.simps)
    have "same_disk q q'"
      using l2_entry_set_ok [OF ok set] l2_entry_set_guest [OF ok set] Ok q' by (auto simp: same_disk_def healthy_def)
    then show ?thesis
      using Ok(1) l2_entry_set_views(1) [OF ok set] l2_entry_set_fields(4) [OF set] by simp
  next
    case (Restored f e)
    then show ?thesis using q' restored_kept [OF ok Restored(3,4,6)] kept_disk by auto
  next
    case (Disabled e)
    then show ?thesis using q' by auto
  qed
qed

lemma updateL2Entry_step:
  assumes ok: "image_ok q" and s: "settable q i j c"
    and r: "updateL2Entry i j (c * clusterSize q OR qcow2OFlagCopied) q = (r, q')"
  shows "case r of Inl e \<Rightarrow> sane e \<and> \<not> healthy q \<and> (writeFault q' \<noteq> None \<or> (same_disk q q' \<and> (fresh q c \<longrightarrow> fresh q' c)))
    | Inr _ \<Rightarrow> same_disk q q' \<and> l1 q' = l1 q \<and> l2_entry q' i j = c * clusterSize q OR qcow2OFlagCopied"
proof -
  let ?v = "c * clusterSize q OR qcow2OFlagCopied"
  have S: "i < length (l1 q)" "l1 q ! i \<noteq> 0" "j < l2Entries q" using s by (auto simp: settable_def)
  obtain r0 p where l: "loadL2 i q = (r0, p)" by fastforce
  note L = readsD [OF loadL2_reads [OF ok S(1,2)] follows_refl [OF ok] l]
  have f: "follows q p" using L by blast
  show ?thesis
  proof (cases r0)
    case (Inl e)
    then have "r = Inl e" "q' = p" using r l by (simp_all add: updateL2Entry_def andthen_def)
    then show ?thesis using L Inl f follows_kept [OF f] kept_disk follows_fresh [OF f] by (auto simp: healthy_def)
  next
    case (Inr t)
    note F = follows_fields [OF f] and V = quiet_view [OF followsD(2) [OF f]]
    have t: "t = tbl (hfile p) (l2_off p i) (l2Entries p)" using L Inr F V by simp
    have okp: "image_ok p" using followsD(1) [OF f] .
    have sp: "settable p i j c" using s follows_settable [OF f] by simp
    have Sp: "i < length (l1 p)" "l1 p ! i \<noteq> 0" "j < l2Entries p" using S F by simp_all
    have off: "clusterOffset (l1 p ! i) \<noteq> 0" "l2_off p i = clusterOffset (l1 p ! i)"
      using l2_range(1) [OF okp Sp(1,2)] by (auto simp: l2_off_def)
    have tj: "t ! j = l2_entry p i j" "j < length t" using t Sp(3) by (auto simp: l2_entry_def)
    obtain r1 q1 where w: "writeMetadataEntry (l2_off p i + 8 * j) (l2_entry p i j) ?v p = (r1, q1)" by fastforce
    have red: "(r, q') = (case r1 of Inl e \<Rightarrow> (Inl e, q1) | Inr _ \<Rightarrow> (Inr (), q1\<lparr>l2Cache := (l2Cache q1)(i \<mapsto> t[j := ?v])\<rparr>))"
      using r l Inr w l2_entry_bytes(3) [OF okp Sp] off tj Sp(1)
      by (auto simp: updateL2Entry_def andthen_def gets_def at_index_def ret_def modify_def split: sum.splits)
    have w': "writeMetadataEntry (l2_off p i + 8 * j) (l2_entry p i j) (c * clusterSize p OR qcow2OFlagCopied) p = (r1, q1)"
      using w F(1) by simp
    have q'': "q' = (case r1 of Inl _ \<Rightarrow> q1 | Inr _ \<Rightarrow> q1\<lparr>l2Cache := (l2Cache q1)(i \<mapsto>
        (tbl (hfile p) (l2_off p i) (l2Entries p))[j := c * clusterSize p OR qcow2OFlagCopied])\<rparr>)"
      using red t F(1) by (auto split: sum.splits)
    note W = write_l2_step [OF okp sp w' q'']
    have d: "same_disk q p" using follows_kept [OF f] kept_disk by blast
    show ?thesis using W red F same_disk_trans [OF d] follows_fresh [OF f] same_diskD(4) [OF d]
      by (auto split: sum.splits)
  qed
qed

end
