(* ===== verification/Qcow2_Writable.thy ===== *)
theory Qcow2_Writable
  imports Qcow2_Update
begin

text \<open>
  \<^verbatim>\<open>zeroCluster\<close>, \<^verbatim>\<open>prepareMappedCluster\<close> and \<^verbatim>\<open>ensureWritableCluster\<close>: after the
  last of them the guest cluster has a host cluster of its own, and the guest
  disk is what it was.
\<close>

section \<open>Definitions\<close>

definition mapped :: "qcow2Image \<Rightarrow> nat \<Rightarrow> nat \<Rightarrow> nat \<Rightarrow> bool" where
  "mapped q i j off \<longleftrightarrow> l1 q ! i \<noteq> 0 \<and> clusterOffset (l2_entry q i j) = off \<and> off \<noteq> 0 \<and>
     l2_entry q i j AND qcow2OFlagZero = 0"

section \<open>Lemmas\<close>

subsection \<open>Writes into a data cluster\<close>

lemma data_store:
  assumes ok: "image_ok q" and t: "target q (Data i j) = Some c"
    and p: "c * clusterSize q \<le> pos" "pos + length bs \<le> (c + 1) * clusterSize q"
    and f: "same_data f (store_bytes pos bs (hfile q))"
  shows "only_slot q (Data i j) f"
proof (cases "bs = []")
  case True
  then have "x < fsize (hfile q) \<Longrightarrow> fbytes f x = fbytes (hfile q) x" for x
    using f by (auto simp: same_data_def store_bytes_def)
  moreover have "fsize f = fsize (hfile q)"
    using f True p(2) slots_okD(2) [OF image_okD(4) [OF ok] t] fsize_store_inside [of pos bs "hfile q"] by (simp add: same_data_def)
  ultimately show ?thesis using owned_inside [OF ok] by (auto simp: only_slot_def)
next
  case False
  then have "0 < length bs" by simp
  then have "in_cluster q c pos" "in_cluster q c (pos + length bs - 1)" using p unfolding in_cluster_def by linarith+
  then show ?thesis by (rule store_only_slot(1) [OF ok t _ _ False f])
qed

lemma data_frame:
  assumes ok: "image_ok q" and o: "only_slot q (Data i j) f"
  shows "image_ok (q\<lparr>hfile := f\<rparr>)" "target (q\<lparr>hfile := f\<rparr>) = target q"
    "\<And>i' j'. i' < length (l1 q) \<Longrightarrow> l1 q ! i' \<noteq> 0 \<Longrightarrow> j' < l2Entries q \<Longrightarrow> l2_entry (q\<lparr>hfile := f\<rparr>) i' j' = l2_entry q i' j'"
    "\<And>x. x < imgSize q \<Longrightarrow> guest_entry (q\<lparr>hfile := f\<rparr>) (x div clusterSize q) = guest_entry q (x div clusterSize q)"
    "\<And>x. x < imgSize q \<Longrightarrow> guest_slot q x \<noteq> Data i j \<Longrightarrow> guest_byte (q\<lparr>hfile := f\<rparr>) x = guest_byte q x"
proof -
  note D = image_okD [OF ok]
  have m: "meta_agree q f" using o unfolding only_slot_def meta_agree_def by (metis is_data.simps(1))
  note t = meta_tab [OF m]
  have fs: "fsize f = fsize (hfile q)" using o by (simp add: only_slot_def)
  show "image_ok (q\<lparr>hfile := f\<rparr>)"
    using D(8) slots_okD(2) [OF D(4)] by (intro image_ok_frame [OF ok m]) (simp_all add: fs)
  show "target (q\<lparr>hfile := f\<rparr>) = target q" using tab_agree_target [OF D(1,2) t] by blast
  show "l2_entry (q\<lparr>hfile := f\<rparr>) i' j' = l2_entry q i' j'"
    if "i' < length (l1 q)" "l1 q ! i' \<noteq> 0" "j' < l2Entries q" for i' j' using tab_agree_l2_entry [OF D(1,2) t that] .
  show "guest_entry (q\<lparr>hfile := f\<rparr>) (x div clusterSize q) = guest_entry q (x div clusterSize q)" if "x < imgSize q" for x
    using guest_entry_frame [OF D(1,2) t that] .
  show "guest_byte (q\<lparr>hfile := f\<rparr>) x = guest_byte q x" if "x < imgSize q" "guest_slot q x \<noteq> Data i j" for x
    using o that(2) by (intro guest_byte_frame [OF D(1,2) t that(1)]) (auto simp: only_slot_def)
qed

subsection \<open>Zeroing a cluster that reads as zeros\<close>

lemma data_cluster:
  assumes ok: "image_ok q" and i: "i < length (l1 q)" "l1 q ! i \<noteq> 0" and j: "j < l2Entries q"
    and e: "clusterOffset (l2_entry q i j) = c * clusterSize q" "c \<noteq> 0"
  shows "target q (Data i j) = Some c" "(c + 1) * clusterSize q \<le> fsize (hfile q)" "c * clusterSize q < 2 ^ 56"
proof -
  have "c * clusterSize q \<noteq> 0" using e(2) geometry_cs(1) [OF image_okD(1) [OF ok]] by simp
  then show t: "target q (Data i j) = Some c"
    using i j e(1) mult_cluster(1) [OF image_okD(1) [OF ok], of c] by simp
  show "(c + 1) * clusterSize q \<le> fsize (hfile q)" using slots_okD(2) [OF image_okD(4) [OF ok] t] .
  show "c * clusterSize q < 2 ^ 56" using clusterOffset_less [of "l2_entry q i j"] e(1) by simp
qed

lemma zero_flag_guest:
  assumes ok: "image_ok q" and o: "only_slot q (Data i j) f" and z: "l2_entry q i j AND qcow2OFlagZero \<noteq> 0"
  shows "same_guest q (q\<lparr>hfile := f\<rparr>)"
  unfolding same_guest_def
proof (intro allI impI)
  fix x assume x: "x < imgSize q"
  show "guest_byte (q\<lparr>hfile := f\<rparr>) x = guest_byte q x"
  proof (cases "guest_slot q x = Data i j")
    case True
    then have "guest_entry q (x div clusterSize q) = l2_entry q i j \<or> guest_entry q (x div clusterSize q) = 0"
      by (auto simp: guest_slot_def guest_entry_def Let_def)
    then show ?thesis using data_frame(4) [OF ok o x] z by (auto simp: guest_byte_def Let_def clusterOffset_def)
  qed (use data_frame(5) [OF ok o x] in blast)
qed

lemma zeroCluster_step:
  assumes ok: "image_ok q" and i: "i < length (l1 q)" "l1 q ! i \<noteq> 0" and j: "j < l2Entries q"
    and e: "clusterOffset (l2_entry q i j) = c * clusterSize q" "c \<noteq> 0" "l2_entry q i j AND qcow2OFlagZero \<noteq> 0"
    and r: "zeroCluster (c * clusterSize q) q = (r, q')"
  shows "same_disk q q' \<and> (case r of Inl e \<Rightarrow> sane e \<and> \<not> healthy q | Inr _ \<Rightarrow> settable q' i j c)"
proof -
  note G = geometry_cs [OF image_okD(1) [OF ok]] and C = data_cluster [OF ok i j e(1,2)]
  have z: "checkedInt (clusterSize q) = Inr (clusterSize q)" using G(2) by (simp add: checkedInt_def max_int64_def)
  have cs: "replicate (clusterSize q) (0 :: byte) \<noteq> []" using G(1) by auto
  have off: "c * clusterSize q < 2 ^ 63" using C(3) by simp
  obtain r1 q1 where w: "on_file (fWriteAt (replicate (clusterSize q) 0) (c * clusterSize q)) q = (r1, q1)" by fastforce
  have red: "q' = q1" "r = (case r1 of Inl e \<Rightarrow> Inl e | Inr _ \<Rightarrow> Inr ())"
    using r w z by (auto simp: zeroCluster_def andthen_def inspect_def ret_def split: sum.splits)
  let ?z = "replicate (clusterSize q) (0 :: byte)"
  obtain f k where q1: "q1 = q\<lparr>hfile := f\<rparr>" and f: "same_data f (store_bytes (c * clusterSize q) (take k ?z) (hfile q))"
    and h: "healthy q \<Longrightarrow> healthy q1 \<and> r1 = Inr (length ?z)"
    and full: "\<And>n. r1 = Inr n \<Longrightarrow> n = length ?z \<and> take k ?z = ?z" and s: "\<And>e. r1 = Inl e \<Longrightarrow> sane e"
    by (rule fWriteAt_cases [OF w off cs]) blast
  have o: "only_slot q (Data i j) f" by (rule data_store [OF ok C(1) _ _ f]) simp_all
  note F = data_frame [OF ok o]
  have d: "same_disk q q1"
    using F(1) zero_flag_guest [OF ok o e(3)] h q1 by (auto simp: same_disk_def same_shape_def)
  have "settable q1 i j c" if "r1 = Inr n" for n
  proof -
    have "\<forall>x. in_cluster q c x \<longrightarrow> fbytes f x = 0"
      using f full [OF that] by (auto simp: in_cluster_def same_data_def)
    then show ?thesis unfolding settable_def
      using i j e C(1,3) F(2,3) q1 by (simp add: in_cluster_def del: target.simps)
  qed
  then show ?thesis using d red s h by (auto split: sum.splits)
qed

subsection \<open>Updating the entry of a cluster\<close>

lemma hoare_updateL2:
  assumes "v = c * clusterSize q0 OR qcow2OFlagCopied"
  shows "hoare (\<lambda>q. same_disk q0 q \<and> settable q i j c \<and> (new \<longrightarrow> fresh q c)) (updateL2Entry i j v)
    (\<lambda>_ q. same_disk q0 q \<and> mapped q i j (c * clusterSize q0)) (undoable q0 new c)"
proof (rule hoareI)
  fix q x q' assume q: "same_disk q0 q \<and> settable q i j c \<and> (new \<longrightarrow> fresh q c)" and r: "updateL2Entry i j v q = (Inr x, q')"
  have v: "v = c * clusterSize q OR qcow2OFlagCopied" and ok: "image_ok q"
    using q disk_fields(1) [of q0 q] same_diskD(1) [of q0 q] assms by simp_all
  have S: "same_disk q q'" "l1 q' = l1 q" "l2_entry q' i j = v"
    using updateL2Entry_step [OF ok, of i j c "Inr x" q'] q r v by simp_all
  have c: "c * clusterSize q < 2 ^ 56" "c \<noteq> 0" "l1 q ! i \<noteq> 0" using q by (auto simp: settable_def)
  have "c * clusterSize q \<noteq> 0" using c(2) geometry_cs(1) [OF image_okD(1) [OF ok]] by simp
  then show "same_disk q0 q' \<and> mapped q' i j (c * clusterSize q0)"
    using S c(3) v copied_entry(1,2) [OF image_okD(1) [OF ok] c(1,2)] q same_disk_trans [of q0 q q'] disk_fields(1) [of q0 q] by (simp add: mapped_def)
next
  fix q e q' assume q: "same_disk q0 q \<and> settable q i j c \<and> (new \<longrightarrow> fresh q c)" and r: "updateL2Entry i j v q = (Inl e, q')"
  then have v: "v = c * clusterSize q OR qcow2OFlagCopied" and ok: "image_ok q"
    using disk_fields(1) [of q0 q] same_diskD(1) [of q0 q] assms by simp_all
  have "sane e \<and> \<not> healthy q \<and> (writeFault q' \<noteq> None \<or> (same_disk q q' \<and> (fresh q c \<longrightarrow> fresh q' c)))"
    using updateL2Entry_step [OF ok, of i j c "Inl e" q'] q r v by simp
  then show "undoable q0 new c e q'" using q same_diskD(4) [of q0 q] same_disk_trans [of q0 q q'] by (auto simp: undoable_def)
qed

lemma hoare_zero:
  assumes "i < length (l1 q0)" "j < l2Entries q0" "off = c * clusterSize q0" "c \<noteq> 0"
  shows "hoare (\<lambda>q. same_disk q0 q \<and> l1 q ! i \<noteq> 0 \<and> clusterOffset (l2_entry q i j) = off \<and> l2_entry q i j AND qcow2OFlagZero \<noteq> 0)
    (zeroCluster off) (\<lambda>_ q. same_disk q0 q \<and> settable q i j c) (refused q0)"
proof -
  have S: "same_disk q0 q' \<and> (case r of Inl e \<Rightarrow> sane e \<and> \<not> healthy q0 | Inr _ \<Rightarrow> settable q' i j c)"
    if q: "same_disk q0 q \<and> l1 q ! i \<noteq> 0 \<and> clusterOffset (l2_entry q i j) = off \<and> l2_entry q i j AND qcow2OFlagZero \<noteq> 0"
      and r: "zeroCluster off q = (r, q')" for q r q'
    using zeroCluster_step [OF same_diskD(1), of q0 q i j c r q'] q r assms disk_fields [of q0 q] same_diskD(4) [of q0 q]
      same_disk_trans [of q0 q q'] by (auto split: sum.splits)
  show ?thesis by (rule hoareI) (use S in \<open>fastforce simp: refused_def\<close>)+
qed

lemma prepareMappedCluster_hoare:
  assumes i: "i < length (l1 q0)" and j: "j < l2Entries q0" and off: "off = clusterOffset e" "off \<noteq> 0"
    and ok: "image_ok q0"
  shows "hoare (\<lambda>q. same_disk q0 q \<and> l1 q ! i \<noteq> 0 \<and> l2_entry q i j = e) (prepareMappedCluster i j e off)
    (\<lambda>_ q. same_disk q0 q \<and> mapped q i j off) (refused q0)" (is "hoare ?P _ ?Q _")
proof (rule hoare_fact)
  fix q assume q: "?P q"
  show "\<exists>c. off = c * clusterSize q0 \<and> c \<noteq> 0"
  proof -
    have "off mod clusterSize q = 0"
      using q i j off image_okD(2) [OF same_diskD(1) [of q0 q]] disk_fields [of q0 q] by (auto simp: entries_ok_def)
    then have "off = off div clusterSize q0 * clusterSize q0" using q disk_fields(1) [of q0 q] by (simp add: mod_0_imp_dvd)
    then show ?thesis using off(2) by (metis mult_0)
  qed
next
  assume "\<exists>c. off = c * clusterSize q0 \<and> c \<noteq> 0"
  then obtain c where c: "off = c * clusterSize q0" "c \<noteq> 0" by blast
  have count: "hoare ?P (refcount off) (\<lambda>v q. same_disk q0 q \<and> (l1 q ! i \<noteq> 0 \<and> l2_entry q i j = e) \<and> v = 1) (refused q0)"
    (is "hoare _ _ ?R _")
  proof -
    have "hoare (\<lambda>q. same_disk q0 q \<and> (l1 q ! i \<noteq> 0 \<and> l2_entry q i j = e)) (refcount off)
      (\<lambda>v q. same_disk q0 q \<and> ((l1 q ! i \<noteq> 0 \<and> l2_entry q i j = e) \<and> v = 1)) (refused q0)"
    proof (rule hoare_reads_disk)
      fix q assume q: "same_disk q0 q" "l1 q ! i \<noteq> 0 \<and> l2_entry q i j = e"
      note M = mult_cluster [OF image_okD(1) [OF ok]] and f = disk_fields [OF q(1)]
      have "target q (Data i j) = Some c"
        using data_cluster(1) [OF same_diskD(1) [OF q(1)], of i j c] i j q(2) off c f by simp
      then show "reads q (refcount off) (\<lambda>v. v = 1)"
        using owned_refcount_reads [OF same_diskD(1) [OF q(1)], of "Data i j" off] M(1,2) [of c] c(1) f(1) by simp
    qed (use follows_fields quiet_view(2) [OF followsD(2)] follows_refused in auto)
    then show ?thesis by (simp add: conj_assoc)
  qed
  show "hoare ?P (prepareMappedCluster i j e off) ?Q (refused q0)"
    unfolding prepareMappedCluster_def
  proof (rule hoare_andthen [OF count])
    fix rc
    have z: "hoare (?R 1) (andthen (zeroCluster off) (\<lambda>_. updateL2Entry i j (off OR qcow2OFlagCopied))) ?Q (refused q0)"
      if "e AND qcow2OFlagZero \<noteq> 0"
    proof (rule hoare_andthen)
      show "hoare (?R 1) (zeroCluster off) (\<lambda>_ q. same_disk q0 q \<and> settable q i j c) (refused q0)"
        by (rule hoare_pre [OF hoare_zero [OF i j c]]) (use that off in auto)
      show "hoare (\<lambda>q. same_disk q0 q \<and> settable q i j c) (updateL2Entry i j (off OR qcow2OFlagCopied)) ?Q (refused q0)" for x :: unit
        unfolding c(1) by (rule hoare_weaken [OF hoare_updateL2 [where new = False, OF refl]])
          (auto intro: undoable_refused)
    qed
    show "hoare (?R rc) (if rc \<noteq> 1 then fail (QErr ''copy-on-write refcount is unsupported'')
        else if e AND qcow2OFlagZero = 0 then ret () else andthen (zeroCluster off) (\<lambda>_. updateL2Entry i j (off OR qcow2OFlagCopied))) ?Q (refused q0)"
    proof (cases "rc = 1")
      case True
      then show ?thesis using z off by (auto simp: hoare_def ret_def mapped_def)
    qed (simp add: hoare_def)
  qed
qed

subsection \<open>A writable cluster\<close>

definition writable :: "qcow2Image \<Rightarrow> nat \<Rightarrow> nat \<Rightarrow> bool" where
  "writable q x h \<longleftrightarrow> (let e = guest_entry q (x div clusterSize q) in
     clusterOffset e \<noteq> 0 \<and> e AND qcow2OFlagZero = 0 \<and> h = clusterOffset e + x mod clusterSize q)"

lemma mapped_writable:
  assumes "image_ok q" "x < imgSize q" "mapped q (x div clusterSize q div l2Entries q) (x div clusterSize q mod l2Entries q) off"
  shows "writable q x (add64 off (inCluster x q))"
proof -
  have e: "guest_entry q (x div clusterSize q) = l2_entry q (x div clusterSize q div l2Entries q) (x div clusterSize q mod l2Entries q)"
    using assms(3) by (simp add: mapped_def guest_entry_def Let_def)
  note G = geometry_cs(1,2) [OF image_okD(1) [OF assms(1)]]
  have off: "off < 2 ^ 56" using assms(3) clusterOffset_less unfolding mapped_def by blast
  have "x mod clusterSize q < clusterSize q" using G(1) by simp
  then have "add64 off (inCluster x q) = off + x mod clusterSize q"
    unfolding inCluster_mod [OF image_okD(1) [OF assms(1)]] using offset_fits(2) [OF off _ G(2)] by (simp only: add64_id)
  then show ?thesis using assms(3) e by (simp add: writable_def mapped_def Let_def)
qed

lemma hoare_gets_writable:
  assumes x: "x < imgSize q0" and ij: "i = x div clusterSize q0 div l2Entries q0" "j = x div clusterSize q0 mod l2Entries q0"
  shows "hoare (\<lambda>q. same_disk q0 q \<and> mapped q i j off) (gets (\<lambda>q. add64 off (inCluster x q)))
    (\<lambda>h q. same_disk q0 q \<and> writable q x h) (refused q0)"
proof (rule hoare_pre [OF hoare_gets])
  fix q assume "same_disk q0 q \<and> mapped q i j off"
  then show "same_disk q0 q \<and> writable q x (add64 off (inCluster x q))"
    using assms mapped_writable [of q x off] same_diskD(1) [of q0 q] disk_fields [of q0 q] by simp
qed

lemma hoare_new_data:
  assumes x: "x < imgSize q0" and ij: "i = x div clusterSize q0 div l2Entries q0" "j = x div clusterSize q0 mod l2Entries q0"
    and i: "i < length (l1 q0)" and j: "j < l2Entries q0" and e: "clusterOffset e = 0"
  shows "hoare (\<lambda>q. same_disk q0 q \<and> l1 q ! i \<noteq> 0 \<and> l2_entry q i j = e)
    (andthen allocateCluster (\<lambda>clusterOff.
         handle (updateL2Entry i j (clusterOff OR qcow2OFlagCopied))
           (\<lambda>err. rollbackNewCluster clusterOff err)
           (\<lambda>_. gets (\<lambda>q. add64 clusterOff (inCluster x q)))))
    (\<lambda>h q. same_disk q0 q \<and> writable q x h) (refused q0)"
    (is "hoare _ (andthen _ ?k) ?Q _")
proof (rule hoare_andthen [OF hoare_allocate])
  show "l1 q' ! i \<noteq> 0 \<and> l2_entry q' i j = e" if "same_disk q0 q" "l1 q ! i \<noteq> 0 \<and> l2_entry q i j = e" "kept q q'" for q q'
    using that keptD(5) [of q q'] i j disk_fields [of q0 q] by (auto simp: same_map_def)
  show "hoare (\<lambda>q. same_disk q0 q \<and> (l1 q ! i \<noteq> 0 \<and> l2_entry q i j = e) \<and> (\<exists>c. off = c * clusterSize q0 \<and> fresh q c)) (?k off) ?Q (refused q0)" for off
  proof (rule hoare_pre)
    show "hoare (\<lambda>q. \<exists>c. off = c * clusterSize q0 \<and> same_disk q0 q \<and> settable q i j c \<and> fresh q c) (?k off) ?Q (refused q0)"
    proof (rule hoare_ex, rule hoare_fact)
      fix c
      let ?P = "\<lambda>q. off = c * clusterSize q0 \<and> same_disk q0 q \<and> settable q i j c \<and> fresh q c"
      show "off = c * clusterSize q0 \<and> c * clusterSize q0 < 2 ^ 63" if "?P q" for q
        using that freshD(3) [of q c] disk_fields(1) [of q0 q] by auto
      assume F: "off = c * clusterSize q0 \<and> c * clusterSize q0 < 2 ^ 63"
      have "hoare (\<lambda>q. same_disk q0 q \<and> settable q i j c \<and> (True \<longrightarrow> fresh q c)) (?k (c * clusterSize q0)) ?Q (refused q0)"
        using F by (intro hoare_handle [OF hoare_updateL2 [OF refl] hoare_gets_writable [OF x ij]] hoare_rollback) blast
      moreover have "off = c * clusterSize q0" using F by blast
      ultimately show "hoare ?P (?k off) ?Q (refused q0)" by (simp only:) (erule hoare_pre, blast)
    qed
  next
    fix q assume q: "same_disk q0 q \<and> (l1 q ! i \<noteq> 0 \<and> l2_entry q i j = e) \<and> (\<exists>c. off = c * clusterSize q0 \<and> fresh q c)"
    then obtain c where c: "off = c * clusterSize q0" "fresh q c" by blast
    have "settable q i j c" unfolding settable_def
      using q i j e c(2) freshD(3,4,6) [OF c(2)] disk_fields [of q0 q] by (simp del: target.simps)
    then show "\<exists>c. off = c * clusterSize q0 \<and> same_disk q0 q \<and> settable q i j c \<and> fresh q c" using q c by blast
  qed
qed

lemma ensureWritableCluster_hoare:
  assumes ok: "image_ok q0" and x: "x < imgSize q0"
  shows "hoare (same_disk q0) (ensureWritableCluster x) (\<lambda>h q. same_disk q0 q \<and> writable q x h) (refused q0)"
    (is "hoare _ _ ?Q _")
proof -
  let ?i = "x div clusterSize q0 div l2Entries q0" and ?j = "x div clusterSize q0 mod l2Entries q0"
  note I = guest_index [OF image_okD(1) [OF ok] x]
  have idx: "tableIndexes x q = Inr (?i, ?j)" if "same_disk q0 q" for q
    using that tableIndexes_eq [OF image_okD(1) [OF same_diskD(1) [OF that]], of x] disk_fields [OF that] x by simp
  have old: "hoare (\<lambda>q. same_disk q0 q \<and> l1 q ! ?i \<noteq> 0 \<and> l2_entry q ?i ?j = e)
      (andthen (prepareMappedCluster ?i ?j e (clusterOffset e)) (\<lambda>_. gets (\<lambda>q. add64 (clusterOffset e) (inCluster x q)))) ?Q (refused q0)"
    if "clusterOffset e \<noteq> 0" for e
    by (rule hoare_andthen [OF prepareMappedCluster_hoare [OF I refl that ok] hoare_gets_writable [OF x refl refl]])
  let ?k = "\<lambda>l2. andthen (at_index l2 ?j) (\<lambda>entry. andthen (\<lambda>q. check (validateL2Entry entry q) q) (\<lambda>_.
       if entry \<noteq> 0 \<and> clusterOffset entry \<noteq> 0 then
         andthen (prepareMappedCluster ?i ?j entry (clusterOffset entry)) (\<lambda>_.
         gets (\<lambda>q. add64 (clusterOffset entry) (inCluster x q)))
       else
         andthen allocateCluster (\<lambda>clusterOff.
         handle (updateL2Entry ?i ?j (clusterOff OR qcow2OFlagCopied))
           (\<lambda>err. rollbackNewCluster clusterOff err)
           (\<lambda>_. gets (\<lambda>q. add64 clusterOff (inCluster x q))))))"
  have main: "hoare (same_disk q0) (andthen (ensureL2Table ?i) ?k) ?Q (refused q0)"
  proof (rule hoare_andthen [OF ensureL2Table_hoare [OF ok I(1)]], rule hoare_each)
    fix t q assume q: "same_disk q0 q \<and> l1 q ! ?i \<noteq> 0 \<and> t = tbl (hfile q) (l2_off q ?i) (l2Entries q)"
    let ?e = "l2_entry q ?i ?j"
    note f = disk_fields [OF conjunct1 [OF q]]
    have t: "t ! ?j = ?e" "?j < length t" using q I(2) f by (simp_all add: l2_entry_def)
    have v: "validateL2Entry ?e q = None"
      using q I f image_okD(2) [OF same_diskD(1) [OF conjunct1 [OF q]]] by (simp add: entries_ok_def)
    show "hoare (\<lambda>s. s = q) (?k t) ?Q (refused q0)"
    proof (cases "clusterOffset ?e = 0")
      case True
      show ?thesis
        by (rule hoare_cong [OF _ hoare_pre [OF hoare_new_data [OF x refl refl I True]]])
          (use True t v q in \<open>auto simp: andthen_def at_index_def ret_def check_def\<close>)
    next
      case False
      then have "?e \<noteq> 0" unfolding clusterOffset_def by (metis zero_and_eq)
      then show ?thesis
        by (intro hoare_cong [OF _ hoare_pre [OF old [OF False]]])
          (use False t v q in \<open>auto simp: andthen_def at_index_def ret_def check_def\<close>)
    qed
  qed
  have "ensureWritableCluster x q = andthen (ensureL2Table ?i) ?k q" if "same_disk q0 q" for q
    unfolding ensureWritableCluster_def by (subst andthen_inspect [where f = "tableIndexes x", OF idx [OF that]]) simp
  then show ?thesis using main by (rule hoare_cong)
qed

end
