(* ===== verification/Qcow2_Write.thy ===== *)
theory Qcow2_Write
  imports Qcow2_Writable
begin

text \<open>
  \<^verbatim>\<open>WriteAt\<close>: the loop over the clusters of a request, and what it leaves behind on
  every outcome of the file calls it makes.
\<close>

section \<open>Definitions\<close>

text \<open>The first \<open>n\<close> bytes of \<open>b\<close> are on the guest disk at \<open>off\<close>, and nothing else changed.\<close>

definition overlay :: "qcow2Image \<Rightarrow> nat \<Rightarrow> byte list \<Rightarrow> nat \<Rightarrow> nat \<Rightarrow> byte" where
  "overlay q0 off b n x = (if off \<le> x \<and> x < off + n then b ! (x - off) else guest_byte q0 x)"

definition stage :: "qcow2Image \<Rightarrow> nat \<Rightarrow> byte list \<Rightarrow> nat \<Rightarrow> qcow2Image \<Rightarrow> bool" where
  "stage q0 off b n q \<longleftrightarrow> image_ok q \<and> same_shape q0 q \<and> (healthy q0 \<longrightarrow> healthy q) \<and>
     (\<forall>x < imgSize q0. guest_byte q x = overlay q0 off b n x)"

text \<open>
  After a failed write of data, each byte of the rest of the request is the old or
  the new one, and every byte outside the request is the old one.
\<close>

definition torn :: "qcow2Image \<Rightarrow> nat \<Rightarrow> byte list \<Rightarrow> nat \<Rightarrow> qcow2Image \<Rightarrow> bool" where
  "torn q0 off b n q \<longleftrightarrow> image_ok q \<and> same_shape q0 q \<and> (\<forall>x < imgSize q0.
     guest_byte q x = overlay q0 off b n x \<or>
     off + n \<le> x \<and> x < off + length b \<and> guest_byte q x = b ! (x - off))"

section \<open>Lemmas\<close>

lemma guest_slot_inj:
  assumes "guest_slot q y = guest_slot q x" shows "y div clusterSize q = x div clusterSize q"
  using assms unfolding guest_slot_def Let_def slot.inject by (metis div_mult_mod_eq)

lemma same_cluster_mod:
  fixes cs :: nat assumes "y div cs = x div cs"
  shows "y + x mod cs = x + y mod cs"
  using div_mult_mod_eq [of x cs] div_mult_mod_eq [of y cs, unfolded assms] by linarith

lemma write_chunk:
  assumes ok: "image_ok q" and x: "x < imgSize q" and w: "writable q x h"
    and n: "bs \<noteq> []" "length bs \<le> clusterSize q - x mod clusterSize q"
    and r: "on_file (fWriteAt bs h) q = (r, q')"
  obtains k where "image_ok q'" "same_shape q q'"
    "\<And>y. y < imgSize q \<Longrightarrow> guest_byte q' y = (if x \<le> y \<and> y < x + length (take k bs) then bs ! (y - x) else guest_byte q y)"
    "\<And>m. r = Inr m \<Longrightarrow> take k bs = bs" "healthy q \<Longrightarrow> healthy q' \<and> r = Inr (length bs)" "\<And>e. r = Inl e \<Longrightarrow> sane e"
proof -
  let ?cs = "clusterSize q" and ?e = "guest_entry q (x div clusterSize q)"
  let ?c = "clusterOffset ?e div ?cs"
  note D = image_okD [OF ok]
  have e: "clusterOffset ?e \<noteq> 0" "?e AND qcow2OFlagZero = 0" "h = clusterOffset ?e + x mod ?cs"
    using w by (auto simp: writable_def Let_def)
  have cs: "x mod ?cs < ?cs" using geometry_cs(1) [OF D(1)] by simp
  have c: "?c * ?cs = clusterOffset ?e" using guest_entry_aligned [OF D(1,2) x] by (simp add: mod_0_imp_dvd)
  obtain i j where ij: "guest_slot q x = Data i j" by (simp add: guest_slot_def Let_def)
  have t: "target q (Data i j) = Some ?c" using guest_slot_target [OF D(1) x e(1)] ij by simp
  have "h < 2 ^ 63" using guest_host_range(2) [OF ok x refl e(1) n(2)] e(3) by simp
  then obtain f k where q': "q' = q\<lparr>hfile := f\<rparr>" and f: "same_data f (store_bytes h (take k bs) (hfile q))"
    and hl: "healthy q \<Longrightarrow> healthy q' \<and> r = Inr (length bs)" and full: "\<And>m. r = Inr m \<Longrightarrow> m = length bs \<and> take k bs = bs"
    and s: "\<And>e. r = Inl e \<Longrightarrow> sane e" using n(1) by (rule fWriteAt_cases [OF r]) blast
  have "?c * ?cs \<le> h" "h + length (take k bs) \<le> (?c + 1) * ?cs" using e(3) c n(2) cs by (simp_all add: add_mult_distrib)
  then have o: "only_slot q (Data i j) f" using data_store [OF ok t _ _ f] by blast
  note F = data_frame [OF ok o]
  have g: "guest_byte q' y = (if x \<le> y \<and> y < x + length (take k bs) then bs ! (y - x) else guest_byte q y)"
    if y: "y < imgSize q" for y
  proof (cases "guest_slot q y = Data i j")
    case False
    then have "\<not> (x \<le> y \<and> y < x + length (take k bs))"
      using chunk_same_cluster(1) [of ?cs "y - x" x] cs n(2) ij by (auto simp: guest_slot_def)
    then show ?thesis using F(5) [OF y False] q' by auto
  next
    case True
    then have yx: "y div ?cs = x div ?cs" using guest_slot_inj ij by simp
    note m = same_cluster_mod [OF yx]
    have ge: "guest_entry q (y div ?cs) = ?e" "guest_entry q' (y div ?cs) = ?e" using F(4) [OF y] q' yx by simp_all
    have b: "guest_byte q y = fbytes (hfile q) (clusterOffset ?e + y mod ?cs)"
      "guest_byte q' y = fbytes f (clusterOffset ?e + y mod ?cs)"
      using e(1,2) ge q' by (simp_all add: guest_byte_def Let_def)
    have "clusterOffset ?e + y mod ?cs < fsize (hfile q)"
      using guest_host_range(1) [OF ok y refl, of 1] ge(1) e(1) cs geometry_cs(1) [OF D(1)] by (simp add: Suc_le_eq)
    moreover have "h \<le> clusterOffset ?e + y mod ?cs \<longleftrightarrow> x \<le> y" "clusterOffset ?e + y mod ?cs - h = y - x"
      "clusterOffset ?e + y mod ?cs < h + length (take k bs) \<longleftrightarrow> y < x + length (take k bs)"
      using m e(3) by linarith+
    moreover have "take k bs ! (y - x) = bs ! (y - x)" if "x \<le> y" "y < x + length (take k bs)" using that by simp
    ultimately show ?thesis using b f by (auto simp: same_data_def store_bytes_def)
  qed
  show ?thesis
  proof (rule that [of k])
    show "image_ok q'" using F(1) q' by simp
    show "same_shape q q'" using q' by (simp add: same_shape_def)
  qed (use g full hl s in blast)+
qed

subsection \<open>The loop\<close>

lemma stageD:
  assumes "stage q0 off b n q"
  shows "image_ok q" "same_shape q0 q" "healthy q0 \<Longrightarrow> healthy q" "imgSize q = imgSize q0" "clusterSize q = clusterSize q0"
    "\<And>x. x < imgSize q0 \<Longrightarrow> guest_byte q x = overlay q0 off b n x"
  using assms by (auto simp: stage_def same_shape_def)

lemma stage_torn: "stage q0 off b n q \<Longrightarrow> torn q0 off b n q"
  by (auto simp: stage_def torn_def)

lemma stage_disk:
  assumes "stage q0 off b n q" "same_disk q q'" shows "stage q0 off b n q'"
  using assms same_shape_trans [of q0 q q'] stageD [OF assms(1)] same_diskD [OF assms(2)]
  by (auto simp: stage_def same_guest_def)

lemma overlay_more:
  assumes "off \<le> x" "n \<le> length b"
  shows "(if off + n \<le> x \<and> x < off + n + k then b ! (x - off) else overlay q0 off b n x) = overlay q0 off b (n + k) x"
  using assms by (auto simp: overlay_def)

lemma write_round:
  assumes st: "stage q0 off b n q" and n: "n < length b" "off + length b \<le> imgSize q0"
    and m: "m = min (length b - n) (clusterSize q - (off + n) mod clusterSize q)"
    and w: "writable q (off + n) h" and r: "on_file (fWriteAt (slice b n m) h) q = (r, q')"
  shows "case r of Inl e \<Rightarrow> sane e \<and> torn q0 off b n q' \<and> \<not> healthy q0
    | Inr _ \<Rightarrow> stage q0 off b (n + m) q' \<and> 0 < m \<and> n + m \<le> length b"
proof -
  note S = stageD [OF st]
  have cs: "0 < clusterSize q" using geometry_cs(1) [OF image_okD(1) [OF S(1)]] by simp
  have m0: "0 < m" "n + m \<le> length b" "m \<le> clusterSize q - (off + n) mod clusterSize q"
    using m n mod_less_divisor [OF cs, of "off + n"] by auto
  have len: "length (slice b n m) = m" using m0(2) by (rule length_slice)
  then have sl: "slice b n m \<noteq> []" using m0(1) by auto
  have x: "off + n < imgSize q" using n S(4) by simp
  have le: "length (slice b n m) \<le> clusterSize q - (off + n) mod clusterSize q" using len m0(3) by simp
  obtain k where k: "image_ok q'" "same_shape q q'"
    "\<And>y. y < imgSize q \<Longrightarrow> guest_byte q' y = (if off + n \<le> y \<and> y < off + n + length (take k (slice b n m))
        then slice b n m ! (y - (off + n)) else guest_byte q y)"
    "\<And>m'. r = Inr m' \<Longrightarrow> take k (slice b n m) = slice b n m" "healthy q \<Longrightarrow> healthy q' \<and> r = Inr (length (slice b n m))"
    "\<And>e. r = Inl e \<Longrightarrow> sane e" by (rule write_chunk [OF S(1) x w sl le r]) blast
  have sh: "same_shape q0 q'" using same_shape_trans [OF S(2) k(2)] .
  have g: "guest_byte q' y = (if off + n \<le> y \<and> y < off + n + min m k then b ! (y - off) else overlay q0 off b n y)"
    if y: "y < imgSize q0" for y
  proof -
    have "slice b n m ! (y - (off + n)) = b ! (y - off)" if "off + n \<le> y" "y < off + n + min m k"
      using that m0(2) by (subst nth_slice) (auto simp: algebra_simps)
    then show ?thesis using k(3) [of y] y S(4) S(6) [OF y] len by auto
  qed
  show ?thesis
  proof (cases r)
    case (Inl e)
    have "\<not> healthy q0" using k(5) S(3) Inl by auto
    moreover have "torn q0 off b n q'"
      unfolding torn_def using k(1) sh g m0(2) by auto
    ultimately show ?thesis using Inl k(6) by simp
  next
    case (Inr m')
    then have "m \<le> k" using k(4) len by (metis length_take min.cobounded2)
    then have "guest_byte q' y = overlay q0 off b (n + m) y" if "y < imgSize q0" for y
      using g [OF that] by (auto simp: overlay_def min_def)
    then show ?thesis using Inr k(1,5) sh S(3) m0 by (auto simp: stage_def)
  qed
qed

lemma write_loop_stage:
  assumes ok: "image_ok q0" and len: "off + length b \<le> imgSize q0"
  shows "stage q0 off b n q \<Longrightarrow> n \<le> length b \<Longrightarrow> length b - n < fuel \<Longrightarrow> write_loop fuel off b n q = ((n', e), q') \<Longrightarrow>
    (case e of None \<Rightarrow> n' = length b \<and> stage q0 off b (length b) q'
     | Some e \<Rightarrow> n \<le> n' \<and> n' < length b \<and> sane e \<and> (writeFault q' \<noteq> None \<or> torn q0 off b n' q') \<and>
         (healthy q0 \<longrightarrow> full e \<and> stage q0 off b n' q'))"
proof (induction fuel arbitrary: n q)
  case (Suc fuel)
  note st = Suc.prems(1) and S = stageD [OF Suc.prems(1)]
  show ?case
  proof (cases "length b \<le> n")
    case True
    then show ?thesis using Suc.prems by auto
  next
    case False
    let ?m = "min (length b - n) (clusterSize q - (off + n) mod clusterSize q)"
    have x: "off + n < imgSize q" using False len S(4) by simp
    have "imgSize q0 < 2 ^ 63" using image_okD(1) [OF ok] by (simp add: geometry_def max_int64_def)
    then have a: "add64 off n = off + n" using x S(4) by (intro add64_id) simp
    have c: "min (length b - n) (sub64 (clusterSize q) (inCluster (add64 off n) q)) = ?m"
      using chunk_bounds(1) [OF image_okD(1) [OF S(1)], of 1] a by simp
    note H = ensureWritableCluster_hoare [OF S(1) x]
    obtain r1 q1 where w: "ensureWritableCluster (off + n) q = (r1, q1)" by fastforce
    show ?thesis
    proof (cases r1)
      case (Inl er)
      have "refused q er q1" using hoare_err [OF H same_disk_refl [OF S(1)]] w Inl by simp
      then have "sane er" "writeFault q1 \<noteq> None \<or> torn q0 off b n q1" "healthy q0 \<longrightarrow> full er \<and> stage q0 off b n q1"
        using stage_torn [OF stage_disk [OF st]] stage_disk [OF st] S(3) unfolding refused_def by blast+
      moreover have "n' = n" "e = Some er" "q' = q1" using Suc.prems(4) False a w Inl by (auto simp: Let_def)
      ultimately show ?thesis using False by simp
    next
      case (Inr h)
      then have wr: "same_disk q q1" "writable q1 (off + n) h" using hoare_ok [OF H same_disk_refl [OF S(1)]] w by simp_all
      note st1 = stage_disk [OF st wr(1)]
      have cs: "clusterSize q1 = clusterSize q" using disk_fields(1) [OF wr(1)] .
      obtain r2 q2 where f: "on_file (fWriteAt (slice b n ?m) h) q1 = (r2, q2)" by fastforce
      note R = write_round [OF st1 _ len _ wr(2) f]
      show ?thesis
      proof (cases r2)
        case (Inl er)
        then have "n' = n" "e = Some er" "q' = q2" using Suc.prems(4) False a c w Inr f by (auto simp: Let_def)
        then show ?thesis using R Inl False cs by simp
      next
        case (Inr u)
        then have R': "stage q0 off b (n + ?m) q2" "0 < ?m" "n + ?m \<le> length b" using R False cs by simp_all
        have l: "write_loop fuel off b (n + ?m) q2 = ((n', e), q')"
          using Suc.prems(4) False a c w \<open>r1 = Inr h\<close> f Inr by (simp add: Let_def)
        have "length b - (n + ?m) < fuel" using R'(2,3) Suc.prems(3) by linarith
        then show ?thesis using Suc.IH [OF R'(1,3) _ l] R'(2) by (auto split: option.splits)
      qed
    qed
  qed
qed simp

subsection \<open>The request\<close>

definition in_range :: "qcow2Image \<Rightarrow> nat \<Rightarrow> byte list \<Rightarrow> bool" where
  "in_range q off b \<longleftrightarrow> off + length b \<le> imgSize q"

lemma stage_start: "image_ok q \<Longrightarrow> stage q off b 0 q"
  by (auto simp: stage_def same_shape_def overlay_def)

lemma WriteAt_stage:
  assumes ok: "image_ok q" and r: "WriteAt b (int off) q = ((n, e), q')" and inr: "in_range q off b" "b \<noteq> []"
  shows "case e of None \<Rightarrow> n = length b \<and> stage q off b (length b) q'
    | Some e \<Rightarrow> n < length b \<and> sane e \<and> (writeFault q' \<noteq> None \<or> torn q off b n q') \<and> (healthy q \<longrightarrow> full e \<and> stage q off b n q')"
proof -
  have len: "off + length b \<le> imgSize q" "0 < length b" using inr by (auto simp: in_range_def)
  then have "\<not> (imgSize q \<le> off \<or> imgSize q - off < length b)" by linarith
  then have w: "write_loop (Suc (length b)) off b 0 q = ((n, e), q')"
    using r inr(2) image_okD(7) [OF ok] by (simp add: WriteAt_def)
  have "0 \<le> length b" "length b - 0 < Suc (length b)" by simp_all
  then show ?thesis using write_loop_stage [OF ok len(1) stage_start [OF ok] _ _ w] by (auto split: option.splits)
qed

subsection \<open>Evaluation on the sample image\<close>

lemmas qcow2_eval = WriteAt_def ensureWritableCluster_def [THEN fun_cong] ensureL2Table_def [THEN fun_cong]
  allocateCluster_def [THEN fun_cong] updateL1Entry_def [THEN fun_cong] updateL2Entry_def [THEN fun_cong]
  loadL2_def [THEN fun_cong] setRefcount_def [THEN fun_cong] refcountLocation_def validateAppendCapacity_def
  writeMetadataEntry_def [THEN fun_cong] writeMetadata_def [THEN fun_cong] fWriteAt_def [THEN fun_cong]
  fTruncate_def [THEN fun_cong] fStat_def [THEN fun_cong] on_file_def [THEN fun_cong] at_index_def [THEN fun_cong]
  file_WriteAt_def file_Truncate_def file_Stat_def tick_def fsize_store comp_eval checkedInt_def alignUp_def
  add64_def sub64_def max_int64_def tableIndexes_def inCluster_def validateL2Entry_def clusterOffset_def header_consts
  qcow2OFlagCopied_def qcow2OFlagZero_def qcow2OFlagCompressed_def qcow2OffsetMask_def qcow2RefcountOffsetMask_def
  qcow2ReservedL2Mask_def update_cached_def Let_def slice_def
  append_capacity.simps(2) [of 2, unfolded Suc_numeral semiring_norm]
  append_blocks.simps(2) [of 3, unfolded Suc_numeral semiring_norm, THEN fun_cong]

definition failing_image :: qcow2Image where
  "failing_image = sample_image\<lparr>hfile := (hfile sample_image)\<lparr>script := [IoOk, IoFail 0]\<rparr>\<rparr>"

lemma failing_image_ok: "image_ok failing_image" "imgSize failing_image = 32768"
  unfolding failing_image_def using quiet_file(2) [OF sample_image_ok] by simp_all

section \<open>Properties\<close>

text \<open>
  C1. A write that reports success. Whatever the operating system did on the way, the
  image is valid, the request's bytes are on the guest disk and every other byte
  of the disk is what it was. The image is valid as \<open>image_ok\<close> says, which leaves out images whose refcount table covers more than 2^56 bytes (see \<open>geometry\<close>).
\<close>

theorem WriteAt_success:
  assumes "image_ok q" "in_range q off b" "WriteAt b (int off) q = ((n, None), q')"
  shows "n = length b \<and> image_ok q' \<and> imgSize q' = imgSize q \<and> (\<forall>x < imgSize q.
    guest_byte q' x = (if off \<le> x \<and> x < off + length b then b ! (x - off) else guest_byte q x))"
proof (cases "b = []")
  case True
  then show ?thesis using assms by (auto simp: WriteAt_def)
next
  case False
  then show ?thesis
    using WriteAt_stage [OF assms(1,3,2) False] by (simp add: stage_def same_shape_def overlay_def)
qed

theorem WriteAt_success_witness:
  "\<exists>q'. WriteAt [7] (int 5) sample_image = ((1, None), q') \<and> image_ok q' \<and> guest_byte q' 5 = 7"
proof -
  obtain n e q' where r: "WriteAt [7] (int 5) sample_image = ((n, e), q')" by (metis surj_pair)
  moreover have "snd (fst (WriteAt [7] (int 5) sample_image)) = None"
    by (simp add: qcow2_eval sample_image_def cong: comp_cong)
  ultimately have e: "e = None" by simp
  show ?thesis
    using WriteAt_success [OF sample_image_ok _ r [unfolded e]] r e by (auto simp: in_range_def)
qed

text \<open>
  C2. A write that reports an error on an image whose metadata could be kept or repaired.
  The count it returns is short; the bytes it counts are written, every byte after
  them is the old or the new one, no byte outside the request changed, and the
  image is valid. If the metadata could not be repaired, the image refuses all
  further writes. The error is never a panic. The image is valid as \<open>image_ok\<close> says, which leaves out images whose refcount table covers more than 2^56 bytes (see \<open>geometry\<close>).
\<close>

theorem WriteAt_error:
  assumes "image_ok q" "in_range q off b" "b \<noteq> []" "WriteAt b (int off) q = ((n, Some e), q')"
  shows "n < length b \<and> e \<noteq> QPanic \<and> e \<noteq> QDiverge \<and> (writeFault q' \<noteq> None \<or> image_ok q' \<and> (\<forall>x < imgSize q.
    if x < off \<or> off + length b \<le> x then guest_byte q' x = guest_byte q x
    else if x < off + n then guest_byte q' x = b ! (x - off)
    else guest_byte q' x = guest_byte q x \<or> guest_byte q' x = b ! (x - off)))"
proof -
  have "n < length b" "sane e" "writeFault q' \<noteq> None \<or> torn q off b n q'"
    using WriteAt_stage [OF assms(1,4,2,3)] by simp_all
  then show ?thesis by (auto simp: torn_def overlay_def)
qed

theorem WriteAt_error_witness:
  "\<exists>n e q'. WriteAt [7, 8] (int 5) failing_image = ((n, Some e), q') \<and> n < 2 \<and> e \<noteq> QPanic"
proof -
  obtain n e q' where r: "WriteAt [7, 8] (int 5) failing_image = ((n, e), q')" by (metis surj_pair)
  moreover have "snd (fst (WriteAt [7, 8] (int 5) failing_image)) \<noteq> None"
    by (simp add: qcow2_eval failing_image_def sample_image_def cong: comp_cong)
  ultimately obtain er where e: "e = Some er" by auto
  show ?thesis
    using WriteAt_error [OF failing_image_ok(1) _ _ r [unfolded e]] r e failing_image_ok(2) by (auto simp: in_range_def)
qed

text \<open>
  C3. When no call of the operating system fails, a write within the disk succeeds, or
  the host file cannot grow: it would exceed the size the format or the refcount
  table of the image can describe. In that case the count says how many bytes were
  written, and all others are what they were. The image is valid as \<open>image_ok\<close> says, which leaves out images whose refcount table covers more than 2^56 bytes (see \<open>geometry\<close>).
\<close>

theorem WriteAt_healthy:
  assumes "image_ok q" "in_range q off b" "b \<noteq> []" "script (hfile q) = []"
    and "WriteAt b (int off) q = ((n, e), q')"
  shows "image_ok q' \<and> script (hfile q') = [] \<and>
    (e = None \<and> n = length b \<or> e \<in> {Some (QErr ''host image is too large''), Some (QErr ''refcount table is too small'')}) \<and>
    (\<forall>x < imgSize q. guest_byte q' x = (if off \<le> x \<and> x < off + n then b ! (x - off) else guest_byte q x))"
  using WriteAt_stage [OF assms(1,5,2,3)] assms(4)
  by (auto simp: healthy_def full_def stage_def overlay_def split: option.splits)

theorem WriteAt_healthy_witness:
  "\<exists>n e q'. WriteAt [7, 8] (int 511) sample_image = ((n, e), q') \<and> image_ok q' \<and>
     (e = None \<and> n = 2 \<or> e \<in> {Some (QErr ''host image is too large''), Some (QErr ''refcount table is too small'')})"
proof -
  obtain n e q' where r: "WriteAt [7, 8] (int 511) sample_image = ((n, e), q')" by (metis surj_pair)
  show ?thesis
    using WriteAt_healthy [OF sample_image_ok _ _ _ r] r by (auto simp: in_range_def)
qed

end
