(* ===== verification/Qcow2_Session.thy ===== *)
theory Qcow2_Session
  imports Qcow2_Write
begin

text \<open>
  Sequences of operations on an open image. A step is one call of \<^verbatim>\<open>ReadAt\<close>,
  \<^verbatim>\<open>WriteAt\<close> or \<^verbatim>\<open>Sync\<close>, with any arguments and any outcome of the file calls it
  makes; the image's mutex makes each call one step.
\<close>

section \<open>Definitions\<close>

inductive disk_step :: "qcow2Image \<Rightarrow> qcow2Image \<Rightarrow> bool" where
  Rd: "ReadAt n off q = (r, q') \<Longrightarrow> disk_step q q'"
| Wr: "WriteAt b off q = (r, q') \<Longrightarrow> disk_step q q'"
| Sy: "Sync q = (r, q') \<Longrightarrow> disk_step q q'"

inductive_cases disk_stepE: "disk_step q q'"

text \<open>The contents of the host file and the recorded fault are \<open>f\<close> and \<open>w\<close>.\<close>

definition frozen :: "hostfile \<Rightarrow> qerr option \<Rightarrow> qcow2Image \<Rightarrow> bool" where
  "frozen f w q \<longleftrightarrow> same_data f (hfile q) \<and> writeFault q = w"

definition freezes :: "'a qcomp \<Rightarrow> bool" where
  "freezes m \<longleftrightarrow> (\<forall>f w. hoare (frozen f w) m (\<lambda>_. frozen f w) (\<lambda>_. frozen f w))"

section \<open>Lemmas\<close>

subsection \<open>Computations that do not write\<close>

lemma freezes_andthen: "freezes m \<Longrightarrow> (\<And>x. freezes (k x)) \<Longrightarrow> freezes (andthen m k)"
  by (simp add: freezes_def) (metis hoare_andthen)

lemma freezes_state: "(\<And>q r q'. m q = (r, q') \<Longrightarrow> hfile q' = hfile q \<and> writeFault q' = writeFault q) \<Longrightarrow> freezes m"
  by (auto simp: freezes_def frozen_def intro!: hoareI)

lemma freezes_basic:
  "freezes (ret x)" "freezes (fail e)" "freezes (gets g)" "freezes (inspect h)" "freezes (\<lambda>q. check (c q) q)"
  by (rule freezes_state, auto simp: comp_defs split: option.splits)+

lemma freezes_file:
  assumes "\<And>f r f'. m f = (r, f') \<Longrightarrow> fbytes f' = fbytes f \<and> fsize f' = fsize f"
  shows "freezes (on_file m)"
  unfolding freezes_def
  by (auto intro!: hoareI simp: frozen_def on_file_def same_data_def dest!: assms split: prod.splits)

lemma fReadAt_data: "fReadAt n off f = (r, f') \<Longrightarrow> fbytes f' = fbytes f \<and> fsize f' = fsize f"
  using file_ReadAt_data [of n off f] by (cases "file_ReadAt n off f") (auto simp: fReadAt_def split: prod.splits option.splits)

lemma fStat_data:
  assumes "fStat f = (r, f')" shows "fbytes f' = fbytes f \<and> fsize f' = fsize f"
proof -
  obtain e g where g: "file_Stat f = (e, g)" by fastforce
  then show ?thesis using assms file_Stat_data(1,2) [OF g] by (auto simp: fStat_def split: sum.splits)
qed

lemma freezes_read: "freezes (on_file (fReadAt n off))" "freezes (on_file fStat)"
  by (rule freezes_file, erule fReadAt_data) (rule freezes_file, erule fStat_data)

lemma freezes_wrapping: "freezes m \<Longrightarrow> freezes (wrapping msg m)"
  unfolding freezes_def hoare_def wrapping_def by (fastforce split: prod.splits sum.splits)

lemma freezes_if: "freezes m \<Longrightarrow> freezes m' \<Longrightarrow> freezes (if b then m else m')"
  by simp

lemma freezes_check: "freezes (check r)"
  using freezes_basic(5) [of "\<lambda>_. r"] by simp

lemma freezes_l2Cache: "freezes (modify (\<lambda>q. q\<lparr>l2Cache := g q\<rparr>))"
  by (rule freezes_state) (auto simp: modify_def)

lemma freezes_option: "freezes a \<Longrightarrow> (\<And>x. freezes (b x)) \<Longrightarrow> freezes (case v of None \<Rightarrow> a | Some x \<Rightarrow> b x)"
  by (cases v) simp_all

lemma freezes_prod: "(\<And>a b. freezes (g a b)) \<Longrightarrow> freezes (case p of (a, b) \<Rightarrow> g a b)"
  by (cases p) simp

lemmas freezes_rules = freezes_option freezes_prod freezes_andthen freezes_basic freezes_read freezes_wrapping freezes_if freezes_check freezes_l2Cache

lemma freezes_readUint64Table: "freezes (readUint64Table off n)"
  unfolding readUint64Table_def by (intro freezes_rules)

lemma freezes_hostOffset: "freezes (hostOffset x)"
  unfolding hostOffset_def l2Table_def loadL2_def at_index_def
  by (intro freezes_rules freezes_readUint64Table)

lemma freezesD:
  assumes "freezes m" "m q = (r, q')"
  shows "same_data (hfile q) (hfile q')" "writeFault q' = writeFault q"
proof -
  have H: "hoare (frozen (hfile q) (writeFault q)) m (\<lambda>_. frozen (hfile q) (writeFault q)) (\<lambda>_. frozen (hfile q) (writeFault q))"
    using assms(1) by (simp add: freezes_def)
  have "frozen (hfile q) (writeFault q) q" by (simp add: frozen_def)
  then have "frozen (hfile q) (writeFault q) q'"
    using assms(2) hoare_ok [OF H, of q _ q'] hoare_err [OF H, of q _ q'] by (cases r) simp_all
  then show "same_data (hfile q) (hfile q')" "writeFault q' = writeFault q" by (simp_all add: frozen_def)
qed

lemma read_loop_frozen:
  "read_loop fuel off rem acc q = (r, q') \<Longrightarrow> same_data (hfile q) (hfile q') \<and> writeFault q' = writeFault q"
proof (induction fuel arbitrary: acc q)
  case (Suc fuel)
  have c: "freezes (read_chunk x n)" for x n
    unfolding read_chunk_def by (intro freezes_rules freezes_hostOffset)
  show ?case
  proof (cases "rem \<le> length acc")
    case False
    obtain r1 q1 where r1: "read_chunk (add64 off (length acc)) (min (rem - length acc)
        (sub64 (clusterSize q) (inCluster (add64 off (length acc)) q))) q = (r1, q1)" by fastforce
    note F = freezesD [OF c r1]
    show ?thesis
    proof (cases r1)
      case (Inl e)
      then show ?thesis using Suc.prems False r1 F by (simp add: read_loop_round Let_def del: read_loop.simps)
    next
      case (Inr bs)
      then have "read_loop fuel off rem (acc @ bs) q1 = (r, q')"
        using Suc.prems False r1 by (simp add: read_loop_round Let_def del: read_loop.simps)
      then show ?thesis using Suc.IH F by (fastforce simp: same_data_def)
    qed
  qed (use Suc.prems in \<open>simp add: read_loop_round del: read_loop.simps\<close>)
qed simp

lemma ReadAt_frozen:
  assumes "ReadAt n off q = (r, q')"
  shows "same_data (hfile q) (hfile q')" "writeFault q' = writeFault q"
  using assms read_loop_frozen [of _ _ _ "[]" q]
  by (auto simp: ReadAt_def Let_def same_data_def split: if_splits prod.splits option.splits)

lemma Sync_frozen:
  assumes "Sync q = (r, q')"
  shows "same_data (hfile q) (hfile q')" "writeFault q' = writeFault q" "image_ok q \<Longrightarrow> image_ok q'"
proof -
  obtain e f where f: "file_Sync (hfile q) = (e, f)" by fastforce
  then have q': "q' = q\<lparr>hfile := f\<rparr>" using assms by (simp add: Sync_def)
  then show "same_data (hfile q) (hfile q')" "writeFault q' = writeFault q" using file_Sync_data [OF f] by (simp_all add: same_data_def)
  show "image_ok q'" if "image_ok q" using quiet_file(2) [OF that] file_Sync_data [OF f] q' by simp
qed

lemma WriteAt_faulted:
  assumes "writeFault q = Some e" shows "WriteAt b off q = (if b = [] then (0, None) else (0, Some e), q)"
  using assms by (simp add: WriteAt_def)

lemma WriteAt_reject:
  assumes "image_ok q" "off < 0 \<or> \<not> in_range q (nat off) b \<or> b = []"
  shows "snd (WriteAt b off q) = q"
  using assms by (auto simp: WriteAt_def in_range_def split: option.splits)

subsection \<open>Steps\<close>

lemma WriteAt_valid:
  assumes "image_ok q" "WriteAt b off q = (r, q')"
  shows "image_ok q' \<or> writeFault q' \<noteq> None"
proof (cases "off < 0 \<or> \<not> in_range q (nat off) b \<or> b = []")
  case True
  then have "q' = q" using WriteAt_reject [OF assms(1) True] assms(2) by simp
  then show ?thesis using assms(1) by simp
next
  case False
  obtain n e where r: "r = (n, e)" by fastforce
  have "WriteAt b (int (nat off)) q = ((n, e), q')" using assms(2) False r by simp
  then show ?thesis
    using WriteAt_stage [OF assms(1), of b "nat off" n e q'] False by (auto simp: stage_def torn_def split: option.splits)
qed

lemma disk_step_valid:
  assumes "disk_step q q'" "image_ok q" shows "image_ok q' \<or> writeFault q' \<noteq> None"
  using assms(1)
proof (cases rule: disk_step.cases)
  case (Rd n off r)
  obtain bs e where "r = (bs, e)" by fastforce
  then show ?thesis using ReadAt_reads(1) [OF assms(2)] Rd by blast
next
  case (Wr b off r)
  then show ?thesis using WriteAt_valid [OF assms(2)] by blast
next
  case (Sy r)
  then show ?thesis using Sync_frozen(3) assms(2) by blast
qed

lemma disk_step_faulted:
  assumes "disk_step q q'" "writeFault q = Some e"
  shows "same_data (hfile q) (hfile q') \<and> writeFault q' = Some e"
  using assms(1)
proof (cases rule: disk_step.cases)
  case (Rd n off r)
  then show ?thesis using ReadAt_frozen assms(2) by metis
next
  case (Wr b off r)
  then show ?thesis using WriteAt_faulted [OF assms(2)] assms(2) by simp
next
  case (Sy r)
  then show ?thesis using Sync_frozen(1,2) assms(2) by metis
qed

lemma disk_steps_faulted:
  assumes "disk_step\<^sup>*\<^sup>* q q'" "writeFault q = Some e"
  shows "same_data (hfile q) (hfile q') \<and> writeFault q' = Some e"
  using assms by (induction) (auto dest!: disk_step_faulted simp: same_data_def)

section \<open>Properties\<close>

text \<open>
  C6. Every image that a sequence of operations can reach from a valid image is valid, or
  has recorded that its metadata could not be repaired. The image is valid as \<open>image_ok\<close> says, which leaves out images whose refcount table covers more than 2^56 bytes (see \<open>geometry\<close>).
\<close>

theorem disk_reachable_valid:
  assumes "disk_step\<^sup>*\<^sup>* q q'" "image_ok q"
  shows "image_ok q' \<or> writeFault q' \<noteq> None"
  using assms
proof (induction)
  case (step q1 q2)
  then show ?case using disk_step_valid [OF step(2)] disk_step_faulted [OF step(2)] by auto
qed simp

theorem disk_reachable_valid_witness:
  "\<exists>q'. disk_step\<^sup>*\<^sup>* sample_image q' \<and> (image_ok q' \<or> writeFault q' \<noteq> None)"
proof -
  obtain r q' where w: "WriteAt [7] 5 sample_image = (r, q')" by fastforce
  have "disk_step\<^sup>*\<^sup>* sample_image q'" using disk_step.Wr [OF w] by blast
  then show ?thesis using disk_reachable_valid [OF _ sample_image_ok] by blast
qed

text \<open>
  C7. A recorded fault is final. From then on no sequence of operations changes a byte of
  the host file or its size, and the fault stays recorded.
\<close>

theorem disk_fault_final:
  assumes "writeFault q = Some e" "disk_step\<^sup>*\<^sup>* q q'"
  shows "fbytes (hfile q') = fbytes (hfile q) \<and> fsize (hfile q') = fsize (hfile q) \<and> writeFault q' = Some e"
  using disk_steps_faulted [OF assms(2,1)] by (simp add: same_data_def)

theorem disk_fault_final_witness:
  "\<exists>q'. disk_step (sample_image\<lparr>writeFault := Some (QIo EIO)\<rparr>) q' \<and> writeFault q' = Some (QIo EIO)"
proof -
  obtain r q' where w: "WriteAt [7] 5 (sample_image\<lparr>writeFault := Some (QIo EIO)\<rparr>) = (r, q')" by fastforce
  then show ?thesis using disk_fault_final [OF _ r_into_rtranclp [of disk_step, OF disk_step.Wr [OF w]]] disk_step.Wr [OF w] by auto
qed

text \<open>
  C8. Reading back. After a write that reported success, and while the operating system
  does not fail a call, a read of the same range returns the bytes written. The image is valid as \<open>image_ok\<close> says, which leaves out images whose refcount table covers more than 2^56 bytes (see \<open>geometry\<close>).
\<close>

theorem WriteAt_ReadAt:
  assumes "image_ok q" "in_range q off b" "WriteAt b (int off) q = ((n, None), q')" "script (hfile q') = []"
  shows "fst (ReadAt (length b) (int off) q') = (b, None)"
proof (cases "b = []")
  case False
  then have s: "stage q off b (length b) q'" using WriteAt_stage [OF assms(1,3,2)] by simp
  note S = stageD [OF s]
  obtain bs e q'' where r: "ReadAt (length b) (int off) q' = ((bs, e), q'')" by (metis surj_pair)
  have len: "length bs = length b" "e = None"
    using ReadAt_reads(4) [OF S(1) r assms(4)] S(4) assms(2) by (auto simp: in_range_def)
  have "bs = b"
  proof (rule nth_equalityI)
    fix i assume i: "i < length bs"
    have "bs ! i = guest_byte q' (off + i)" using arg_cong [OF ReadAt_reads(3) [OF S(1) r], of "\<lambda>l. l ! i"] i by simp
    also have "\<dots> = b ! i" using S(6) [of "off + i"] i len(1) assms(2) by (simp add: overlay_def in_range_def)
    finally show "bs ! i = b ! i" .
  qed (use len in simp)
  then show ?thesis using r len by simp
qed (simp add: ReadAt_def)

theorem WriteAt_ReadAt_witness:
  "\<exists>n q'. WriteAt [7] (int 5) sample_image = ((n, None), q') \<and> fst (ReadAt 1 (int 5) q') = ([7], None)"
proof -
  obtain n e q' where r: "WriteAt [7] (int 5) sample_image = ((n, e), q')" by (metis surj_pair)
  have "snd (fst (WriteAt [7] (int 5) sample_image)) = None \<and> script (hfile (snd (WriteAt [7] (int 5) sample_image))) = []"
    by (simp add: qcow2_eval sample_image_def cong: comp_cong)
  then have e: "e = None" "script (hfile q') = []" using r by simp_all
  show ?thesis using WriteAt_ReadAt [OF sample_image_ok _ r [unfolded e] e(2)] r e by (auto simp: in_range_def)
qed

end
