(* ===== verification/Disk_Image.thy ===== *)
theory Disk_Image
  imports Qcow2_Session
begin

text \<open>
  The \<^verbatim>\<open>Image\<close> interface of \<^verbatim>\<open>internal/disk/image.go\<close>, the raw image, and the
  choice between the two formats when a file is opened. A locale states what a
  device may rely on; it is interpreted for the qcow2 image and for the raw one.
\<close>

section \<open>Definitions\<close>

record rawImage =
  rfile :: hostfile
  rsize :: nat
  rreadOnly :: bool

definition raw_ReadAt :: "nat \<Rightarrow> int \<Rightarrow> rawImage \<Rightarrow> (byte list \<times> qerr option) \<times> rawImage" where
  "raw_ReadAt n off r =
     (if off < 0 then (([], Some (QIo ENegativeOffset)), r)
      else case file_ReadAt n (nat off) (rfile r) of
        ((bs, e), f) \<Rightarrow> ((bs, map_option QIo e), r\<lparr>rfile := f\<rparr>))"

definition raw_WriteAt :: "byte list \<Rightarrow> int \<Rightarrow> rawImage \<Rightarrow> (nat \<times> qerr option) \<times> rawImage" where
  "raw_WriteAt b off r =
     (if b = [] then ((0, None), r)
      else if off < 0 \<or> int (rsize r) < off \<or> int (rsize r) - off < int (length b)
        then ((0, Some (QErr ''raw: write exceeds disk size'')), r)
      else case file_WriteAt b (nat off) (rfile r) of
        ((n, e), f) \<Rightarrow> ((n, map_option QIo e), r\<lparr>rfile := f\<rparr>))"

definition raw_Size :: "rawImage \<Rightarrow> nat" where
  "raw_Size r = rsize r"

definition raw_Sync :: "rawImage \<Rightarrow> qerr option \<times> rawImage" where
  "raw_Sync r = (if rreadOnly r then (None, r)
     else case file_Sync (rfile r) of (e, f) \<Rightarrow> (map_option QIo e, r\<lparr>rfile := f\<rparr>))"

datatype image = Raw rawImage | Qcow2 qcow2Image

text \<open>
  \<^verbatim>\<open>open\<close>, on a file that the operating system has opened: the first four bytes
  decide the format. A short file is raw.
\<close>

definition open_disk :: "bool \<Rightarrow> hostfile \<Rightarrow> qerr + image" where
  "open_disk readOnly f =
     (case file_ReadAt 4 0 f of
        ((magic, e), f1) \<Rightarrow>
          if e \<noteq> None \<and> e \<noteq> Some EOF then Inl (QIo (the e))
          else if length magic = 4 \<and> magic = qcow2Magic then
            (case openQCOW2 f1 of Inl er \<Rightarrow> Inl er | Inr q \<Rightarrow> Inr (Qcow2 q))
          else case file_Stat f1 of
            (Inl er, _) \<Rightarrow> Inl (QIo er)
          | (Inr n, f2) \<Rightarrow> Inr (Raw \<lparr>rfile = f2, rsize = n, rreadOnly = readOnly\<rparr>))"

text \<open>The methods of the interface, on whichever of the two the file is.\<close>

fun image_ReadAt :: "nat \<Rightarrow> int \<Rightarrow> image \<Rightarrow> (byte list \<times> qerr option) \<times> image" where
  "image_ReadAt n off (Raw r) = (case raw_ReadAt n off r of (x, r') \<Rightarrow> (x, Raw r'))"
| "image_ReadAt n off (Qcow2 q) = (case ReadAt n off q of (x, q') \<Rightarrow> (x, Qcow2 q'))"

fun image_WriteAt :: "byte list \<Rightarrow> int \<Rightarrow> image \<Rightarrow> (nat \<times> qerr option) \<times> image" where
  "image_WriteAt b off (Raw r) = (case raw_WriteAt b off r of (x, r') \<Rightarrow> (x, Raw r'))"
| "image_WriteAt b off (Qcow2 q) = (case WriteAt b off q of (x, q') \<Rightarrow> (x, Qcow2 q'))"

fun image_Sync :: "image \<Rightarrow> qerr option \<times> image" where
  "image_Sync (Raw r) = (case raw_Sync r of (x, r') \<Rightarrow> (x, Raw r'))"
| "image_Sync (Qcow2 q) = (case Sync q of (x, q') \<Rightarrow> (x, Qcow2 q'))"

fun image_Size :: "image \<Rightarrow> nat" where
  "image_Size (Raw r) = raw_Size r"
| "image_Size (Qcow2 q) = Size q"

text \<open>The invariant of a raw image, and its guest disk.\<close>

definition raw_ok :: "rawImage \<Rightarrow> bool" where
  "raw_ok r \<longleftrightarrow> rsize r \<le> fsize (rfile r) \<and> fsize (rfile r) < 2 ^ 63"

definition raw_byte :: "rawImage \<Rightarrow> nat \<Rightarrow> byte" where
  "raw_byte r x = fbytes (rfile r) x"

fun disk_ok :: "image \<Rightarrow> bool" where
  "disk_ok (Raw r) = raw_ok r"
| "disk_ok (Qcow2 q) = image_ok q"

fun disk_byte :: "image \<Rightarrow> nat \<Rightarrow> byte" where
  "disk_byte (Raw r) = raw_byte r"
| "disk_byte (Qcow2 q) = guest_byte q"

section \<open>The interface\<close>

locale disk_image =
  fixes readAt :: "nat \<Rightarrow> int \<Rightarrow> 's \<Rightarrow> (byte list \<times> qerr option) \<times> 's"
    and writeAt :: "byte list \<Rightarrow> int \<Rightarrow> 's \<Rightarrow> (nat \<times> qerr option) \<times> 's"
    and sync :: "'s \<Rightarrow> qerr option \<times> 's"
    and sizeOf :: "'s \<Rightarrow> nat"
    and good :: "'s \<Rightarrow> bool"
    and content :: "'s \<Rightarrow> nat \<Rightarrow> byte"
  assumes read_short: "readAt n off s = ((bs, e), s') \<Longrightarrow> length bs \<le> n"
    and read_good: "good s \<Longrightarrow> readAt n off s = ((bs, e), s') \<Longrightarrow>
      good s' \<and> sizeOf s' = sizeOf s \<and> (\<forall>x < sizeOf s. content s' x = content s x) \<and>
      (e = None \<longrightarrow> bs = map (\<lambda>i. content s (nat off + i)) [0..<n])"
    and write_good: "good s \<Longrightarrow> p + length b \<le> sizeOf s \<Longrightarrow> writeAt b (int p) s = ((k, None), s') \<Longrightarrow>
      k = length b \<and> good s' \<and> sizeOf s' = sizeOf s \<and> (\<forall>x < sizeOf s. content s' x =
        (if p \<le> x \<and> x < p + length b then b ! (x - p) else content s x))"
    and sync_good: "good s \<Longrightarrow> sync s = (e, s') \<Longrightarrow> good s' \<and> sizeOf s' = sizeOf s \<and> (\<forall>x < sizeOf s. content s' x = content s x)"
begin

text \<open>A read of a range that was just written returns it, also after a sync.\<close>

lemma write_sync_read:
  assumes "good s" "p + length b \<le> sizeOf s" "writeAt b (int p) s = ((k, None), s1)" "sync s1 = (e, s2)"
    "readAt (length b) (int p) s2 = ((bs, None), s3)"
  shows "bs = b"
proof -
  have w: "good s1" "sizeOf s1 = sizeOf s"
    "\<forall>x < sizeOf s. content s1 x = (if p \<le> x \<and> x < p + length b then b ! (x - p) else content s x)"
    using write_good [OF assms(1-3)] by blast+
  have y: "good s2" "\<forall>x < sizeOf s. content s2 x = content s1 x" using sync_good [OF w(1) assms(4)] w(2) by simp_all
  have "bs = map (\<lambda>i. content s2 (p + i)) [0..<length b]" using read_good [OF y(1) assms(5)] by simp
  also have "\<dots> = b" using w(3) y(2) assms(2) by (intro nth_equalityI) auto
  finally show ?thesis .
qed

end

section \<open>Lemmas\<close>

subsection \<open>The raw image\<close>

lemma file_ReadAt_short: "file_ReadAt n off f = ((bs, e), f') \<Longrightarrow> length bs \<le> n"
  by (auto simp: file_ReadAt_def split: if_splits prod.splits io_outcome.splits)

lemma raw_read_short: "raw_ReadAt n off r = ((bs, e), r') \<Longrightarrow> length bs \<le> n"
  by (auto simp: raw_ReadAt_def split: if_splits prod.splits dest: file_ReadAt_short)

lemma raw_read_good:
  assumes "raw_ok r" "raw_ReadAt n off r = ((bs, e), r')"
  shows "raw_ok r' \<and> raw_Size r' = raw_Size r \<and> (\<forall>x < raw_Size r. raw_byte r' x = raw_byte r x) \<and>
    (e = None \<longrightarrow> bs = map (\<lambda>i. raw_byte r (nat off + i)) [0..<n])"
proof (cases "off < 0")
  case False
  obtain b e1 f where f: "file_ReadAt n (nat off) (rfile r) = ((b, e1), f)" by (metis surj_pair)
  have "r' = r\<lparr>rfile := f\<rparr>" "bs = b" "e = map_option QIo e1" using assms(2) False f by (auto simp: raw_ReadAt_def)
  then show ?thesis using assms(1) file_ReadAt_data [OF f] file_ReadAt_ok(1) [of n "nat off" "rfile r" b f] f
    by (auto simp: raw_ok_def raw_Size_def raw_byte_def bytes_at_def)
qed (use assms in \<open>auto simp: raw_ReadAt_def\<close>)

lemma file_WriteAt_stored:
  assumes "file_WriteAt b off f = ((n, e), f')" "off < 2 ^ 63" "b \<noteq> []"
  obtains k where "same_data f' (store_bytes off (take k b) f)" "e = None \<Longrightarrow> n = length b \<and> take k b = b" "n = length (take k b)"
proof -
  obtain o1 f1 where t: "tick f = (o1, f1)" by fastforce
  note d = tick_data [OF t]
  have sd: "same_data (store_bytes off x f1) (store_bytes off x f)" for x
    using d by (simp add: same_data_def store_bytes_def cong: if_cong)
  show ?thesis
  proof (cases o1)
    case IoOk
    show ?thesis by (rule that [of "length b"]) (use assms t IoOk sd in \<open>auto simp: file_WriteAt_def\<close>)
  next
    case (IoFail k)
    show ?thesis by (rule that [of k]) (use assms t IoFail sd in \<open>auto simp: file_WriteAt_def\<close>)
  qed
qed

lemma raw_WriteAt_stored:
  assumes ok: "raw_ok r" and w: "raw_WriteAt b off r = ((n, e), r')"
  obtains (None) "r' = r" "e = None \<Longrightarrow> b = [] \<and> n = 0"
  | (Stored) k f where "b \<noteq> []" "0 \<le> off" "nat off + length b \<le> rsize r" "r' = r\<lparr>rfile := f\<rparr>"
      "same_data f (store_bytes (nat off) (take k b) (rfile r))" "e = None \<Longrightarrow> n = length b \<and> take k b = b"
proof (cases "b = [] \<or> off < 0 \<or> int (rsize r) < off \<or> int (rsize r) - off < int (length b)")
  case True
  then show ?thesis using w by (intro None) (auto simp: raw_WriteAt_def split: if_splits)
next
  case False
  then have b: "b \<noteq> []" "0 \<le> off" "nat off + length b \<le> rsize r" "nat off < 2 ^ 63" using ok by (auto simp: raw_ok_def)
  obtain m e1 f where f: "file_WriteAt b (nat off) (rfile r) = ((m, e1), f)" by (metis surj_pair)
  have r: "r' = r\<lparr>rfile := f\<rparr>" "n = m" "e = map_option QIo e1" using w False f by (auto simp: raw_WriteAt_def split: if_splits)
  obtain k where "same_data f (store_bytes (nat off) (take k b) (rfile r))" "e1 = None \<Longrightarrow> m = length b \<and> take k b = b"
    using file_WriteAt_stored [OF f b(4,1)] by blast
  then show ?thesis using r b by (intro Stored [of f k]) auto
qed

lemma raw_stored_bytes:
  assumes "raw_ok r" "p + length bs \<le> rsize r" "same_data f (store_bytes p bs (rfile r))"
  shows "raw_ok (r\<lparr>rfile := f\<rparr>)" "fsize f = fsize (rfile r)"
    "\<And>x. x < fsize (rfile r) \<Longrightarrow> fbytes f x = (if p \<le> x \<and> x < p + length bs then bs ! (x - p) else fbytes (rfile r) x)"
proof -
  have inside: "p + length bs \<le> fsize (rfile r)" using assms(1,2) by (simp add: raw_ok_def)
  show fs: "fsize f = fsize (rfile r)" using assms(3) fsize_store_inside [OF inside] by (simp add: same_data_def)
  then show "raw_ok (r\<lparr>rfile := f\<rparr>)" using assms(1) by (simp add: raw_ok_def)
  show "fbytes f x = (if p \<le> x \<and> x < p + length bs then bs ! (x - p) else fbytes (rfile r) x)" if "x < fsize (rfile r)" for x
    using assms(3) that by (simp add: same_data_def store_bytes_def)
qed

lemma raw_write_good:
  assumes "raw_ok r" "p + length b \<le> raw_Size r" "raw_WriteAt b (int p) r = ((k, None), r')"
  shows "k = length b \<and> raw_ok r' \<and> raw_Size r' = raw_Size r \<and> (\<forall>x < raw_Size r. raw_byte r' x =
    (if p \<le> x \<and> x < p + length b then b ! (x - p) else raw_byte r x))"
  using assms(1,3)
proof (cases rule: raw_WriteAt_stored)
  case (Stored k f)
  then have f: "same_data f (store_bytes p b (rfile r))" by simp
  have "p + length b \<le> rsize r" using assms(2) by (simp add: raw_Size_def)
  note S = raw_stored_bytes [OF assms(1) this f]
  show ?thesis using S Stored assms(1) by (auto simp: raw_Size_def raw_byte_def raw_ok_def)
qed (use assms in auto)

lemma raw_sync_good:
  assumes "raw_ok r" "raw_Sync r = (e, r')"
  shows "raw_ok r' \<and> raw_Size r' = raw_Size r \<and> (\<forall>x < raw_Size r. raw_byte r' x = raw_byte r x)"
proof -
  obtain e1 f where f: "file_Sync (rfile r) = (e1, f)" by fastforce
  show ?thesis using assms f file_Sync_data [OF f] by (auto simp: raw_Sync_def raw_ok_def raw_Size_def raw_byte_def split: if_splits)
qed

interpretation raw: disk_image raw_ReadAt raw_WriteAt raw_Sync raw_Size raw_ok raw_byte
  by unfold_locales (erule raw_read_short, erule (1) raw_read_good, erule (2) raw_write_good, erule (1) raw_sync_good)

subsection \<open>The qcow2 image\<close>

lemma fReadAt_length: "on_file (fReadAt n off) q = (Inr bs, q') \<Longrightarrow> length bs = n"
  using file_ReadAt_ok(1) [of n off "hfile q"]
  by (auto simp: on_file_def fReadAt_def split: prod.splits option.splits)

lemma read_loop_short:
  "read_loop fuel off rem acc q = ((bs, e), q') \<Longrightarrow> length acc \<le> rem \<Longrightarrow> length bs \<le> rem"
proof (induction fuel arbitrary: acc q)
  case (Suc fuel)
  show ?case
  proof (cases "rem \<le> length acc")
    case False
    let ?x = "add64 off (length acc)"
    let ?n = "min (rem - length acc) (sub64 (clusterSize q) (inCluster ?x q))"
    obtain r1 q1 where r1: "read_chunk ?x ?n q = (r1, q1)" by fastforce
    show ?thesis
    proof (cases r1)
      case (Inl er)
      then show ?thesis using Suc.prems False r1 by (simp add: read_loop_round Let_def del: read_loop.simps)
    next
      case (Inr ys)
      have "length ys = ?n"
        using r1 Inr fReadAt_length by (auto simp: read_chunk_def andthen_def ret_def split: sum.splits prod.splits if_splits)
      then have "length (acc @ ys) \<le> rem" using False by simp
      moreover have "read_loop fuel off rem (acc @ ys) q1 = ((bs, e), q')"
        using Suc.prems False r1 Inr by (simp add: read_loop_round Let_def del: read_loop.simps)
      ultimately show ?thesis using Suc.IH by blast
    qed
  qed (use Suc.prems in \<open>simp add: read_loop_round del: read_loop.simps\<close>)
qed simp

lemma qcow2_read_short: "ReadAt n off q = ((bs, e), q') \<Longrightarrow> length bs \<le> n"
proof -
  assume r: "ReadAt n off q = ((bs, e), q')"
  let ?m = "min n (imgSize q - nat off)"
  obtain bs1 e1 q1 where l: "read_loop (Suc ?m) (nat off) ?m [] q = ((bs1, e1), q1)" by (metis surj_pair)
  have "length bs1 \<le> ?m" using read_loop_short [OF l] by simp
  moreover have "bs = [] \<or> bs = bs1"
    using r l by (auto simp: ReadAt_def Let_def simp del: read_loop.simps split: if_splits option.splits)
  ultimately show "length bs \<le> n" by auto
qed

lemma qcow2_read_good:
  assumes "image_ok q" "ReadAt n off q = ((bs, e), q')"
  shows "image_ok q' \<and> Size q' = Size q \<and> (\<forall>x < Size q. guest_byte q' x = guest_byte q x) \<and>
    (e = None \<longrightarrow> bs = map (\<lambda>i. guest_byte q (nat off + i)) [0..<n])"
proof -
  note R = ReadAt_reads [OF assms]
  have "imgSize q' = imgSize q" using R(2) by (simp add: quiet_def same_shape_def)
  then show ?thesis using R(1,3,5) quiet_view(5) [OF R(2)] by (auto simp: Size_def)
qed

lemma qcow2_write_good:
  assumes "image_ok q" "p + length b \<le> Size q" "WriteAt b (int p) q = ((k, None), q')"
  shows "k = length b \<and> image_ok q' \<and> Size q' = Size q \<and> (\<forall>x < Size q. guest_byte q' x =
    (if p \<le> x \<and> x < p + length b then b ! (x - p) else guest_byte q x))"
proof (cases "b = []")
  case False
  have "in_range q p b" using assms(2) by (simp add: in_range_def Size_def)
  then show ?thesis using WriteAt_stage [OF assms(1,3) _ False] by (simp add: Size_def stage_def same_shape_def overlay_def)
qed (use assms in \<open>auto simp: WriteAt_def\<close>)

lemma qcow2_sync_good:
  assumes "image_ok q" "Sync q = (e, q')"
  shows "image_ok q' \<and> Size q' = Size q \<and> (\<forall>x < Size q. guest_byte q' x = guest_byte q x)"
proof -
  obtain e1 f where f: "file_Sync (hfile q) = (e1, f)" by fastforce
  then have q': "q' = q\<lparr>hfile := f\<rparr>" using assms(2) by (simp add: Sync_def)
  have "quiet q q'" using quiet_file(1) [OF assms(1)] file_Sync_data [OF f] q' by simp
  then show ?thesis using Sync_frozen(3) [OF assms(2,1)] quiet_view(5) by (auto simp: Size_def quiet_def same_shape_def)
qed

interpretation qcow2: disk_image ReadAt WriteAt Sync Size image_ok guest_byte
  by unfold_locales (erule qcow2_read_short, erule (1) qcow2_read_good, erule (2) qcow2_write_good, erule (1) qcow2_sync_good)

subsection \<open>The image behind the interface\<close>

lemma image_read_good:
  assumes "disk_ok s" "image_ReadAt n off s = ((bs, e), s')"
  shows "disk_ok s' \<and> image_Size s' = image_Size s \<and> (\<forall>x < image_Size s. disk_byte s' x = disk_byte s x) \<and>
    (e = None \<longrightarrow> bs = map (\<lambda>i. disk_byte s (nat off + i)) [0..<n])"
proof (cases s)
  case (Raw r)
  then obtain r' where "raw_ReadAt n off r = ((bs, e), r')" "s' = Raw r'" using assms(2) by (auto split: prod.splits)
  then show ?thesis using Raw assms(1) raw.read_good [of r n off bs e r'] by simp
next
  case (Qcow2 q)
  then obtain q' where "ReadAt n off q = ((bs, e), q')" "s' = Qcow2 q'" using assms(2) by (auto split: prod.splits)
  then show ?thesis using Qcow2 assms(1) qcow2.read_good [of q n off bs e q'] by simp
qed

lemma image_write_good:
  assumes "disk_ok s" "p + length b \<le> image_Size s" "image_WriteAt b (int p) s = ((k, None), s')"
  shows "k = length b \<and> disk_ok s' \<and> image_Size s' = image_Size s \<and> (\<forall>x < image_Size s. disk_byte s' x =
    (if p \<le> x \<and> x < p + length b then b ! (x - p) else disk_byte s x))"
proof (cases s)
  case (Raw r)
  then obtain r' where "raw_WriteAt b (int p) r = ((k, None), r')" "s' = Raw r'" using assms(3) by (auto split: prod.splits)
  then show ?thesis using Raw assms(1,2) raw.write_good [of r p b k r'] by simp
next
  case (Qcow2 q)
  then obtain q' where "WriteAt b (int p) q = ((k, None), q')" "s' = Qcow2 q'" using assms(3) by (auto split: prod.splits)
  then show ?thesis using Qcow2 assms(1,2) qcow2.write_good [of q p b k q'] by simp
qed

lemma image_sync_good:
  assumes "disk_ok s" "image_Sync s = (e, s')"
  shows "disk_ok s' \<and> image_Size s' = image_Size s \<and> (\<forall>x < image_Size s. disk_byte s' x = disk_byte s x)"
proof (cases s)
  case (Raw r)
  then obtain r' where "raw_Sync r = (e, r')" "s' = Raw r'" using assms(2) by (auto split: prod.splits)
  then show ?thesis using Raw assms(1) raw.sync_good [of r e r'] by simp
next
  case (Qcow2 q)
  then obtain q' where "Sync q = (e, q')" "s' = Qcow2 q'" using assms(2) by (auto split: prod.splits)
  then show ?thesis using Qcow2 assms(1) qcow2.sync_good [of q e q'] by simp
qed

lemma image_read_short: "image_ReadAt n off s = ((bs, e), s') \<Longrightarrow> length bs \<le> n"
  using raw.read_short [of n off] qcow2.read_short [of n off] by (cases s) (auto split: prod.splits)

interpretation img: disk_image image_ReadAt image_WriteAt image_Sync image_Size disk_ok disk_byte
  by unfold_locales (erule image_read_short, erule (1) image_read_good, erule (2) image_write_good, erule (1) image_sync_good)

subsection \<open>Opening\<close>

lemma magic_bytes: "bytes_at f 0 4 = qcow2Magic \<Longrightarrow> file_ReadAt 4 0 f = ((bs, e), f') \<Longrightarrow> 4 \<le> fsize f \<Longrightarrow>
    e = Some EIO \<or> (e = None \<and> bs = qcow2Magic)"
  by (auto simp: file_ReadAt_def split: prod.splits io_outcome.splits if_splits)

section \<open>Properties\<close>

text \<open>
  C9. A raw image never changes its file outside the disk: whatever a write is asked to do
  and whatever the operating system does with it, the file keeps its size, and a
  byte changes only inside the requested range, to the requested value.
\<close>

theorem raw_write_contained:
  assumes "raw_ok r" "raw_WriteAt b off r = ((n, e), r')"
  shows "raw_ok r' \<and> fsize (rfile r') = fsize (rfile r) \<and> rsize r' = rsize r \<and>
    (\<forall>x < fsize (rfile r). fbytes (rfile r') x = fbytes (rfile r) x \<or>
       (nat off \<le> x \<and> x < nat off + length b \<and> x < rsize r \<and> fbytes (rfile r') x = b ! (x - nat off)))"
  using assms
proof (cases rule: raw_WriteAt_stored)
  case (Stored k f)
  have "nat off + length (take k b) \<le> rsize r" using Stored(3) by simp
  note S = raw_stored_bytes [OF assms(1) this Stored(5)]
  show ?thesis using S Stored(3,4) by auto
qed (use assms in auto)

definition sample_raw :: rawImage where
  "sample_raw = \<lparr>rfile = \<lparr>fbytes = (\<lambda>_. 0), fsize = 1024, script = []\<rparr>, rsize = 1024, rreadOnly = False\<rparr>"

theorem raw_write_contained_witness:
  "raw_ok (snd (raw_WriteAt [1, 2] 1022 sample_raw)) \<and> fsize (rfile (snd (raw_WriteAt [1, 2] 1022 sample_raw))) = 1024"
proof -
  have ok: "raw_ok sample_raw" by (simp add: raw_ok_def sample_raw_def)
  obtain n e r' where w: "raw_WriteAt [1, 2] 1022 sample_raw = ((n, e), r')" by (metis surj_pair)
  show ?thesis using raw_write_contained [OF ok w] w by (simp add: sample_raw_def)
qed

text \<open>
  A file that starts with the qcow2 magic is never opened as a raw disk, so a guest that
  writes such a header to a raw disk changes what the file is only on a later open,
  and a file the qcow2 checks refuse is refused.
\<close>

lemma magic_never_raw:
  assumes "4 \<le> fsize f" "bytes_at f 0 4 = qcow2Magic"
  shows "open_disk ro f \<noteq> Inr (Raw r) \<and> (\<forall>img. open_disk ro f = Inr img \<longrightarrow>
    (\<exists>f' q. same_data f f' \<and> openQCOW2 f' = Inr q \<and> img = Qcow2 q))"
proof -
  obtain bs e f' where m: "file_ReadAt 4 0 f = ((bs, e), f')" by (metis surj_pair)
  have "same_data f f'" using file_ReadAt_data [OF m] by (simp add: same_data_def)
  moreover have "e = Some EIO \<or> (e = None \<and> bs = qcow2Magic)" using magic_bytes [OF assms(2) m assms(1)] .
  ultimately show ?thesis using m by (auto simp: open_disk_def qcow2Magic_def split: sum.splits)
qed

definition magic_file :: hostfile where
  "magic_file = \<lparr>fbytes = (\<lambda>i. if i = 0 then 0x51 else if i = 1 then 0x46 else if i = 2 then 0x49 else if i = 3 then 0xfb else 0),
     fsize = 512, script = []\<rparr>"

lemma magic_never_raw_witness:
  "\<forall>r. open_disk False magic_file \<noteq> Inr (Raw r)"
  using magic_never_raw [of magic_file] by (simp add: magic_file_def bytes_at_def qcow2Magic_def upt_rec numeral_eq_Suc)

text \<open>
  C10. What a device relies on holds for both formats: after a write that reported success and
  a sync, a read of the same range that reports success returns the bytes written. A qcow2 image is valid as \<open>image_ok\<close> says, which leaves out images whose refcount table covers more than 2^56 bytes (see \<open>geometry\<close>).
\<close>

theorem images_read_back:
  "(image_ok q \<and> p + length b \<le> Size q \<and> WriteAt b (int p) q = ((k, None), q1) \<and> Sync q1 = (e, q2) \<and>
      ReadAt (length b) (int p) q2 = ((bs, None), q3) \<longrightarrow> bs = b) \<and>
   (raw_ok r \<and> p + length b \<le> raw_Size r \<and> raw_WriteAt b (int p) r = ((k, None), r1) \<and> raw_Sync r1 = (e, r2) \<and>
      raw_ReadAt (length b) (int p) r2 = ((cs, None), r3) \<longrightarrow> cs = b)"
  using qcow2.write_sync_read raw.write_sync_read by blast

theorem images_read_back_witness:
  "(\<exists>cs. fst (raw_ReadAt 2 5 (snd (raw_Sync (snd (raw_WriteAt [1, 2] 5 sample_raw))))) = (cs, None) \<and> cs = [1, 2]) \<and>
   (\<exists>bs. fst (ReadAt 1 (int 5) (snd (Sync (snd (WriteAt [7] (int 5) sample_image))))) = (bs, None) \<and> bs = [7])"
proof
  obtain k w q1 where w: "WriteAt [7] (int 5) sample_image = ((k, w), q1)" by (metis surj_pair)
  obtain e q2 where s: "Sync q1 = (e, q2)" by fastforce
  obtain bs d q3 where r: "ReadAt 1 (int 5) q2 = ((bs, d), q3)" by (metis surj_pair)
  have "snd (fst (WriteAt [7] (int 5) sample_image)) = None \<and> script (hfile (snd (WriteAt [7] (int 5) sample_image))) = []"
    by (simp add: qcow2_eval sample_image_def cong: comp_cong)
  then have q1: "w = None" "script (hfile q1) = []" using w by simp_all
  have "stage sample_image 5 [7] (length [7 :: byte]) q1" using WriteAt_stage [OF sample_image_ok w] q1(1) by (simp add: in_range_def)
  note S = stageD [OF this]
  have q2: "image_ok q2" "script (hfile q2) = []" "imgSize q2 = 32768"
    using Sync_frozen(3) [OF s S(1)] s q1(2) S(4) by (auto simp: Sync_def file_Sync_def tick_def split: prod.splits)
  have ok: "w = None" "d = None" using q1(1) ReadAt_reads(4) [OF q2(1) r q2(2)] q2(3) by auto
  then have "bs = [7]"
    using images_read_back [of sample_image 5 "[7]" k q1 e q2 bs q3 sample_raw sample_raw sample_raw "[]" sample_raw] w s r sample_image_ok by (simp add: Size_def)
  then show "\<exists>bs. fst (ReadAt 1 (int 5) (snd (Sync (snd (WriteAt [7] (int 5) sample_image))))) = (bs, None) \<and> bs = [7]" using w s r ok by simp
next
  obtain k w r1 where w: "raw_WriteAt [1, 2] (int 5) sample_raw = ((k, w), r1)" by (metis surj_pair)
  obtain e r2 where s: "raw_Sync r1 = (e, r2)" by fastforce
  obtain cs d r3 where r: "raw_ReadAt 2 (int 5) r2 = ((cs, d), r3)" by (metis surj_pair)
  have "w = None" "d = None"
    using w s r by (auto simp: raw_WriteAt_def raw_Sync_def raw_ReadAt_def sample_raw_def file_WriteAt_def file_Sync_def
      file_ReadAt_def tick_def fsize_store split: if_splits)
  moreover have "raw_ok sample_raw" "5 + 2 \<le> raw_Size sample_raw" by (simp_all add: raw_ok_def raw_Size_def sample_raw_def)
  ultimately have "cs = [1, 2]"
    using images_read_back [of sample_image 5 "[1, 2]" k sample_image e sample_image "[]" sample_image sample_raw r1 r2 cs r3] w s r by (simp add: numeral_2_eq_2)
  then show "\<exists>cs. fst (raw_ReadAt 2 5 (snd (raw_Sync (snd (raw_WriteAt [1, 2] 5 sample_raw))))) = (cs, None) \<and> cs = [1, 2]" using w s r \<open>d = None\<close> by simp
qed

end
