(* ===== verification/Guest_Memory.thy ===== *)
theory Guest_Memory
  imports Prelude
begin

text \<open>
  Guest-physical memory, \<^verbatim>\<open>internal/guestmem/memory.go\<close>: a byte slice indexed by
  guest-physical address that includes the hole below 4 GiB in which device
  registers live, the check every device makes before it touches a range of it,
  and the little-endian loads and stores through a checked range.
\<close>

section \<open>Definitions\<close>

definition MMIOStart :: nat where "MMIOStart = 0xd0000000"
definition HighRAMStart :: nat where "HighRAMStart = 4294967296"

definition ValidRange :: "byte list \<Rightarrow> nat \<Rightarrow> nat \<Rightarrow> bool" where
  "ValidRange mem addr len =
     (if length mem < addr \<or> length mem - addr < len then False
      else HighRAMStart \<le> addr \<or> (addr \<le> MMIOStart \<and> len \<le> MMIOStart - addr))"

text \<open>Loads and stores of little-endian values through a pointer into the slice.\<close>

definition load_le :: "nat \<Rightarrow> byte list \<Rightarrow> nat \<Rightarrow> nat" where
  "load_le n mem addr = le_nat (slice mem addr n)"

definition store_le :: "nat \<Rightarrow> nat \<Rightarrow> nat \<Rightarrow> byte list \<Rightarrow> byte list" where
  "store_le n addr v mem = copy_at mem addr (put_le n v)"

text \<open>An address of guest RAM, as opposed to one in the device hole or past the end.\<close>

definition in_ram :: "byte list \<Rightarrow> nat \<Rightarrow> bool" where
  "in_ram mem a \<longleftrightarrow> a < length mem \<and> \<not> (MMIOStart \<le> a \<and> a < HighRAMStart)"

section \<open>Lemmas\<close>

lemma ValidRange_bound: "ValidRange mem addr len \<Longrightarrow> addr + len \<le> length mem"
  by (auto simp: ValidRange_def split: if_splits)

lemma ValidRange_length: "length m = length m' \<Longrightarrow> ValidRange m = ValidRange m'"
  by (intro ext) (simp add: ValidRange_def)

lemma ValidRange_in_ram:
  "ValidRange mem addr len \<Longrightarrow> addr \<le> a \<Longrightarrow> a < addr + len \<Longrightarrow> in_ram mem a"
  by (auto simp: ValidRange_def in_ram_def MMIOStart_def HighRAMStart_def split: if_splits)

lemma ValidRange_sub:
  "ValidRange mem addr len \<Longrightarrow> k + n \<le> len \<Longrightarrow> 0 < n \<Longrightarrow> ValidRange mem (addr + k) n"
  by (auto simp: ValidRange_def split: if_splits)

lemma length_store_le [simp]: "addr \<le> length mem \<Longrightarrow> length (store_le n addr v mem) = length mem"
  by (simp add: store_le_def)

lemma load_store_same:
  assumes "addr + n \<le> length mem" shows "load_le n (store_le n addr v mem) addr = v mod 256 ^ n"
proof -
  have "slice (copy_at mem addr (put_le n v)) addr n = put_le n v"
    using assms by (intro nth_equalityI) (auto simp: length_slice nth_slice nth_copy_at)
  then show ?thesis by (simp add: load_le_def store_le_def le_nat_put_le_mod)
qed

lemma load_store_other:
  assumes "addr + n \<le> length mem" "addr' + m \<le> length mem" "addr + n \<le> addr' \<or> addr' + m \<le> addr"
  shows "load_le m (store_le n addr v mem) addr' = load_le m mem addr'"
proof -
  have "slice (copy_at mem addr (put_le n v)) addr' m = slice mem addr' m"
    using assms by (intro nth_equalityI) (auto simp: length_slice nth_slice nth_copy_at)
  then show ?thesis by (simp add: load_le_def store_le_def)
qed

lemma load_le_less: "load_le n mem addr < 256 ^ n"
proof -
  have "le_nat (slice mem addr n) < 256 ^ length (slice mem addr n)" by (rule le_nat_less)
  also have "\<dots> \<le> 256 ^ n" by (intro power_increasing) (auto simp: slice_def)
  finally show ?thesis by (simp add: load_le_def)
qed

section \<open>Properties\<close>

text \<open>
  C16. The check that guards every device access to guest memory is exact: it accepts a
  nonempty range if and only if all of its addresses are guest RAM, that is, lie in
  the slice and outside the hole of device registers.
\<close>

theorem ValidRange_exact:
  assumes "0 < len"
  shows "ValidRange mem addr len \<longleftrightarrow> (\<forall>a. addr \<le> a \<and> a < addr + len \<longrightarrow> in_ram mem a)"
proof
  assume ram: "\<forall>a. addr \<le> a \<and> a < addr + len \<longrightarrow> in_ram mem a"
  have "in_ram mem addr" "in_ram mem (addr + len - 1)" using ram assms by auto
  moreover have "MMIOStart \<le> addr \<or> addr + len \<le> MMIOStart"
  proof (rule ccontr)
    assume "\<not> ?thesis"
    then have "in_ram mem MMIOStart" using ram by simp
    then show False by (simp add: in_ram_def MMIOStart_def HighRAMStart_def)
  qed
  ultimately show "ValidRange mem addr len" using assms
    by (auto simp: in_ram_def ValidRange_def MMIOStart_def HighRAMStart_def)
qed (use ValidRange_in_ram in blast)

theorem ValidRange_exact_witness:
  "ValidRange (replicate 64 0) 60 4 \<longleftrightarrow> (\<forall>a. 60 \<le> a \<and> a < 60 + 4 \<longrightarrow> in_ram (replicate 64 0) a)"
  by (rule ValidRange_exact) simp

end
