(* ===== verification/Virtio_Transport.thy ===== *)
theory Virtio_Transport
  imports Guest_Memory
begin

text \<open>
  The virtio 1.0 PCI transport, \<^verbatim>\<open>internal/virtio/modern.go\<close>: the registers of the
  common configuration structure, feature negotiation, the mapping of the
  virtqueues, and the interrupt status with its level-triggered line. A device
  embeds the transport, so a device record extends \<open>transport\<close> and the
  transport's operations work on any such extension. \<^verbatim>\<open>writeMu\<close>, \<^verbatim>\<open>commonMu\<close> and
  \<^verbatim>\<open>irqMu\<close> make each access and each interrupt call one step.
\<close>

section \<open>Definitions\<close>

definition QueueSize :: nat where "QueueSize = 32"
definition featureVersion1 :: u64 where "featureVersion1 = 4294967296"
definition commonCfgOffset :: nat where "commonCfgOffset = 0"
definition commonCfgLen :: nat where "commonCfgLen = 0x38"
definition isrCfgOffset :: nat where "isrCfgOffset = 0x1000"
definition isrCfgLen :: nat where "isrCfgLen = 4"
definition deviceCfgOffset :: nat where "deviceCfgOffset = 0x2000"
definition notifyCfgOffset :: nat where "notifyCfgOffset = 0x3000"
definition notifyCfgLen :: nat where "notifyCfgLen = 0x100"
definition modernBARSize :: nat where "modernBARSize = 0x4000"
definition capCommonAt :: nat where "capCommonAt = 0x40"
definition capNotifyAt :: nat where "capNotifyAt = 0x50"
definition capISRAt :: nat where "capISRAt = 0x64"
definition capDeviceAt :: nat where "capDeviceAt = 0x74"

lemmas transport_consts = QueueSize_def featureVersion1_def commonCfgOffset_def commonCfgLen_def isrCfgOffset_def
  isrCfgLen_def deviceCfgOffset_def notifyCfgOffset_def notifyCfgLen_def modernBARSize_def capCommonAt_def
  capNotifyAt_def capISRAt_def capDeviceAt_def

text \<open>
  The errors of the transport and of the devices on it. \<open>VPanic\<close> stands for a
  run-time panic, an index or a slice bound out of range.
\<close>

datatype verr = VPanic | VIrq string | ErrClosedPipe | ErrVQNotInit | ErrNoTxPacket | ErrBlkDesc

text \<open>The calls the transport makes to its interrupt line.\<close>

datatype irq_call = SetLevel bool | Inject

record queueState =
  q_size :: u16
  q_msixVector :: u16
  q_enable :: u16
  q_desc :: u64
  q_driver :: u64
  q_device :: u64

text \<open>A mapped queue: the three pointers are addresses in guest memory.\<close>

record SplitQueue =
  sq_Desc :: nat
  sq_Avail :: nat
  sq_Used :: nat
  sq_Size :: u16

text \<open>
  The transport. \<open>setIRQLevel\<close> says whether a level callback is installed,
  \<open>irq_calls\<close> records the calls made to it or to \<^verbatim>\<open>inject\<close> with the latest first,
  and \<open>irq_outcomes\<close> holds the results of the calls still to come.
\<close>

record transport =
  mem :: "byte list"
  features :: u64
  configLen :: nat
  deviceFeatureSel :: u32
  driverFeatureSel :: u32
  driverFeature :: "u32 list"
  deviceStatus :: byte
  configGen :: u32
  msixConfig :: u16
  queueSel :: u16
  queues :: "queueState list"
  isr :: u32
  irqError :: "string option"
  irqWake :: bool
  setIRQLevel :: bool
  irq_calls :: "irq_call list"
  irq_outcomes :: "string option list"

type_synonym ('z, 'a) vcomp = "('z transport_scheme, verr, 'a) comp"

text \<open>The \<^verbatim>\<open>ModernDevice\<close> interface, as the operations the transport calls.\<close>

record 'z ModernDevice =
  dev_ReadDeviceConfig :: "nat \<Rightarrow> byte list \<Rightarrow> ('z, byte list) vcomp"
  dev_WriteDeviceConfig :: "nat \<Rightarrow> byte list \<Rightarrow> ('z, unit) vcomp"
  dev_QueueReady :: "nat \<Rightarrow> SplitQueue \<Rightarrow> ('z, unit) vcomp"
  dev_Notify :: "nat \<Rightarrow> ('z, unit) vcomp"
  dev_Reset :: "('z, unit) vcomp option"

definition fresh_queue :: queueState where
  "fresh_queue = \<lparr>q_size = of_nat QueueSize, q_msixVector = 0, q_enable = 0, q_desc = 0, q_driver = 0, q_device = 0\<rparr>"

definition NewModernTransport :: "u64 \<Rightarrow> nat \<Rightarrow> nat \<Rightarrow> byte list \<Rightarrow> transport" where
  "NewModernTransport devFeatures devConfigLen numQueues memory =
     \<lparr>mem = memory, features = devFeatures OR featureVersion1, configLen = devConfigLen,
      deviceFeatureSel = 0, driverFeatureSel = 0, driverFeature = [0, 0], deviceStatus = 0, configGen = 0,
      msixConfig = 0, queueSel = 0, queues = replicate numQueues fresh_queue, isr = 0, irqError = None,
      irqWake = False, setIRQLevel = False, irq_calls = [], irq_outcomes = []\<rparr>"

definition negotiatedFeatures :: "'z transport_scheme \<Rightarrow> u64" where
  "negotiatedFeatures t =
     (if deviceStatus t AND 0x08 = 0 then 0
      else (push_bit 32 (ucast (driverFeature t ! 1)) OR ucast (driverFeature t ! 0)) AND features t)"

definition SetIRQLine :: "'z transport_scheme \<Rightarrow> 'z transport_scheme" where
  "SetIRQLine t = t\<lparr>setIRQLevel := True\<rparr>"

subsection \<open>Interrupts\<close>

text \<open>One call of the line's callback; its result comes from the environment.\<close>

definition call_irq :: "irq_call \<Rightarrow> ('z, unit) vcomp" where
  "call_irq c t =
     (let t' = t\<lparr>irq_calls := c # irq_calls t, irq_outcomes := tl (irq_outcomes t)\<rparr>
      in case irq_outcomes t of
           Some e # _ \<Rightarrow> (Inl (VIrq e), t')
         | _ \<Rightarrow> (Inr (), t'))"

definition setPendingInterrupt :: "u32 \<Rightarrow> 'z transport_scheme \<Rightarrow> 'z transport_scheme" where
  "setPendingInterrupt bits t =
     (let t' = t\<lparr>isr := isr t OR bits\<rparr> in if isr t = 0 then t'\<lparr>irqWake := True\<rparr> else t')"

definition raiseIRQ :: "('z, unit) vcomp" where
  "raiseIRQ t =
     (case irqError t of
        Some e \<Rightarrow> (Inl (VIrq e), t)
      | None \<Rightarrow> if setIRQLevel t then call_irq (SetLevel True) t else call_irq Inject t)"

definition Interrupt :: "('z, unit) vcomp" where
  "Interrupt = andthen (modify (setPendingInterrupt 1)) (\<lambda>_. raiseIRQ)"

definition ConfigChanged :: "('z, unit) vcomp" where
  "ConfigChanged = andthen (modify (\<lambda>t. t\<lparr>configGen := configGen t + 1\<rparr>)) (\<lambda>_.
     andthen (modify (setPendingInterrupt 2)) (\<lambda>_. raiseIRQ))"

definition interruptPending :: "'z transport_scheme \<Rightarrow> bool" where
  "interruptPending t \<longleftrightarrow> isr t \<noteq> 0"

definition ReinjectIfPending :: "('z, unit) vcomp" where
  "ReinjectIfPending t =
     (if isr t \<noteq> 0 then raiseIRQ t
      else case irqError t of None \<Rightarrow> (Inr (), t) | Some e \<Rightarrow> (Inl (VIrq e), t))"

definition clearInterrupt :: "('z, byte) vcomp" where
  "clearInterrupt t =
     (let status = ucast (isr t) :: byte; t1 = t\<lparr>isr := 0\<rparr>
      in if setIRQLevel t1 then
           (case call_irq (SetLevel False) t1 of
              (Inl (VIrq e), t2) \<Rightarrow> (Inr status, t2\<lparr>irqError := Some e\<rparr>)
            | (_, t2) \<Rightarrow> (Inr status, t2))
         else (Inr status, t1))"

subsection \<open>Capabilities\<close>

definition virtioCap :: "nat \<Rightarrow> nat \<Rightarrow> nat \<Rightarrow> nat \<Rightarrow> nat \<Rightarrow> byte list" where
  "virtioCap capLen cfgType next offset len =
     [0x09, of_nat next, of_nat capLen, of_nat cfgType, 0, 0, 0, 0] @ put_le 4 offset @ put_le 4 len
       @ replicate (capLen - 16) 0"

definition Capabilities :: "'z transport_scheme \<Rightarrow> byte list" where
  "Capabilities t =
     virtioCap 16 1 capNotifyAt commonCfgOffset commonCfgLen
     @ virtioCap 20 2 capISRAt notifyCfgOffset notifyCfgLen
     @ virtioCap 16 3 capDeviceAt isrCfgOffset isrCfgLen
     @ virtioCap 16 4 0 deviceCfgOffset (configLen t)"

subsection \<open>The common configuration structure\<close>

definition deviceFeature :: "u32 \<Rightarrow> 'z transport_scheme \<Rightarrow> u32" where
  "deviceFeature sel t =
     (if sel = 0 then ucast (features t) else if sel = 1 then ucast (drop_bit 32 (features t)) else 0)"

definition curQueue :: "'z transport_scheme \<Rightarrow> queueState option" where
  "curQueue t = (if length (queues t) \<le> unat (queueSel t) then None else Some (queues t ! unat (queueSel t)))"

definition updQueue :: "(queueState \<Rightarrow> queueState) \<Rightarrow> 'z transport_scheme \<Rightarrow> 'z transport_scheme" where
  "updQueue f t = (case curQueue t of None \<Rightarrow> t
     | Some q \<Rightarrow> t\<lparr>queues := (queues t)[unat (queueSel t) := f q]\<rparr>)"

definition commonImage :: "'z transport_scheme \<Rightarrow> byte list" where
  "commonImage t =
     put_le 4 (unat (deviceFeatureSel t))
     @ put_le 4 (unat (deviceFeature (deviceFeatureSel t) t))
     @ put_le 4 (unat (driverFeatureSel t))
     @ put_le 4 (unat (driverFeature t ! unat (driverFeatureSel t AND 1)))
     @ put_le 2 (unat (msixConfig t))
     @ put_le 2 (length (queues t))
     @ [deviceStatus t, ucast (configGen t)]
     @ put_le 2 (unat (queueSel t))
     @ (case curQueue t of
          None \<Rightarrow> replicate 32 0
        | Some q \<Rightarrow> put_le 2 (unat (q_size q)) @ put_le 2 (unat (q_msixVector q)) @ put_le 2 (unat (q_enable q))
            @ put_le 2 0 @ put_le 8 (unat (q_desc q)) @ put_le 8 (unat (q_driver q)) @ put_le 8 (unat (q_device q)))"

definition setLoHi :: "nat \<Rightarrow> u32 \<Rightarrow> u64 \<Rightarrow> u64" where
  "setLoHi half v p =
     (if half = 0 then (p AND NOT 0xffffffff) OR ucast v
      else (p AND 0xffffffff) OR push_bit 32 (ucast v))"

definition writeQueueAddr :: "nat \<Rightarrow> nat \<Rightarrow> u32 \<Rightarrow> queueState \<Rightarrow> queueState" where
  "writeQueueAddr which half v q =
     (if which = 0 then q\<lparr>q_desc := setLoHi half v (q_desc q)\<rparr>
      else if which = 1 then q\<lparr>q_driver := setLoHi half v (q_driver q)\<rparr>
      else if which = 2 then q\<lparr>q_device := setLoHi half v (q_device q)\<rparr>
      else q)"

text \<open>The sizes are those of the fixed-size views: 32 descriptors, and the two rings.\<close>

definition queue_area :: "byte list \<Rightarrow> u64 \<Rightarrow> nat \<Rightarrow> nat \<Rightarrow> bool" where
  "queue_area memory addr len align \<longleftrightarrow> unat addr mod align = 0 \<and> ValidRange memory (unat addr) len"

definition mapQueue :: "nat \<Rightarrow> 'z transport_scheme \<Rightarrow> SplitQueue option \<times> 'z transport_scheme" where
  "mapQueue idx t =
     (let q = queues t ! idx
      in if q_size q = 0 \<or> of_nat QueueSize < q_size q \<or> q_size q AND (q_size q - 1) \<noteq> 0
            \<or> \<not> queue_area (mem t) (q_desc q) 512 16
            \<or> \<not> queue_area (mem t) (q_driver q) 70 2
            \<or> \<not> queue_area (mem t) (q_device q) 264 4
         then (None, t\<lparr>queues := (queues t)[idx := q\<lparr>q_enable := 0\<rparr>]\<rparr>)
         else (Some \<lparr>sq_Desc = unat (q_desc q), sq_Avail = unat (q_driver q), sq_Used = unat (q_device q),
                     sq_Size = q_size q\<rparr>, t))"

text \<open>\<^verbatim>\<open>binary.LittleEndian.Uint16\<close> and \<^verbatim>\<open>Uint32\<close> panic on a slice that is too short.\<close>

definition le16 :: "byte list \<Rightarrow> verr + u16" where
  "le16 data = (if length data < 2 then Inl VPanic else Inr (of_nat (le_nat (take 2 data))))"

definition le32 :: "byte list \<Rightarrow> verr + u32" where
  "le32 data = (if length data < 4 then Inl VPanic else Inr (of_nat (le_nat (take 4 data))))"

definition resetRegisters :: "'z transport_scheme \<Rightarrow> 'z transport_scheme" where
  "resetRegisters t = t\<lparr>deviceFeatureSel := 0, driverFeatureSel := 0, driverFeature := [0, 0], queueSel := 0,
     msixConfig := 0, queues := map (\<lambda>_. fresh_queue) (queues t)\<rparr>"

text \<open>The switch of \<^verbatim>\<open>mmioCommonCfg\<close>; it yields the queue to publish, if any.\<close>

definition writeRegister :: "nat \<Rightarrow> byte list \<Rightarrow> ('z, (nat \<times> SplitQueue) option) vcomp" where
  "writeRegister off data =
     (let set32 = (\<lambda>f. andthen (inspect (\<lambda>_. le32 data)) (\<lambda>v. andthen (modify (f v)) (\<lambda>_. ret None)));
          set16 = (\<lambda>f. andthen (inspect (\<lambda>_. le16 data)) (\<lambda>v. andthen (modify (f v)) (\<lambda>_. ret None)));
          setq16 = (\<lambda>f t. case curQueue t of None \<Rightarrow> (Inr None, t) | Some _ \<Rightarrow> set16 (\<lambda>v. updQueue (f v)) t)
      in if off = 0 then set32 (\<lambda>v t. t\<lparr>deviceFeatureSel := v\<rparr>)
         else if off = 8 then set32 (\<lambda>v t. t\<lparr>driverFeatureSel := v\<rparr>)
         else if off = 12 then
           set32 (\<lambda>v t. t\<lparr>driverFeature := (driverFeature t)[unat (driverFeatureSel t AND 1) := v]\<rparr>)
         else if off = 16 then set16 (\<lambda>v t. t\<lparr>msixConfig := v\<rparr>)
         else if off = 20 then
           (if data = [] then fail VPanic
            else andthen (modify (\<lambda>t. (if data ! 0 = 0 then resetRegisters t else t)\<lparr>deviceStatus := data ! 0\<rparr>)) (\<lambda>_.
                 ret None))
         else if off = 22 then set16 (\<lambda>v t. t\<lparr>queueSel := v\<rparr>)
         else if off = 24 then setq16 (\<lambda>v q. q\<lparr>q_size := v\<rparr>)
         else if off = 26 then setq16 (\<lambda>v q. q\<lparr>q_msixVector := v\<rparr>)
         else if off = 28 then (\<lambda>t. case curQueue t of
             None \<Rightarrow> (Inr None, t)
           | Some _ \<Rightarrow> andthen (inspect (\<lambda>_. le16 data)) (\<lambda>v.
               andthen (modify (updQueue (\<lambda>q. q\<lparr>q_enable := v\<rparr>))) (\<lambda>_.
               if v = 1 then (\<lambda>t. case mapQueue (unat (queueSel t)) t of
                   (None, t') \<Rightarrow> (Inr None, t') | (Some sq, t') \<Rightarrow> (Inr (Some (unat (queueSel t), sq)), t'))
               else ret None)) t)
         else if off = 32 then set32 (\<lambda>v. updQueue (writeQueueAddr 0 0 v))
         else if off = 36 then set32 (\<lambda>v. updQueue (writeQueueAddr 0 1 v))
         else if off = 40 then set32 (\<lambda>v. updQueue (writeQueueAddr 1 0 v))
         else if off = 44 then set32 (\<lambda>v. updQueue (writeQueueAddr 1 1 v))
         else if off = 48 then set32 (\<lambda>v. updQueue (writeQueueAddr 2 0 v))
         else if off = 52 then set32 (\<lambda>v. updQueue (writeQueueAddr 2 1 v))
         else ret None)"

definition readCommon :: "nat \<Rightarrow> nat \<Rightarrow> 'z transport_scheme \<Rightarrow> byte list" where
  "readCommon off n t =
     (if commonCfgLen \<le> off then replicate n 0
      else copy_at (replicate n 0) 0 (slice (commonImage t) off (min (off + n) commonCfgLen - off)))"

definition writeCommon :: "'z ModernDevice \<Rightarrow> nat \<Rightarrow> byte list \<Rightarrow> ('z, unit) vcomp" where
  "writeCommon dev off data =
     andthen
       (if off = 20 \<and> data ! 0 = 0 then
          andthen (case dev_Reset dev of None \<Rightarrow> ret () | Some reset \<Rightarrow> reset) (\<lambda>_.
          andthen clearInterrupt (\<lambda>_. ret ()))
        else ret ()) (\<lambda>_.
     andthen (writeRegister off data) (\<lambda>ready.
       case ready of None \<Rightarrow> ret () | Some (idx, sq) \<Rightarrow> dev_QueueReady dev idx sq))"

definition mmioCommonCfg :: "'z ModernDevice \<Rightarrow> nat \<Rightarrow> byte list \<Rightarrow> bool \<Rightarrow> ('z, byte list) vcomp" where
  "mmioCommonCfg dev off data isWrite =
     (if \<not> isWrite then gets (readCommon off (length data))
      else andthen (writeCommon dev off data) (\<lambda>_. ret data))"

definition pad2 :: "byte list \<Rightarrow> byte list" where
  "pad2 data = (if 2 \<le> length data then data else [data ! 0, 0])"

text \<open>
  An access to the BAR. The result is what the access leaves in its data buffer.
\<close>

definition MMIO :: "'z ModernDevice \<Rightarrow> nat \<Rightarrow> byte list \<Rightarrow> bool \<Rightarrow> ('z, byte list) vcomp" where
  "MMIO dev offset data isWrite =
     (if data = [] then ret data
      else if offset < commonCfgOffset + commonCfgLen then
        mmioCommonCfg dev (offset - commonCfgOffset) data isWrite
      else if isrCfgOffset \<le> offset \<and> offset < isrCfgOffset + isrCfgLen then
        (if isWrite then ret data
         else andthen clearInterrupt (\<lambda>status. ret (status # replicate (length data - 1) 0)))
      else if deviceCfgOffset \<le> offset \<and> offset < deviceCfgOffset + 0x1000 then
        (if isWrite then andthen (dev_WriteDeviceConfig dev (offset - deviceCfgOffset) data) (\<lambda>_. ret data)
         else dev_ReadDeviceConfig dev (offset - deviceCfgOffset) data)
      else if notifyCfgOffset \<le> offset \<and> offset < notifyCfgOffset + notifyCfgLen then
        (if isWrite then andthen (inspect (\<lambda>_. le16 (pad2 data))) (\<lambda>v. andthen (dev_Notify dev (unat v)) (\<lambda>_. ret data))
         else ret data)
      else ret data)"

section \<open>Lemmas\<close>

subsection \<open>Register images\<close>

lemma u16_of_bytes: "length d = 2 \<Longrightarrow> put_le 2 (unat (of_nat (le_nat d) :: u16)) = d"
  using le_nat_less [of d] put_le_le_nat [of d 2] by (simp add: unat_of_nat)

lemma u32_of_bytes: "length d = 4 \<Longrightarrow> put_le 4 (unat (of_nat (le_nat d) :: u32)) = d"
  using le_nat_less [of d] put_le_le_nat [of d 4] by (simp add: unat_of_nat)

lemma length_commonImage [simp]: "length (commonImage t) = 56"
  by (simp add: commonImage_def split: option.splits)

lemma put_le_split: "put_le (m + n) v = put_le m v @ put_le n (v div 256 ^ m)"
  by (induction m arbitrary: v) (simp_all add: div_mult2_eq)

lemma put_le_mod: "put_le n (v mod 256 ^ n) = put_le n v"
  by (metis le_nat_put_le_mod length_put_le put_le_le_nat)

lemma put_le_8: "put_le 8 v = put_le 4 v @ put_le 4 (v div 4294967296)"
  using put_le_split [of 4 4 v] by simp

lemma unat_take32: "unat (take_bit 32 (x :: u64)) = unat x mod 4294967296"
  by (simp add: take_bit_eq_mod unat_mod)

lemma unat_drop32: "unat (drop_bit 32 (x :: u64)) = unat x div 4294967296"
  by (simp add: drop_bit_eq_div unat_div)

lemma mask_u64: "(0xffffffff :: u64) = mask 32"
  by (simp add: mask_eq_exp_minus_1)

lemma setLoHi_bits:
  "take_bit 32 (setLoHi 0 v p) = ucast v" "drop_bit 32 (setLoHi 0 v p) = drop_bit 32 p"
  "take_bit 32 (setLoHi 1 v p) = take_bit 32 p" "drop_bit 32 (setLoHi 1 v p) = ucast v"
  unfolding setLoHi_def mask_u64 by (rule bit_word_eqI; auto simp: bit_simps dest: bit_imp_le_length)+

lemma setLoHi_unat:
  "unat (setLoHi 0 v p) mod 4294967296 = unat v" "unat (setLoHi 0 v p) div 4294967296 = unat p div 4294967296"
  "unat (setLoHi 1 v p) mod 4294967296 = unat p mod 4294967296" "unat (setLoHi 1 v p) div 4294967296 = unat v"
  using setLoHi_bits [of v p, THEN arg_cong [where f = unat]] by (simp_all only: unat_take32 unat_drop32 unat_up32)

lemma put_le_4_mod: "put_le 4 (v mod 4294967296) = put_le 4 v"
  using put_le_mod [of 4 v] by simp

lemma addr_bytes:
  "take 4 (put_le 8 (unat (setLoHi 0 v p))) = put_le 4 (unat v)"
  "drop 4 (put_le 8 (unat (setLoHi 1 v p))) = put_le 4 (unat v)"
  using setLoHi_unat(1,4) [of v p] put_le_4_mod [of "unat (setLoHi 0 v p)"] by (simp_all add: put_le_8)

text \<open>The registers a driver can write and read back, with their widths.\<close>

definition driver_registers :: "(nat \<times> nat) list" where
  "driver_registers = [(0, 4), (8, 4), (12, 4), (16, 2), (20, 1), (22, 2), (24, 2), (26, 2),
     (32, 4), (36, 4), (40, 4), (44, 4), (48, 4), (52, 4)]"

definition register_width :: "nat \<Rightarrow> nat" where
  "register_width off = (if off \<in> {0, 8, 12, 32, 36, 40, 44, 48, 52} then 4
     else if off \<in> {16, 22, 24, 26, 28} then 2 else if off = 20 then 1 else 0)"

lemma readCommon_slice: "off + n \<le> 56 \<Longrightarrow> 0 < n \<Longrightarrow> readCommon off n t = slice (commonImage t) off n"
  by (simp add: readCommon_def commonCfgLen_def copy_at_def length_slice)

lemma writeRegister_readback:
  assumes "(off, n) \<in> set driver_registers" "length data = n" "length (driverFeature t) = 2"
    "24 \<le> off \<longrightarrow> curQueue t \<noteq> None"
  shows "\<exists>t'. writeRegister off data t = (Inr None, t') \<and> readCommon off n t' = data"
proof -
  have one: "unat (s AND 1 :: u32) < 2" for s
    using word_and_le1 [of s 1] by (simp add: word_le_nat_alt)
  have w: "off + n \<le> 56" "0 < n" using assms(1) by (auto simp: driver_registers_def)
  note S = writeRegister_def Let_def comp_defs le16_def le32_def u16_of_bytes u32_of_bytes
    commonImage_def slice_def curQueue_def updQueue_def writeQueueAddr_def addr_bytes addr_bytes(2) [unfolded One_nat_def]
  have single: "length data = Suc 0 \<Longrightarrow> data \<noteq> [] \<and> [data ! 0] = data" by (cases data) auto
  show ?thesis
    using assms(1) unfolding readCommon_slice [OF w] driver_registers_def list.set insert_iff empty_iff prod.inject
    by (elim disjE conjE; use assms(2-4) one [of "driverFeatureSel t"] in \<open>simp add: S single split: if_splits\<close>)
qed

subsection \<open>Queue mapping\<close>

definition queue_mapped :: "byte list \<Rightarrow> SplitQueue \<Rightarrow> bool" where
  "queue_mapped m sq \<longleftrightarrow> ValidRange m (sq_Desc sq) 512 \<and> ValidRange m (sq_Avail sq) 70 \<and> ValidRange m (sq_Used sq) 264 \<and>
     sq_Desc sq mod 16 = 0 \<and> sq_Avail sq mod 2 = 0 \<and> sq_Used sq mod 4 = 0 \<and>
     (\<exists>k \<le> 5. sq_Size sq = 2 ^ k)"

lemma power_of_two_u16:
  fixes s :: u16 assumes "s \<noteq> 0" "\<not> 32 < s" "s AND (s - 1) = 0" shows "\<exists>k \<le> 5. s = 2 ^ k"
proof -
  have "unat s \<le> 32" using assms(2) by (simp add: word_less_nat_alt not_less)
  then have "unat s \<in> set [0..<33]" by auto
  moreover have "s = of_nat (unat s)" by simp
  ultimately have "s \<in> set (map of_nat [0..<33])" by (metis image_eqI list.set_map)
  moreover have "\<forall>s \<in> set (map of_nat [0..<33]). s \<noteq> 0 \<longrightarrow> s AND (s - 1) = 0 \<longrightarrow> s \<in> {1, 2, 4, 8, 16, 32 :: u16}"
    by (simp add: upt_rec numeral_eq_Suc)
  ultimately have "s \<in> {1, 2, 4, 8, 16, 32}" using assms by blast
  then have "s = 2 ^ 0 \<or> s = 2 ^ 1 \<or> s = 2 ^ 2 \<or> s = 2 ^ 3 \<or> s = 2 ^ 4 \<or> s = 2 ^ 5" by simp
  then show ?thesis by (metis le_numeral_extra(3) numeral_le_iff zero_le one_le_numeral semiring_norm(68,69,71,72,73))
qed

lemma mapQueue_mapped:
  assumes "mapQueue idx t = (Some sq, t')" shows "queue_mapped (mem t) sq" "t' = t"
  using assms power_of_two_u16 [of "sq_Size sq"]
  by (auto simp: mapQueue_def queue_mapped_def queue_area_def QueueSize_def Let_def split: if_splits)

lemma writeRegister_publish:
  assumes "writeRegister off data t = (Inr (Some (idx, sq)), t')"
  shows "queue_mapped (mem t) sq" "mem t' = mem t" "idx < length (queues t)" "q_enable (queues t' ! idx) = 1"
proof -
  have off: "off = 28" using assms
    by (auto simp: writeRegister_def Let_def comp_defs le16_def le32_def split: if_splits sum.splits option.splits)
  obtain q where q: "curQueue t = Some q"
    using assms off by (cases "curQueue t") (auto simp: writeRegister_def Let_def)
  let ?t1 = "updQueue (\<lambda>q. q\<lparr>q_enable := 1\<rparr>) t"
  have i: "unat (queueSel t) < length (queues t)" using q by (simp add: curQueue_def split: if_splits)
  have s: "queueSel ?t1 = queueSel t" "mem ?t1 = mem t" by (simp_all add: updQueue_def q)
  have e: "q_enable (queues ?t1 ! unat (queueSel t)) = 1" using i by (simp add: updQueue_def q)
  have "mapQueue (unat (queueSel t)) ?t1 = (Some sq, t') \<and> idx = unat (queueSel t)"
    using assms off q s by (auto simp: writeRegister_def Let_def comp_defs le16_def split: if_splits sum.splits option.splits prod.splits)
  then show "queue_mapped (mem t) sq" "mem t' = mem t" "idx < length (queues t)" "q_enable (queues t' ! idx) = 1"
    using mapQueue_mapped [of "unat (queueSel t)" ?t1 sq t'] s i e by auto
qed

lemma writeRegister_panic:
  "fst (writeRegister off data t) = Inl VPanic \<longleftrightarrow>
     (off \<in> {0, 8, 12, 32, 36, 40, 44, 48, 52} \<and> length data < 4) \<or> (off \<in> {16, 22} \<and> length data < 2) \<or>
     (off = 20 \<and> data = []) \<or> (off \<in> {24, 26, 28} \<and> curQueue t \<noteq> None \<and> length data < 2)"
  by (simp add: writeRegister_def Let_def comp_defs le16_def le32_def split: option.splits prod.splits)

subsection \<open>Interrupts\<close>

text \<open>The level of the line after the calls made so far.\<close>

fun line_level :: "irq_call list \<Rightarrow> bool" where
  "line_level (SetLevel b # _) = b"
| "line_level (Inject # cs) = line_level cs"
| "line_level [] = False"

inductive irq_step :: "'z transport_scheme \<Rightarrow> 'z transport_scheme \<Rightarrow> bool" where
  "Interrupt t = (r, t') \<Longrightarrow> irq_step t t'"
| "ConfigChanged t = (r, t') \<Longrightarrow> irq_step t t'"
| "ReinjectIfPending t = (r, t') \<Longrightarrow> irq_step t t'"
| "clearInterrupt t = (s, t') \<Longrightarrow> irq_step t t'"

definition irq_ok :: "'z transport_scheme \<Rightarrow> bool" where
  "irq_ok t \<longleftrightarrow> setIRQLevel t \<and> irq_outcomes t = [] \<and> irqError t = None \<and> line_level (irq_calls t) = (isr t \<noteq> 0)"

lemma or_bit_nonzero: "(x OR 1 :: u32) \<noteq> 0" "(x OR 2 :: u32) \<noteq> 0"
  by (simp_all add: or_eq_0_iff)

lemma irq_step_ok: "irq_step t t' \<Longrightarrow> irq_ok t \<Longrightarrow> irq_ok t'"
  by (induction rule: irq_step.induct)
    (auto simp: irq_ok_def Interrupt_def ConfigChanged_def ReinjectIfPending_def clearInterrupt_def raiseIRQ_def
      setPendingInterrupt_def call_irq_def comp_defs Let_def or_bit_nonzero split: if_splits)

subsection \<open>Capabilities and feature negotiation\<close>

text \<open>
  A driver's walk of the capability list: \<open>caps\<close> holds the bytes from configuration
  offset 0x40 on, and each entry yields its type, BAR offset and length.
\<close>

fun cap_walk :: "nat \<Rightarrow> nat \<Rightarrow> byte list \<Rightarrow> (nat \<times> nat \<times> nat) list" where
  "cap_walk 0 ptr caps = []"
| "cap_walk (Suc fuel) ptr caps =
     (if ptr = 0 then []
      else let c = drop (ptr - 0x40) caps
           in (unat (c ! 3), le_nat (slice c 8 4), le_nat (slice c 12 4)) # cap_walk fuel (unat (c ! 1)) caps)"

lemma virtioCap_fields:
  "16 \<le> n \<Longrightarrow> length (virtioCap n c x a l) = n"
  "16 \<le> n \<Longrightarrow> (virtioCap n c x a l @ r) ! 3 = of_nat c" "16 \<le> n \<Longrightarrow> (virtioCap n c x a l @ r) ! Suc 0 = of_nat x"
  "16 \<le> n \<Longrightarrow> slice (virtioCap n c x a l @ r) 8 4 = put_le 4 a" "16 \<le> n \<Longrightarrow> slice (virtioCap n c x a l @ r) 12 4 = put_le 4 l"
  "16 \<le> n \<Longrightarrow> virtioCap n c x a l ! 3 = of_nat c" "16 \<le> n \<Longrightarrow> virtioCap n c x a l ! Suc 0 = of_nat x"
  "16 \<le> n \<Longrightarrow> slice (virtioCap n c x a l) 8 4 = put_le 4 a" "16 \<le> n \<Longrightarrow> slice (virtioCap n c x a l) 12 4 = put_le 4 l"
  by (simp_all add: virtioCap_def slice_def)

definition negotiate :: "'z ModernDevice \<Rightarrow> u32 \<Rightarrow> u32 \<Rightarrow> ('z, unit) vcomp" where
  "negotiate dev lo hi =
     andthen (writeCommon dev 8 (put_le 4 0)) (\<lambda>_.
     andthen (writeCommon dev 12 (put_le 4 (unat lo))) (\<lambda>_.
     andthen (writeCommon dev 8 (put_le 4 1)) (\<lambda>_.
     andthen (writeCommon dev 12 (put_le 4 (unat hi))) (\<lambda>_.
     writeCommon dev 20 [0x0b]))))"

lemma le32_put_le: "le32 (put_le 4 (unat v)) = Inr v"
proof -
  have "unat v < 2 ^ LENGTH(32)" by (rule unsigned_less)
  then have "le_nat (put_le 4 (unat v)) = unat v" by (intro le_nat_put_le) simp
  then show ?thesis by (simp add: le32_def)
qed

lemma writeCommon_plain:
  "writeCommon dev 8 (put_le 4 (unat v)) t = (Inr (), t\<lparr>driverFeatureSel := v\<rparr>)"
  "writeCommon dev 12 (put_le 4 (unat v)) t =
     (Inr (), t\<lparr>driverFeature := (driverFeature t)[unat (driverFeatureSel t AND 1) := v]\<rparr>)"
  "s \<noteq> 0 \<Longrightarrow> writeCommon dev 20 [s] t = (Inr (), t\<lparr>deviceStatus := s\<rparr>)"
  by (simp_all add: writeCommon_def writeRegister_def Let_def comp_defs le32_put_le)

lemma negotiate_result:
  assumes "length (driverFeature t) = 2"
  shows "\<exists>t'. negotiate dev lo hi t = (Inr (), t') \<and> driverFeature t' = [lo, hi] \<and> deviceStatus t' = 0x0b \<and> features t' = features t"
proof -
  obtain a b where ab: "driverFeature t = [a, b]" using assms by (auto simp: numeral_2_eq_2 length_Suc_conv)
  have c: "put_le 4 0 = put_le 4 (unat (0 :: u32))" "put_le 4 1 = put_le 4 (unat (1 :: u32))" by simp_all
  show ?thesis unfolding negotiate_def c using ab
    by (simp only: andthen_def writeCommon_plain prod.case sum.case) (simp add: writeCommon_plain)
qed

text \<open>What a driver does to set a queue up: it selects the queue, writes the size and the two halves of each address, and enables it.\<close>

definition half_writes :: "nat \<Rightarrow> u64 \<Rightarrow> (nat \<times> byte list) list" where
  "half_writes off p = [(off, put_le 4 (unat (ucast p :: u32))), (off + 4, put_le 4 (unat (ucast (drop_bit 32 p) :: u32)))]"

definition set_up_queue :: "'z ModernDevice \<Rightarrow> u16 \<Rightarrow> u16 \<Rightarrow> u64 \<Rightarrow> u64 \<Rightarrow> u64 \<Rightarrow> ('z, unit) vcomp" where
  "set_up_queue dev i n d a u = foreach (\<lambda>(off, data). andthen (MMIO dev off data True) (\<lambda>_. ret ()))
     ([(22, put_le 2 (unat i)), (24, put_le 2 (unat n))] @ half_writes 32 d @ half_writes 40 a @ half_writes 48 u @ [(28, [1, 0])])"

definition queue_accepted :: "byte list \<Rightarrow> u16 \<Rightarrow> u64 \<Rightarrow> u64 \<Rightarrow> u64 \<Rightarrow> bool" where
  "queue_accepted memory n d a u \<longleftrightarrow> (\<exists>k \<le> 5. n = 2 ^ k) \<and> queue_area memory d 512 16 \<and> queue_area memory a 70 2 \<and> queue_area memory u 264 4"

lemma le16_put_le: "le16 (put_le 2 (unat v)) = Inr v"
proof -
  have "unat v < 2 ^ LENGTH(16)" by (rule unsigned_less)
  then have "le_nat (put_le 2 (unat v)) = unat v" by (intro le_nat_put_le) simp
  then show ?thesis by (simp add: le16_def)
qed

lemma setLoHi_both: "setLoHi (Suc 0) (ucast (drop_bit 32 d)) (setLoHi 0 (ucast d) p) = d"
  unfolding setLoHi_def mask_u64 by (rule bit_word_eqI) (auto simp: bit_simps dest: bit_imp_le_length)

lemma small_powers: "\<not> (n = 0 \<or> of_nat QueueSize < n \<or> n AND (n - 1) \<noteq> 0) \<longleftrightarrow> (\<exists>k \<le> 5. n = 2 ^ k)" for n :: u16
proof
  assume "\<exists>k \<le> 5. n = 2 ^ k"
  then obtain k where "k \<le> 5" "n = 2 ^ k" by blast
  then have "n \<in> (\<lambda>k. 2 ^ k) ` set [0..<6]" by auto
  then show "\<not> (n = 0 \<or> of_nat QueueSize < n \<or> n AND (n - 1) \<noteq> 0)" by (auto simp: upt_rec QueueSize_def)
qed (use power_of_two_u16 [of n] in \<open>simp add: QueueSize_def\<close>)

lemma MMIO_register:
  assumes "off < 56" "off \<noteq> 20" "data \<noteq> []"
  shows "andthen (MMIO dev off data True) (\<lambda>_. ret ()) t =
    andthen (writeRegister off data) (\<lambda>ready. case ready of None \<Rightarrow> ret () | Some (idx, sq) \<Rightarrow> dev_QueueReady dev idx sq) t"
  using assms by (auto simp: MMIO_def transport_consts mmioCommonCfg_def writeCommon_def comp_defs split: prod.split sum.split option.split)

lemma updQueue_updQueue: "updQueue f (updQueue g t) = updQueue (f \<circ> g) t"
  by (auto simp: updQueue_def curQueue_def)

lemma register_steps:
  "andthen (MMIO dev 22 (put_le 2 (unat i)) True) (\<lambda>_. ret ()) t = (Inr (), t\<lparr>queueSel := i\<rparr>)"
  "andthen (MMIO dev 24 (put_le 2 (unat n)) True) (\<lambda>_. ret ()) t = (Inr (), updQueue (\<lambda>q. q\<lparr>q_size := n\<rparr>) t)"
  "andthen (MMIO dev 32 (put_le 4 (unat v)) True) (\<lambda>_. ret ()) t = (Inr (), updQueue (writeQueueAddr 0 0 v) t)"
  "andthen (MMIO dev 36 (put_le 4 (unat v)) True) (\<lambda>_. ret ()) t = (Inr (), updQueue (writeQueueAddr 0 1 v) t)"
  "andthen (MMIO dev 40 (put_le 4 (unat v)) True) (\<lambda>_. ret ()) t = (Inr (), updQueue (writeQueueAddr 1 0 v) t)"
  "andthen (MMIO dev 44 (put_le 4 (unat v)) True) (\<lambda>_. ret ()) t = (Inr (), updQueue (writeQueueAddr 1 1 v) t)"
  "andthen (MMIO dev 48 (put_le 4 (unat v)) True) (\<lambda>_. ret ()) t = (Inr (), updQueue (writeQueueAddr 2 0 v) t)"
  "andthen (MMIO dev 52 (put_le 4 (unat v)) True) (\<lambda>_. ret ()) t = (Inr (), updQueue (writeQueueAddr 2 1 v) t)"
proof -
  have ne: "put_le 2 x \<noteq> []" "put_le 4 x \<noteq> []" for x by (simp_all add: put_le_numeral)
  note M = MMIO_register [OF _ _ ne(1)] MMIO_register [OF _ _ ne(2)]
  note W = writeRegister_def Let_def comp_defs le16_put_le le32_put_le
  show "andthen (MMIO dev 22 (put_le 2 (unat i)) True) (\<lambda>_. ret ()) t = (Inr (), t\<lparr>queueSel := i\<rparr>)"
    "andthen (MMIO dev 24 (put_le 2 (unat n)) True) (\<lambda>_. ret ()) t = (Inr (), updQueue (\<lambda>q. q\<lparr>q_size := n\<rparr>) t)"
    by (simp_all add: M) (simp_all add: W updQueue_def split: option.split)
  show "andthen (MMIO dev 32 (put_le 4 (unat v)) True) (\<lambda>_. ret ()) t = (Inr (), updQueue (writeQueueAddr 0 0 v) t)"
    "andthen (MMIO dev 36 (put_le 4 (unat v)) True) (\<lambda>_. ret ()) t = (Inr (), updQueue (writeQueueAddr 0 1 v) t)"
    "andthen (MMIO dev 40 (put_le 4 (unat v)) True) (\<lambda>_. ret ()) t = (Inr (), updQueue (writeQueueAddr 1 0 v) t)"
    "andthen (MMIO dev 44 (put_le 4 (unat v)) True) (\<lambda>_. ret ()) t = (Inr (), updQueue (writeQueueAddr 1 1 v) t)"
    "andthen (MMIO dev 48 (put_le 4 (unat v)) True) (\<lambda>_. ret ()) t = (Inr (), updQueue (writeQueueAddr 2 0 v) t)"
    "andthen (MMIO dev 52 (put_le 4 (unat v)) True) (\<lambda>_. ret ()) t = (Inr (), updQueue (writeQueueAddr 2 1 v) t)"
    by (simp_all add: M) (simp_all add: W)
qed

lemma mapQueue_accepted:
  "mapQueue idx t = (let q = queues t ! idx in if queue_accepted (mem t) (q_size q) (q_desc q) (q_driver q) (q_device q)
     then (Some \<lparr>sq_Desc = unat (q_desc q), sq_Avail = unat (q_driver q), sq_Used = unat (q_device q), sq_Size = q_size q\<rparr>, t)
     else (None, t\<lparr>queues := (queues t)[idx := q\<lparr>q_enable := 0\<rparr>]\<rparr>))"
  unfolding mapQueue_def queue_accepted_def Let_def using small_powers [of "q_size (queues t ! idx)"] by simp blast

lemma enable_step:
  assumes "unat (queueSel t) < length (queues t)"
  shows "andthen (MMIO dev 28 [1, 0] True) (\<lambda>_. ret ()) t =
    (let q = queues t ! unat (queueSel t) in if queue_accepted (mem t) (q_size q) (q_desc q) (q_driver q) (q_device q)
     then dev_QueueReady dev (unat (queueSel t)) \<lparr>sq_Desc = unat (q_desc q), sq_Avail = unat (q_driver q), sq_Used = unat (q_device q), sq_Size = q_size q\<rparr>
       (updQueue (\<lambda>q. q\<lparr>q_enable := 1\<rparr>) t)
     else (Inr (), updQueue (\<lambda>q. q\<lparr>q_enable := 0\<rparr>) t))"
proof -
  show ?thesis using assms
    by (simp add: MMIO_register) (simp add: writeRegister_def Let_def andthen_def inspect_def modify_def ret_def le16_def curQueue_def updQueue_def mapQueue_accepted)
qed

lemma foldC_step: "body x () t = (Inr (), t1) \<Longrightarrow> foldC body (x # xs) () t = foldC body xs () t1"
  by (simp add: andthen_def)

lemma foldC_last: "foldC body [x] () t = body x () t"
  by (simp add: andthen_def ret_def split: prod.split sum.split)

lemma writeRegister_frame:
  assumes "writeRegister off data t = (r, t')"
  shows "mem t' = mem t \<and> transport.more t' = transport.more t"
  using assms
  by (auto simp: writeRegister_def Let_def comp_defs le16_def le32_def updQueue_def mapQueue_def resetRegisters_def
    split: if_splits option.splits prod.splits)

lemma writeRegister_error:
  assumes "writeRegister off data t = (Inl e, t')" shows "e = VPanic \<and> length data < register_width off"
  using assms
  by (auto simp: writeRegister_def Let_def comp_defs le16_def le32_def register_width_def
    split: if_splits option.splits prod.splits)

section \<open>The device interface\<close>

text \<open>
  What the transport relies on when it calls its device: \<open>ok\<close> is an invariant of the
  device record that does not depend on the registers of the transport, every
  callback keeps it without a panic, and \<^verbatim>\<open>QueueReady\<close> may assume that the queue it
  gets lies in guest memory.
\<close>

locale modern_device =
  fixes dev :: "'z ModernDevice" and ok :: "'z transport_scheme \<Rightarrow> bool"
  assumes registers: "ok t \<Longrightarrow> mem t' = mem t \<Longrightarrow> transport.more t' = transport.more t \<Longrightarrow> ok t'"
    and read_config: "ok t \<Longrightarrow> dev_ReadDeviceConfig dev off data t = (r, t') \<Longrightarrow>
      ok t' \<and> (\<exists>d. r = Inr d \<and> length d = length data)"
    and write_config: "ok t \<Longrightarrow> dev_WriteDeviceConfig dev off data t = (u, t') \<Longrightarrow> ok t' \<and> u = Inr ()"
    and queue_ready: "ok t \<Longrightarrow> queue_mapped (mem t) sq \<Longrightarrow> dev_QueueReady dev i sq t = (u, t') \<Longrightarrow> ok t' \<and> u = Inr ()"
    and notify: "ok t \<Longrightarrow> dev_Notify dev i t = (u, t') \<Longrightarrow> ok t' \<and> u = Inr ()"
    and reset: "ok t \<Longrightarrow> dev_Reset dev = Some m \<Longrightarrow> m t = (u, t') \<Longrightarrow> ok t' \<and> u = Inr ()"
begin

lemma clear_ok:
  assumes "ok t" "clearInterrupt t = (r, t')" shows "ok t' \<and> (\<exists>s. r = Inr s)"
proof -
  have "mem t' = mem t \<and> transport.more t' = transport.more t \<and> (\<exists>s. r = Inr s)"
    using assms(2) by (auto simp: clearInterrupt_def call_irq_def Let_def split: if_splits list.splits option.splits)
  then show ?thesis using registers [OF assms(1)] by blast
qed

lemma writeCommon_ok:
  assumes "ok t" "writeCommon dev off data t = (r, t')"
  shows "ok t' \<and> (\<forall>e. r = Inl e \<longrightarrow> e = VPanic \<and> length data < register_width off)"
proof -
  let ?reset = "andthen (case dev_Reset dev of None \<Rightarrow> ret () | Some reset \<Rightarrow> reset) (\<lambda>_. andthen clearInterrupt (\<lambda>_. ret ()))"
  let ?first = "if off = 20 \<and> data ! 0 = 0 then ?reset else ret ()"
  have "\<exists>t1. ?reset t = (Inr (), t1) \<and> ok t1"
  proof -
    obtain u t1 where u: "(case dev_Reset dev of None \<Rightarrow> ret () | Some reset \<Rightarrow> reset) t = (u, t1)" by fastforce
    then have "ok t1 \<and> u = Inr ()" using reset [OF assms(1)] assms(1) by (auto simp: ret_def split: option.splits)
    moreover obtain s t2 where "clearInterrupt t1 = (s, t2)" by fastforce
    ultimately show ?thesis using clear_ok [of t1 s t2] u by (auto simp: andthen_def ret_def)
  qed
  then have "\<exists>t1. ?first t = (Inr (), t1) \<and> ok t1"
    using assms(1) by (cases "off = 20 \<and> data ! 0 = 0") (simp, auto simp: ret_def)
  then obtain t1 where t1: "?first t = (Inr (), t1)" "ok t1" by blast
  obtain w t2 where w: "writeRegister off data t1 = (w, t2)" by fastforce
  have ok2: "ok t2" using registers [OF t1(2)] writeRegister_frame [OF w] by blast
  have r: "(case w of Inl e \<Rightarrow> (Inl e, t2)
      | Inr None \<Rightarrow> (Inr (), t2) | Inr (Some (i, sq)) \<Rightarrow> dev_QueueReady dev i sq t2) = (r, t')"
    using assms(2) t1(1) w by (auto simp: writeCommon_def andthen_def ret_def split: sum.splits option.splits prod.splits)
  show ?thesis
  proof (cases w)
    case (Inl e)
    then show ?thesis using r ok2 writeRegister_error [of off data t1 e t2] w by auto
  next
    case (Inr p)
    show ?thesis
    proof (cases p)
      case None
      then show ?thesis using r ok2 Inr by auto
    next
      case (Some x)
      obtain i sq where x: "x = (i, sq)" by fastforce
      have "queue_mapped (mem t2) sq" using writeRegister_publish(1,2) [of off data t1 i sq t2] w Inr Some x by simp
      then show ?thesis using queue_ready [OF ok2] r Inr Some x by auto
    qed
  qed
qed

lemma MMIO_ok:
  assumes "ok t" "MMIO dev offset data isWrite t = (r, t')"
  shows "ok t' \<and> (case r of Inl e \<Rightarrow> e = VPanic \<and> isWrite \<and> length data < register_width offset
    | Inr d \<Rightarrow> length d = length data)"
proof -
  have rc: "length (readCommon off n t) = n" for off n
    by (auto simp: readCommon_def)
  have le: "\<exists>v. le16 (pad2 data) = Inr v" if "data \<noteq> []" using that by (auto simp: le16_def pad2_def)
  consider (empty) "data = []" | (common) "data \<noteq> []" "offset < 56"
    | (isr) "data \<noteq> []" "0x1000 \<le> offset" "offset < 0x1004" | (config) "data \<noteq> []" "0x2000 \<le> offset" "offset < 0x3000"
    | (bell) "data \<noteq> []" "0x3000 \<le> offset" "offset < 0x3100"
    | (none) "data \<noteq> []" "\<not> offset < 56" "\<not> (0x1000 \<le> offset \<and> offset < 0x1004)"
        "\<not> (0x2000 \<le> offset \<and> offset < 0x3000)" "\<not> (0x3000 \<le> offset \<and> offset < 0x3100)" by linarith
  then show ?thesis
  proof cases
    case common
    then show ?thesis
    proof (cases isWrite)
      case True
      obtain u t1 where u: "writeCommon dev offset data t = (u, t1)" by fastforce
      show ?thesis using assms(2) writeCommon_ok [OF assms(1) u] common True u
        by (auto simp: MMIO_def mmioCommonCfg_def transport_consts andthen_def ret_def split: sum.splits)
    qed (use assms rc in \<open>auto simp: MMIO_def mmioCommonCfg_def transport_consts gets_def\<close>)
  next
    case isr
    obtain u t1 where u: "clearInterrupt t = (u, t1)" by fastforce
    show ?thesis using assms clear_ok [OF assms(1) u] isr u
      by (cases isWrite) (auto simp: MMIO_def transport_consts andthen_def ret_def)
  next
    case config
    obtain u t1 where u: "dev_WriteDeviceConfig dev (offset - 0x2000) data t = (u, t1)" by fastforce
    show ?thesis using assms write_config [OF assms(1) u] read_config [OF assms(1), of "offset - 0x2000" data r t'] config u
      by (cases isWrite) (auto simp: MMIO_def transport_consts andthen_def ret_def)
  next
    case bell
    obtain v where v: "le16 (pad2 data) = Inr v" using le bell(1) by blast
    obtain u t1 where u: "dev_Notify dev (unat v) t = (u, t1)" by fastforce
    have "ok t1 \<and> u = Inr ()" using notify [OF assms(1) u] .
    then show ?thesis using assms bell u v
      by (cases isWrite) (auto simp: MMIO_def transport_consts andthen_def inspect_def ret_def)
  qed (use assms in \<open>auto simp: MMIO_def transport_consts ret_def\<close>)
qed

end

section \<open>Properties\<close>

text \<open>
  Every register a driver programs reads back as it was written: an access of the
  register's width stores its bytes, publishes no queue, and a read at the same
  offset returns them, for the queue registers as long as a queue is selected.
\<close>

lemma register_readback:
  assumes "(off, n) \<in> set driver_registers" "length data = n" "length (driverFeature t) = 2"
    "24 \<le> off \<longrightarrow> curQueue t \<noteq> None"
  shows "\<exists>t'. writeRegister off data t = (Inr None, t') \<and> readCommon off n t' = data"
  by (rule writeRegister_readback [OF assms])

lemma register_readback_witness:
  "\<exists>t'. writeRegister 36 [1, 2, 3, 4] (NewModernTransport 0 8 1 []) = (Inr None, t') \<and> readCommon 36 4 t' = [1, 2, 3, 4]"
  by (rule register_readback) (simp_all add: driver_registers_def NewModernTransport_def curQueue_def)

text \<open>
  C17. A queue reaches the device only when it is safe to access through raw pointers: the
  descriptor table and both rings, at the sizes of their fixed-size views, lie in
  guest RAM and are aligned, and the ring size is a power of two of at most 32. The
  queue then also reads back as enabled.
\<close>

theorem published_queue_mapped:
  assumes "writeRegister off data t = (Inr (Some (idx, sq)), t')"
  shows "queue_mapped (mem t) sq \<and> idx < length (queues t) \<and> q_enable (queues t' ! idx) = 1"
  using writeRegister_publish [OF assms] by blast

definition sample_transport :: transport where
  "sample_transport = (NewModernTransport 0 8 1 (replicate 4096 0))\<lparr>queues :=
     [fresh_queue\<lparr>q_desc := 0, q_driver := 1024, q_device := 2048\<rparr>]\<rparr>"

theorem published_queue_mapped_witness:
  "queue_mapped (replicate 4096 0) \<lparr>sq_Desc = 0, sq_Avail = 1024, sq_Used = 2048, sq_Size = 32\<rparr>"
proof -
  have "fst (writeRegister 28 [1, 0] sample_transport) =
      Inr (Some (0, \<lparr>sq_Desc = 0, sq_Avail = 1024, sq_Used = 2048, sq_Size = 32\<rparr>))"
    by (simp add: writeRegister_def sample_transport_def NewModernTransport_def curQueue_def updQueue_def comp_defs le16_def
      mapQueue_def queue_area_def ValidRange_def MMIOStart_def HighRAMStart_def fresh_queue_def QueueSize_def Let_def)
  then obtain t' where "writeRegister 28 [1, 0] sample_transport =
      (Inr (Some (0, \<lparr>sq_Desc = 0, sq_Avail = 1024, sq_Used = 2048, sq_Size = 32\<rparr>)), t')" by (metis prod.collapse)
  then show ?thesis using published_queue_mapped by (fastforce simp: sample_transport_def NewModernTransport_def)
qed

text \<open>
  When a write to a register of the common configuration panics. The guest chooses the width of its accesses and nothing
  between the exit handler and the register checks it, so a guest can end its own monitor with a one-byte store. The queue registers
  of two bytes ignore a write, of any width, when no queue is selected.
\<close>

lemma narrow_write_panics:
  "fst (writeRegister off data t) = Inl VPanic \<longleftrightarrow>
     (off \<in> {0, 8, 12, 32, 36, 40, 44, 48, 52} \<and> length data < 4) \<or> (off \<in> {16, 22} \<and> length data < 2) \<or>
     (off = 20 \<and> data = []) \<or> (off \<in> {24, 26, 28} \<and> curQueue t \<noteq> None \<and> length data < 2)"
  by (rule writeRegister_panic)

text \<open>
  C19. Setting up a queue. When a driver selects a queue that exists, writes its size and its three addresses, each as two halves, and
  enables it, the device gets the queue exactly when the size is a power of two of at most 32 and the three areas are aligned and in guest RAM. It
  gets the index, the size and the 64-bit addresses that were written, whatever the registers held before, and the other queues are as they were.
  In every other case the device is not called, and the queue reads back as disabled.
\<close>

theorem queue_set_up:
  assumes "unat i < length (queues t)"
  shows "set_up_queue dev i n d a u t =
    (let q = (queues t ! unat i)\<lparr>q_size := n, q_desc := d, q_driver := a, q_device := u\<rparr>
     in if queue_accepted (mem t) n d a u
        then dev_QueueReady dev (unat i) \<lparr>sq_Desc = unat d, sq_Avail = unat a, sq_Used = unat u, sq_Size = n\<rparr>
          (t\<lparr>queueSel := i, queues := (queues t)[unat i := q\<lparr>q_enable := 1\<rparr>]\<rparr>)
        else (Inr (), t\<lparr>queueSel := i, queues := (queues t)[unat i := q\<lparr>q_enable := 0\<rparr>]\<rparr>))"
proof -
  let ?q = "\<lambda>q. q\<lparr>q_size := n, q_desc := d, q_driver := a, q_device := u\<rparr>"
  have q: "writeQueueAddr 2 1 (ucast (drop_bit 32 u)) \<circ> (writeQueueAddr 2 0 (ucast u) \<circ> (writeQueueAddr 1 1 (ucast (drop_bit 32 a)) \<circ> (writeQueueAddr 1 0 (ucast a) \<circ>
      (writeQueueAddr 0 1 (ucast (drop_bit 32 d)) \<circ> (writeQueueAddr 0 0 (ucast d) \<circ> (\<lambda>q. q\<lparr>q_size := n\<rparr>)))))) = ?q"
    by (simp add: fun_eq_iff writeQueueAddr_def setLoHi_both)
  define t1 where "t1 = updQueue ?q (t\<lparr>queueSel := i\<rparr>)"
  have t1: "t1 = t\<lparr>queueSel := i, queues := (queues t)[unat i := ?q (queues t ! unat i)]\<rparr>" using assms by (simp add: t1_def updQueue_def curQueue_def)
  have "set_up_queue dev i n d a u t = andthen (MMIO dev 28 [1, 0] True) (\<lambda>_. ret ()) t1"
    unfolding set_up_queue_def foreach_def half_writes_def append_Cons append_Nil t1_def q [symmetric] updQueue_updQueue [symmetric]
    by (simp only: foldC_step foldC_last prod.case register_steps arith_simps)
  then show ?thesis using assms by (simp add: enable_step t1 Let_def updQueue_def curQueue_def)
qed

definition queue_memory :: "byte list" where "queue_memory = replicate 1024 0"

theorem queue_set_up_witness:
  "\<forall>dev. set_up_queue dev 1 8 0 512 640 (NewModernTransport 0 8 2 queue_memory) =
     dev_QueueReady dev 1 \<lparr>sq_Desc = 0, sq_Avail = 512, sq_Used = 640, sq_Size = 8\<rparr>
       ((NewModernTransport 0 8 2 queue_memory)\<lparr>queueSel := 1, queues :=
         [fresh_queue, \<lparr>q_size = 8, q_msixVector = 0, q_enable = 1, q_desc = 0, q_driver = 512, q_device = 640\<rparr>]\<rparr>)"
proof -
  have "queue_accepted queue_memory 8 0 512 640"
    by (auto simp: queue_accepted_def intro!: exI [of _ 3]) (simp_all add: queue_area_def queue_memory_def ValidRange_def MMIOStart_def HighRAMStart_def QueueSize_def)
  moreover have "replicate 2 fresh_queue = [fresh_queue, fresh_queue]" by (simp add: numeral_2_eq_2)
  ultimately show ?thesis using queue_set_up [of 1 "NewModernTransport 0 8 2 queue_memory" _ 8 0 512 640]
    by (simp add: NewModernTransport_def) (simp add: fresh_queue_def)
qed

text \<open>
  C18. The interrupt line follows the interrupt status. With a level callback that does not
  fail, after any sequence of queue interrupts, configuration changes, recovery
  polls and acknowledgements the line is high exactly when an interrupt is
  pending, so no interrupt is lost and none stays asserted after its
  acknowledgement.
\<close>

theorem irq_line_follows_status:
  assumes "irq_step\<^sup>*\<^sup>* t t'" "setIRQLevel t" "irq_outcomes t = []" "irqError t = None" "isr t = 0" "irq_calls t = []"
  shows "line_level (irq_calls t') \<longleftrightarrow> interruptPending t'"
proof -
  have "irq_ok t" using assms(2-6) by (simp add: irq_ok_def)
  with assms(1) have "irq_ok t'" by (induction) (auto dest: irq_step_ok)
  then show ?thesis by (simp add: irq_ok_def interruptPending_def)
qed

theorem irq_line_follows_status_witness:
  "\<exists>t'. irq_step (SetIRQLine (NewModernTransport 0 8 1 [])) t' \<and> line_level (irq_calls t') \<and> interruptPending t'"
proof -
  let ?t = "SetIRQLine (NewModernTransport 0 8 1 [])"
  obtain r t' where t': "Interrupt ?t = (r, t')" by fastforce
  have s: "irq_step ?t t'" using irq_step.intros(1) [OF t'] .
  have "interruptPending t'" using t'
    by (auto simp: Interrupt_def comp_defs raiseIRQ_def setPendingInterrupt_def call_irq_def interruptPending_def SetIRQLine_def
      NewModernTransport_def Let_def or_bit_nonzero)
  moreover have "line_level (irq_calls t') \<longleftrightarrow> interruptPending t'"
    using irq_line_follows_status [of ?t t'] s by (auto simp: SetIRQLine_def NewModernTransport_def)
  ultimately show ?thesis using s by blast
qed

text \<open>
  Negotiation. After a driver has written the two halves of its feature word and set
  \<open>FEATURES_OK\<close>, the negotiated features are the ones both sides offered; before
  that there are none.
\<close>

lemma negotiated_after_negotiate:
  assumes "length (driverFeature t) = 2" "deviceStatus t AND 8 = 0"
  shows "negotiatedFeatures t = 0 \<and> (\<exists>t'. negotiate dev lo hi t = (Inr (), t') \<and>
    negotiatedFeatures t' = (push_bit 32 (ucast hi) OR ucast lo) AND features t)"
  using negotiate_result [OF assms(1), of dev lo hi] assms(2) by (auto simp: negotiatedFeatures_def)

lemma negotiated_after_negotiate_witness:
  "negotiatedFeatures (NewModernTransport 512 8 1 []) = 0 \<and> (\<forall>dev. \<exists>t'. negotiate dev 512 1 (NewModernTransport 512 8 1 []) = (Inr (), t') \<and>
    negotiatedFeatures t' = 0x100000200)"
  using negotiated_after_negotiate [of "NewModernTransport 512 8 1 []" _ 512 1] by (simp add: NewModernTransport_def featureVersion1_def)

text \<open>
  A driver that walks the capability list finds the four structures, each once and in
  order, and the walk ends.
\<close>

lemma capability_list:
  assumes "configLen t < 4294967296"
  shows "cap_walk 5 capCommonAt (Capabilities t) =
    [(1, commonCfgOffset, commonCfgLen), (2, notifyCfgOffset, notifyCfgLen), (3, isrCfgOffset, isrCfgLen),
     (4, deviceCfgOffset, configLen t)]"
proof -
  have fuel: "(5 :: nat) = Suc (Suc (Suc (Suc (Suc 0))))" by simp
  show ?thesis unfolding fuel Capabilities_def
    using assms by (simp add: transport_consts virtioCap_fields le_nat_put_le Let_def)
qed

lemma capability_list_witness:
  "cap_walk 5 capCommonAt (Capabilities (NewModernTransport 0 8 1 [])) =
    [(1, commonCfgOffset, commonCfgLen), (2, notifyCfgOffset, notifyCfgLen), (3, isrCfgOffset, isrCfgLen), (4, deviceCfgOffset, 8)]"
  using capability_list [of "NewModernTransport 0 8 1 []"] by (simp add: NewModernTransport_def)

end
