(* ===== verification/Virtio_Ring.thy ===== *)
theory Virtio_Ring
  imports Virtio_Transport
begin

text \<open>
  The split virtqueue in guest memory (\<^verbatim>\<open>internal/virtio/modern.go\<close>), shared by the devices: descriptors and the two
  rings as loads and stores at the addresses of a mapped queue, and what such stores can change.
\<close>

section \<open>Definitions\<close>

definition descFNext :: u16 where "descFNext = 1"
definition descFWrite :: u16 where "descFWrite = 2"

record SplitDesc =
  d_Addr :: nat
  d_Len :: nat
  d_Flags :: u16
  d_Next :: nat

definition desc_at :: "byte list \<Rightarrow> SplitQueue \<Rightarrow> nat \<Rightarrow> SplitDesc" where
  "desc_at m sq i = (let a = sq_Desc sq + 16 * i in
     \<lparr>d_Addr = load_le 8 m a, d_Len = load_le 4 m (a + 8), d_Flags = of_nat (load_le 2 m (a + 12)), d_Next = load_le 2 m (a + 14)\<rparr>)"

definition avail_idx :: "byte list \<Rightarrow> SplitQueue \<Rightarrow> u16" where
  "avail_idx m sq = of_nat (load_le 2 m (sq_Avail sq + 2))"

definition avail_ring :: "byte list \<Rightarrow> SplitQueue \<Rightarrow> nat \<Rightarrow> nat" where
  "avail_ring m sq i = load_le 2 m (sq_Avail sq + 4 + 2 * i)"

definition used_idx :: "byte list \<Rightarrow> SplitQueue \<Rightarrow> u16" where
  "used_idx m sq = of_nat (load_le 2 m (sq_Used sq + 2))"

text \<open>\<^verbatim>\<open>q.Used.Ring[i] = SplitUsedElem{ID, Len}\<close> and \<^verbatim>\<open>StoreAddU16(&q.Used.Idx, n)\<close>.\<close>

definition put_used :: "SplitQueue \<Rightarrow> nat \<Rightarrow> u32 \<Rightarrow> u32 \<Rightarrow> byte list \<Rightarrow> byte list" where
  "put_used sq i ident len m =
     store_le 4 (sq_Used sq + 4 + 8 * i + 4) (unat len) (store_le 4 (sq_Used sq + 4 + 8 * i) (unat ident) m)"

definition add_used_idx :: "SplitQueue \<Rightarrow> u16 \<Rightarrow> byte list \<Rightarrow> byte list" where
  "add_used_idx sq n m = store_le 2 (sq_Used sq + 2) (unat (used_idx m sq + n)) m"

text \<open>
  What the language checks at an access: indexing the fixed-size arrays of a queue and slicing
  guest memory from \<open>lo\<close> to \<open>hi\<close> panic when they are out of range. A slice is the pair of its
  first address and its length.
\<close>

definition desc_index :: "byte list \<Rightarrow> SplitQueue \<Rightarrow> nat \<Rightarrow> verr + SplitDesc" where
  "desc_index m sq i = (if i < QueueSize then Inr (desc_at m sq i) else Inl VPanic)"

definition avail_index :: "byte list \<Rightarrow> SplitQueue \<Rightarrow> nat \<Rightarrow> verr + nat" where
  "avail_index m sq i = (if i < QueueSize then Inr (avail_ring m sq i) else Inl VPanic)"

definition used_store :: "SplitQueue \<Rightarrow> nat \<Rightarrow> u32 \<Rightarrow> u32 \<Rightarrow> byte list \<Rightarrow> verr + byte list" where
  "used_store sq i ident len m = (if i < QueueSize then Inr (put_used sq i ident len m) else Inl VPanic)"

definition mem_slice :: "byte list \<Rightarrow> nat \<Rightarrow> nat \<Rightarrow> verr + nat \<times> nat" where
  "mem_slice m lo hi = (if lo \<le> hi \<and> hi \<le> length m then Inr (lo, hi - lo) else Inl VPanic)"

definition first_byte :: "nat \<times> nat \<Rightarrow> verr + nat" where
  "first_byte data = (if snd data = 0 then Inl VPanic else Inr (fst data))"

text \<open>The number of entries a device works with.\<close>

definition batch_size :: "SplitQueue \<Rightarrow> nat" where
  "batch_size sq = (if sq_Size sq \<noteq> 0 \<and> sq_Size sq \<le> of_nat QueueSize then unat (sq_Size sq) else QueueSize)"

section \<open>Lemmas\<close>

lemma batch_size_range: "0 < batch_size sq \<and> batch_size sq \<le> 32"
  by (auto simp: batch_size_def QueueSize_def word_le_nat_alt unat_gt_0)

lemma batch_size_mod: "k mod batch_size sq < QueueSize"
  using batch_size_range [of sq] mod_less_divisor [of "batch_size sq" k] unfolding QueueSize_def by linarith

text \<open>A checked range can be sliced: the end of the range does not wrap around.\<close>

lemma mem_slice_valid:
  assumes "ValidRange m a n" "length m < 2 ^ 63" shows "mem_slice m a (add64 a n) = Inr (a, n)"
  using ValidRange_bound [OF assms(1)] assms(2) by (simp add: mem_slice_def add64_id)

subsection \<open>Guest memory\<close>

text \<open>A step that writes guest memory only at addresses of guest RAM.\<close>

definition confined :: "byte list \<Rightarrow> byte list \<Rightarrow> bool" where
  "confined m m' \<longleftrightarrow> length m' = length m \<and> (\<forall>a < length m. \<not> in_ram m a \<longrightarrow> m' ! a = m ! a)"

lemma confined_refl [simp]: "confined m m"
  by (simp add: confined_def)

lemma confined_trans: "confined m m' \<Longrightarrow> confined m' m'' \<Longrightarrow> confined m m''"
  by (auto simp: confined_def in_ram_def)

lemma confined_copy:
  assumes "ValidRange m a n" "length bs \<le> n" shows "confined m (copy_at m a bs)"
  using assms ValidRange_bound [OF assms(1)] ValidRange_in_ram [OF assms(1)]
  by (auto simp: confined_def nth_copy_at)

lemma confined_store: "ValidRange m a n \<Longrightarrow> k \<le> n \<Longrightarrow> confined m (store_le k a x m)"
  unfolding store_le_def by (rule confined_copy) simp_all

lemma confined_update: "ValidRange m a n \<Longrightarrow> 0 < n \<Longrightarrow> confined m (m[a := x])"
  using ValidRange_in_ram [of m a n a] by (auto simp: confined_def) (metis nth_list_update_neq)

lemma ValidRange_zero: "ValidRange m 0 0"
  by (simp add: ValidRange_def)

lemma ValidRange_part: "ValidRange m a n \<Longrightarrow> k + j \<le> n \<Longrightarrow> 0 < j \<Longrightarrow> ValidRange m (a + k) j"
  by (auto simp: ValidRange_def split: if_splits)

lemma confined_length: "confined m m' \<Longrightarrow> length m' = length m"
  by (simp add: confined_def)

lemma confined_valid: "confined m m' \<Longrightarrow> ValidRange m' = ValidRange m"
  by (intro ValidRange_length) (simp add: confined_def)

lemma confined_mapped: "confined m m' \<Longrightarrow> queue_mapped m' sq \<longleftrightarrow> queue_mapped m sq"
  by (simp add: queue_mapped_def confined_valid)

lemma confined_put_used:
  assumes "queue_mapped m sq" "i < 32" shows "confined m (put_used sq i x y m)"
proof -
  have u: "ValidRange m (sq_Used sq) 264" using assms(1) by (simp add: queue_mapped_def)
  have a: "ValidRange m (sq_Used sq + (4 + 8 * i)) 4" "ValidRange m (sq_Used sq + (4 + 8 * i + 4)) 4"
    using assms(2) by (intro ValidRange_part [OF u]; simp)+
  let ?m = "store_le 4 (sq_Used sq + 4 + 8 * i) (unat x) m"
  have c: "confined m ?m" using confined_store [OF a(1), of 4] by (simp add: add.assoc)
  have "ValidRange ?m (sq_Used sq + (4 + 8 * i + 4)) 4" using a(2) confined_valid [OF c] by simp
  then show ?thesis using confined_trans [OF c] confined_store [of ?m _ 4 4] by (simp add: put_used_def add.assoc)
qed

lemma confined_add_used:
  assumes "queue_mapped m sq" shows "confined m (add_used_idx sq n m)"
proof -
  have "ValidRange m (sq_Used sq + 2) 2" using assms by (intro ValidRange_part [of m _ 264]) (simp_all add: queue_mapped_def)
  then show ?thesis unfolding add_used_idx_def by (rule confined_store) simp
qed

subsection \<open>The used ring\<close>

text \<open>Addresses that the used ring of the queue does not occupy.\<close>

definition off_used :: "SplitQueue \<Rightarrow> nat \<Rightarrow> bool" where
  "off_used sq a \<longleftrightarrow> a < sq_Used sq \<or> sq_Used sq + 264 \<le> a"

lemma nth_store_le:
  assumes "a + n \<le> length m" "x < length m" "x < a \<or> a + n \<le> x" shows "store_le n a y m ! x = m ! x"
  using assms by (auto simp: store_le_def nth_copy_at)

lemma used_bound: "queue_mapped m sq \<Longrightarrow> sq_Used sq + 264 \<le> length m"
  using ValidRange_bound by (auto simp: queue_mapped_def)

lemma off_used_put:
  assumes "queue_mapped m sq" "i < 32" "off_used sq x" "x < length m" shows "put_used sq i ident len m ! x = m ! x"
proof -
  note u = used_bound [OF assms(1)]
  let ?m1 = "store_le 4 (sq_Used sq + 4 + 8 * i) (unat ident) m"
  have l: "length ?m1 = length m" using u assms(2) by simp
  have "put_used sq i ident len m ! x = ?m1 ! x" unfolding put_used_def by (rule nth_store_le) (use u l assms in \<open>auto simp: off_used_def\<close>)
  also have "\<dots> = m ! x" by (rule nth_store_le) (use u assms in \<open>auto simp: off_used_def\<close>)
  finally show ?thesis .
qed

lemma off_used_add:
  assumes "queue_mapped m sq" "off_used sq x" "x < length m" shows "add_used_idx sq n m ! x = m ! x"
  unfolding add_used_idx_def
  by (rule nth_store_le) (use assms(2,3) used_bound [OF assms(1)] in \<open>auto simp: off_used_def\<close>)

lemma off_used_kept:
  assumes "queue_mapped m sq" "i < 32" "off_used sq x" "x < length m"
  shows "add_used_idx sq n (put_used sq i ident len m) ! x = m ! x"
proof -
  note c = confined_put_used [OF assms(1,2), of ident len]
  have "queue_mapped (put_used sq i ident len m) sq" using assms(1) confined_mapped [OF c] by simp
  then show ?thesis using off_used_add [of _ sq x n] off_used_put [OF assms, of ident len] assms(3,4) confined_length [OF c] by simp
qed

text \<open>The entries of the used ring, as the driver reads them.\<close>

definition used_elem :: "byte list \<Rightarrow> SplitQueue \<Rightarrow> nat \<Rightarrow> nat \<times> nat" where
  "used_elem m sq i = (load_le 4 m (sq_Used sq + 4 + 8 * i), load_le 4 m (sq_Used sq + 4 + 8 * i + 4))"

lemma used_elem_put:
  assumes "queue_mapped m sq" "i < 32" "j < 32"
  shows "used_elem (put_used sq i x y m) sq j = (if j = i then (unat x, unat y) else used_elem m sq j)"
proof -
  note u = used_bound [OF assms(1)]
  have x: "unat z mod 4294967296 = unat z" for z :: u32
  proof -
    have "unat z < 2 ^ LENGTH(32)" by (rule unsigned_less)
    then show ?thesis by simp
  qed
  let ?m1 = "store_le 4 (sq_Used sq + 4 + 8 * i) (unat x) m"
  have l: "length ?m1 = length m" using u assms(2) by simp
  show ?thesis
  proof (cases "j = i")
    case True
    then show ?thesis using u l assms(2,3) x
      by (simp add: used_elem_def put_used_def load_store_same load_store_other)
  next
    case False
    then have "i + 1 \<le> j \<or> j + 1 \<le> i" by linarith
    then show ?thesis using u l assms(2,3) False
      by (elim disjE) (simp_all add: used_elem_def put_used_def load_store_other)
  qed
qed

lemma used_idx_put: "queue_mapped m sq \<Longrightarrow> i < 32 \<Longrightarrow> used_idx (put_used sq i x y m) sq = used_idx m sq"
  using used_bound [of m sq] by (simp add: used_idx_def put_used_def load_store_other)

lemma used_idx_add:
  assumes "queue_mapped m sq" shows "used_idx (add_used_idx sq n m) sq = used_idx m sq + n"
proof -
  have "unat (used_idx m sq + n) < 2 ^ LENGTH(16)" by (rule unsigned_less)
  then have "load_le 2 (add_used_idx sq n m) (sq_Used sq + 2) = unat (used_idx m sq + n)"
    using used_bound [OF assms] by (simp add: add_used_idx_def load_store_same)
  then show ?thesis by (simp add: used_idx_def [of "add_used_idx sq n m"])
qed

lemma used_elem_add: "queue_mapped m sq \<Longrightarrow> j < 32 \<Longrightarrow> used_elem (add_used_idx sq n m) sq j = used_elem m sq j"
  using used_bound [of m sq] by (simp add: used_elem_def add_used_idx_def load_store_other)

text \<open>The used ring depends only on its own bytes.\<close>

lemma load_le_cong:
  assumes "length m' = length m" "a + n \<le> length m" "\<And>x. a \<le> x \<Longrightarrow> x < a + n \<Longrightarrow> m' ! x = m ! x"
  shows "load_le n m' a = load_le n m a"
proof -
  have "slice m' a n = slice m a n" using assms by (intro nth_equalityI) (auto simp: length_slice nth_slice)
  then show ?thesis by (simp add: load_le_def)
qed

lemma used_cong:
  assumes "queue_mapped m sq" "length m' = length m" "\<And>x. x < length m \<Longrightarrow> \<not> off_used sq x \<Longrightarrow> m' ! x = m ! x"
  shows "used_idx m' sq = used_idx m sq" "j < 32 \<Longrightarrow> used_elem m' sq j = used_elem m sq j"
  using used_bound [OF assms(1)] assms(3)
  by (auto simp: used_idx_def used_elem_def off_used_def intro!: arg_cong [where f = word_of_nat] load_le_cong [OF assms(2)])

text \<open>Consecutive positions of a batch fall into different slots, also when the 16-bit index wraps around.\<close>

definition used_at :: "SplitQueue \<Rightarrow> u16 \<Rightarrow> nat" where
  "used_at sq idx = unat idx mod batch_size sq"

lemma used_at_range: "used_at sq idx < 32"
  using batch_size_mod [of "unat idx" sq] by (simp add: used_at_def QueueSize_def)

lemma batch_size_power: "queue_mapped m sq \<Longrightarrow> \<exists>k \<le> 5. batch_size sq = 2 ^ k"
proof -
  assume "queue_mapped m sq"
  then obtain k where k: "k \<le> 5" "sq_Size sq = 2 ^ k" by (auto simp: queue_mapped_def)
  then have "k = 0 \<or> k = 1 \<or> k = 2 \<or> k = 3 \<or> k = 4 \<or> k = 5" by linarith
  then show ?thesis using k by (elim disjE) (auto simp: batch_size_def QueueSize_def intro: exI [of _ k])
qed

lemma used_at_add:
  assumes "queue_mapped m sq" shows "used_at sq (idx + of_nat i) = (unat idx + i) mod batch_size sq"
proof -
  obtain k where k: "k \<le> 5" "batch_size sq = 2 ^ k" using batch_size_power [OF assms] by blast
  have "unat (idx + of_nat i) = (unat idx + i) mod 2 ^ 16" by (simp add: unat_word_ariths unat_of_nat mod_add_right_eq)
  moreover have "(2 :: nat) ^ k dvd 2 ^ 16" using k(1) by (intro le_imp_power_dvd) simp
  ultimately show ?thesis using k(2) by (simp add: used_at_def mod_mod_cancel)
qed

lemma used_at_distinct:
  assumes "queue_mapped m sq" "i < j" "j < i + batch_size sq" shows "used_at sq (idx + of_nat i) \<noteq> used_at sq (idx + of_nat j)"
proof
  assume "used_at sq (idx + of_nat i) = used_at sq (idx + of_nat j)"
  then have "(unat idx + j) mod batch_size sq = (unat idx + i) mod batch_size sq" using used_at_add [OF assms(1)] by simp
  then have "batch_size sq dvd (unat idx + j) - (unat idx + i)" using assms(2) by (intro mod_eq_dvd_iff_nat [THEN iffD1]) simp_all
  then show False using assms(2,3) by (auto dest!: dvd_imp_le)
qed

end
