(* ===== verification/Virtio_Blk.thy ===== *)
theory Virtio_Blk
  imports Disk_Image Virtio_Ring
begin

text \<open>
  The virtio block device, \<^verbatim>\<open>internal/virtio/blk.go\<close>, on top of the transport and of a
  disk image. \<^verbatim>\<open>queueMu\<close> makes a batch one step. The pointers of the device into
  guest memory are addresses, so a request whose buffers overlap the rings or
  each other has the effect it has in the source. Every index and slice expression
  on guest memory carries the check of the language, which yields \<open>VPanic\<close>.
\<close>

section \<open>Definitions\<close>

definition SectorSize :: nat where "SectorSize = 512"
definition blkFeatureRO :: u64 where "blkFeatureRO = 32"
definition blkFeatureFlush :: u64 where "blkFeatureFlush = 512"

text \<open>\<open>kicks\<close> counts the entries of the \<^verbatim>\<open>kick\<close> channel, \<open>closed\<close> says that \<^verbatim>\<open>done\<close> is closed.\<close>

record blk = transport +
  disk :: image
  capacity :: nat
  readOnly :: bool
  VirtQueue :: "SplitQueue option"
  LastAvailIdx :: u16
  kicks :: nat
  closed :: bool
  dirty :: bool
  closeErr :: "qerr option"

type_synonym 'a bcomp = "(blk, verr, 'a) comp"

text \<open>A request of the batch; \<open>c_data\<close> and \<open>c_status\<close> are the slice and the pointer into guest memory.\<close>

record blkPendingRequest =
  c_id :: u32
  c_length :: u32
  c_status :: "nat option"
  c_data :: "nat \<times> nat"
  c_offset :: int
  c_result :: byte
  c_write :: bool
  c_flush :: bool

definition newBlk :: "image \<Rightarrow> bool \<Rightarrow> byte list \<Rightarrow> blk" where
  "newBlk img ro memory =
     transport.extend (NewModernTransport (if ro then blkFeatureRO OR blkFeatureFlush else blkFeatureFlush) 8 1 memory)
       \<lparr>disk = img, capacity = image_Size img div SectorSize, readOnly = ro, VirtQueue = None, LastAvailIdx = 0,
        kicks = 0, closed = False, dirty = False, closeErr = None\<rparr>"

subsection \<open>The device callbacks\<close>

definition blk_ReadDeviceConfig :: "nat \<Rightarrow> byte list \<Rightarrow> byte list bcomp" where
  "blk_ReadDeviceConfig offset data = gets (\<lambda>v.
     let cfg = put_le 8 (capacity v); n = length data
     in if 8 \<le> offset then replicate n 0
        else copy_at (replicate n 0) 0 (slice cfg offset (min (offset + n) 8 - offset)))"

definition blk_Notify :: "nat \<Rightarrow> unit bcomp" where
  "blk_Notify idx = modify (\<lambda>v. if kicks v < QueueSize then v\<lparr>kicks := kicks v + 1\<rparr> else v)"

definition blk_QueueReady :: "nat \<Rightarrow> SplitQueue \<Rightarrow> unit bcomp" where
  "blk_QueueReady idx q =
     (if idx = 0 then andthen (modify (\<lambda>v. v\<lparr>VirtQueue := Some q, LastAvailIdx := 0\<rparr>)) (\<lambda>_. blk_Notify idx)
      else ret ())"

definition blk_Reset :: "unit bcomp" where
  "blk_Reset = modify (\<lambda>v. v\<lparr>VirtQueue := None, LastAvailIdx := 0\<rparr>)"

definition blk_device :: "unit blk_ext ModernDevice" where
  "blk_device = \<lparr>dev_ReadDeviceConfig = blk_ReadDeviceConfig, dev_WriteDeviceConfig = (\<lambda>_ _. ret ()),
     dev_QueueReady = blk_QueueReady, dev_Notify = blk_Notify, dev_Reset = Some blk_Reset\<rparr>"

subsection \<open>Reading a request\<close>

text \<open>The conversion of a \<^verbatim>\<open>uint64\<close> to \<^verbatim>\<open>int64\<close>.\<close>

definition int64_of :: "nat \<Rightarrow> int" where
  "int64_of n = (if n < 2 ^ 63 then int n else int n - 2 ^ 64)"

text \<open>The fields of the 16-byte header in the first descriptor.\<close>

definition read_header :: "byte list \<Rightarrow> nat \<Rightarrow> nat \<Rightarrow> bool \<Rightarrow> blkPendingRequest \<Rightarrow> blkPendingRequest" where
  "read_header m a cap writeback c =
     (let typ = load_le 4 m a;
          flush = (typ = 4 \<and> writeback);
          sector = load_le 8 m (a + 8);
          c1 = c\<lparr>c_write := (typ = 1), c_flush := flush\<rparr>;
          c2 = (if cap < sector then c1\<lparr>c_result := 1\<rparr> else c1\<lparr>c_offset := int64_of (mul64 sector SectorSize)\<rparr>)
      in if typ \<noteq> 0 \<and> typ \<noteq> 1 \<and> \<not> flush then c2\<lparr>c_result := 2\<rparr> else c2)"

text \<open>
  What round \<open>j\<close> of the loop over the chain takes from the slice \<open>data\<close> of its descriptor. \<^verbatim>\<open>Uint32(data)\<close>,
  \<^verbatim>\<open>data[8:]\<close> and \<^verbatim>\<open>Uint64(data[8:])\<close> panic unless the slice has the 16 bytes of the header.
\<close>

definition chain_fields :: "byte list \<Rightarrow> nat \<times> nat \<Rightarrow> nat \<Rightarrow> nat \<Rightarrow> bool \<Rightarrow> nat \<Rightarrow> blkPendingRequest \<Rightarrow> verr + blkPendingRequest" where
  "chain_fields m data len cap writeback j c =
     (let c1 = c\<lparr>c_length := c_length c + of_nat len\<rparr>
      in if j = 0 then (if snd data < 16 then Inl VPanic else Inr (read_header m (fst data) cap writeback c1))
         else if c_result c1 \<noteq> 2 \<and> \<not> c_flush c1 \<and> j = 1 then Inr (c1\<lparr>c_data := data\<rparr>)
         else Inr c1)"

text \<open>Unsupported and flush requests take their status from the last descriptor, the others from the third.\<close>

definition open_ended :: "blkPendingRequest \<Rightarrow> bool" where
  "open_ended c \<longleftrightarrow> c_result c = 2 \<or> c_flush c"

definition chain_last :: "SplitDesc \<Rightarrow> nat \<Rightarrow> blkPendingRequest \<Rightarrow> bool" where
  "chain_last desc j c = (if open_ended c then d_Flags desc AND descFNext = 0 else j = 2)"

text \<open>The end of a round: the last descriptor holds the status, any other one names the next.\<close>

definition chain_end :: "SplitDesc \<Rightarrow> nat \<times> nat \<Rightarrow> nat \<Rightarrow> blkPendingRequest \<Rightarrow> verr + blkPendingRequest \<times> nat option" where
  "chain_end desc data j c =
     (if \<not> chain_last desc j c then Inr (c, Some (d_Next desc))
      else if j = 0 \<or> snd data = 0 \<or> (open_ended c \<and> d_Flags desc AND descFWrite = 0) then Inl ErrBlkDesc
      else case first_byte data of
        Inl e \<Rightarrow> Inl e
      | Inr p \<Rightarrow> Inr (c\<lparr>c_status := Some p, c_length := (if c_flush c then 1 else c_length c)\<rparr>, None))"

text \<open>Round \<open>j\<close>, on descriptor \<open>descID\<close>; \<open>seen\<close> holds the descriptors of the rounds before.\<close>

definition chain_round :: "byte list \<Rightarrow> SplitQueue \<Rightarrow> nat \<Rightarrow> nat \<Rightarrow> bool \<Rightarrow> nat \<Rightarrow> nat \<Rightarrow> nat list \<Rightarrow> blkPendingRequest
    \<Rightarrow> verr + blkPendingRequest \<times> nat option" where
  "chain_round m sq queueSize cap writeback j descID seen c =
     (if queueSize \<le> descID then Inl ErrBlkDesc
      else if QueueSize \<le> descID then Inl VPanic
      else if descID \<in> set seen then Inl ErrBlkDesc
      else case desc_index m sq descID of
        Inl e \<Rightarrow> Inl e
      | Inr desc \<Rightarrow>
          if \<not> ValidRange m (d_Addr desc) (d_Len desc) \<or> (j = 0 \<and> d_Len desc < 16) then Inl ErrBlkDesc
          else case mem_slice m (d_Addr desc) (add64 (d_Addr desc) (d_Len desc)) of
            Inl e \<Rightarrow> Inl e
          | Inr data \<Rightarrow> (case chain_fields m data (d_Len desc) cap writeback j c of
              Inl e \<Rightarrow> Inl e
            | Inr c1 \<Rightarrow> chain_end desc data j c1))"

function snapshot_chain :: "byte list \<Rightarrow> SplitQueue \<Rightarrow> nat \<Rightarrow> nat \<Rightarrow> bool \<Rightarrow> nat \<Rightarrow> nat \<Rightarrow> nat list \<Rightarrow> blkPendingRequest
    \<Rightarrow> verr + blkPendingRequest" where
  "snapshot_chain m sq queueSize cap writeback j descID seen c =
     (if queueSize \<le> j then Inr c
      else case chain_round m sq queueSize cap writeback j descID seen c of
        Inl e \<Rightarrow> Inl e
      | Inr (c1, None) \<Rightarrow> Inr c1
      | Inr (c1, Some next) \<Rightarrow> snapshot_chain m sq queueSize cap writeback (j + 1) next (descID # seen) c1)"
  by pat_completeness auto
termination by (relation "measure (\<lambda>(m, sq, queueSize, cap, writeback, j, descID, seen, c). queueSize - j)") auto

declare snapshot_chain.simps [simp del]

definition no_request :: "nat \<Rightarrow> blkPendingRequest" where
  "no_request head = \<lparr>c_id = of_nat head, c_length = 0, c_status = None, c_data = (0, 0), c_offset = 0,
     c_result = 0, c_write = False, c_flush = False\<rparr>"

definition snapshotRequest :: "byte list \<Rightarrow> SplitQueue \<Rightarrow> nat \<Rightarrow> nat \<Rightarrow> bool \<Rightarrow> nat \<Rightarrow> verr + blkPendingRequest" where
  "snapshotRequest m sq queueSize cap writeback head =
     (case snapshot_chain m sq queueSize cap writeback 0 head [] (no_request head) of
        Inl e \<Rightarrow> Inl e
      | Inr c \<Rightarrow>
          if c_status c = None then Inl ErrBlkDesc
          else if c_result c = 0 \<and> \<not> c_flush c then
            let capacityBytes = mul64 cap SectorSize; offset = nat (c_offset c mod 2 ^ 64)
            in if capacityBytes < offset \<or> sub64 capacityBytes offset < snd (c_data c)
               then Inr (c\<lparr>c_result := 1\<rparr>) else Inr c
          else Inr c)"

text \<open>The first loop of \<^verbatim>\<open>IO\<close>, with the values of its counter: \<open>taken\<close> is the device's position in the available ring.\<close>

fun snapshot_all :: "byte list \<Rightarrow> SplitQueue \<Rightarrow> nat \<Rightarrow> nat \<Rightarrow> bool \<Rightarrow> u16 \<Rightarrow> nat list \<Rightarrow> verr + blkPendingRequest list" where
  "snapshot_all m sq queueSize cap writeback taken [] = Inr []"
| "snapshot_all m sq queueSize cap writeback taken (i # is) =
     (case avail_index m sq (unat (taken + of_nat i) mod queueSize) of
        Inl e \<Rightarrow> Inl e
      | Inr head \<Rightarrow>
          if QueueSize \<le> i then Inl VPanic
          else case snapshotRequest m sq queueSize cap writeback head of
            Inl e \<Rightarrow> Inl e
          | Inr c \<Rightarrow> (case snapshot_all m sq queueSize cap writeback taken is of Inl e \<Rightarrow> Inl e | Inr cs \<Rightarrow> Inr (c # cs)))"

subsection \<open>Executing a batch\<close>

definition syncImage :: "qerr option bcomp" where
  "syncImage = (\<lambda>v. case image_Sync (disk v) of
     (Some e, d) \<Rightarrow> (Inr (Some e), v\<lparr>disk := d\<rparr>)
   | (None, d) \<Rightarrow> (Inr None, v\<lparr>disk := d, dirty := False\<rparr>))"

text \<open>
  The switch on one request. It yields the request with its result and whether
  the image may have been written. A read places its bytes directly in guest memory.
\<close>

definition execute :: "blkPendingRequest \<Rightarrow> (blkPendingRequest \<times> bool) bcomp" where
  "execute c = (\<lambda>v.
     let finish = (\<lambda>err. if err then c\<lparr>c_result := 1\<rparr> else c); (a, n) = c_data c
     in if c_result c \<noteq> 0 then (Inr (c, False), v)
        else if c_flush c then andthen syncImage (\<lambda>e. ret (finish (e \<noteq> None), False)) v
        else if c_write c \<and> readOnly v then (Inr (finish True, False), v)
        else if c_write c then
          (case image_WriteAt (slice (mem v) a n) (c_offset c) (disk v) of
             ((_, e), d) \<Rightarrow> (Inr (finish (e \<noteq> None), True), v\<lparr>disk := d, dirty := True\<rparr>))
        else
          (case image_ReadAt n (c_offset c) (disk v) of
             ((bs, e), d) \<Rightarrow> (Inr (finish (e \<noteq> None), False), v\<lparr>disk := d, mem := copy_at (mem v) a bs\<rparr>)))"

text \<open>One round of the loop of \<^verbatim>\<open>completeRequests\<close>; \<open>i\<close> is its counter.\<close>

definition complete_one :: "SplitQueue \<Rightarrow> nat \<Rightarrow> u16 \<Rightarrow> nat \<Rightarrow> blkPendingRequest \<Rightarrow> unit bcomp" where
  "complete_one sq queueSize usedIdx i c =
     (case c_status c of
        None \<Rightarrow> fail VPanic
      | Some a \<Rightarrow> (\<lambda>v.
          let v1 = v\<lparr>mem := (mem v)[a := c_result c]\<rparr>
          in case used_store sq (unat (usedIdx + of_nat i) mod queueSize) (c_id c) (c_length c) (mem v1) of
               Inl e \<Rightarrow> (Inl e, v1)
             | Inr m \<Rightarrow> (Inr (), v1\<lparr>mem := m\<rparr>)))"

definition completeRequests :: "SplitQueue \<Rightarrow> nat \<Rightarrow> blkPendingRequest list \<Rightarrow> unit bcomp" where
  "completeRequests sq queueSize pending =
     andthen (gets (\<lambda>v. used_idx (mem v) sq)) (\<lambda>usedIdx.
     andthen (foreach (\<lambda>i. complete_one sq queueSize usedIdx i (pending ! i)) [0..<length pending]) (\<lambda>_.
     andthen (modify (\<lambda>v. v\<lparr>mem := add_used_idx sq (of_nat (length pending)) (mem v),
                            LastAvailIdx := LastAvailIdx v + of_nat (length pending)\<rparr>)) (\<lambda>_.
     Interrupt)))"

text \<open>A call whose error is kept for later, as \<^verbatim>\<open>interruptErr\<close> is.\<close>

definition note_error :: "verr option \<Rightarrow> unit bcomp \<Rightarrow> verr option bcomp" where
  "note_error old m = (\<lambda>v. case m v of
     (Inl VPanic, v') \<Rightarrow> (Inl VPanic, v')
   | (Inl e, v') \<Rightarrow> (Inr (if old = None then Some e else old), v')
   | (Inr _, v') \<Rightarrow> (Inr old, v'))"

text \<open>One round of the batch loop: its variables are the requests done, \<^verbatim>\<open>needsSync\<close> and \<^verbatim>\<open>interruptErr\<close>.\<close>

definition batch_body :: "SplitQueue \<Rightarrow> nat \<Rightarrow> bool \<Rightarrow> blkPendingRequest \<Rightarrow> blkPendingRequest list \<times> bool \<times> verr option
    \<Rightarrow> (blkPendingRequest list \<times> bool \<times> verr option) bcomp" where
  "batch_body sq queueSize writeback c = (\<lambda>(finished, needsSync, interruptErr).
     andthen (execute c) (\<lambda>(c', wrote).
     if writeback then
       andthen (note_error interruptErr (completeRequests sq queueSize [c'])) (\<lambda>err.
       ret (finished @ [c'], needsSync \<or> wrote, err))
     else ret (finished @ [c'], needsSync \<or> wrote, interruptErr)))"

definition run_batch :: "SplitQueue \<Rightarrow> nat \<Rightarrow> bool \<Rightarrow> blkPendingRequest list
    \<Rightarrow> (blkPendingRequest list \<times> bool \<times> verr option) bcomp" where
  "run_batch sq queueSize writeback pending = foldC (batch_body sq queueSize writeback) pending ([], False, None)"

text \<open>The end of a writethrough batch: one \<^verbatim>\<open>Sync\<close> covers its writes, and fails them with it.\<close>

definition settle :: "bool \<Rightarrow> blkPendingRequest list \<Rightarrow> blkPendingRequest list bcomp" where
  "settle needsSync finished =
     andthen (if needsSync then syncImage else ret None) (\<lambda>err.
     ret (if err = None then finished else map (\<lambda>c. if c_write c then c\<lparr>c_result := 1\<rparr> else c) finished))"

definition finish_batch :: "SplitQueue \<Rightarrow> nat \<Rightarrow> bool \<Rightarrow> blkPendingRequest list \<times> bool \<times> verr option \<Rightarrow> unit bcomp" where
  "finish_batch sq queueSize writeback = (\<lambda>(finished, needsSync, interruptErr).
     if writeback then check interruptErr
     else andthen (settle needsSync finished) (completeRequests sq queueSize))"

text \<open>The number of chains a batch takes from the available ring.\<close>

definition available :: "SplitQueue \<Rightarrow> blk \<Rightarrow> nat" where
  "available sq v = unat (avail_idx (mem v) sq - LastAvailIdx v)"

definition writeback :: "blk \<Rightarrow> bool" where
  "writeback v \<longleftrightarrow> negotiatedFeatures v AND blkFeatureFlush \<noteq> 0"

definition IO :: "unit bcomp" where
  "IO = (\<lambda>v.
     if closed v then (Inl ErrClosedPipe, v)
     else case VirtQueue v of
       None \<Rightarrow> (Inl ErrVQNotInit, v)
     | Some sq \<Rightarrow>
         if available sq v = 0 then (Inl ErrNoTxPacket, v)
         else if batch_size sq < available sq v then (Inl ErrBlkDesc, v)
         else case snapshot_all (mem v) sq (batch_size sq) (capacity v) (writeback v) (LastAvailIdx v) [0..<available sq v] of
           Inl e \<Rightarrow> (Inl e, v)
         | Inr pending \<Rightarrow>
             andthen (run_batch sq (batch_size sq) (writeback v) pending) (finish_batch sq (batch_size sq) (writeback v)) v)"

text \<open>
  \<^verbatim>\<open>Close\<close>: the worker stops, unsynced writes are synced, and later calls return what
  the first one returned. The close of the host file itself is not modelled.
\<close>

definition blk_Close :: "qerr option bcomp" where
  "blk_Close = (\<lambda>v. if closed v then (Inr (closeErr v), v)
     else andthen (if dirty v then syncImage else ret None) (\<lambda>err.
          andthen (modify (\<lambda>v. v\<lparr>closeErr := err\<rparr>)) (\<lambda>_. ret err)) (v\<lparr>closed := True\<rparr>))"

section \<open>Lemmas\<close>

subsection \<open>Requests\<close>

definition request_ok :: "byte list \<Rightarrow> nat \<Rightarrow> blkPendingRequest \<Rightarrow> bool" where
  "request_ok m cap c \<longleftrightarrow> (\<exists>a. c_status c = Some a \<and> ValidRange m a 1) \<and> ValidRange m (fst (c_data c)) (snd (c_data c)) \<and>
     (c_result c = 0 \<and> \<not> c_flush c \<longrightarrow> 0 \<le> c_offset c \<and> c_offset c + int (snd (c_data c)) \<le> int (cap * SectorSize))"

lemma request_range:
  assumes "request_ok m cap c" "c_result c = 0" "\<not> c_flush c"
  shows "0 \<le> c_offset c" "nat (c_offset c) + snd (c_data c) \<le> cap * SectorSize"
proof -
  have r: "0 \<le> c_offset c" "c_offset c + int (snd (c_data c)) \<le> int (cap * SectorSize)"
    using assms unfolding request_ok_def by blast+
  then have "int (nat (c_offset c) + snd (c_data c)) \<le> int (cap * SectorSize)" by (simp only: of_nat_add int_nat_eq if_True)
  then show "nat (c_offset c) + snd (c_data c) \<le> cap * SectorSize" by (simp only: of_nat_le_iff)
  show "0 \<le> c_offset c" by (rule r(1))
qed

text \<open>The fields a round takes when its descriptor is long enough.\<close>

definition take_fields :: "byte list \<Rightarrow> SplitDesc \<Rightarrow> nat \<Rightarrow> bool \<Rightarrow> nat \<Rightarrow> blkPendingRequest \<Rightarrow> blkPendingRequest" where
  "take_fields m desc cap wb j c =
     (let c1 = c\<lparr>c_length := c_length c + of_nat (d_Len desc)\<rparr>
      in if j = 0 then read_header m (d_Addr desc) cap wb c1
         else if c_result c1 \<noteq> 2 \<and> \<not> c_flush c1 \<and> j = 1 then c1\<lparr>c_data := (d_Addr desc, d_Len desc)\<rparr>
         else c1)"

lemma chain_fields_take:
  "(j = 0 \<longrightarrow> 16 \<le> d_Len desc) \<Longrightarrow>
   chain_fields m (d_Addr desc, d_Len desc) (d_Len desc) cap wb j c = Inr (take_fields m desc cap wb j c)"
  by (cases "j = 0") (simp_all add: chain_fields_def take_fields_def Let_def)

lemma take_fields_keeps:
  "c_status (take_fields m desc cap wb j c) = c_status c"
  "c_data (take_fields m desc cap wb j c) = c_data c \<or> c_data (take_fields m desc cap wb j c) = (d_Addr desc, d_Len desc)"
  by (simp_all add: take_fields_def read_header_def Let_def)

lemma chain_round_go:
  assumes "i < qs" "qs \<le> 32" "i \<notin> set seen" "ValidRange m (d_Addr (desc_at m sq i)) (d_Len (desc_at m sq i))"
    "j = 0 \<longrightarrow> 16 \<le> d_Len (desc_at m sq i)" "length m < 2 ^ 63"
  shows "chain_round m sq qs cap wb j i seen c =
    chain_end (desc_at m sq i) (d_Addr (desc_at m sq i), d_Len (desc_at m sq i)) j (take_fields m (desc_at m sq i) cap wb j c)"
  using assms(1-3) mem_slice_valid [OF assms(4,6)] chain_fields_take [OF assms(5), of m cap wb c] assms(4,5)
  by (auto simp: chain_round_def desc_index_def QueueSize_def)

text \<open>A round refuses its descriptor, goes on to the next one, or ends the chain. It never panics.\<close>

lemma chain_roundE:
  fixes m sq i
  defines "d \<equiv> desc_at m sq i"
  assumes "chain_round m sq qs cap wb j i seen c = r" "qs \<le> 32" "length m < 2 ^ 63"
  obtains (Refused) "r = Inl ErrBlkDesc"
  | (Next) "i < qs" "i \<notin> set seen" "ValidRange m (d_Addr d) (d_Len d)" "\<not> chain_last d j (take_fields m d cap wb j c)"
      "r = Inr (take_fields m d cap wb j c, Some (d_Next d))"
  | (Last) l where "i < qs" "i \<notin> set seen" "ValidRange m (d_Addr d) (d_Len d)" "0 < d_Len d" "chain_last d j (take_fields m d cap wb j c)"
      "r = Inr ((take_fields m d cap wb j c)\<lparr>c_status := Some (d_Addr d), c_length := l\<rparr>, None)"
proof (cases "qs \<le> i \<or> i \<in> set seen \<or> \<not> ValidRange m (d_Addr d) (d_Len d) \<or> (j = 0 \<and> d_Len d < 16)")
  case True
  then show ?thesis using assms(2,3) by (intro Refused) (auto simp: chain_round_def desc_index_def QueueSize_def d_def)
next
  case False
  then have i: "i < qs" "i \<notin> set seen" "ValidRange m (d_Addr d) (d_Len d)" "j = 0 \<longrightarrow> 16 \<le> d_Len d" by auto
  let ?c = "take_fields m d cap wb j c"
  have "chain_end d (d_Addr d, d_Len d) j ?c = r"
    using assms(2) chain_round_go [OF i(1) assms(3) i(2) i(3,4) [unfolded d_def] assms(4)] by (simp add: d_def)
  then show ?thesis
    using Refused Next [OF i(1-3)] Last [OF i(1-3), of "if c_flush ?c then 1 else c_length ?c"]
    by (auto simp: chain_end_def first_byte_def split: if_splits)
qed

text \<open>An invariant of the rounds holds of the request that the chain describes, and the only error is the source's own.\<close>

lemma snapshot_chain_induct:
  assumes "snapshot_chain m sq qs cap wb j descID seen c = r" "P j c" "qs \<le> 32" "length m < 2 ^ 63"
    and "\<And>j c i. P j c \<Longrightarrow> ValidRange m (d_Addr (desc_at m sq i)) (d_Len (desc_at m sq i)) \<Longrightarrow> P (j + 1) (take_fields m (desc_at m sq i) cap wb j c)"
    and "\<And>j c. P j c \<Longrightarrow> Q c"
    and "\<And>j c a l. P j c \<Longrightarrow> ValidRange m a 1 \<Longrightarrow> Q (c\<lparr>c_status := Some a, c_length := l\<rparr>)"
  shows "case r of Inl e \<Rightarrow> e = ErrBlkDesc | Inr c' \<Rightarrow> Q c'"
  using assms(1,2,3)
proof (induction m\<equiv>m sq\<equiv>sq qs cap\<equiv>cap wb\<equiv>wb j descID seen c rule: snapshot_chain.induct)
  case (1 qs j i seen c)
  let ?d = "desc_at m sq i"
  let ?c = "take_fields m ?d cap wb j c"
  note E = 1(2) [unfolded snapshot_chain.simps [of m sq qs cap wb j i seen c]]
  show ?case
  proof (cases "qs \<le> j")
    case True
    then show ?thesis using E 1(3) assms(6) by auto
  next
    case False
    obtain r1 where r1: "chain_round m sq qs cap wb j i seen c = r1" by blast
    from r1 1(4) assms(4) show ?thesis
    proof (cases rule: chain_roundE)
      case Refused
      then show ?thesis using E False r1 by auto
    next
      case Next
      have "snapshot_chain m sq qs cap wb (j + 1) (d_Next ?d) (i # seen) ?c = r" using E False r1 Next(5) by simp
      then show ?thesis using 1(1) [OF False] r1 Next(5) assms(5) [OF 1(3) Next(3)] 1(4) by blast
    next
      case (Last l)
      have "ValidRange m (d_Addr ?d) 1" using ValidRange_part [OF Last(3), of 0 1] Last(4) by simp
      then show ?thesis using E False r1 Last(6) assms(7) [OF assms(5) [OF 1(3) Last(3)]] by auto
    qed
  qed
qed

lemma take_fields_offset:
  assumes "cap * SectorSize < 2 ^ 63" "0 \<le> c_offset c \<and> c_offset c < 2 ^ 63"
  shows "0 \<le> c_offset (take_fields m desc cap wb j c) \<and> c_offset (take_fields m desc cap wb j c) < 2 ^ 63"
proof -
  have "0 \<le> int64_of (mul64 s SectorSize) \<and> int64_of (mul64 s SectorSize) < 2 ^ 63" if "s \<le> cap" for s
    using that assms(1) by (simp add: int64_of_def mul64_def SectorSize_def)
  then show ?thesis using assms(2) by (simp add: take_fields_def read_header_def Let_def)
qed

lemma snapshot_chain_parts:
  assumes "snapshot_chain m sq qs cap wb 0 head [] (no_request head) = r" "cap * SectorSize < 2 ^ 63" "qs \<le> 32" "length m < 2 ^ 63"
  shows "case r of Inl e \<Rightarrow> e = ErrBlkDesc | Inr c \<Rightarrow>
    (\<forall>a. c_status c = Some a \<longrightarrow> ValidRange m a 1) \<and> ValidRange m (fst (c_data c)) (snd (c_data c)) \<and>
    0 \<le> c_offset c \<and> c_offset c < 2 ^ 63"
proof (rule snapshot_chain_induct [OF assms(1) _ assms(3,4), where
    P = "\<lambda>j c. c_status c = None \<and> ValidRange m (fst (c_data c)) (snd (c_data c)) \<and> 0 \<le> c_offset c \<and> c_offset c < 2 ^ 63"])
  fix j :: nat and c :: blkPendingRequest and i :: nat
  assume P: "c_status c = None \<and> ValidRange m (fst (c_data c)) (snd (c_data c)) \<and> 0 \<le> c_offset c \<and> c_offset c < 2 ^ 63"
    and v: "ValidRange m (d_Addr (desc_at m sq i)) (d_Len (desc_at m sq i))"
  show "c_status (take_fields m (desc_at m sq i) cap wb j c) = None \<and>
     ValidRange m (fst (c_data (take_fields m (desc_at m sq i) cap wb j c))) (snd (c_data (take_fields m (desc_at m sq i) cap wb j c))) \<and>
     0 \<le> c_offset (take_fields m (desc_at m sq i) cap wb j c) \<and> c_offset (take_fields m (desc_at m sq i) cap wb j c) < 2 ^ 63"
    using take_fields_keeps [of m "desc_at m sq i" cap wb j c] take_fields_offset [OF assms(2), of c m "desc_at m sq i" wb j] P v
    by (elim disjE) simp_all
qed (simp_all add: no_request_def ValidRange_zero)

lemma snapshotRequest_ok:
  assumes "snapshotRequest m sq qs cap wb head = Inr c" "cap * SectorSize < 2 ^ 63" "qs \<le> 32" "length m < 2 ^ 63"
  shows "request_ok m cap c"
proof -
  obtain d where d: "snapshot_chain m sq qs cap wb 0 head [] (no_request head) = Inr d"
    using assms(1) by (cases "snapshot_chain m sq qs cap wb 0 head [] (no_request head)") (simp_all add: snapshotRequest_def)
  note p = snapshot_chain_parts [OF d assms(2-4), simplified]
  obtain a where a: "c_status d = Some a" using assms(1) d by (cases "c_status d") (simp_all add: snapshotRequest_def)
  have cb: "mul64 cap SectorSize = cap * SectorSize" using assms(2) by (simp add: mul64_def)
  have o: "c_offset d mod 2 ^ 64 = c_offset d" using p by simp
  show ?thesis
  proof (cases "c_result d = 0 \<and> \<not> c_flush d")
    case True
    show ?thesis
    proof (cases "cap * SectorSize < nat (c_offset d) \<or> sub64 (cap * SectorSize) (nat (c_offset d)) < snd (c_data d)")
      case bad: True
      then have "c = d\<lparr>c_result := 1\<rparr>" using assms(1) d a True by (simp add: snapshotRequest_def cb o [simplified] Let_def)
      then show ?thesis using p a by (simp add: request_ok_def)
    next
      case False
      then have "c = d" using assms(1) d a True by (simp add: snapshotRequest_def cb o [simplified] Let_def)
      moreover have "c_offset d + int (snd (c_data d)) \<le> int (cap * SectorSize)"
      proof -
        have "nat (c_offset d) + snd (c_data d) \<le> cap * SectorSize" using False by (auto simp: sub64_def split: if_splits)
        then have "int (nat (c_offset d) + snd (c_data d)) \<le> int (cap * SectorSize)" by (simp only: of_nat_le_iff)
        then show ?thesis using p by (simp only: of_nat_add int_nat_eq if_True)
      qed
      ultimately show ?thesis using p a by (simp add: request_ok_def)
    qed
  next
    case False
    then have "c = d" using assms(1) d a by (auto simp: snapshotRequest_def)
    then show ?thesis using p a False by (auto simp: request_ok_def)
  qed
qed

lemma snapshotRequest_error:
  assumes "snapshotRequest m sq qs cap wb head = Inl e" "cap * SectorSize < 2 ^ 63" "qs \<le> 32" "length m < 2 ^ 63"
  shows "e = ErrBlkDesc"
  using assms(1) snapshot_chain_parts [OF refl assms(2-4), of sq wb head]
  by (auto simp: snapshotRequest_def Let_def split: sum.splits if_splits)

lemma snapshot_all_ok:
  assumes "snapshot_all m sq (batch_size sq) cap wb taken is = r" "\<forall>i\<in>set is. i < QueueSize" "cap * SectorSize < 2 ^ 63" "length m < 2 ^ 63"
  shows "case r of Inl e \<Rightarrow> e = ErrBlkDesc | Inr cs \<Rightarrow> length cs = length is \<and> (\<forall>c\<in>set cs. request_ok m cap c)"
  using assms(1,2)
proof (induction "is" arbitrary: r)
  case (Cons i js)
  have b: "batch_size sq \<le> 32" using batch_size_range [of sq] by simp
  note R = snapshotRequest_ok [OF _ assms(3) b assms(4)] snapshotRequest_error [OF _ assms(3) b assms(4)]
  show ?case using Cons batch_size_mod
    by (auto simp: avail_index_def split: sum.splits if_splits dest: R)
qed simp

subsection \<open>Memory safety of a batch\<close>

text \<open>What no step of a batch changes.\<close>

definition frame :: "blk \<Rightarrow> blk \<Rightarrow> bool" where
  "frame v v' \<longleftrightarrow> confined (mem v) (mem v') \<and> VirtQueue v' = VirtQueue v \<and> capacity v' = capacity v \<and>
     readOnly v' = readOnly v \<and> closed v' = closed v"

lemma frame_refl [simp]: "frame v v"
  by (simp add: frame_def)

lemma frame_trans: "frame v v' \<Longrightarrow> frame v' v'' \<Longrightarrow> frame v v''"
  using confined_trans by (auto simp: frame_def)

lemma syncImage_frame: "syncImage v = (r, v') \<Longrightarrow> frame v v' \<and> mem v' = mem v \<and> (\<exists>e. r = Inr e)"
  by (auto simp: syncImage_def frame_def split: prod.splits option.splits)

lemma Interrupt_frame:
  fixes v :: blk
  assumes "Interrupt v = (r, v')"
  shows "frame v v' \<and> mem v' = mem v \<and> disk v' = disk v \<and> dirty v' = dirty v \<and> LastAvailIdx v' = LastAvailIdx v \<and> r \<noteq> Inl VPanic"
  using assms
  by (auto simp: Interrupt_def comp_defs setPendingInterrupt_def raiseIRQ_def call_irq_def frame_def Let_def
    split: option.splits if_splits list.splits)

definition ready :: "byte list \<Rightarrow> blkPendingRequest \<Rightarrow> bool" where
  "ready m c \<longleftrightarrow> (\<exists>a. c_status c = Some a \<and> ValidRange m a 1)"

lemma request_ready: "request_ok m cap c \<Longrightarrow> ready m c"
  by (simp add: request_ok_def ready_def)

lemma ready_confined: "confined m m' \<Longrightarrow> ready m' c \<longleftrightarrow> ready m c"
  by (simp add: ready_def confined_valid)

lemma request_ok_confined: "confined m m' \<Longrightarrow> request_ok m' cap c \<longleftrightarrow> request_ok m cap c"
  by (simp add: request_ok_def confined_valid)

text \<open>The request with the error status when \<open>err\<close> holds and it was executed.\<close>

definition failed_if :: "bool \<Rightarrow> blkPendingRequest \<Rightarrow> blkPendingRequest" where
  "failed_if err c = (if err \<and> c_result c = 0 then c\<lparr>c_result := 1\<rparr> else c)"

lemma executeE:
  assumes "execute c v = (r, v')" "c_data c = (a, n)"
  obtains (Skip) "c_result c \<noteq> 0" "v' = v" "r = Inr (c, False)"
  | (Flush) e where "c_result c = 0" "c_flush c" "syncImage v = (Inr e, v')" "r = Inr (failed_if (e \<noteq> None) c, False)"
  | (Refused) "c_result c = 0" "\<not> c_flush c" "c_write c" "readOnly v" "v' = v" "r = Inr (failed_if True c, False)"
  | (Write) k e im where "c_result c = 0" "\<not> c_flush c" "c_write c" "\<not> readOnly v"
      "image_WriteAt (slice (mem v) a n) (c_offset c) (disk v) = ((k, e), im)" "v' = v\<lparr>disk := im, dirty := True\<rparr>"
      "r = Inr (failed_if (e \<noteq> None) c, True)"
  | (Read) bs e im where "c_result c = 0" "\<not> c_flush c" "\<not> c_write c"
      "image_ReadAt n (c_offset c) (disk v) = ((bs, e), im)" "v' = v\<lparr>disk := im, mem := copy_at (mem v) a bs\<rparr>"
      "r = Inr (failed_if (e \<noteq> None) c, False)"
proof (cases "c_result c = 0")
  case z: True
  show ?thesis
  proof (cases "c_flush c")
    case True
    obtain e v1 where s: "syncImage v = (Inr e, v1)" using syncImage_frame by (metis surj_pair)
    then show ?thesis using assms z True by (intro Flush [of e]) (simp_all add: execute_def andthen_def ret_def failed_if_def)
  next
    case f: False
    show ?thesis
    proof (cases "c_write c")
      case True
      obtain k e im where w: "image_WriteAt (slice (mem v) a n) (c_offset c) (disk v) = ((k, e), im)" by (metis surj_pair)
      show ?thesis
      proof (cases "readOnly v")
        case ro: True
        show ?thesis using assms z f True ro by (intro Refused) (auto simp: execute_def failed_if_def)
      next
        case rw: False
        show ?thesis using assms z f True rw w by (intro Write [of k e im]) (auto simp: execute_def failed_if_def)
      qed
    next
      case False
      obtain bs e im where w: "image_ReadAt n (c_offset c) (disk v) = ((bs, e), im)" by (metis surj_pair)
      show ?thesis using assms z f False w by (intro Read [of bs e im]) (auto simp: execute_def failed_if_def)
    qed
  qed
next
  case False
  then show ?thesis using assms by (intro Skip) (simp_all add: execute_def)
qed

lemma failed_if_ready [simp]: "ready m (failed_if b c) = ready m c" "c_write (failed_if b c) = c_write c"
    "c_flush (failed_if b c) = c_flush c" "c_data (failed_if b c) = c_data c" "c_status (failed_if b c) = c_status c"
    "c_id (failed_if b c) = c_id c" "c_length (failed_if b c) = c_length c"
  by (simp_all add: failed_if_def ready_def)

lemma failed_if_eq: "c_result c = 0 \<Longrightarrow> failed_if b c = failed_if b' c \<longleftrightarrow> b = b'"
  by (cases c) (auto simp: failed_if_def)

lemma execute_frame:
  assumes "request_ok (mem v) cap c" "execute c v = (r, v')"
  shows "frame v v' \<and> LastAvailIdx v' = LastAvailIdx v \<and> (\<exists>b w. r = Inr (failed_if b c, w))"
proof -
  obtain a n where d: "c_data c = (a, n)" by fastforce
  have v: "ValidRange (mem v) a n" using assms(1) d by (simp add: request_ok_def)
  from assms(2) d show ?thesis
  proof (cases rule: executeE)
    case Skip
    then show ?thesis by (auto intro: exI [of _ False] simp: failed_if_def)
  next
    case (Read bs e im)
    then show ?thesis using confined_copy [OF v img.read_short [OF Read(4)]] by (auto simp: frame_def)
  qed (auto simp: frame_def syncImage_def split: prod.splits option.splits)
qed

lemma complete_one_frame:
  assumes "queue_mapped (mem v) sq" "0 < qs" "qs \<le> 32" "ready (mem v) c" "complete_one sq qs ui i c v = (r, v')"
  shows "r = Inr () \<and> frame v v' \<and> disk v' = disk v \<and> dirty v' = dirty v \<and> LastAvailIdx v' = LastAvailIdx v"
proof -
  obtain a where a: "c_status c = Some a" "ValidRange (mem v) a 1" using assms(4) by (auto simp: ready_def)
  have m: "confined (mem v) ((mem v)[a := c_result c])" using confined_update [OF a(2)] by simp
  have j: "unat (ui + of_nat i) mod qs < 32" using assms(2,3) by (meson mod_less_divisor order_less_le_trans)
  then have "confined (mem v) (put_used sq (unat (ui + of_nat i) mod qs) (c_id c) (c_length c) ((mem v)[a := c_result c]))"
    using confined_trans [OF m] confined_put_used assms(1) confined_mapped [OF m] by blast
  then show ?thesis using assms(5) a(1) j by (auto simp: complete_one_def used_store_def QueueSize_def Let_def frame_def)
qed

lemma complete_loop_frame:
  assumes "queue_mapped (mem v) sq" "0 < qs" "qs \<le> 32" "\<And>i. i \<in> set is \<Longrightarrow> ready (mem v) (pending ! i)"
    "foreach (\<lambda>i. complete_one sq qs ui i (pending ! i)) is v = (r, v')"
  shows "r = Inr () \<and> frame v v' \<and> disk v' = disk v \<and> dirty v' = dirty v \<and> LastAvailIdx v' = LastAvailIdx v"
  using assms
proof (induction "is" arbitrary: v)
  case (Cons i js)
  obtain r1 v1 where r1: "complete_one sq qs ui i (pending ! i) v = (r1, v1)" by fastforce
  note f = complete_one_frame [OF Cons.prems(1-3) _ r1]
  have f1: "r1 = Inr () \<and> frame v v1 \<and> disk v1 = disk v \<and> dirty v1 = dirty v \<and> LastAvailIdx v1 = LastAvailIdx v"
    using f Cons.prems(4) by simp
  then have cf: "confined (mem v) (mem v1)" by (simp add: frame_def)
  have "foreach (\<lambda>i. complete_one sq qs ui i (pending ! i)) js v1 = (r, v')"
    using Cons.prems(5) r1 f1 by (simp add: foreach_def andthen_def)
  then have "r = Inr () \<and> frame v1 v' \<and> disk v' = disk v1 \<and> dirty v' = dirty v1 \<and> LastAvailIdx v' = LastAvailIdx v1"
    using Cons.IH [of v1] Cons.prems(1-4) confined_mapped [OF cf] ready_confined [OF cf] by simp
  then show ?case using f1 frame_trans [of v v1 v'] by simp
qed (simp add: foreach_def ret_def)

lemma completeRequests_frame:
  assumes "queue_mapped (mem v) sq" "0 < qs" "qs \<le> 32" "\<forall>c\<in>set pending. ready (mem v) c"
    "completeRequests sq qs pending v = (r, v')"
  shows "frame v v' \<and> r \<noteq> Inl VPanic \<and> disk v' = disk v \<and> dirty v' = dirty v \<and>
    LastAvailIdx v' = LastAvailIdx v + of_nat (length pending)"
proof -
  let ?ui = "used_idx (mem v) sq"
  obtain r1 v1 where r1: "foreach (\<lambda>i. complete_one sq qs ?ui i (pending ! i)) [0..<length pending] v = (r1, v1)" by fastforce
  have f1: "r1 = Inr () \<and> frame v v1 \<and> disk v1 = disk v \<and> dirty v1 = dirty v \<and> LastAvailIdx v1 = LastAvailIdx v"
    by (rule complete_loop_frame [OF assms(1-3) _ r1]) (use assms(4) in simp)
  let ?v2 = "v1\<lparr>mem := add_used_idx sq (of_nat (length pending)) (mem v1), LastAvailIdx := LastAvailIdx v1 + of_nat (length pending)\<rparr>"
  have q1: "queue_mapped (mem v1) sq" using f1 assms(1) confined_mapped by (auto simp: frame_def)
  have f2: "frame v1 ?v2" using confined_add_used [OF q1] by (simp add: frame_def)
  have "Interrupt ?v2 = (r, v')" using assms(5) r1 f1 by (simp add: completeRequests_def comp_defs)
  from Interrupt_frame [OF this] have f3: "frame ?v2 v'" "disk v' = disk v1" "dirty v' = dirty v1"
    "LastAvailIdx v' = LastAvailIdx v1 + of_nat (length pending)" "r \<noteq> Inl VPanic" by simp_all
  have "frame v v'" using f1 frame_trans [OF _ frame_trans [OF f2 f3(1)], of v] by simp
  then show ?thesis using f1 f3 by simp
qed

lemma note_error_frame:
  assumes "note_error old m v = (r, v')" "m v = (r1, v1)" "r1 \<noteq> Inl VPanic" "old \<noteq> Some VPanic"
  shows "v' = v1 \<and> (\<exists>e. r = Inr e \<and> e \<noteq> Some VPanic)"
proof (cases r1)
  case (Inl e)
  have "(r, v') = (Inr (if old = None then Some e else old), v1)"
    unfolding assms(1) [symmetric] using assms(2,3) Inl by (cases e) (simp_all add: note_error_def)
  then show ?thesis using assms(3,4) Inl by simp
next
  case (Inr u)
  have "(r, v') = (Inr old, v1)" unfolding assms(1) [symmetric] using assms(2) Inr by (simp add: note_error_def)
  then show ?thesis using assms(4) by simp
qed

lemma batch_bodyE:
  assumes "queue_mapped (mem v) sq" "0 < qs" "qs \<le> 32" "request_ok (mem v) cap c" "e0 \<noteq> Some VPanic"
    "batch_body sq qs wb c (fin, ns, e0) v = (r, v')"
  obtains b w e v1 where "execute c v = (Inr (failed_if b c, w), v1)" "r = Inr (fin @ [failed_if b c], ns \<or> w, e)" "e \<noteq> Some VPanic"
    "frame v v1" "frame v1 v'" "disk v' = disk v1" "dirty v' = dirty v1" "\<not> wb \<Longrightarrow> v' = v1"
    "LastAvailIdx v' = LastAvailIdx v + (if wb then 1 else 0)" "wb \<Longrightarrow> \<exists>u. completeRequests sq qs [failed_if b c] v1 = (u, v')"
proof -
  obtain r1 v1 where x: "execute c v = (r1, v1)" by fastforce
  obtain b w where f: "frame v v1" "LastAvailIdx v1 = LastAvailIdx v" "r1 = Inr (failed_if b c, w)"
    using execute_frame [OF assms(4) x] by blast
  show ?thesis
  proof (cases wb)
    case False
    show ?thesis by (rule that [of b w v1 e0]) (use assms(5,6) x f False in \<open>auto simp: batch_body_def comp_defs\<close>)
  next
    case True
    have cf: "confined (mem v) (mem v1)" using f(1) by (simp add: frame_def)
    have q: "queue_mapped (mem v1) sq" using assms(1) confined_mapped [OF cf] by simp
    have rd: "\<forall>c\<in>set [failed_if b c]. ready (mem v1) c" using request_ready [OF assms(4)] ready_confined [OF cf] by simp
    obtain r2 v2 where c: "completeRequests sq qs [failed_if b c] v1 = (r2, v2)" by fastforce
    note g = completeRequests_frame [OF q assms(2,3) rd c]
    obtain r3 v3 where n: "note_error e0 (completeRequests sq qs [failed_if b c]) v1 = (r3, v3)" by fastforce
    obtain e where e: "v3 = v2" "r3 = Inr e" "e \<noteq> Some VPanic" using note_error_frame [OF n c _ assms(5)] g by blast
    show ?thesis by (rule that [of b w v1 e]) (use assms(6) x f True n e g c in \<open>auto simp: batch_body_def comp_defs\<close>)
  qed
qed

lemma batch_frame:
  assumes "queue_mapped (mem v) sq" "0 < qs" "qs \<le> 32" "\<forall>c\<in>set pending. request_ok (mem v) cap c" "e0 \<noteq> Some VPanic"
    "foldC (batch_body sq qs wb) pending (fin, ns, e0) v = (r, v')"
  shows "frame v v' \<and> LastAvailIdx v' = LastAvailIdx v + (if wb then of_nat (length pending) else 0) \<and>
    (\<exists>fs ns' e. r = Inr (fin @ fs, ns', e) \<and> e \<noteq> Some VPanic \<and> list_all2 (\<lambda>c f. \<exists>b. f = failed_if b c) pending fs)"
  using assms
proof (induction pending arbitrary: v fin ns e0)
  case (Cons c cs)
  obtain r1 v1 where x: "batch_body sq qs wb c (fin, ns, e0) v = (r1, v1)" by fastforce
  have rc: "request_ok (mem v) cap c" using Cons.prems(4) by simp
  from Cons.prems(1-3) rc Cons.prems(5) x show ?case
  proof (cases rule: batch_bodyE)
    case (1 b w e v2)
    have f: "frame v v1" using frame_trans [OF 1(4,5)] .
    then have cf: "confined (mem v) (mem v1)" by (simp add: frame_def)
    have rest: "foldC (batch_body sq qs wb) cs (fin @ [failed_if b c], ns \<or> w, e) v1 = (r, v')"
      using Cons.prems(6) x 1(2) by (simp add: andthen_def)
    have "frame v1 v' \<and> LastAvailIdx v' = LastAvailIdx v1 + (if wb then of_nat (length cs) else 0) \<and>
      (\<exists>fs ns' e'. r = Inr ((fin @ [failed_if b c]) @ fs, ns', e') \<and> e' \<noteq> Some VPanic \<and> list_all2 (\<lambda>c f. \<exists>b. f = failed_if b c) cs fs)"
      by (rule Cons.IH [OF _ Cons.prems(2,3) _ 1(3) rest])
        (use Cons.prems(1,4) confined_mapped [OF cf] request_ok_confined [OF cf] in simp_all)
    then obtain fs ns' e' where g: "frame v1 v'" "LastAvailIdx v' = LastAvailIdx v1 + (if wb then of_nat (length cs) else 0)"
      "r = Inr (fin @ (failed_if b c # fs), ns', e')" "e' \<noteq> Some VPanic" "list_all2 (\<lambda>c f. \<exists>b. f = failed_if b c) cs fs" by auto
    have "list_all2 (\<lambda>c f. \<exists>b. f = failed_if b c) (c # cs) (failed_if b c # fs)" using g(5) by auto
    then show ?thesis using frame_trans [OF f g(1)] g(2-4) 1(9) by (auto simp: algebra_simps)
  qed
qed (auto simp: ret_def)

lemma settle_frame:
  assumes "settle ns fin v = (r, v')"
  shows "frame v v' \<and> mem v' = mem v \<and> LastAvailIdx v' = LastAvailIdx v \<and> (\<exists>cs. r = Inr cs \<and> length cs = length fin \<and>
    (\<forall>m. (\<forall>f\<in>set fin. ready m f) \<longrightarrow> (\<forall>c\<in>set cs. ready m c)))"
proof -
  obtain e v1 where s: "(if ns then syncImage else ret None) v = (Inr e, v1)"
    "frame v v1 \<and> mem v1 = mem v \<and> LastAvailIdx v1 = LastAvailIdx v"
  proof (cases ns)
    case True
    obtain r1 v1 where "syncImage v = (r1, v1)" by fastforce
    moreover from this have "LastAvailIdx v1 = LastAvailIdx v" by (auto simp: syncImage_def split: prod.splits option.splits)
    ultimately show ?thesis using syncImage_frame [of v r1 v1] that True by auto
  next
    case False
    then show ?thesis using that [of None v] by (simp add: ret_def)
  qed
  let ?cs = "if e = None then fin else map (\<lambda>c. if c_write c then c\<lparr>c_result := 1\<rparr> else c) fin"
  have "r = Inr ?cs" "v' = v1" using assms s(1) by (simp_all add: settle_def andthen_def ret_def)
  moreover have "\<forall>m. (\<forall>f\<in>set fin. ready m f) \<longrightarrow> (\<forall>c\<in>set ?cs. ready m c)" by (auto simp: ready_def)
  ultimately show ?thesis using s(2) by simp
qed

definition blk_ok :: "blk \<Rightarrow> bool" where
  "blk_ok v \<longleftrightarrow> (\<forall>sq. VirtQueue v = Some sq \<longrightarrow> queue_mapped (mem v) sq) \<and> capacity v * SectorSize < 2 ^ 63 \<and>
     length (mem v) < 2 ^ 63"

lemma frame_ok: "frame v v' \<Longrightarrow> blk_ok v \<Longrightarrow> blk_ok v'"
  using confined_mapped confined_length by (auto simp: frame_def blk_ok_def)

lemma IO_batchE:
  assumes "IO v = (r, v')" "blk_ok v"
  obtains (Early) e where "v' = v" "r = Inl e" "e \<noteq> VPanic"
  | (Batch) sq pending where "VirtQueue v = Some sq" "\<not> closed v" "available sq v \<noteq> 0" "available sq v \<le> batch_size sq"
     "snapshot_all (mem v) sq (batch_size sq) (capacity v) (writeback v) (LastAvailIdx v) [0..<available sq v] = Inr pending"
     "length pending = available sq v" "\<forall>c\<in>set pending. request_ok (mem v) (capacity v) c"
     "andthen (run_batch sq (batch_size sq) (writeback v) pending) (finish_batch sq (batch_size sq) (writeback v)) v = (r, v')"
proof (cases "VirtQueue v")
  case None
  then show ?thesis using assms Early by (auto simp: IO_def split: if_splits)
next
  case (Some sq)
  show ?thesis
  proof (cases "closed v \<or> available sq v = 0 \<or> batch_size sq < available sq v")
    case True
    then show ?thesis using assms Some Early by (auto simp: IO_def split: if_splits)
  next
    case False
    show ?thesis
    proof (cases "snapshot_all (mem v) sq (batch_size sq) (capacity v) (writeback v) (LastAvailIdx v) [0..<available sq v]")
      case (Inl e)
      have "\<forall>i\<in>set [0..<available sq v]. i < QueueSize" using False batch_size_range [of sq] by (auto simp: QueueSize_def)
      from snapshot_all_ok [OF Inl this] have "e = ErrBlkDesc" using assms(2) by (simp add: blk_ok_def)
      then show ?thesis by (intro Early [of e]) (use assms Some False Inl in \<open>simp_all add: IO_def\<close>)
    next
      case (Inr pending)
      have "\<forall>i\<in>set [0..<available sq v]. i < QueueSize" using False batch_size_range [of sq] by (auto simp: QueueSize_def)
      from snapshot_all_ok [OF Inr this] have "length pending = available sq v" "\<forall>c\<in>set pending. request_ok (mem v) (capacity v) c"
        using assms(2) by (simp_all add: blk_ok_def)
      then show ?thesis by (intro Batch [OF Some _ _ _ Inr]) (use assms Some False Inr in \<open>simp_all add: IO_def\<close>)
    qed
  qed
qed

lemma settle_complete_frame:
  assumes "queue_mapped (mem v) sq" "\<forall>f\<in>set fin. ready (mem v) f"
    "andthen (settle ns fin) (completeRequests sq (batch_size sq)) v = (r, v')"
  shows "frame v v' \<and> r \<noteq> Inl VPanic \<and> LastAvailIdx v' = LastAvailIdx v + of_nat (length fin)"
proof -
  obtain r1 v1 where s: "settle ns fin v = (r1, v1)" by fastforce
  obtain cs where cs: "r1 = Inr cs" "length cs = length fin" "\<forall>c\<in>set cs. ready (mem v) c" "frame v v1" "mem v1 = mem v"
    "LastAvailIdx v1 = LastAvailIdx v" using settle_frame [OF s] assms(2) by blast
  have q: "queue_mapped (mem v1) sq" and rd: "\<forall>c\<in>set cs. ready (mem v1) c" using assms(1) cs(3,5) by simp_all
  have c: "completeRequests sq (batch_size sq) cs v1 = (r, v')" using assms(3) s cs(1) by (simp add: andthen_def)
  note bs = batch_size_range [of sq]
  from completeRequests_frame [OF q _ _ rd c] bs cs show ?thesis using frame_trans [OF cs(4), of v'] by simp
qed

lemma list_all2_failed_ready:
  "list_all2 (\<lambda>c f. \<exists>b. f = failed_if b c) cs fs \<Longrightarrow> \<forall>c\<in>set cs. ready m c \<Longrightarrow> \<forall>f\<in>set fs. ready m f"
  by (induction rule: list_all2_induct) auto

lemma IO_frame:
  assumes "blk_ok v" "IO v = (r, v')"
  shows "frame v v' \<and> r \<noteq> Inl VPanic \<and> (LastAvailIdx v' = LastAvailIdx v \<and> v' = v \<and> (\<exists>e. r = Inl e) \<or>
    (\<exists>sq. VirtQueue v = Some sq \<and> LastAvailIdx v' = avail_idx (mem v) sq))"
  using assms(2,1)
proof (cases rule: IO_batchE)
  case (Batch sq pending)
  have q: "queue_mapped (mem v) sq" using assms(1) Batch(1) by (simp add: blk_ok_def)
  have len: "of_nat (length pending) = avail_idx (mem v) sq - LastAvailIdx v" using Batch(6) by (simp add: available_def)
  note ok = Batch(7)
  note bs = batch_size_range [of sq]
  obtain rb v1 where rb: "run_batch sq (batch_size sq) (writeback v) pending v = (rb, v1)" by fastforce
  then have fb: "foldC (batch_body sq (batch_size sq) (writeback v)) pending ([], False, None) v = (rb, v1)" by (simp add: run_batch_def)
  obtain fs ns e where f: "frame v v1" "LastAvailIdx v1 = LastAvailIdx v + (if writeback v then of_nat (length pending) else 0)"
    "rb = Inr (fs, ns, e)" "e \<noteq> Some VPanic" "list_all2 (\<lambda>c f. \<exists>b. f = failed_if b c) pending fs"
    using batch_frame [OF q _ _ ok _ fb] bs by auto
  have fin: "finish_batch sq (batch_size sq) (writeback v) (fs, ns, e) v1 = (r, v')" using Batch(8) rb f(3) by (simp add: andthen_def)
  have cf: "confined (mem v) (mem v1)" using f(1) by (simp add: frame_def)
  show ?thesis
  proof (cases "writeback v")
    case True
    then have "v' = v1" "r \<noteq> Inl VPanic" using fin f(4) by (auto simp: finish_batch_def comp_defs split: option.splits)
    then show ?thesis using f(1,2) True Batch(1) len by simp
  next
    case False
    have rd: "\<forall>f\<in>set fs. ready (mem v1) f"
      using list_all2_failed_ready [OF f(5)] ok request_ready ready_confined [OF cf] by blast
    have s: "andthen (settle ns fs) (completeRequests sq (batch_size sq)) v1 = (r, v')" using fin False by (simp add: finish_batch_def)
    have q1: "queue_mapped (mem v1) sq" using q confined_mapped [OF cf] by simp
    from settle_complete_frame [OF q1 rd s] have "frame v1 v'" "r \<noteq> Inl VPanic" "LastAvailIdx v' = LastAvailIdx v1 + of_nat (length fs)" by simp_all
    then show ?thesis using frame_trans [OF f(1)] f(2) False Batch(1) len list_all2_lengthD [OF f(5)] by simp
  qed
qed auto

subsection \<open>The device behind the transport\<close>

interpretation blk_dev: modern_device blk_device blk_ok
proof
  fix t t' :: blk assume "blk_ok t" "mem t' = mem t" "transport.more t' = transport.more t"
  then show "blk_ok t'" by (cases t, cases t') (simp add: blk_ok_def transport.defs)
qed (auto simp: blk_device_def blk_ReadDeviceConfig_def blk_QueueReady_def blk_Notify_def blk_Reset_def comp_defs blk_ok_def Let_def
    split: if_splits)

subsection \<open>The content of the disk\<close>

text \<open>The same disk for the guest.\<close>

definition same_content :: "image \<Rightarrow> image \<Rightarrow> bool" where
  "same_content d d' \<longleftrightarrow> disk_ok d' \<and> image_Size d' = image_Size d \<and> (\<forall>x < image_Size d. disk_byte d' x = disk_byte d x)"

lemma same_content_trans: "same_content d d' \<Longrightarrow> same_content d' d'' \<Longrightarrow> same_content d d''"
  by (simp add: same_content_def)

lemma same_content_refl: "disk_ok d \<Longrightarrow> same_content d d"
  by (simp add: same_content_def)

lemma syncImage_content: "disk_ok (disk v) \<Longrightarrow> syncImage v = (r, v') \<Longrightarrow> same_content (disk v) (disk v')"
  using img.sync_good [of "disk v"] by (auto simp: syncImage_def same_content_def split: prod.splits option.splits)

lemma execute_content:
  assumes "disk_ok (disk v)" "readOnly v \<or> \<not> c_write c" "execute c v = (r, v')" shows "same_content (disk v) (disk v')"
proof -
  obtain a n where d: "c_data c = (a, n)" by fastforce
  from assms(3) d show ?thesis
  proof (cases rule: executeE)
    case (Flush e)
    show ?thesis using syncImage_content [OF assms(1) Flush(3)] .
  next
    case (Read bs e im)
    have "same_content (disk v) im" using img.read_good [OF assms(1) Read(4)] by (simp add: same_content_def)
    then show ?thesis using Read(5) by simp
  qed (use assms same_content_refl in auto)
qed

lemma batch_readonly:
  assumes "queue_mapped (mem v) sq" "0 < qs" "qs \<le> 32" "\<forall>c\<in>set pending. request_ok (mem v) cap c" "e0 \<noteq> Some VPanic"
    "foldC (batch_body sq qs wb) pending (fin, ns, e0) v = (r, v')" "disk_ok (disk v)" "readOnly v"
  shows "same_content (disk v) (disk v')"
  using assms
proof (induction pending arbitrary: v fin ns e0)
  case (Cons c cs)
  obtain r1 v1 where x: "batch_body sq qs wb c (fin, ns, e0) v = (r1, v1)" by fastforce
  have rc: "request_ok (mem v) cap c" using Cons.prems(4) by simp
  from Cons.prems(1-3) rc Cons.prems(5) x show ?case
  proof (cases rule: batch_bodyE)
    case (1 b w e v2)
    have f: "frame v v1" using frame_trans [OF 1(4,5)] .
    then have cf: "confined (mem v) (mem v1)" and ro: "readOnly v1" using Cons.prems(8) by (simp_all add: frame_def)
    have rest: "foldC (batch_body sq qs wb) cs (fin @ [failed_if b c], ns \<or> w, e) v1 = (r, v')"
      using Cons.prems(6) x 1(2) by (simp add: andthen_def)
    have s: "same_content (disk v) (disk v1)" using execute_content [OF Cons.prems(7) _ 1(1)] 1(6) Cons.prems(8) by simp
    have "same_content (disk v1) (disk v')"
      by (rule Cons.IH [OF _ Cons.prems(2,3) _ 1(3) rest _ ro])
        (use Cons.prems(1,4) s confined_mapped [OF cf] request_ok_confined [OF cf] in \<open>simp_all add: same_content_def\<close>)
    then show ?thesis using same_content_trans [OF s] by simp
  qed
qed (simp add: ret_def same_content_def)

lemma settle_content:
  assumes "disk_ok (disk v)" "settle ns fin v = (r, v')" shows "same_content (disk v) (disk v')"
proof (cases ns)
  case True
  obtain e v1 where s: "syncImage v = (Inr e, v1)" using syncImage_frame by (metis surj_pair)
  then have "v' = v1" using assms(2) True by (simp add: settle_def andthen_def ret_def)
  then show ?thesis using syncImage_content [OF assms(1) s] by simp
next
  case False
  then have "v' = v" using assms(2) by (simp add: settle_def andthen_def ret_def)
  then show ?thesis using same_content_refl [OF assms(1)] by simp
qed

subsection \<open>A device with one request\<close>

text \<open>
  A device whose driver has published a queue of eight entries through the registers, and whose memory then holds one
  request: a read or, with \<open>ty = 1\<close>, a write of sector 1, on the raw image of two sectors.
\<close>

definition program_queue :: "unit bcomp" where
  "program_queue = foreach (\<lambda>(off, data). andthen (MMIO blk_device off data True) (\<lambda>_. ret ()))
     [(24, [8, 0]), (40, [0, 2, 0, 0]), (48, [0x80, 2, 0, 0]), (28, [1, 0])]"

definition guest_byte_at :: "byte \<Rightarrow> nat \<Rightarrow> byte" where
  "guest_byte_at ty a =
     (if a = 1 then 4 else if a = 8 then 16 else if a = 12 then 1 else if a = 14 then 1
      else if a = 16 then 0x10 else if a = 17 then 4 else if a = 25 then 2 else if a = 28 then 1 else if a = 30 then 2
      else if a = 32 then 0x40 else if a = 33 then 6 else if a = 40 then 1 else if a = 44 then 2
      else if a = 514 then 1 else if a = 1024 then ty else if a = 1032 then 1
      else if 1040 \<le> a \<and> a < 1552 then 7 else if a = 1600 then 0xff else 0)"

definition sample_memory :: "byte \<Rightarrow> byte list" where
  "sample_memory ty = map (guest_byte_at ty) [0..<1700]"

definition sample_queue :: SplitQueue where
  "sample_queue = \<lparr>sq_Desc = 0, sq_Avail = 512, sq_Used = 640, sq_Size = 8\<rparr>"

definition fresh_blk :: blk where
  "fresh_blk = newBlk (Raw sample_raw) False (replicate 1700 0)"

definition sample_blk :: "byte \<Rightarrow> blk" where
  "sample_blk ty = (snd (program_queue fresh_blk))\<lparr>mem := sample_memory ty\<rparr>"

lemma fresh_mem: "length (mem fresh_blk) = 1700"
  by (simp add: fresh_blk_def newBlk_def NewModernTransport_def transport.defs)

lemma fresh_program: "program_queue fresh_blk = (Inr (), fresh_blk\<lparr>kicks := 1, VirtQueue := Some sample_queue,
    queues := [\<lparr>q_size = 8, q_msixVector = 0, q_enable = 1, q_desc = 0, q_driver = 512, q_device = 640\<rparr>]\<rparr>)"
  by (simp add: program_queue_def fresh_blk_def newBlk_def NewModernTransport_def transport.defs foreach_def comp_defs MMIO_def
    transport_consts mmioCommonCfg_def writeCommon_def writeRegister_def Let_def le16_def le32_def curQueue_def updQueue_def
    fresh_queue_def writeQueueAddr_def setLoHi_def mapQueue_def queue_area_def ValidRange_def MMIOStart_def HighRAMStart_def
    blk_device_def blk_QueueReady_def blk_Notify_def sample_queue_def)

lemma load_sample: "a + n \<le> 1700 \<Longrightarrow> load_le n (sample_memory ty) a = le_nat (map (guest_byte_at ty) [a..<a + n])"
  by (simp add: load_le_def sample_memory_def slice_def take_map drop_map)

lemma length_sample: "length (sample_memory ty) = 1700"
  by (simp add: sample_memory_def)

lemma upt_steps: "[a..<a] = []" "a < b \<Longrightarrow> [a..<b] = a # [Suc a..<b]"
  by (simp_all add: upt_conv_Cons)

lemma sample_parts:
  "mem (sample_blk ty) = sample_memory ty" "capacity (sample_blk ty) = 2" "closed (sample_blk ty) = False"
  "VirtQueue (sample_blk ty) = Some sample_queue" "LastAvailIdx (sample_blk ty) = 0" "disk (sample_blk ty) = Raw sample_raw"
  "writeback (sample_blk ty) = False" "readOnly (sample_blk ty) = False"
  unfolding sample_blk_def fresh_program
  by (simp_all add: fresh_blk_def newBlk_def NewModernTransport_def transport.defs sample_raw_def raw_Size_def
    SectorSize_def writeback_def negotiatedFeatures_def)

lemma complete_single:
  assumes "queue_mapped (mem v) sq" "0 < qs" "qs \<le> 32" "c_status c = Some a" "ValidRange (mem v) a 1"
    "completeRequests sq qs [c] v = (r, v')"
  shows "disk v' = disk v \<and> dirty v' = dirty v \<and> (\<forall>x < length (mem v). off_used sq x \<longrightarrow>
    mem v' ! x = (if x = a then c_result c else mem v ! x))"
proof -
  let ?i = "unat (used_idx (mem v) sq) mod qs" and ?m = "(mem v)[a := c_result c]"
  let ?m' = "add_used_idx sq 1 (put_used sq ?i (c_id c) (c_length c) ?m)"
  let ?v = "v\<lparr>mem := ?m', LastAvailIdx := LastAvailIdx v + 1\<rparr>"
  have i: "?i < 32" using assms(2,3) by (meson mod_less_divisor order_less_le_trans)
  then have "Interrupt ?v = (r, v')" using assms(4,6) by (simp add: completeRequests_def complete_one_def used_store_def QueueSize_def foreach_def comp_defs Let_def)
  from Interrupt_frame [OF this] have w: "disk v' = disk v" "dirty v' = dirty v" "mem v' = ?m'" by simp_all
  have m: "confined (mem v) ?m" using confined_update [OF assms(5)] by simp
  have q: "queue_mapped ?m sq" using assms(1) confined_mapped [OF m] by simp
  from off_used_kept [OF q i] have "?m' ! x = ?m ! x" if "off_used sq x" "x < length (mem v)" for x using that by simp
  then show ?thesis using w ValidRange_bound [OF assms(5)] by (auto simp: nth_list_update)
qed

lemma sample_desc:
  "desc_at (sample_memory ty) sample_queue 0 = \<lparr>d_Addr = 1024, d_Len = 16, d_Flags = 1, d_Next = 1\<rparr>"
  "desc_at (sample_memory ty) sample_queue (Suc 0) = \<lparr>d_Addr = 1040, d_Len = 512, d_Flags = 1, d_Next = 2\<rparr>"
  "desc_at (sample_memory ty) sample_queue 2 = \<lparr>d_Addr = 1600, d_Len = 1, d_Flags = 2, d_Next = 0\<rparr>"
  by (simp_all add: desc_at_def sample_queue_def load_sample upt_steps guest_byte_at_def Let_def)

lemma sample_avail:
  "avail_idx (sample_memory ty) sample_queue = 1" "avail_ring (sample_memory ty) sample_queue 0 = 0"
  by (simp_all add: avail_idx_def avail_ring_def sample_queue_def load_sample upt_steps guest_byte_at_def)

lemma sample_header:
  "load_le 4 (sample_memory ty) 1024 = unat ty" "load_le 8 (sample_memory ty) 1032 = 1"
  by (simp_all add: load_sample upt_steps guest_byte_at_def)

lemma sample_valid: "a + n \<le> 1700 \<Longrightarrow> ValidRange (sample_memory ty) a n"
  by (auto simp: ValidRange_def length_sample MMIOStart_def)

lemma sample_size: "batch_size sample_queue = 8"
  by (simp add: batch_size_def sample_queue_def QueueSize_def)

definition sample_request :: "bool \<Rightarrow> blkPendingRequest" where
  "sample_request wr = \<lparr>c_id = 0, c_length = 529, c_status = Some 1600, c_data = (1040, 512), c_offset = 512,
     c_result = 0, c_write = wr, c_flush = False\<rparr>"

lemma sample_snapshot:
  assumes "ty = 0 \<or> ty = 1"
  shows "snapshotRequest (sample_memory ty) sample_queue 8 2 False 0 = Inr (sample_request (ty = 1))"
  using assms
  by (elim disjE) (simp_all add: snapshotRequest_def snapshot_chain.simps [of _ _ 8] chain_round_def desc_index_def QueueSize_def sample_desc
      sample_header sample_valid no_request_def mem_slice_def add64_def length_sample chain_end_def first_byte_def
      chain_fields_def read_header_def chain_last_def open_ended_def descFNext_def descFWrite_def Let_def mul64_def int64_of_def
      sub64_def SectorSize_def sample_request_def)

lemma sample_batch:
  assumes "ty = 0 \<or> ty = 1"
  shows "blk_ok (sample_blk ty)" "available sample_queue (sample_blk ty) = 1"
    "snapshot_all (sample_memory ty) sample_queue 8 2 False 0 [0] = Inr [sample_request (ty = 1)]"
proof -
  show "blk_ok (sample_blk ty)" using sample_valid
    by (auto simp: blk_ok_def sample_parts queue_mapped_def sample_queue_def SectorSize_def length_sample intro!: exI [of _ 3])
  show "available sample_queue (sample_blk ty) = 1" by (simp add: available_def sample_parts sample_avail)
  show "snapshot_all (sample_memory ty) sample_queue 8 2 False 0 [0] = Inr [sample_request (ty = 1)]"
    using sample_snapshot [OF assms] by (simp add: avail_index_def QueueSize_def sample_avail)
qed

lemma sample_request_ok:
  assumes "ty = 0 \<or> ty = 1" shows "request_ok (sample_memory ty) 2 (sample_request (ty = 1))"
  using sample_valid [of 1600 1 ty] sample_valid [of 1040 512 ty] by (simp add: request_ok_def sample_request_def SectorSize_def)

lemma sample_write:
  assumes "length b = 512" shows "\<exists>r. image_WriteAt b 512 (Raw sample_raw) = ((512, None), Raw r) \<and> script (rfile r) = []"
proof -
  have "b \<noteq> []" using assms by auto
  then show ?thesis using assms by (simp add: raw_WriteAt_def sample_raw_def file_WriteAt_def tick_def store_bytes_def)
qed

lemma sample_read: "\<exists>bs r. image_ReadAt 512 512 (Raw sample_raw) = ((bs, None), Raw r)"
  by (simp add: raw_ReadAt_def sample_raw_def file_ReadAt_def tick_def)

lemma sample_sync: "script (rfile r) = [] \<Longrightarrow> \<exists>r'. image_Sync (Raw r) = (None, Raw r')"
  by (auto simp: raw_Sync_def file_Sync_def tick_def)

lemma sample_settle:
  assumes "ty = 0 \<or> ty = 1"
  shows "\<exists>v1 w v2. execute (sample_request (ty = 1)) (sample_blk ty) = (Inr (sample_request (ty = 1), w), v1) \<and>
    settle w [sample_request (ty = 1)] v1 = (Inr [sample_request (ty = 1)], v2)"
  using assms
proof
  assume t: "ty = 0"
  obtain bs r where "image_ReadAt 512 512 (Raw sample_raw) = ((bs, None), Raw r)" using sample_read by blast
  then show ?thesis using t by (auto simp: execute_def sample_request_def sample_parts settle_def comp_defs)
next
  assume t: "ty = 1"
  have "length (slice (sample_memory 1) 1040 512) = 512" by (simp add: length_slice length_sample)
  then obtain r where r: "image_WriteAt (slice (sample_memory 1) 1040 512) 512 (Raw sample_raw) = ((512, None), Raw r)" "script (rfile r) = []"
    using sample_write by blast
  then obtain r' where "image_Sync (Raw r) = (None, Raw r')" using sample_sync by blast
  then show ?thesis using t r by (auto simp: execute_def sample_request_def sample_parts settle_def comp_defs syncImage_def)
qed

lemma sample_IO:
  assumes "ty = 0 \<or> ty = 1"
  shows "\<exists>r v'. IO (sample_blk ty) = (r, v') \<and> mem v' ! 1600 = 0"
proof -
  let ?v = "sample_blk ty" and ?c = "sample_request (ty = 1)"
  note B = sample_batch [OF assms]
  obtain v1 w v2 where s: "execute ?c ?v = (Inr (?c, w), v1)" "settle w [?c] v1 = (Inr [?c], v2)" using sample_settle [OF assms] by blast
  obtain r v' where c: "completeRequests sample_queue 8 [?c] v2 = (r, v')" by fastforce
  have io: "IO ?v = (r, v')" using B s c
    by (simp add: IO_def sample_size sample_parts run_batch_def batch_body_def finish_batch_def comp_defs)
  have "request_ok (mem ?v) 2 ?c" using sample_request_ok [OF assms] by (simp add: sample_parts)
  then have "frame ?v v1" "frame v1 v2" using execute_frame [OF _ s(1)] settle_frame [OF s(2)] by simp_all
  then have cf: "confined (sample_memory ty) (mem v2)" using frame_trans [of ?v v1 v2] by (simp add: frame_def sample_parts)
  have "queue_mapped (sample_memory ty) sample_queue" using B(1) by (simp add: blk_ok_def sample_parts)
  then have q: "queue_mapped (mem v2) sample_queue" using confined_mapped [OF cf] by simp
  note C = complete_single [OF q _ _ _ _ c, of 1600]
  have "mem v' ! 1600 = 0"
    using C sample_valid [of 1600 1 ty] confined_valid [OF cf] confined_length [OF cf]
    by (simp add: sample_request_def length_sample off_used_def sample_queue_def)
  with io show ?thesis by blast
qed

section \<open>Properties\<close>

text \<open>What can happen to the device: an access of the guest to its registers, a batch, a retry of the interrupt, and the close.\<close>

inductive blk_step :: "blk \<Rightarrow> blk \<Rightarrow> bool" where
  register: "MMIO blk_device off data isWrite v = (r, v') \<Longrightarrow> blk_step v v'"
| batch: "IO v = (r, v') \<Longrightarrow> blk_step v v'"
| reinject: "ReinjectIfPending v = (r, v') \<Longrightarrow> blk_step v v'"
| close: "blk_Close v = (r, v') \<Longrightarrow> blk_step v v'"
| guest: "length m = length (mem v) \<Longrightarrow> blk_step v (v\<lparr>mem := m\<rparr>)"

lemma blk_step_ok: "blk_step v v' \<Longrightarrow> blk_ok v \<Longrightarrow> blk_ok v'"
proof (induction rule: blk_step.induct)
  case (register off data isWrite v r v')
  then show ?case using blk_dev.MMIO_ok [of v off data isWrite r v'] by blast
next
  case (batch v r v')
  then show ?case using IO_frame [of v r v'] frame_ok by blast
next
  case (reinject v r v')
  then have "mem v' = mem v \<and> transport.more v' = transport.more v"
    by (auto simp: ReinjectIfPending_def raiseIRQ_def call_irq_def Let_def split: if_splits option.splits list.splits)
  then show ?case using reinject(2) blk_dev.registers by blast
next
  case (close v r v')
  then show ?case
    by (auto simp: blk_Close_def comp_defs syncImage_def blk_ok_def split: if_splits prod.splits option.splits)
next
  case (guest m v)
  then show ?case using ValidRange_length [OF guest(1)] by (simp add: blk_ok_def queue_mapped_def)
qed

lemma program_steps: "foreach (\<lambda>(off, data). andthen (MMIO blk_device off data True) (\<lambda>_. ret ())) ws v = (Inr u, v') \<Longrightarrow> blk_step\<^sup>*\<^sup>* v v'"
proof (induction ws arbitrary: v)
  case (Cons w ws)
  obtain off data where w: "w = (off, data)" by fastforce
  obtain r v1 where m: "MMIO blk_device off data True v = (r, v1)" by fastforce
  then have "foreach (\<lambda>(off, data). andthen (MMIO blk_device off data True) (\<lambda>_. ret ())) ws v1 = (Inr u, v')"
    using Cons.prems w by (cases r) (auto simp: foreach_def comp_defs)
  then show ?case using Cons.IH converse_rtranclp_into_rtranclp [of blk_step v v1 v'] register [OF m] by blast
qed (simp add: foreach_def ret_def)

lemma sample_reachable: "blk_step\<^sup>*\<^sup>* fresh_blk (sample_blk ty)"
proof -
  obtain v where v: "program_queue fresh_blk = (Inr (), v)" using fresh_program by blast
  have "blk_step v (v\<lparr>mem := sample_memory ty\<rparr>)"
    using fresh_program v by (intro guest) (simp add: length_sample fresh_mem)
  then show ?thesis using program_steps [OF v [unfolded program_queue_def]] v by (simp add: sample_blk_def)
qed



text \<open>
  C14. A read-only device never changes its disk: no batch, whatever requests it holds, changes a
  byte the guest can read from the image.
\<close>

theorem blk_readonly:
  assumes "blk_ok v" "disk_ok (disk v)" "readOnly v" "IO v = (r, v')"
  shows "disk_ok (disk v') \<and> image_Size (disk v') = image_Size (disk v) \<and>
    (\<forall>x < image_Size (disk v). disk_byte (disk v') x = disk_byte (disk v) x)"
  using assms(4,1)
proof (cases rule: IO_batchE)
  case (Batch sq pending)
  have q: "queue_mapped (mem v) sq" using assms(1) Batch(1) by (simp add: blk_ok_def)
  note ok = Batch(7)
  note bs = batch_size_range [of sq]
  obtain rb v1 where rb: "run_batch sq (batch_size sq) (writeback v) pending v = (rb, v1)" by fastforce
  then have fb: "foldC (batch_body sq (batch_size sq) (writeback v)) pending ([], False, None) v = (rb, v1)" by (simp add: run_batch_def)
  have s1: "same_content (disk v) (disk v1)" using batch_readonly [OF q _ _ ok _ fb assms(2,3)] bs by simp
  obtain fs ns e where f: "frame v v1" "rb = Inr (fs, ns, e)" "list_all2 (\<lambda>c f. \<exists>b. f = failed_if b c) pending fs"
    using batch_frame [OF q _ _ ok _ fb] bs by auto
  have fin: "finish_batch sq (batch_size sq) (writeback v) (fs, ns, e) v1 = (r, v')" using Batch(8) rb f(2) by (simp add: andthen_def)
  have cf: "confined (mem v) (mem v1)" using f(1) by (simp add: frame_def)
  have rd: "\<forall>f\<in>set fs. ready (mem v1) f" using list_all2_failed_ready [OF f(3)] ok request_ready ready_confined [OF cf] by blast
  have "same_content (disk v1) (disk v')"
  proof (cases "writeback v")
    case True
    then have "v' = v1" using fin by (auto simp: finish_batch_def comp_defs split: option.splits)
    then show ?thesis using s1 by (simp add: same_content_def)
  next
    case False
    obtain r2 v2 where s: "settle ns fs v1 = (r2, v2)" by fastforce
    obtain cs where cs: "r2 = Inr cs" "\<forall>c\<in>set cs. ready (mem v2) c" "mem v2 = mem v1" using settle_frame [OF s] rd by auto
    have c: "completeRequests sq (batch_size sq) cs v2 = (r, v')" using fin s cs(1) False by (simp add: finish_batch_def andthen_def)
    have "queue_mapped (mem v2) sq" using q confined_mapped [OF cf] cs(3) by simp
    then have "disk v' = disk v2" using completeRequests_frame [OF _ _ _ cs(2) c] bs by simp
    then show ?thesis using settle_content [OF _ s] s1 by (simp add: same_content_def)
  qed
  from same_content_trans [OF s1 this] show ?thesis by (simp add: same_content_def)
qed (use assms(2) in simp_all)

theorem blk_readonly_witness:
  "\<exists>r v'. IO ((sample_blk 1)\<lparr>readOnly := True\<rparr>) = (r, v') \<and> (\<forall>x < 1024. disk_byte (disk v') x = 0)"
proof -
  let ?v = "(sample_blk 1)\<lparr>readOnly := True\<rparr>"
  have ok: "blk_ok ?v" using sample_batch(1) [of 1] by (simp add: blk_ok_def)
  obtain r v' where io: "IO ?v = (r, v')" by fastforce
  from blk_readonly [OF ok _ _ io] show ?thesis using io
    by (simp add: sample_parts raw_ok_def sample_raw_def raw_byte_def raw_Size_def)
qed


end
