(* ===== verification/Pci_Bus.thy ===== *)
theory Pci_Bus
  imports Prelude
begin

text \<open>
  The PCI bus, \<^verbatim>\<open>internal/pci\<close>: the registry of functions, configuration mechanism
  1 with its address register, BAR sizing and relocation, the configuration
  space each function shows, and the lookup of the device that decodes a
  memory address. The bus lock makes each operation one step. A device is what
  the registry asks of it when it is registered; \<open>handle\<close> stands for the device
  itself, which the bus only passes on.
\<close>

section \<open>Definitions\<close>

subsection \<open>The address register\<close>

definition getRegisterOffset :: "u32 \<Rightarrow> u32" where
  "getRegisterOffset a = a AND 0xfc"

definition getFunctionNumber :: "u32 \<Rightarrow> u32" where
  "getFunctionNumber a = drop_bit 8 a AND 0x7"

definition getDeviceNumber :: "u32 \<Rightarrow> u32" where
  "getDeviceNumber a = drop_bit 11 a AND 0x1f"

definition getBusNumber :: "u32 \<Rightarrow> u32" where
  "getBusNumber a = drop_bit 16 a AND 0xff"

definition isEnable :: "u32 \<Rightarrow> bool" where
  "isEnable a \<longleftrightarrow> drop_bit 31 a OR 0x1 = 0x1"

subsection \<open>Numbers and bytes\<close>

definition SizeToBits :: "u64 \<Rightarrow> u32" where
  "SizeToBits n = (if n = 0 then 0 else NOT 1 - ucast (n - 2))"

text \<open>The loop of \<^verbatim>\<open>BytesToNum\<close> from index \<open>i\<close>; a shift by 64 or more gives 0.\<close>

fun bytes_from :: "nat \<Rightarrow> byte list \<Rightarrow> u64 \<Rightarrow> u64" where
  "bytes_from i [] res = res"
| "bytes_from i (x # xs) res = bytes_from (i + 1) xs (res OR push_bit (i * 8) (ucast x))"

definition BytesToNum :: "byte list \<Rightarrow> u64" where
  "BytesToNum bytes = bytes_from 0 bytes 0"

text \<open>\<^verbatim>\<open>NumToBytes\<close> for a value of \<open>l\<close> bytes.\<close>

fun NumToBytes :: "nat \<Rightarrow> u64 \<Rightarrow> byte list" where
  "NumToBytes 0 y = []"
| "NumToBytes (Suc l) y = ucast y # NumToBytes l (drop_bit 8 y)"

subsection \<open>Devices\<close>

record DeviceHeader =
  VendorID :: u16
  DeviceID :: u16
  Command :: u16
  Status :: u16
  RevisionID :: byte
  ProgIF :: byte
  Subclass :: byte
  ClassCode :: byte
  HeaderType :: byte
  BAR :: "u32 list"
  SubsystemVendorID :: u16
  SubsystemID :: u16
  CapabilitiesPointer :: byte
  InterruptLine :: byte
  InterruptPin :: byte

definition no_header :: DeviceHeader where
  "no_header = \<lparr>VendorID = 0, DeviceID = 0, Command = 0, Status = 0, RevisionID = 0, ProgIF = 0, Subclass = 0, ClassCode = 0,
     HeaderType = 0, BAR = replicate 6 0, SubsystemVendorID = 0, SubsystemID = 0, CapabilitiesPointer = 0,
     InterruptLine = 0, InterruptPin = 0\<rparr>"

definition header_bytes :: "DeviceHeader \<Rightarrow> byte list" where
  "header_bytes h =
     put_le 2 (unat (VendorID h)) @ put_le 2 (unat (DeviceID h)) @ put_le 2 (unat (Command h)) @ put_le 2 (unat (Status h))
     @ [RevisionID h, ProgIF h, Subclass h, ClassCode h, 0, 0, HeaderType h, 0]
     @ concat (map (\<lambda>b. put_le 4 (unat b)) (BAR h))
     @ replicate 4 0 @ put_le 2 (unat (SubsystemVendorID h)) @ put_le 2 (unat (SubsystemID h)) @ replicate 4 0
     @ [CapabilitiesPointer h] @ replicate 7 0 @ [InterruptLine h, InterruptPin h, 0, 0]"

text \<open>
  The \<^verbatim>\<open>Device\<close> interface. \<open>modern\<close> holds the capabilities, the BAR index and the BAR
  size of a device that is also a \<^verbatim>\<open>CapsAndMMIO\<close>.
\<close>

record 'd Device =
  handle :: 'd
  GetDeviceHeader :: DeviceHeader
  io_Size :: u64
  modern :: "(byte list \<times> int \<times> u64) option"

record 'd registeredDevice =
  dev :: "'d Device"
  header :: DeviceHeader
  caps :: "byte list"
  barSizes :: "u64 list"
  mmio :: bool
  mmioBAR :: nat
  slot :: nat
  func_no :: nat

datatype pci_err = ErrDeviceAddress | ErrDeviceOccupied | ErrNilDevice

text \<open>
  The bus. \<open>funcs\<close> maps eight times the slot plus the function number to an index of
  \<open>devices\<close>; the overrides are keyed by that index.
\<close>

record 'd PCI =
  addr :: u32
  devices :: "'d registeredDevice list"
  funcs :: "nat \<rightharpoonup> nat"
  nextSlot :: nat
  probeSlot :: int
  probeBar :: nat
  barOverride :: "nat \<Rightarrow> nat \<rightharpoonup> u32"
  configOverride :: "nat \<Rightarrow> nat \<rightharpoonup> byte"

subsection \<open>Registration\<close>

definition registerDevice :: "'d Device \<Rightarrow> 'd registeredDevice" where
  "registerDevice d =
     (let entry = \<lparr>dev = d, header = GetDeviceHeader d, caps = [], barSizes = io_Size d # replicate 5 0, mmio = False,
                   mmioBAR = 0, slot = 0, func_no = 0\<rparr>
      in case modern d of
           None \<Rightarrow> entry
         | Some (cs, bar, sz) \<Rightarrow>
             if 0 \<le> bar \<and> bar < 6
             then entry\<lparr>caps := cs, mmio := True, mmioBAR := nat bar, barSizes := (barSizes entry)[nat bar := sz]\<rparr>
             else entry\<lparr>caps := cs\<rparr>)"

definition set_multifunction :: "'d registeredDevice \<Rightarrow> 'd registeredDevice" where
  "set_multifunction e = e\<lparr>header := (header e)\<lparr>HeaderType := HeaderType (header e) OR 0x80\<rparr>\<rparr>"

definition registerAt :: "nat \<Rightarrow> nat \<Rightarrow> 'd registeredDevice \<Rightarrow> 'd PCI \<Rightarrow> 'd PCI" where
  "registerAt sl fn entry p =
     (let p1 = (if devices p = [] then p\<lparr>probeSlot := -1\<rparr> else p);
          p2 = (if fn \<noteq> 0 then
                  (case funcs p1 (sl * 8) of
                     Some index \<Rightarrow> p1\<lparr>devices := (devices p1)[index := set_multifunction (devices p1 ! index)]\<rparr>
                   | None \<Rightarrow> p1)
                else p1);
          entry1 = (if fn = 0 \<and> (\<exists>f\<in>set [1..<8]. funcs p1 (sl * 8 + f) \<noteq> None) then set_multifunction entry else entry);
          entry2 = entry1\<lparr>slot := sl, func_no := fn\<rparr>
      in p2\<lparr>funcs := (funcs p2)(sl * 8 + fn \<mapsto> length (devices p2)), devices := devices p2 @ [entry2],
            nextSlot := (if nextSlot p2 \<le> sl then sl + 1 else nextSlot p2)\<rparr>)"

definition AddDevices :: "'d Device list \<Rightarrow> 'd PCI \<Rightarrow> 'd PCI" where
  "AddDevices ds p = fold (\<lambda>entry p. registerAt (nextSlot p) 0 entry p) (map registerDevice ds) p"

definition new_bus :: "'d PCI" where
  "new_bus = \<lparr>addr = 0, devices = [], funcs = Map.empty, nextSlot = 0, probeSlot = -1, probeBar = 0,
     barOverride = (\<lambda>_ _. None), configOverride = (\<lambda>_ _. None)\<rparr>"

definition New :: "'d Device list \<Rightarrow> 'd PCI" where
  "New ds = AddDevices ds new_bus"

text \<open>\<open>None\<close> is the nil device.\<close>

definition AddDeviceAt :: "int \<Rightarrow> int \<Rightarrow> 'd Device option \<Rightarrow> 'd PCI \<Rightarrow> (pci_err + unit) \<times> 'd PCI" where
  "AddDeviceAt sl fn d p =
     (if sl < 0 \<or> 32 \<le> sl \<or> fn < 0 \<or> 8 \<le> fn then (Inl ErrDeviceAddress, p)
      else case d of
        None \<Rightarrow> (Inl ErrNilDevice, p)
      | Some d \<Rightarrow>
          if funcs p (nat (sl * 8 + fn)) \<noteq> None then (Inl ErrDeviceOccupied, p)
          else (Inr (), registerAt (nat sl) (nat fn) (registerDevice d) p))"

definition Devices :: "'d PCI \<Rightarrow> 'd Device list" where
  "Devices p = map dev (devices p)"

definition Functions :: "'d PCI \<Rightarrow> (nat \<times> nat \<times> 'd Device) list" where
  "Functions p = map (\<lambda>e. (slot e, func_no e, dev e)) (devices p)"

subsection \<open>Configuration space\<close>

definition barAtOffset :: "int \<Rightarrow> int" where
  "barAtOffset offset = (if offset < 0x10 \<or> 0x28 \<le> offset then -1 else offset div 4 - 4)"

definition barSize :: "nat \<Rightarrow> nat \<Rightarrow> 'd PCI \<Rightarrow> u64" where
  "barSize i bar p = barSizes (devices p ! i) ! bar"

definition bar_raw :: "nat \<Rightarrow> nat \<Rightarrow> 'd PCI \<Rightarrow> u32" where
  "bar_raw i bar p = (case barOverride p i bar of Some v \<Rightarrow> v | None \<Rightarrow> BAR (header (devices p ! i)) ! bar)"

definition barBase :: "nat \<Rightarrow> nat \<Rightarrow> 'd PCI \<Rightarrow> u64" where
  "barBase i bar p =
     (let raw = bar_raw i bar p in if raw AND 0x1 = 0x1 then ucast (raw AND NOT 0x3) else ucast (raw AND NOT 0xf))"

text \<open>The keys of a BAR override are the BAR numbers 0 to 5, and each override has a place of its own.\<close>

definition configSpace :: "nat \<Rightarrow> 'd PCI \<Rightarrow> byte list" where
  "configSpace i p =
     (let cfg = copy_at (copy_at (replicate 256 0) 0 (header_bytes (header (devices p ! i)))) 0x40 (caps (devices p ! i));
          cfg1 = fold (\<lambda>bar cfg. case barOverride p i bar of
                   None \<Rightarrow> cfg | Some v \<Rightarrow> copy_at cfg (0x10 + bar * 4) (NumToBytes 4 (ucast v))) [0..<6] cfg
      in map (\<lambda>off. case configOverride p i off of None \<Rightarrow> cfg1 ! off | Some v \<Rightarrow> v) [0..<256])"

text \<open>The loop of \<^verbatim>\<open>LookupMMIO\<close> from index \<open>i\<close>.\<close>

fun lookup_from :: "u64 \<Rightarrow> 'd PCI \<Rightarrow> nat \<Rightarrow> 'd registeredDevice list \<Rightarrow> ('d Device \<times> u64) option" where
  "lookup_from a p i [] = None"
| "lookup_from a p i (e # es) =
     (if \<not> mmio e then lookup_from a p (i + 1) es
      else let base = barBase i (mmioBAR e) p in
        if base \<le> a \<and> a - base < barSizes e ! mmioBAR e then Some (dev e, a - base)
        else lookup_from a p (i + 1) es)"

definition LookupMMIO :: "u64 \<Rightarrow> 'd PCI \<Rightarrow> ('d Device \<times> u64) option" where
  "LookupMMIO a p = lookup_from a p 0 (devices p)"

subsection \<open>The data and address ports\<close>

definition conf_offset :: "u64 \<Rightarrow> 'd PCI \<Rightarrow> nat" where
  "conf_offset port p = unat (getRegisterOffset (addr p) + ucast (port - 0xCFC))"

definition conf_function :: "'d PCI \<Rightarrow> nat option" where
  "conf_function p = funcs p (unat (getDeviceNumber (addr p) * 8 + getFunctionNumber (addr p)))"

text \<open>\<open>values\<close> is the buffer of the access; the result is what it holds afterwards.\<close>

definition PciConfDataIn :: "u64 \<Rightarrow> byte list \<Rightarrow> 'd PCI \<Rightarrow> byte list \<times> 'd PCI" where
  "PciConfDataIn port values p =
     (let absent = replicate (length values) 0xff; offset = conf_offset port p
      in if \<not> isEnable (addr p) then (values, p)
         else if getBusNumber (addr p) \<noteq> 0 then (absent, p)
         else case conf_function p of
           None \<Rightarrow> (absent, p)
         | Some i \<Rightarrow>
             let bar = barAtOffset (int offset) in
             if 0 \<le> bar \<and> probeSlot p = int i \<and> int (probeBar p) = bar then
               let barOffset = 0x10 + nat bar * 4;
                   mask = NumToBytes 4 (ucast (SizeToBits (barSize i (nat bar) p)))
               in (copy_at values 0 (drop (offset - barOffset) mask),
                   if barOffset + 4 \<le> offset + length values then p\<lparr>probeSlot := -1, probeBar := 0\<rparr> else p)
             else
               let b = configSpace i p in
               if length b \<le> offset then (absent, p)
               else (copy_at absent 0 (slice b offset (min (offset + length values) (length b) - offset)), p))"

definition put_config :: "nat \<Rightarrow> nat \<Rightarrow> byte list \<Rightarrow> 'd PCI \<Rightarrow> 'd PCI" where
  "put_config i offset values p =
     p\<lparr>configOverride := (configOverride p)(i := \<lambda>off.
        if offset \<le> off \<and> off < offset + length values \<and> off < 256 then Some (values ! (off - offset))
        else configOverride p i off)\<rparr>"

definition put_bar :: "nat \<Rightarrow> nat \<Rightarrow> nat \<Rightarrow> byte list \<Rightarrow> 'd PCI \<Rightarrow> 'd PCI" where
  "put_bar i bar start values p =
     (let raw = copy_at (NumToBytes 4 (ucast (bar_raw i bar p))) start values
      in p\<lparr>barOverride := (barOverride p)(i := (barOverride p i)(bar \<mapsto> ucast (BytesToNum raw)))\<rparr>)"

definition PciConfDataOut :: "u64 \<Rightarrow> byte list \<Rightarrow> 'd PCI \<Rightarrow> 'd PCI" where
  "PciConfDataOut port values p =
     (let offset = conf_offset port p
      in if \<not> isEnable (addr p) \<or> getBusNumber (addr p) \<noteq> 0 then p
         else case conf_function p of
           None \<Rightarrow> p
         | Some i \<Rightarrow>
             let bar = barAtOffset (int offset); barOffset = 0x10 + nat bar * 4 in
             if bar < 0 then put_config i offset values p
             else if offset = barOffset \<and> length values = 4 \<and> BytesToNum values = 0xffffffff
               then p\<lparr>probeSlot := int i, probeBar := nat bar\<rparr>
             else if mmio (devices p ! i) \<and> nat bar = mmioBAR (devices p ! i)
               then put_bar i (nat bar) (offset - barOffset) values p
             else p)"

definition PciConfAddrIn :: "byte list \<Rightarrow> 'd PCI \<Rightarrow> byte list" where
  "PciConfAddrIn values p = (if length values \<noteq> 4 then values else NumToBytes 4 (ucast (addr p)))"

definition PciConfAddrOut :: "byte list \<Rightarrow> 'd PCI \<Rightarrow> 'd PCI" where
  "PciConfAddrOut values p = (if length values \<noteq> 4 then p else p\<lparr>addr := ucast (BytesToNum values)\<rparr>)"

subsection \<open>The chipset funcs\<close>

text \<open>Functions without I/O ports and memory: the host bridge, the IDE controller, and the two UEFI ones.\<close>

definition plain_device :: "'d \<Rightarrow> DeviceHeader \<Rightarrow> 'd Device" where
  "plain_device d h = \<lparr>handle = d, GetDeviceHeader = h, io_Size = 0, modern = None\<rparr>"

definition bridge_header :: DeviceHeader where
  "bridge_header = no_header\<lparr>DeviceID := 0x1237, VendorID := 0x8086, ClassCode := 0x06, SubsystemVendorID := 0x1af4, SubsystemID := 0x1100\<rparr>"

definition ide_header :: DeviceHeader where
  "ide_header = no_header\<lparr>DeviceID := 0x7010, VendorID := 0x8086, ClassCode := 0x01, Subclass := 0x01, Command := 0x1,
     InterruptLine := 14, InterruptPin := 1\<rparr>"

definition isa_header :: DeviceHeader where
  "isa_header = no_header\<lparr>VendorID := 0x8086, DeviceID := 0x7000, ClassCode := 0x06, Subclass := 0x01, HeaderType := 0x80, Command := 0x0007\<rparr>"

definition pm_header :: DeviceHeader where
  "pm_header = no_header\<lparr>VendorID := 0x8086, DeviceID := 0x7113, RevisionID := 0x03, ClassCode := 0x06, Subclass := 0x80,
     InterruptLine := 9, InterruptPin := 1\<rparr>"

definition AddUEFIChipset :: "'d \<Rightarrow> 'd \<Rightarrow> 'd PCI \<Rightarrow> (pci_err + unit) \<times> 'd PCI" where
  "AddUEFIChipset isa pm p =
     (if funcs p 8 \<noteq> None \<or> funcs p 11 \<noteq> None then (Inl ErrDeviceOccupied, p)
      else let p1 = registerAt 1 0 (registerDevice (plain_device isa isa_header)) p;
               p2 = registerAt 1 3 (registerDevice (plain_device pm pm_header)) p1
           in (Inr (), p2\<lparr>configOverride := (configOverride p2)(the (funcs p2 11) := [0x40 \<mapsto> 0x01])\<rparr>))"

section \<open>Lemmas\<close>

subsection \<open>Numbers and bytes\<close>

lemma bytes_from_sum:
  "(\<And>n. 8 * i \<le> n \<Longrightarrow> \<not> bit res n) \<Longrightarrow> bytes_from i xs res = res + of_nat (256 ^ i * le_nat xs)"
proof (induction xs arbitrary: i res)
  case (Cons x xs)
  let ?x = "push_bit (i * 8) (ucast x) :: u64"
  have x: "?x = of_nat (256 ^ i * unat x)"
  proof -
    have "(ucast x :: u64) = of_nat (unat x)" by simp
    moreover have "(2 :: u64) ^ (i * 8) = of_nat (256 ^ i)" by (simp add: mult.commute [of i 8] power_mult)
    ultimately show ?thesis by (simp only: push_bit_eq_mult of_nat_mult mult.commute)
  qed
  have "\<not> bit res n \<or> \<not> bit ?x n" for n
    using Cons.prems [of n] by (cases "8 * i \<le> n") (auto simp: bit_push_bit_iff)
  then have o: "res OR ?x = res + ?x" by (simp add: disjunctive_add)
  have "\<not> bit (res OR ?x) n" if "8 * (i + 1) \<le> n" for n
    using that Cons.prems [of n] by (auto simp: bit_or_iff bit_push_bit_iff bit_ucast_iff dest: bit_imp_le_length)
  then have "bytes_from (i + 1) xs (res OR ?x) = (res OR ?x) + of_nat (256 ^ (i + 1) * le_nat xs)" by (rule Cons.IH)
  then have "bytes_from i (x # xs) res = res + ?x + of_nat (256 ^ (i + 1) * le_nat xs)" by (simp only: bytes_from.simps o)
  also have "\<dots> = res + of_nat (256 ^ i * le_nat (x # xs))" unfolding x by (simp add: algebra_simps)
  finally show ?case .
qed simp

lemma BytesToNum_le: "BytesToNum bs = of_nat (le_nat bs)"
  using bytes_from_sum [of 0 0 bs] by (simp add: BytesToNum_def)

lemma NumToBytes_put_le: "NumToBytes l y = put_le l (unat y)"
proof (induction l arbitrary: y)
  case (Suc l)
  have "unat (drop_bit 8 y) = unat y div 256" by (simp add: drop_bit_eq_div unat_div)
  moreover have "ucast y = (of_nat (unat y) :: byte)" by simp
  ultimately show ?case using Suc by simp
qed simp

lemma ucast_of_nat32: "(ucast (of_nat n :: u64) :: u32) = of_nat n"
  by transfer simp

lemma length_NumToBytes [simp]: "length (NumToBytes l y) = l"
  by (simp add: NumToBytes_put_le)

lemma take_bit_sub2: "take_bit 32 (take_bit 64 n - 2 :: int) = take_bit 32 (n - 2)"
  using take_bit_diff [of 32 "take_bit 64 n" 2] take_bit_diff [of 32 n 2] by simp

lemma SizeToBits_neg: "n \<noteq> 0 \<Longrightarrow> SizeToBits n = - ucast n"
proof -
  assume "n \<noteq> 0"
  have "(ucast (n - 2) :: u32) = ucast n - 2" by transfer (simp add: take_bit_sub2)
  then show ?thesis using \<open>n \<noteq> 0\<close> by (simp add: SizeToBits_def not_eq_complement)
qed

subsection \<open>The registry\<close>

text \<open>
  The address map and the list of devices describe the same functions, no
  function has two of them, the devices fill addresses below \<open>nextSlot\<close>, and every
  header has its six BARs.
\<close>

definition pci_ok :: "'d PCI \<Rightarrow> bool" where
  "pci_ok p \<longleftrightarrow>
     (\<forall>k i. funcs p k = Some i \<longrightarrow> i < length (devices p) \<and> k = slot (devices p ! i) * 8 + func_no (devices p ! i)) \<and>
     (\<forall>i < length (devices p). funcs p (slot (devices p ! i) * 8 + func_no (devices p ! i)) = Some i \<and>
        func_no (devices p ! i) < 8 \<and> slot (devices p ! i) < nextSlot p \<and>
        length (barSizes (devices p ! i)) = 6 \<and> mmioBAR (devices p ! i) < 6) \<and>
     (\<forall>i < length (devices p). \<forall>j < length (devices p). slot (devices p ! i) = slot (devices p ! j) \<longrightarrow> func_no (devices p ! i) = 0 \<longrightarrow>
        func_no (devices p ! j) \<noteq> 0 \<longrightarrow> bit (HeaderType (header (devices p ! i))) 7)"

lemma pci_okD:
  assumes "pci_ok p"
  shows "funcs p k = Some i \<Longrightarrow> i < length (devices p) \<and> k = slot (devices p ! i) * 8 + func_no (devices p ! i)"
    "i < length (devices p) \<Longrightarrow> funcs p (slot (devices p ! i) * 8 + func_no (devices p ! i)) = Some i \<and>
       func_no (devices p ! i) < 8 \<and> slot (devices p ! i) < nextSlot p \<and>
       length (barSizes (devices p ! i)) = 6 \<and> mmioBAR (devices p ! i) < 6"
    "i < length (devices p) \<Longrightarrow> j < length (devices p) \<Longrightarrow> slot (devices p ! i) = slot (devices p ! j) \<Longrightarrow>
       func_no (devices p ! i) = 0 \<Longrightarrow> func_no (devices p ! j) \<noteq> 0 \<Longrightarrow> bit (HeaderType (header (devices p ! i))) 7"
  using assms by (simp_all add: pci_ok_def)

lemma nth_update_cases: "j < length xs \<Longrightarrow> xs[i := v] ! j = (if i = j then v else xs ! j)"
  by (auto simp: nth_list_update)

lemma set_multifunction_simps [simp]:
  "slot (set_multifunction e) = slot e" "func_no (set_multifunction e) = func_no e" "barSizes (set_multifunction e) = barSizes e"
  "mmioBAR (set_multifunction e) = mmioBAR e" "mmio (set_multifunction e) = mmio e" "dev (set_multifunction e) = dev e"
  "bit (HeaderType (header (set_multifunction e))) 7"
  "bit (HeaderType (header (set_multifunction e))) n \<longleftrightarrow> bit (HeaderType (header e)) n \<or> n = 7"
proof -
  have "bit (0x80 :: byte) n \<longleftrightarrow> n = 7" for n
  proof -
    have "(0x80 :: byte) = 2 ^ 7" by simp
    then show ?thesis by (simp only: bit_exp_iff) (auto dest: bit_imp_le_length)
  qed
  then show "bit (HeaderType (header (set_multifunction e))) n \<longleftrightarrow> bit (HeaderType (header e)) n \<or> n = 7"
    "bit (HeaderType (header (set_multifunction e))) 7" by (simp_all add: set_multifunction_def bit_or_iff)
qed (simp_all add: set_multifunction_def)

definition function_key :: "'d registeredDevice \<Rightarrow> nat" where
  "function_key e = slot e * 8 + func_no e"

lemma registerAt_parts:
  assumes "pci_ok p" "fn < 8" "funcs p (sl * 8 + fn) = None"
  obtains ds e where "devices (registerAt sl fn entry p) = ds @ [e]" "length ds = length (devices p)"
    "\<And>i. i < length ds \<Longrightarrow> slot (ds ! i) = slot (devices p ! i) \<and> func_no (ds ! i) = func_no (devices p ! i) \<and>
       barSizes (ds ! i) = barSizes (devices p ! i) \<and> mmioBAR (ds ! i) = mmioBAR (devices p ! i) \<and>
       (bit (HeaderType (header (devices p ! i))) 7 \<longrightarrow> bit (HeaderType (header (ds ! i))) 7)"
    "slot e = sl" "func_no e = fn" "barSizes e = barSizes entry" "mmioBAR e = mmioBAR entry"
    "\<And>i. i < length ds \<Longrightarrow> slot (ds ! i) = sl \<Longrightarrow> func_no (ds ! i) = 0 \<Longrightarrow> fn \<noteq> 0 \<Longrightarrow> bit (HeaderType (header (ds ! i))) 7"
    "\<And>i. i < length ds \<Longrightarrow> slot (ds ! i) = sl \<Longrightarrow> func_no (ds ! i) \<noteq> 0 \<Longrightarrow> fn = 0 \<Longrightarrow> bit (HeaderType (header e)) 7"
    "funcs (registerAt sl fn entry p) = (funcs p)(sl * 8 + fn \<mapsto> length (devices p))"
    "nextSlot (registerAt sl fn entry p) = max (nextSlot p) (sl + 1)"
proof -
  let ?ds = "if fn \<noteq> 0 then (case funcs p (sl * 8) of Some index \<Rightarrow> (devices p)[index := set_multifunction (devices p ! index)] | None \<Rightarrow> devices p)
    else devices p"
  let ?multi = "fn = 0 \<and> (\<exists>f\<in>set [1..<8]. funcs p (sl * 8 + f) \<noteq> None)"
  let ?e = "(if ?multi then set_multifunction entry else entry)\<lparr>slot := sl, func_no := fn\<rparr>"
  have key: "funcs p (slot (devices p ! i) * 8 + func_no (devices p ! i)) = Some i" "func_no (devices p ! i) < 8" if "i < length (devices p)" for i
    using pci_okD(2) [OF assms(1) that] by simp_all
  have ds: "slot (?ds ! i) = slot (devices p ! i) \<and> func_no (?ds ! i) = func_no (devices p ! i) \<and>
       barSizes (?ds ! i) = barSizes (devices p ! i) \<and> mmioBAR (?ds ! i) = mmioBAR (devices p ! i) \<and>
       (bit (HeaderType (header (devices p ! i))) 7 \<longrightarrow> bit (HeaderType (header (?ds ! i))) 7)" if "i < length (devices p)" for i
    using that by (simp add: nth_update_cases split: option.split)
  have parts: "devices (registerAt sl fn entry p) = ?ds @ [?e]" "funcs (registerAt sl fn entry p) = (funcs p)(sl * 8 + fn \<mapsto> length (devices p))"
    "nextSlot (registerAt sl fn entry p) = max (nextSlot p) (sl + 1)"
    by (simp_all add: registerAt_def Let_def split: option.split)
  have len: "length ?ds = length (devices p)" by (simp split: option.split)
  show ?thesis
  proof (rule that [OF parts(1) len _ _ _ _ _ _ _ parts(2,3)])
    fix i assume i: "i < length ?ds" "slot (?ds ! i) = sl" "func_no (?ds ! i) = 0" "fn \<noteq> 0"
    then have "i < length (devices p)" by (auto split: option.splits)
    then have "funcs p (sl * 8) = Some i" using key [of i] ds [of i] i by simp
    then show "bit (HeaderType (header (?ds ! i))) 7" using i(4) \<open>i < length (devices p)\<close> by simp
  next
    fix i assume i: "i < length ?ds" "slot (?ds ! i) = sl" "func_no (?ds ! i) \<noteq> 0" "fn = 0"
    then have l: "i < length (devices p)" by simp
    have "funcs p (sl * 8 + func_no (devices p ! i)) = Some i" "func_no (devices p ! i) \<in> set [1..<8]" using key [OF l] i by auto
    then have "?multi" using i(4) by blast
    then have "?e = (set_multifunction entry)\<lparr>slot := sl, func_no := fn\<rparr>" by (rule arg_cong [OF if_P])
    then show "bit (HeaderType (header ?e)) 7" by (simp only:) (simp add: set_multifunction_simps)
  qed (use ds len in \<open>simp_all\<close>)
qed

lemma registerAt_ok:
  assumes ok: "pci_ok p" and fn: "fn < 8" and free: "funcs p (sl * 8 + fn) = None"
    and entry: "length (barSizes entry) = 6" "mmioBAR entry < 6"
  shows "pci_ok (registerAt sl fn entry p)"
  using ok fn free
proof (cases rule: registerAt_parts [of p fn sl entry])
  case (1 ds e)
  have old: "funcs p k = Some i \<Longrightarrow> i < length ds \<and> k = slot (ds ! i) * 8 + func_no (ds ! i)" for k i
    using pci_okD(1) [OF ok, of k i] 1(2) 1(3) [of i] by simp
  have old2: "funcs p (slot (ds ! i) * 8 + func_no (ds ! i)) = Some i \<and> func_no (ds ! i) < 8 \<and> slot (ds ! i) < nextSlot p \<and>
      length (barSizes (ds ! i)) = 6 \<and> mmioBAR (ds ! i) < 6" if "i < length ds" for i
    using pci_okD(2) [OF ok, of i] 1(2) 1(3) [of i] that by simp
  have old3: "bit (HeaderType (header (ds ! i))) 7"
    if "i < length ds" "j < length ds" "slot (ds ! i) = slot (ds ! j)" "func_no (ds ! i) = 0" "func_no (ds ! j) \<noteq> 0" for i j
    using pci_okD(3) [OF ok, of i j] 1(2) 1(3) [of i] 1(3) [of j] that by simp
  show ?thesis
    unfolding pci_ok_def 1(1,10,11)
  proof (intro conjI allI impI)
    fix k i assume "((funcs p)(sl * 8 + fn \<mapsto> length (devices p))) k = Some i"
    then show "i < length (ds @ [e])" "k = slot ((ds @ [e]) ! i) * 8 + func_no ((ds @ [e]) ! i)"
      using old [of k i] 1(2,4,5) by (auto simp: nth_append split: if_splits)
  next
    fix i assume i: "i < length (ds @ [e])"
    let ?x = "(ds @ [e]) ! i"
    show "((funcs p)(sl * 8 + fn \<mapsto> length (devices p))) (slot ?x * 8 + func_no ?x) = Some i"
      using i 1(2,4,5) old2 [of i] free by (cases "i < length ds") (auto simp: nth_append)
    show "func_no ?x < 8" "slot ?x < max (nextSlot p) (sl + 1)" "length (barSizes ?x) = 6" "mmioBAR ?x < 6"
      using i 1(2,4-7) old2 [of i] fn entry by (auto simp: nth_append)
  next
    fix i j assume "i < length (ds @ [e])" "j < length (ds @ [e])" "slot ((ds @ [e]) ! i) = slot ((ds @ [e]) ! j)"
      "func_no ((ds @ [e]) ! i) = 0" "func_no ((ds @ [e]) ! j) \<noteq> 0"
    then show "bit (HeaderType (header ((ds @ [e]) ! i))) 7"
      using old3 [of i j] 1(4,5) 1(8) [of i] 1(9) [of j] by (auto simp: nth_append split: if_splits)
  qed
qed

lemma registerDevice_ok [simp]: "length (barSizes (registerDevice d)) = 6" "mmioBAR (registerDevice d) < 6"
  by (auto simp: registerDevice_def Let_def split: option.splits prod.splits nat.split)

lemma nextSlot_free:
  assumes "pci_ok p" shows "funcs p (nextSlot p * 8) = None"
proof (rule ccontr)
  assume "funcs p (nextSlot p * 8) \<noteq> None"
  then obtain i where i: "funcs p (nextSlot p * 8) = Some i" by blast
  show False using pci_okD(1) [OF assms i] pci_okD(2) [OF assms, of i] by auto
qed

lemma AddDevices_ok: "pci_ok p \<Longrightarrow> pci_ok (AddDevices ds p)"
proof (induction ds arbitrary: p)
  case (Cons d ds)
  have "pci_ok (registerAt (nextSlot p) 0 (registerDevice d) p)"
    using registerAt_ok [OF Cons.prems, of 0] nextSlot_free [OF Cons.prems] by simp
  then show ?case using Cons.IH by (simp add: AddDevices_def)
qed (simp add: AddDevices_def)

lemma AddDeviceAt_ok:
  assumes "pci_ok p" "AddDeviceAt sl fn d p = (r, p')" shows "pci_ok p'"
proof (cases r)
  case (Inl e)
  then have "p' = p" using assms(2) by (auto simp: AddDeviceAt_def split: if_splits option.splits)
  then show ?thesis using assms(1) by simp
next
  case (Inr u)
  then obtain e where e: "0 \<le> sl" "0 \<le> fn" "fn < 8" "funcs p (nat (sl * 8 + fn)) = None" "p' = registerAt (nat sl) (nat fn) (registerDevice e) p"
    using assms(2) by (auto simp: AddDeviceAt_def split: if_splits option.splits)
  moreover from e have "nat (sl * 8 + fn) = nat sl * 8 + nat fn" by (simp add: nat_add_distrib nat_mult_distrib)
  ultimately show ?thesis using registerAt_ok [OF assms(1), of "nat fn" "nat sl"] by simp
qed

lemma pci_ok_overrides: "pci_ok (p\<lparr>configOverride := c\<rparr>) = pci_ok p" "pci_ok (p\<lparr>barOverride := b\<rparr>) = pci_ok p"
    "pci_ok (p\<lparr>probeSlot := s, probeBar := n\<rparr>) = pci_ok p" "pci_ok (p\<lparr>addr := a\<rparr>) = pci_ok p"
  by (simp_all add: pci_ok_def)

lemma AddUEFIChipset_ok:
  assumes "pci_ok p" "AddUEFIChipset isa pm p = (r, p')" shows "pci_ok p'"
proof (cases "funcs p 8 \<noteq> None \<or> funcs p 11 \<noteq> None")
  case True
  then show ?thesis using assms by (auto simp: AddUEFIChipset_def)
next
  case False
  let ?p1 = "registerAt 1 0 (registerDevice (plain_device isa isa_header)) p"
  have p1: "pci_ok ?p1" using registerAt_ok [OF assms(1), of 0 1] False by simp
  have "funcs ?p1 = (funcs p)(8 \<mapsto> length (devices p))" by (simp add: registerAt_def Let_def)
  then have "pci_ok (registerAt 1 3 (registerDevice (plain_device pm pm_header)) ?p1)"
    using registerAt_ok [OF p1, of 3 1] False by simp
  then show ?thesis using assms(2) False by (auto simp: AddUEFIChipset_def Let_def pci_ok_overrides)
qed

lemma PciConfDataIn_ok: "pci_ok p \<Longrightarrow> pci_ok (snd (PciConfDataIn port values p))"
  by (simp add: PciConfDataIn_def Let_def pci_ok_overrides split: option.split)

lemma PciConfDataOut_ok: "pci_ok p \<Longrightarrow> pci_ok (PciConfDataOut port values p)"
  by (simp add: PciConfDataOut_def Let_def put_config_def put_bar_def pci_ok_overrides split: option.split)

text \<open>What can happen to the bus: registrations by the machine, and accesses to its ports by the guest.\<close>

inductive pci_step :: "'d PCI \<Rightarrow> 'd PCI \<Rightarrow> bool" where
  add: "pci_step p (AddDevices ds p)"
| add_at: "AddDeviceAt sl fn d p = (r, p') \<Longrightarrow> pci_step p p'"
| chipset: "AddUEFIChipset isa pm p = (r, p') \<Longrightarrow> pci_step p p'"
| data_in: "pci_step p (snd (PciConfDataIn port values p))"
| data_out: "pci_step p (PciConfDataOut port values p)"
| addr_out: "pci_step p (PciConfAddrOut values p)"

lemma pci_step_ok: "pci_step p p' \<Longrightarrow> pci_ok p \<Longrightarrow> pci_ok p'"
  by (induction rule: pci_step.induct)
    (auto simp: PciConfAddrOut_def pci_ok_overrides intro: AddDevices_ok AddDeviceAt_ok AddUEFIChipset_ok PciConfDataIn_ok PciConfDataOut_ok)

lemma New_ok: "pci_ok (New ds)"
  unfolding New_def by (rule AddDevices_ok) (simp add: pci_ok_def new_bus_def)

subsection \<open>The address register\<close>

lemma mask_consts: "(0x7 :: u32) = mask 3" "(0x1f :: u32) = mask 5" "(0xff :: u32) = mask 8" "(0x7fffffff :: u32) = mask 31"
    "(0xfc :: u32) = push_bit 2 (mask 6)"
  by (simp_all add: mask_eq_exp_minus_1)

lemma unat_field: "unat (drop_bit m (a :: u32) AND mask n) = unat a div 2 ^ m mod 2 ^ n"
proof -
  have "drop_bit m a AND mask n = take_bit n (drop_bit m a)" by (simp add: take_bit_eq_mask)
  moreover have "take_bit LENGTH(32) (unat a) = unat a" by (rule take_bit_nat_eq_self) (rule unsigned_less)
  ultimately show ?thesis by (simp only: unsigned_take_bit_eq unsigned_drop_bit_eq) (simp add: take_bit_eq_mod drop_bit_eq_div)
qed

lemma register_offset: "unat (getRegisterOffset a) = unat a div 4 mod 64 * 4"
proof -
  have "bit a (Suc (Suc (n - 2))) = bit a n" if "2 \<le> n" for n using that by (metis Suc_diff_le diff_Suc_Suc Suc_1 diff_Suc_1 le_add_diff_inverse2 add_2_eq_Suc')
  then have "a AND push_bit 2 (mask 6) = push_bit 2 (take_bit 6 (drop_bit 2 a))"
    by (intro bit_word_eqI) (auto simp: bit_simps)
  moreover have x: "unat (take_bit 6 (drop_bit 2 a)) = unat a div 4 mod 64" using unat_field [of 2 a 6] by (simp add: take_bit_eq_mask)
  have "unat a div 4 mod 64 < 64" by simp
  then have "unat a div 4 mod 64 * 4 < 2 ^ 32" by simp
  then have "unat (push_bit 2 (take_bit 6 (drop_bit 2 a))) = unat a div 4 mod 64 * 4"
    unfolding push_bit_eq_mult unat_word_ariths(2) x by simp
  ultimately show ?thesis by (simp add: getRegisterOffset_def mask_consts)
qed

text \<open>The value of the address register that selects a register of a function.\<close>

definition config_address :: "nat \<Rightarrow> nat \<Rightarrow> nat \<Rightarrow> u32" where
  "config_address sl fn off = of_nat (2 ^ 31 + sl * 2 ^ 11 + fn * 2 ^ 8 + off)"

lemma config_address_fields:
  assumes "sl < 32" "fn < 8" "off < 256" "off mod 4 = 0"
  shows "unat (getRegisterOffset (config_address sl fn off)) = off" "getBusNumber (config_address sl fn off) = 0"
    "unat (getDeviceNumber (config_address sl fn off) * 8 + getFunctionNumber (config_address sl fn off)) = sl * 8 + fn"
proof -
  let ?a = "config_address sl fn off" and ?n = "2 ^ 31 + sl * 2 ^ 11 + fn * 2 ^ 8 + off"
  have "?n < 2 ^ LENGTH(32)" using assms by simp
  then have a: "unat ?a = ?n" unfolding config_address_def unat_of_nat by (rule mod_less)
  have "?n div 4 = 64 * (8388608 + sl * 8 + fn) + off div 4" by simp
  then have "?n div 4 mod 64 = off div 4" using assms(3) by (simp only: mod_mult_self4) (simp add: less_mult_imp_div_less)
  then have o: "?n div 4 mod 64 * 4 = off" using assms(4) div_mult_mod_eq [of off 4] by (simp only: add_0_right)
  show "unat (getRegisterOffset ?a) = off" using register_offset [of ?a] a o by simp
  have "?n div 2 ^ 11 = 32 * 32768 + sl" "?n div 2 ^ 8 = 8 * (1048576 + sl) + fn" "?n div 2 ^ 16 = 256 * 128"
    using assms by (intro div_nat_eqI; simp)+
  moreover have "(32 * 32768 + sl) mod 2 ^ 5 = sl" "(8 * (1048576 + sl) + fn) mod 2 ^ 3 = fn"
    using mod_mult_self4 [of 32 32768 sl] mod_mult_self4 [of 8 "1048576 + sl" fn] assms(1,2) by simp_all
  ultimately have d: "?n div 2 ^ 11 mod 2 ^ 5 = sl" and f: "?n div 2 ^ 8 mod 2 ^ 3 = fn" and b: "?n div 2 ^ 16 mod 2 ^ 8 = 0"
    by (simp_all only:) simp
  have "unat (getBusNumber ?a) = 0" using unat_field [of 16 ?a 8] a b by (simp add: getBusNumber_def mask_consts)
  then show "getBusNumber ?a = 0" by (simp add: unat_eq_0)
  have "unat (getDeviceNumber ?a) = sl" "unat (getFunctionNumber ?a) = fn"
    using unat_field [of 11 ?a 5] unat_field [of 8 ?a 3] a d f by (simp_all add: getDeviceNumber_def getFunctionNumber_def mask_consts)
  then show "unat (getDeviceNumber ?a * 8 + getFunctionNumber ?a) = sl * 8 + fn"
    using assms by (simp add: unat_word_ariths)
qed

lemma isEnable_always: "isEnable a"
proof -
  have "drop_bit 31 a AND mask 1 = drop_bit 31 a" by (intro bit_word_eqI) (auto simp: bit_simps dest: bit_imp_le_length)
  then have "unat (drop_bit 31 a) < 2" using unat_field [of 31 a 1] by simp
  then have "unat (drop_bit 31 a) = 0 \<or> unat (drop_bit 31 a) = 1" by linarith
  then have "drop_bit 31 a = 0 \<or> drop_bit 31 a = 1" unfolding word_unat_eq_iff by simp
  then show ?thesis by (auto simp: isEnable_def)
qed

subsection \<open>The configuration space\<close>

lemma nth_chunks:
  assumes "b < length xs" "k < 4" shows "concat (map (\<lambda>b. put_le 4 (f b)) xs) ! (4 * b + k) = put_le 4 (f (xs ! b)) ! k"
  using assms
proof (induction xs arbitrary: b)
  case (Cons x xs)
  then show ?case by (cases b) (simp_all add: nth_append)
qed simp

lemma length_chunks [simp]: "length (concat (map (\<lambda>b. put_le 4 (f b)) xs)) = 4 * length xs"
  by (induction xs) simp_all

lemma length_header_bytes: "length (BAR h) = 6 \<Longrightarrow> length (header_bytes h) = 64"
  by (simp add: header_bytes_def)

lemma header_bytes_bar:
  assumes "length (BAR h) = 6" "b < 6" "k < 4" shows "header_bytes h ! (16 + (4 * b + k)) = put_le 4 (unat (BAR h ! b)) ! k"
proof -
  let ?pre = "put_le 2 (unat (VendorID h)) @ put_le 2 (unat (DeviceID h)) @ put_le 2 (unat (Command h)) @ put_le 2 (unat (Status h))
     @ [RevisionID h, ProgIF h, Subclass h, ClassCode h, 0, 0, HeaderType h, 0]"
  let ?bars = "concat (map (\<lambda>b. put_le 4 (unat b)) (BAR h))"
  obtain rest where h: "header_bytes h = ?pre @ ?bars @ rest" by (simp add: header_bytes_def)
  have "length ?pre = 16" by simp
  then have "header_bytes h ! (16 + (4 * b + k)) = (?bars @ rest) ! (4 * b + k)" unfolding h by (metis nth_append_length_plus)
  also have "\<dots> = put_le 4 (unat (BAR h ! b)) ! k" using nth_chunks [of b "BAR h" k unat] assms by (simp add: nth_append)
  finally show ?thesis .
qed

text \<open>The image after the first \<open>n\<close> BAR overrides.\<close>

definition put_bars :: "(nat \<rightharpoonup> u32) \<Rightarrow> nat \<Rightarrow> byte list \<Rightarrow> byte list" where
  "put_bars ov n cfg = fold (\<lambda>bar cfg. case ov bar of
     None \<Rightarrow> cfg | Some v \<Rightarrow> copy_at cfg (0x10 + bar * 4) (NumToBytes 4 (ucast v))) [0..<n] cfg"

lemma put_bars_nth:
  assumes "length cfg = 256" "n \<le> 6"
  shows "length (put_bars ov n cfg) = 256 \<and> (\<forall>off < 256. put_bars ov n cfg ! off =
    (if 16 \<le> off \<and> off < 16 + 4 * n then
       (case ov ((off - 16) div 4) of None \<Rightarrow> cfg ! off | Some v \<Rightarrow> NumToBytes 4 (ucast v) ! ((off - 16) mod 4)) else cfg ! off))"
  using assms(2)
proof (induction n)
  case 0
  then show ?case using assms(1) by (auto simp: put_bars_def)
next
  case (Suc n)
  let ?c = "put_bars ov n cfg"
  have IH: "length ?c = 256" "\<And>off. off < 256 \<Longrightarrow> ?c ! off = (if 16 \<le> off \<and> off < 16 + 4 * n then
       (case ov ((off - 16) div 4) of None \<Rightarrow> cfg ! off | Some v \<Rightarrow> NumToBytes 4 (ucast v) ! ((off - 16) mod 4)) else cfg ! off)"
    using Suc by simp_all
  have s: "put_bars ov (Suc n) cfg = (case ov n of None \<Rightarrow> ?c | Some v \<Rightarrow> copy_at ?c (16 + n * 4) (NumToBytes 4 (ucast v)))"
    by (simp add: put_bars_def split: option.split)
  have split_off: "16 \<le> off \<and> off < 16 + 4 * Suc n \<longleftrightarrow> (16 \<le> off \<and> off < 16 + 4 * n) \<or> (16 + n * 4 \<le> off \<and> off < 16 + n * 4 + 4)" for off
    by auto
  have here: "(off - 16) div 4 = n \<and> off - (16 + n * 4) = (off - 16) mod 4" if "16 + n * 4 \<le> off" "off < 16 + n * 4 + 4" for off
  proof -
    have "off = 16 + n * 4 + (off - (16 + n * 4))" "off - (16 + n * 4) < 4" using \<open>16 + n * 4 \<le> off\<close> \<open>off < 16 + n * 4 + 4\<close> by simp_all
    then obtain k where "off = 16 + n * 4 + k" "k < 4" by blast
    then show ?thesis by simp
  qed
  show ?case
  proof (intro conjI allI impI)
    show "length (put_bars ov (Suc n) cfg) = 256" using IH(1) Suc.prems by (simp add: s split: option.split)
    fix off :: nat assume o: "off < 256"
    show "put_bars ov (Suc n) cfg ! off = (if 16 \<le> off \<and> off < 16 + 4 * Suc n then
       (case ov ((off - 16) div 4) of None \<Rightarrow> cfg ! off | Some v \<Rightarrow> NumToBytes 4 (ucast v) ! ((off - 16) mod 4)) else cfg ! off)"
    proof (cases "16 + n * 4 \<le> off \<and> off < 16 + n * 4 + 4")
      case True
      then have h: "(off - 16) div 4 = n" "off - (16 + n * 4) = (off - 16) mod 4" using here [of off] by simp_all
      show ?thesis using True o IH(1) IH(2) [OF o] by (simp add: s nth_copy_at h split: option.split)
    next
      case False
      then have "put_bars ov (Suc n) cfg ! off = ?c ! off" using o IH(1) Suc.prems by (auto simp: s nth_copy_at split: option.split)
      then show ?thesis unfolding split_off using False IH(2) [OF o] by (simp only: simp_thms)
    qed
  qed
qed

definition base_image :: "nat \<Rightarrow> 'd PCI \<Rightarrow> byte list" where
  "base_image i p = copy_at (copy_at (replicate 256 0) 0 (header_bytes (header (devices p ! i)))) 0x40 (caps (devices p ! i))"

lemma length_base_image [simp]: "length (base_image i p) = 256"
  by (simp add: base_image_def)

lemma configSpace_bars:
  "configSpace i p = map (\<lambda>off. case configOverride p i off of None \<Rightarrow> put_bars (barOverride p i) 6 (base_image i p) ! off | Some v \<Rightarrow> v) [0..<256]"
  unfolding configSpace_def put_bars_def base_image_def Let_def ..

lemma length_configSpace [simp]: "length (configSpace i p) = 256"
  by (simp add: configSpace_bars)

lemma configSpace_bar:
  assumes "length (BAR (header (devices p ! i))) = 6" "bar < 6" "\<And>k. k < 4 \<Longrightarrow> configOverride p i (16 + bar * 4 + k) = None"
  shows "slice (configSpace i p) (16 + bar * 4) 4 = NumToBytes 4 (ucast (bar_raw i bar p))"
proof (rule nth_equalityI)
  show "length (slice (configSpace i p) (16 + bar * 4) 4) = length (NumToBytes 4 (ucast (bar_raw i bar p)))"
    using assms(2) by (simp add: length_slice)
  fix k assume "k < length (slice (configSpace i p) (16 + bar * 4) 4)"
  then have k: "k < 4" by (simp add: slice_def)
  let ?off = "16 + bar * 4 + k"
  have off: "?off < 256" "16 \<le> ?off \<and> ?off < 16 + 4 * 6" "(?off - 16) div 4 = bar" "(?off - 16) mod 4 = k" using k assms(2) by simp_all
  have base: "base_image i p ! ?off = put_le 4 (unat (BAR (header (devices p ! i)) ! bar)) ! k"
    using off assms(1) k header_bytes_bar [OF assms(1,2) k] assms(2)
    by (simp add: base_image_def nth_copy_at length_header_bytes algebra_simps)
  have "slice (configSpace i p) (16 + bar * 4) 4 ! k = configSpace i p ! ?off" using k assms(2) by (simp add: nth_slice)
  also have "\<dots> = put_bars (barOverride p i) 6 (base_image i p) ! ?off" using off(1) assms(3) [OF k] by (simp add: configSpace_bars)
  also have "\<dots> = (case barOverride p i bar of None \<Rightarrow> base_image i p ! ?off | Some v \<Rightarrow> NumToBytes 4 (ucast v) ! k)"
    by (subst put_bars_nth [THEN conjunct2, rule_format, OF _ _ off(1)]) (simp_all only: length_base_image off(2-4) if_True order_refl simp_thms)
  also have "\<dots> = NumToBytes 4 (ucast (bar_raw i bar p)) ! k"
    using base by (simp add: bar_raw_def NumToBytes_put_le unat_up32 split: option.split)
  finally show "slice (configSpace i p) (16 + bar * 4) 4 ! k = NumToBytes 4 (ucast (bar_raw i bar p)) ! k" .
qed

subsection \<open>Accesses to a selected register\<close>

text \<open>The address register selects register \<open>off\<close> of the device with index \<open>i\<close>.\<close>

definition selects :: "'d PCI \<Rightarrow> nat \<Rightarrow> nat \<Rightarrow> bool" where
  "selects p i off \<longleftrightarrow> getBusNumber (addr p) = 0 \<and> conf_function p = Some i \<and> unat (getRegisterOffset (addr p)) = off"

lemma conf_offset_CFC [simp]: "conf_offset 0xCFC p = unat (getRegisterOffset (addr p))"
  by (simp add: conf_offset_def)

lemma selects_address:
  assumes "pci_ok p" "i < length (devices p)" "slot (devices p ! i) < 32" "off < 256" "off mod 4 = 0"
  shows "selects (PciConfAddrOut (NumToBytes 4 (ucast (config_address (slot (devices p ! i)) (func_no (devices p ! i)) off))) p) i off"
proof -
  let ?a = "config_address (slot (devices p ! i)) (func_no (devices p ! i)) off"
  note D = pci_okD(2) [OF assms(1,2)]
  have "unat ?a < 2 ^ LENGTH(32)" by (rule unsigned_less)
  then have "le_nat (NumToBytes 4 (ucast ?a)) = unat ?a" by (simp add: NumToBytes_put_le unat_up32 le_nat_put_le)
  then have "ucast (BytesToNum (NumToBytes 4 (ucast ?a))) = ?a" by (simp only: BytesToNum_le ucast_of_nat32) simp
  then show ?thesis using config_address_fields [of "slot (devices p ! i)" "func_no (devices p ! i)" off] D assms(3-5)
    by (simp add: selects_def PciConfAddrOut_def conf_function_def)
qed

lemma bar_register: "bar < 6 \<Longrightarrow> barAtOffset (int (16 + bar * 4)) = int bar"
  by (auto simp: barAtOffset_def)

text \<open>No pending size probe and no configuration byte shadows the BAR.\<close>

definition bar_quiet :: "'d PCI \<Rightarrow> nat \<Rightarrow> nat \<Rightarrow> bool" where
  "bar_quiet p i bar \<longleftrightarrow> \<not> (probeSlot p = int i \<and> probeBar p = bar) \<and> (\<forall>k < 4. configOverride p i (16 + bar * 4 + k) = None)"

lemma read_bar:
  assumes "selects p i (16 + bar * 4)" "bar < 6" "bar_quiet p i bar" "length (BAR (header (devices p ! i))) = 6" "length buf = 4"
  shows "PciConfDataIn 0xCFC buf p = (NumToBytes 4 (ucast (bar_raw i bar p)), p)"
proof -
  have s: "slice (configSpace i p) (16 + bar * 4) 4 = NumToBytes 4 (ucast (bar_raw i bar p))"
    using configSpace_bar assms(2-4) by (auto simp: bar_quiet_def)
  have "copy_at (replicate 4 0xff) 0 (NumToBytes 4 x) = NumToBytes 4 x" for x by (simp add: copy_at_def)
  then show ?thesis
    using assms s isEnable_always [of "addr p"] bar_register [OF assms(2)]
    by (auto simp: PciConfDataIn_def selects_def bar_quiet_def Let_def)
qed

lemma ones_num: "BytesToNum [0xff, 0xff, 0xff, 0xff] = 0xffffffff"
  by (simp add: BytesToNum_le)

lemma probe_bar:
  assumes "selects p i (16 + bar * 4)" "bar < 6"
  shows "PciConfDataOut 0xCFC [0xff, 0xff, 0xff, 0xff] p = p\<lparr>probeSlot := int i, probeBar := bar\<rparr>"
  using assms isEnable_always [of "addr p"] bar_register [OF assms(2)] ones_num by (simp add: PciConfDataOut_def selects_def Let_def)

lemma read_probe:
  assumes "selects p i (16 + bar * 4)" "bar < 6" "probeSlot p = int i" "probeBar p = bar" "length buf = 4"
  shows "PciConfDataIn 0xCFC buf p = (NumToBytes 4 (ucast (SizeToBits (barSize i bar p))), p\<lparr>probeSlot := -1, probeBar := 0\<rparr>)"
proof -
  have "copy_at buf 0 (NumToBytes 4 x) = NumToBytes 4 x" for x using assms(5) by (simp add: copy_at_def)
  then show ?thesis using assms isEnable_always [of "addr p"] bar_register [OF assms(2)] by (simp add: PciConfDataIn_def selects_def Let_def)
qed

lemma u32_bytes: "length vs = 4 \<Longrightarrow> NumToBytes 4 (ucast (ucast (BytesToNum vs) :: u32)) = vs"
proof -
  assume l: "length vs = 4"
  have n: "le_nat vs < 2 ^ 32" using le_nat_less [of vs] l by simp
  have "unat (ucast (BytesToNum vs) :: u32) = le_nat vs" using n by (simp only: BytesToNum_le ucast_of_nat32 unat_of_nat) simp
  then show ?thesis using l by (simp add: NumToBytes_put_le unat_up32 put_le_le_nat)
qed

lemma write_bar:
  assumes "selects p i (16 + bar * 4)" "bar < 6" "mmio (devices p ! i)" "mmioBAR (devices p ! i) = bar" "length vs = 4"
    "vs \<noteq> [0xff, 0xff, 0xff, 0xff]"
  shows "PciConfDataOut 0xCFC vs p = p\<lparr>barOverride := (barOverride p)(i := (barOverride p i)(bar \<mapsto> ucast (BytesToNum vs)))\<rparr>"
proof -
  have "BytesToNum vs \<noteq> 0xffffffff"
  proof
    assume "BytesToNum vs = 0xffffffff"
    then have "vs = NumToBytes 4 (ucast (0xffffffff :: u32))" using u32_bytes [OF assms(5)] by simp
    also have "\<dots> = [0xff, 0xff, 0xff, 0xff]" using u32_bytes [of "[0xff, 0xff, 0xff, 0xff]"] by (simp add: ones_num)
    finally show False using assms(6) by simp
  qed
  moreover have "copy_at (NumToBytes 4 x) 0 vs = vs" for x using assms(5) by (simp add: copy_at_def)
  ultimately show ?thesis using assms isEnable_always [of "addr p"] bar_register [OF assms(2)]
    by (simp add: PciConfDataOut_def selects_def put_bar_def Let_def)
qed

subsection \<open>Lookup\<close>

text \<open>The device with index \<open>i\<close> decodes the address.\<close>

definition decodes :: "'d PCI \<Rightarrow> nat \<Rightarrow> u64 \<Rightarrow> bool" where
  "decodes p i a \<longleftrightarrow> mmio (devices p ! i) \<and> barBase i (mmioBAR (devices p ! i)) p \<le> a \<and>
     a - barBase i (mmioBAR (devices p ! i)) p < barSizes (devices p ! i) ! mmioBAR (devices p ! i)"

lemma lookup_from_first:
  assumes "i + length es = length (devices p)" "es = drop i (devices p)"
  shows "lookup_from a p i es = (case filter (\<lambda>j. decodes p j a) [i..<length (devices p)] of
     [] \<Rightarrow> None | j # _ \<Rightarrow> Some (dev (devices p ! j), a - barBase j (mmioBAR (devices p ! j)) p))"
  using assms
proof (induction es arbitrary: i)
  case (Cons e es)
  have l: "i < length (devices p)" using Cons.prems(1) by simp
  then have i: "devices p ! i = e" "es = drop (Suc i) (devices p)" using trans [OF Cons.prems(2) Cons_nth_drop_Suc [OF l, symmetric]] by simp_all
  with l show ?case using Cons.IH [of "Suc i"] Cons.prems(1) by (auto simp: upt_conv_Cons decodes_def Let_def)
qed simp

lemma LookupMMIO_first:
  "LookupMMIO a p = (case filter (\<lambda>j. decodes p j a) [0..<length (devices p)] of
     [] \<Rightarrow> None | j # _ \<Rightarrow> Some (dev (devices p ! j), a - barBase j (mmioBAR (devices p ! j)) p))"
  unfolding LookupMMIO_def by (rule lookup_from_first) simp_all

lemma and_not_disjoint:
  assumes "(a :: u32) AND m = 0" shows "a AND NOT m = a"
proof -
  have "\<not> (bit a n \<and> bit m n)" for n using assms by (metis bit_and_iff bit_0_eq bot_apply bot_bool_def)
  then show ?thesis by (intro bit_word_eqI) (auto simp: bit_and_iff bit_not_iff)
qed

lemma aligned_base:
  assumes "(base :: u32) AND 0xf = 0" shows "base AND 0x1 = 0" "base AND NOT 0xf = base"
proof -
  have "base AND 0x1 = (base AND 0xf) AND 0x1" by (simp add: and.assoc)
  then show "base AND 0x1 = 0" unfolding assms by simp
  show "base AND NOT 0xf = base" using assms by (rule and_not_disjoint)
qed

text \<open>A base address written to the memory BAR of the selected device: what it changes, and where the devices answer then.\<close>

lemma bar_moved:
  fixes base :: u32
  assumes "selects p i (16 + mmioBAR (devices p ! i) * 4)" "mmio (devices p ! i)" "mmioBAR (devices p ! i) < 6" "base AND 0xf = 0"
  shows "PciConfDataOut 0xCFC (NumToBytes 4 (ucast base)) p = p\<lparr>barOverride := (barOverride p)(i := (barOverride p i)(mmioBAR (devices p ! i) \<mapsto> base))\<rparr>"
proof -
  let ?vs = "NumToBytes 4 (ucast base)"
  have "ucast (BytesToNum ?vs) = base"
  proof -
    have "unat base < 2 ^ LENGTH(32)" by (rule unsigned_less)
    then have "le_nat ?vs = unat base" by (simp add: NumToBytes_put_le unat_up32 le_nat_put_le)
    then show ?thesis by (simp only: BytesToNum_le ucast_of_nat32) simp
  qed
  moreover have "?vs \<noteq> [0xff, 0xff, 0xff, 0xff]"
  proof
    assume "?vs = [0xff, 0xff, 0xff, 0xff]"
    then have "base = ucast (0xffffffff :: u64)" using \<open>ucast (BytesToNum ?vs) = base\<close> ones_num by simp
    then show False using assms(4) by simp
  qed
  ultimately show ?thesis using write_bar [OF assms(1,3,2) refl, of ?vs] by simp
qed

lemma moved_base:
  assumes "p' = p\<lparr>barOverride := (barOverride p)(i := (barOverride p i)(mmioBAR (devices p ! i) \<mapsto> base))\<rparr>"
  shows "base AND 0xf = 0 \<Longrightarrow> barBase i (mmioBAR (devices p ! i)) p' = ucast base" "j \<noteq> i \<Longrightarrow> barBase j bar p' = barBase j bar p"
proof -
  show "barBase i (mmioBAR (devices p ! i)) p' = ucast base" if "base AND 0xf = 0"
    using aligned_base [OF that] assms by (simp add: barBase_def bar_raw_def)
  have "bar_raw j bar p' = bar_raw j bar p" if "j \<noteq> i" using that by (simp add: assms bar_raw_def split: option.split)
  then show "j \<noteq> i \<Longrightarrow> barBase j bar p' = barBase j bar p" by (simp add: barBase_def)
qed

lemma moved_lookup:
  fixes base :: u32
  assumes p': "p' = p\<lparr>barOverride := (barOverride p)(i := (barOverride p i)(mmioBAR (devices p ! i) \<mapsto> base))\<rparr>"
    and "mmio (devices p ! i)" "i < length (devices p)" "base AND 0xf = 0" "n < barSizes (devices p ! i) ! mmioBAR (devices p ! i)"
    "ucast base \<le> (ucast base + n :: u64)" "\<forall>j < i. \<not> decodes p j (ucast base + n)"
  shows "LookupMMIO (ucast base + n) p' = Some (dev (devices p ! i), n)"
proof -
  note window = moved_base(1) [OF p' assms(4)] and same = moved_base(2) [OF p']
  have dev: "devices p' = devices p" using p' by simp
  have "\<not> decodes p' j (ucast base + n)" if "j < i" for j using assms(7) that same [of j] dev by (simp add: decodes_def)
  then have "filter (\<lambda>j. decodes p' j (ucast base + n)) [0..<i] = []" by (simp add: filter_empty_conv)
  moreover have "decodes p' i (ucast base + n)" using assms(2,5,6) window dev by (simp add: decodes_def)
  moreover have "[0..<length (devices p')] = [0..<i] @ i # [Suc i..<length (devices p')]"
    using assms(3) dev by (metis le_add_diff_inverse less_imp_le upt_add_eq_append upt_conv_Cons zero_le)
  ultimately show ?thesis using window dev by (simp add: LookupMMIO_first)
qed

section \<open>Properties\<close>

text \<open>
  C20. The registry of the bus in every state it can reach, whatever the machine registers and
  the guest writes: the address map finds exactly the registered functions, no two
  devices share an address, and a device that shares its slot with another function
  shows the multifunction bit in function 0, without which a guest would not look for the others.
\<close>

theorem pci_registry:
  assumes "pci_step\<^sup>*\<^sup>* (New ds) p"
  shows "(\<forall>k i. funcs p k = Some i \<longleftrightarrow> i < length (devices p) \<and> k = slot (devices p ! i) * 8 + func_no (devices p ! i)) \<and>
    distinct (map (\<lambda>(s, f, d). (s, f)) (Functions p)) \<and>
    (\<forall>i < length (devices p). \<forall>j < length (devices p). slot (devices p ! i) = slot (devices p ! j) \<and>
       func_no (devices p ! i) = 0 \<and> func_no (devices p ! j) \<noteq> 0 \<longrightarrow> bit (HeaderType (header (devices p ! i))) 7)"
proof -
  have ok: "pci_ok p" using assms by (induction rule: rtranclp_induct) (auto intro: pci_step_ok New_ok)
  have "funcs p k = Some i \<longleftrightarrow> i < length (devices p) \<and> k = slot (devices p ! i) * 8 + func_no (devices p ! i)" for k i
    using pci_okD(1) [OF ok, of k i] pci_okD(2) [OF ok, of i] by auto
  moreover have "distinct (map (\<lambda>(s, f, d). (s, f)) (Functions p))"
  proof -
    have "i = j" if "i < length (devices p)" "j < length (devices p)" "slot (devices p ! i) = slot (devices p ! j)"
        "func_no (devices p ! i) = func_no (devices p ! j)" for i j
    proof -
      have "Some i = funcs p (slot (devices p ! i) * 8 + func_no (devices p ! i))" using pci_okD(2) [OF ok that(1)] by simp
      also have "\<dots> = funcs p (slot (devices p ! j) * 8 + func_no (devices p ! j))" by (simp only: that(3,4))
      also have "\<dots> = Some j" using pci_okD(2) [OF ok that(2)] by simp
      finally show ?thesis by simp
    qed
    then show ?thesis by (auto simp: Functions_def distinct_conv_nth comp_def)
  qed
  moreover have "bit (HeaderType (header (devices p ! i))) 7" if "i < length (devices p)" "j < length (devices p)"
      "slot (devices p ! i) = slot (devices p ! j) \<and> func_no (devices p ! i) = 0 \<and> func_no (devices p ! j) \<noteq> 0" for i j
    using pci_okD(3) [OF ok that(1,2)] that(3) by simp
  ultimately show ?thesis by simp
qed

definition sample_bus :: "nat PCI" where
  "sample_bus = New [plain_device 0 bridge_header,
     \<lparr>handle = 1, GetDeviceHeader = no_header\<lparr>BAR := [0xd0010000, 0, 0, 0, 0, 0]\<rparr>, io_Size = 0, modern = Some ([], 0, 0x4000)\<rparr>]"

theorem pci_registry_witness:
  "\<exists>p. AddUEFIChipset 7 8 (New [plain_device (0 :: nat) bridge_header]) = (Inr (), p) \<and>
     map (\<lambda>(s, f, d). (s, f)) (Functions p) = [(0, 0), (1, 0), (1, 3)] \<and> bit (HeaderType (header (devices p ! 1))) 7"
proof -
  let ?b = "New [plain_device (0 :: nat) bridge_header]"
  obtain r p where c: "AddUEFIChipset 7 8 ?b = (r, p)" by fastforce
  have e: "r = Inr ()" "map (\<lambda>(s, f, d). (s, f)) (Functions p) = [(0, 0), (1, 0), (1, 3)]" "length (devices p) = 3"
    "map slot (devices p) = [0, 1, 1]" "map func_no (devices p) = [0, 0, 3]"
    using c by (auto simp: AddUEFIChipset_def New_def AddDevices_def new_bus_def registerAt_def registerDevice_def plain_device_def
      set_multifunction_def Functions_def Let_def numeral_eq_Suc split: if_splits)
  have "pci_step\<^sup>*\<^sup>* ?b p" using pci_step.chipset [OF c] by blast
  note R = pci_registry [OF this, THEN conjunct2, THEN conjunct2, rule_format, of 1 2]
  have "slot (devices p ! 1) = 1" "slot (devices p ! 2) = 1" "func_no (devices p ! 1) = 0" "func_no (devices p ! 2) = 3"
    using arg_cong [OF e(4), of "\<lambda>xs. xs ! 1"] arg_cong [OF e(4), of "\<lambda>xs. xs ! 2"] arg_cong [OF e(5), of "\<lambda>xs. xs ! 1"]
      arg_cong [OF e(5), of "\<lambda>xs. xs ! 2"] e(3) by simp_all
  then have "bit (HeaderType (header (devices p ! 1))) 7" using R e(3) by simp
  with c e(1,2) show ?thesis by (intro exI [of _ p]) simp
qed

text \<open>
  BAR sizing. A guest that writes all ones to a BAR and reads it back obtains the mask from
  which the size follows: its two's complement is the size of the BAR. The probe
  leaves no trace: the bus is as it was, except that no probe is pending.
\<close>

lemma bar_sizing:
  assumes "selects p i (16 + bar * 4)" "bar < 6" "barSize i bar p \<noteq> 0" "length buf = 4"
    "PciConfDataIn 0xCFC buf (PciConfDataOut 0xCFC [0xff, 0xff, 0xff, 0xff] p) = (mask_bytes, p')"
  shows "NOT (of_nat (le_nat mask_bytes)) + 1 = (ucast (barSize i bar p) :: u32) \<and>
    p' = p\<lparr>probeSlot := -1, probeBar := 0\<rparr>"
proof -
  let ?p1 = "p\<lparr>probeSlot := int i, probeBar := bar\<rparr>"
  have s: "selects ?p1 i (16 + bar * 4)" "barSize i bar ?p1 = barSize i bar p"
    using assms(1) by (simp_all add: selects_def conf_function_def barSize_def)
  have r: "mask_bytes = put_le 4 (unat (SizeToBits (barSize i bar p)))" "p' = p\<lparr>probeSlot := -1, probeBar := 0\<rparr>"
    using assms(5) read_probe [OF s(1) assms(2) _ _ assms(4)] s(2) probe_bar [OF assms(1,2)] by (simp_all add: NumToBytes_put_le unat_up32)
  have "unat (SizeToBits (barSize i bar p)) < 2 ^ LENGTH(32)" by (rule unsigned_less)
  then have "of_nat (le_nat mask_bytes) = SizeToBits (barSize i bar p)" using r(1) by (simp add: le_nat_put_le)
  then show ?thesis using r(2) SizeToBits_neg [OF assms(3)] by (simp add: not_eq_complement)
qed

definition select_bar :: "nat PCI \<Rightarrow> nat PCI" where
  "select_bar p = PciConfAddrOut (NumToBytes 4 (ucast (config_address 1 0 16))) p"

lemma sample_bus_devices:
  "length (devices sample_bus) = 2" "slot (devices sample_bus ! Suc 0) = 1" "func_no (devices sample_bus ! Suc 0) = 0" "mmio (devices sample_bus ! Suc 0)"
  "mmioBAR (devices sample_bus ! Suc 0) = 0" "barSizes (devices sample_bus ! Suc 0) = [0x4000, 0, 0, 0, 0, 0]" "mmio (devices sample_bus ! 0) = False"
  "BAR (header (devices sample_bus ! Suc 0)) = [0xd0010000, 0, 0, 0, 0, 0]" "probeSlot sample_bus = -1" "configOverride sample_bus = (\<lambda>_ _. None)"
  by (simp_all add: sample_bus_def New_def AddDevices_def new_bus_def registerAt_def registerDevice_def plain_device_def Let_def
    numeral_eq_Suc)

lemma sample_bus_ok: "pci_ok sample_bus"
  unfolding sample_bus_def by (rule New_ok)

lemma sample_selects: "selects (select_bar sample_bus) 1 16"
  using selects_address [of sample_bus 1 16] sample_bus_devices
  by (simp add: select_bar_def sample_bus_ok)

lemma select_bar_keeps: "devices (select_bar p) = devices p" "probeSlot (select_bar p) = probeSlot p" "configOverride (select_bar p) = configOverride p"
  by (simp_all add: select_bar_def PciConfAddrOut_def)

lemma bar_sizing_witness:
  "\<exists>m p. PciConfDataIn 0xCFC [0, 0, 0, 0] (PciConfDataOut 0xCFC [0xff, 0xff, 0xff, 0xff] (select_bar sample_bus)) = (m, p) \<and>
     NOT (of_nat (le_nat m)) + 1 = (0x4000 :: u32)"
proof -
  let ?p = "select_bar sample_bus"
  obtain m p where r: "PciConfDataIn 0xCFC [0, 0, 0, 0] (PciConfDataOut 0xCFC [0xff, 0xff, 0xff, 0xff] ?p) = (m, p)" by fastforce
  have s: "selects ?p 1 (16 + 0 * 4)" using sample_selects by simp
  have b: "barSize 1 0 ?p = 0x4000" by (simp add: barSize_def select_bar_keeps sample_bus_devices)
  from bar_sizing [OF s _ _ _ r] b r show ?thesis by simp
qed

text \<open>
  C21. BAR relocation. After a guest has written a base address to the memory BAR of a device,
  the BAR reads back as written and the device answers at every address of its
  window there, at the offset from the base, unless a device registered before it
  claims the address. No other device moves.
\<close>

theorem bar_relocation:
  fixes base :: u32
  assumes "selects p i (16 + mmioBAR (devices p ! i) * 4)" "mmio (devices p ! i)" "mmioBAR (devices p ! i) < 6" "i < length (devices p)"
    "bar_quiet p i (mmioBAR (devices p ! i))" "length (BAR (header (devices p ! i))) = 6" "length buf = 4"
    "base AND 0xf = 0" "n < barSizes (devices p ! i) ! mmioBAR (devices p ! i)" "ucast base \<le> (ucast base + n :: u64)"
    "p' = PciConfDataOut 0xCFC (NumToBytes 4 (ucast base)) p" "\<forall>j < i. \<not> decodes p j (ucast base + n)"
  shows "fst (PciConfDataIn 0xCFC buf p') = NumToBytes 4 (ucast base) \<and>
    LookupMMIO (ucast base + n) p' = Some (dev (devices p ! i), n) \<and>
    (\<forall>j bar. j \<noteq> i \<longrightarrow> barBase j bar p' = barBase j bar p)"
proof -
  let ?bar = "mmioBAR (devices p ! i)"
  note p' = bar_moved [OF assms(1,2,3,8), folded assms(11)]
  have "selects p' i (16 + ?bar * 4)" "bar_quiet p' i ?bar" "length (BAR (header (devices p' ! i))) = 6" "bar_raw i ?bar p' = base"
    using assms(1,5,6) p' by (simp_all add: selects_def conf_function_def bar_quiet_def bar_raw_def)
  note read = read_bar [OF this(1) assms(3) this(2,3) assms(7)] and raw = this(4)
  show ?thesis using read raw moved_base(2) [OF p'] moved_lookup [OF p' assms(2,4,8-10,12)] by simp
qed

theorem bar_relocation_witness:
  "LookupMMIO 0xe0000010 (PciConfDataOut 0xCFC (NumToBytes 4 0xe0000000) (select_bar sample_bus)) =
     Some (dev (devices sample_bus ! 1), 0x10)"
proof -
  let ?p = "select_bar sample_bus"
  have "selects ?p 1 (16 + mmioBAR (devices ?p ! 1) * 4)" "bar_quiet ?p 1 (mmioBAR (devices ?p ! 1))"
    using sample_selects by (simp_all add: select_bar_keeps sample_bus_devices bar_quiet_def)
  note R = bar_relocation [OF this(1) _ _ _ this(2), where buf = "[0, 0, 0, 0]" and base = "0xe0000000" and n = "0x10"]
  show ?thesis using R by (simp add: select_bar_keeps sample_bus_devices decodes_def)
qed

text \<open>
  The enable bit of the address register is not looked at: whatever the guest left in
  bit 31, a data access is served as if it were set, so an access with
  configuration cycles turned off still reads the selected register.
\<close>

lemma config_enable_ignored:
  "isEnable a \<and> fst (PciConfDataIn port values (p\<lparr>addr := a AND 0x7fffffff\<rparr>)) = fst (PciConfDataIn port values (p\<lparr>addr := a\<rparr>))"
proof -
  have f: "drop_bit m (a AND mask 31) AND mask n = drop_bit m a AND mask n" if "m + n \<le> 31" for m n
    using that by (intro bit_word_eqI) (auto simp: bit_simps)
  have "(a AND mask 31) AND push_bit 2 (mask 6) = a AND push_bit 2 (mask 6)"
    by (intro bit_word_eqI) (auto simp: bit_simps)
  then have "getRegisterOffset (a AND 0x7fffffff) = getRegisterOffset a" by (simp add: getRegisterOffset_def mask_consts)
  moreover have "getBusNumber (a AND 0x7fffffff) = getBusNumber a" "getDeviceNumber (a AND 0x7fffffff) = getDeviceNumber a"
    "getFunctionNumber (a AND 0x7fffffff) = getFunctionNumber a"
    using f by (simp_all add: getBusNumber_def getDeviceNumber_def getFunctionNumber_def mask_consts)
  ultimately show ?thesis using isEnable_always
    by (simp add: PciConfDataIn_def conf_offset_def conf_function_def configSpace_def barSize_def Let_def split: option.split)
qed

end
