(* ===== verification/Io_Devices.thy ===== *)
theory Io_Devices
  imports Prelude
begin

text \<open>
  The small port devices of \<^verbatim>\<open>internal/iodev\<close>: the shared errors (\<^verbatim>\<open>device.go\<close>), the
  placeholder (\<^verbatim>\<open>noop.go\<close>), the POST code and firmware debug ports, which print
  (\<^verbatim>\<open>postcode.go\<close>, \<^verbatim>\<open>fw_debug.go\<close>), the ACPI shutdown register, which logs
  (\<^verbatim>\<open>acpi_shutdown.go\<close>), and the ACPI power management timer
  (\<^verbatim>\<open>acpi_pm_timer.go\<close>). Printed text is a list of code points the
  device appends to; a read returns the buffer as the device leaves it.
\<close>

unbundle bit_operations_syntax

text \<open>The errors of the port devices; \<open>InjectError\<close> is a failed interrupt, and \<open>IndexPanic\<close> is an access behind the end of the buffer.\<close>

datatype dev_err = DataLenInvalid | FWCfgError | InjectError | IndexPanic | WakeError | JoinedError dev_err dev_err

section \<open>The placeholder\<close>

record Noop =
  Port :: u64
  Psize :: u64

definition noop_Read :: "nat \<Rightarrow> byte list \<Rightarrow> Noop \<Rightarrow> dev_err + byte list" where
  "noop_Read port buf n = Inr buf"

definition noop_Write :: "nat \<Rightarrow> byte list \<Rightarrow> Noop \<Rightarrow> (dev_err + unit) \<times> Noop" where
  "noop_Write port buf n = (Inr (), n)"

section \<open>The printing ports\<close>

definition print_char :: "byte \<Rightarrow> nat list" where
  "print_char b = (if b = 0 then [13, 10] else [unat b])"

definition post_Read :: "nat \<Rightarrow> byte list \<Rightarrow> dev_err + byte list" where
  "post_Read port buf = Inr buf"

definition post_Write :: "nat \<Rightarrow> byte list \<Rightarrow> nat list \<Rightarrow> (dev_err + unit) \<times> nat list" where
  "post_Write port buf printed =
     (if length buf \<noteq> 1 then (Inl DataLenInvalid, printed) else (Inr (), printed @ print_char (buf ! 0)))"

definition debug_Read :: "nat \<Rightarrow> byte list \<Rightarrow> dev_err + byte list" where
  "debug_Read port buf = (if length buf = 1 then Inr [0xe9] else Inl DataLenInvalid)"

definition debug_Write :: "nat \<Rightarrow> byte list \<Rightarrow> nat list \<Rightarrow> (dev_err + unit) \<times> nat list" where
  "debug_Write port buf printed =
     (if length buf = 1 then (Inr (), printed @ print_char (buf ! 0)) else (Inl DataLenInvalid, printed))"

section \<open>The shutdown register\<close>

datatype acpi_event = ACPIReboot | ACPIShutdown

definition acpi_Read :: "nat \<Rightarrow> byte list \<Rightarrow> dev_err + byte list" where
  "acpi_Read base buf = (case buf of [] \<Rightarrow> Inl IndexPanic | _ # rest \<Rightarrow> Inr (0 # rest))"

definition acpi_Write :: "nat \<Rightarrow> byte list \<Rightarrow> acpi_event list \<Rightarrow> (dev_err + unit) \<times> acpi_event list" where
  "acpi_Write base buf events =
     (case buf of [] \<Rightarrow> (Inl IndexPanic, events)
      | b # _ \<Rightarrow>
          let events1 = events @ (if b = 1 then [ACPIReboot] else []);
              S5SleepVal = 5; SleepStatusENBit = 5; SleepValBit = 2
          in (Inr (), events1 @ (if b = push_bit SleepValBit S5SleepVal OR push_bit SleepStatusENBit 1 then [ACPIShutdown] else [])))"

section \<open>The power management timer\<close>

text \<open>Time is in nanoseconds, as \<^verbatim>\<open>time.Duration\<close> has it: a signed 64-bit number.\<close>

definition pmTimerFreqHz :: u64 where "pmTimerFreqHz = 3579545"
definition nanosPerSecond :: u64 where "nanosPerSecond = 1000000000"

definition pmTimerTicks :: "int \<Rightarrow> u32" where
  "pmTimerTicks elapsed =
     (if elapsed \<le> 0 then 0
      else let seconds = of_int (elapsed div 1000000000); nanos = of_int (elapsed mod 1000000000)
           in ucast (seconds * pmTimerFreqHz + nanos * pmTimerFreqHz div nanosPerSecond))"

definition pm_Read :: "int \<Rightarrow> int \<Rightarrow> nat \<Rightarrow> byte list \<Rightarrow> dev_err + byte list" where
  "pm_Read start now base buf =
     (if length buf \<noteq> 4 then Inl DataLenInvalid else Inr (put_le 4 (unat (pmTimerTicks (now - start)))))"

section \<open>Properties\<close>

lemma ticks_split:
  fixes s n :: nat
  shows "(s * 1000000000 + n) * 3579545 div 1000000000 = s * 3579545 + n * 3579545 div 1000000000"
proof -
  have "(s * 1000000000 + n) * 3579545 = n * 3579545 + (s * 3579545) * 1000000000" by algebra
  then show ?thesis by (simp only: div_mult_self1 [of 1000000000])
qed

lemma unat_down32: "unat (ucast (x :: u64) :: u32) = unat x mod 2 ^ 32"
  by (simp add: unsigned_ucast_eq take_bit_eq_mod)

lemma unat_ticks:
  assumes "s < 10000000000" "n < 1000000000"
  shows "unat (of_nat s * pmTimerFreqHz + of_nat n * pmTimerFreqHz div nanosPerSecond) = s * 3579545 + n * 3579545 div 1000000000"
proof -
  have n: "n * 3579545 < 2 ^ 64" "s * 3579545 + n * 3579545 div 1000000000 < 2 ^ 64" using assms by simp_all
  have u: "unat (of_nat (n * 3579545) :: u64) = n * 3579545" "unat (of_nat (n * 3579545 div 1000000000) :: u64) = n * 3579545 div 1000000000"
    unfolding unat_of_nat by (rule mod_less, use n in simp)+
  have "of_nat n * pmTimerFreqHz div nanosPerSecond = of_nat (n * 3579545) div of_nat 1000000000"
    by (simp add: pmTimerFreqHz_def nanosPerSecond_def)
  also have "\<dots> = of_nat (n * 3579545 div 1000000000)"
    unfolding word_unat_eq_iff unat_div u by simp
  finally have "of_nat s * pmTimerFreqHz + of_nat n * pmTimerFreqHz div nanosPerSecond = of_nat (s * 3579545 + n * 3579545 div 1000000000)"
    by (simp add: pmTimerFreqHz_def)
  then show ?thesis using n(2) by (simp only: unat_of_nat) simp
qed

text \<open>C24. The power management timer is exact for as long as a duration lasts: although seconds and nanoseconds are multiplied apart to keep within 64 bits, the four bytes the guest reads are those of the elapsed nanoseconds times 3579545 Hz, divided by 10^9 and reduced to 32 bits, with no loss at any uptime up to 2^63 ns.\<close>

theorem pm_timer_exact:
  assumes "start \<le> now" "now - start < 2 ^ 63" "length buf = 4"
  shows "pm_Read start now base buf = Inr (put_le 4 ((nat (now - start) * 3579545 div 1000000000) mod 2 ^ 32))"
proof -
  let ?e = "now - start"
  let ?s = "nat ?e div 1000000000" and ?n = "nat ?e mod 1000000000"
  have "nat ?e < 2 ^ 63" using assms by (simp add: nat_less_iff)
  then have "nat ?e < 10000000000 * 1000000000" by simp
  then have s: "?s < 10000000000" by (rule less_mult_imp_div_less)
  have e: "of_int (?e div 1000000000) = (of_nat ?s :: u64)" "of_int (?e mod 1000000000) = (of_nat ?n :: u64)"
  proof -
    have "?e div 1000000000 = int ?s" "?e mod 1000000000 = int ?n" using assms(1) by (simp_all add: zdiv_int zmod_int)
    then show "of_int (?e div 1000000000) = (of_nat ?s :: u64)" "of_int (?e mod 1000000000) = (of_nat ?n :: u64)" by (simp_all only: of_int_of_nat_eq)
  qed
  have "unat (pmTimerTicks ?e) = (?s * 3579545 + ?n * 3579545 div 1000000000) mod 2 ^ 32"
  proof (cases "?e \<le> 0")
    case True
    then have "?s = 0 \<and> ?n = 0" by simp
    then show ?thesis using True by (simp add: pmTimerTicks_def)
  next
    case False
    then show ?thesis using unat_ticks [OF s, of ?n] by (simp only: pmTimerTicks_def Let_def e unat_down32 if_False)
  qed
  then show ?thesis using assms(3) ticks_split [of ?s ?n] by (simp add: pm_Read_def)
qed

theorem pm_timer_exact_witness:
  "pm_Read 5 (5 + 86400000000000) 0x608 [0, 0, 0, 0] = Inr (put_le 4 ((86400 * 3579545) mod 2 ^ 32))"
  using pm_timer_exact [of 5 "5 + 86400000000000" "[0, 0, 0, 0]" "0x608"] by simp

end
