(* ===== verification/Ps2_Controller.thy ===== *)
theory Ps2_Controller
  imports Io_Devices
begin

text \<open>
  The keyboard and mouse controller, \<^verbatim>\<open>internal/iodev/ps2.go\<close>, \<^verbatim>\<open>ps2_keymap.go\<close> and
  \<^verbatim>\<open>ps2_pointer.go\<close>: the output queue with its interrupts, the controller, keyboard
  and mouse commands, the translation of keysyms to scan codes, and the
  conversion of pointer positions to relative motion packets. Each method is
  one step, although the source releases its lock between the parts of some;
  \<open>irqs\<close> records the interrupts injected so far, the last one at the end.
\<close>

section \<open>Definitions\<close>

definition ps2DataPort :: nat where "ps2DataPort = 0x60"
definition ps2StatusPort :: nat where "ps2StatusPort = 0x64"
definition ps2ACK :: byte where "ps2ACK = 0xfa"
definition ps2BATPass :: byte where "ps2BATPass = 0xaa"
definition ps2Resend :: byte where "ps2Resend = 0xfe"
definition ps2StatusOutputFull :: byte where "ps2StatusOutputFull = 0x01"
definition ps2StatusSystemFlag :: byte where "ps2StatusSystemFlag = 0x04"
definition ps2StatusAuxData :: byte where "ps2StatusAuxData = 0x20"
definition ps2CmdKeyboardIRQ :: byte where "ps2CmdKeyboardIRQ = 0x01"
definition ps2CmdMouseIRQ :: byte where "ps2CmdMouseIRQ = 0x02"
definition ps2CmdSystemFlag :: byte where "ps2CmdSystemFlag = 0x04"
definition ps2CmdKeyboardOff :: byte where "ps2CmdKeyboardOff = 0x10"
definition ps2CmdMouseOff :: byte where "ps2CmdMouseOff = 0x20"
definition ps2CmdTranslate :: byte where "ps2CmdTranslate = 0x40"

lemmas ps2_consts = ps2DataPort_def ps2StatusPort_def ps2ACK_def ps2BATPass_def ps2Resend_def ps2StatusOutputFull_def
  ps2StatusSystemFlag_def ps2StatusAuxData_def ps2CmdKeyboardIRQ_def ps2CmdMouseIRQ_def ps2CmdSystemFlag_def
  ps2CmdKeyboardOff_def ps2CmdMouseOff_def ps2CmdTranslate_def

record ps2Pending =
  data :: byte
  aux :: bool

datatype ps2Expect = ps2ExpectNone | ps2ExpectControllerConfig | ps2ExpectKeyboardParam | ps2ExpectKeyboardOutput
  | ps2ExpectMouseOutput | ps2ExpectMouseCommand

text \<open>\<open>hasKeyboardIRQ\<close> and \<open>hasMouseIRQ\<close> say that the callbacks are not nil.\<close>

record PS2Controller =
  commandByte :: byte
  queue :: "ps2Pending list"
  expect :: ps2Expect
  keyboardEnabled :: bool
  keyboardScan :: bool
  mouseEnabled :: bool
  mouseReporting :: bool
  mouseParam :: bool
  mouseParamCmd :: byte
  mouseID :: byte
  mouseSamples :: "byte list"
  mouseButtons :: byte
  mouseX :: u16
  mouseY :: u16
  mouseInit :: bool
  hasKeyboardIRQ :: bool
  hasMouseIRQ :: bool
  irqs :: "bool list"

definition NewPS2Controller :: "bool \<Rightarrow> bool \<Rightarrow> PS2Controller" where
  "NewPS2Controller kbd mouse =
     \<lparr>commandByte = ps2CmdKeyboardIRQ OR ps2CmdMouseIRQ OR ps2CmdSystemFlag OR ps2CmdTranslate, queue = [],
      expect = ps2ExpectNone, keyboardEnabled = True, keyboardScan = True, mouseEnabled = True, mouseReporting = False,
      mouseParam = False, mouseParamCmd = 0, mouseID = 0, mouseSamples = [0, 0, 0], mouseButtons = 0, mouseX = 0, mouseY = 0,
      mouseInit = False, hasKeyboardIRQ = kbd, hasMouseIRQ = mouse, irqs = []\<rparr>"

subsection \<open>The output queue\<close>

definition irqEnabledLocked :: "bool \<Rightarrow> PS2Controller \<Rightarrow> bool" where
  "irqEnabledLocked a p =
     (if a then commandByte p AND ps2CmdMouseIRQ \<noteq> 0 else commandByte p AND ps2CmdKeyboardIRQ \<noteq> 0)"

definition injectIRQ :: "bool \<Rightarrow> PS2Controller \<Rightarrow> PS2Controller" where
  "injectIRQ a p = (if (if a then hasMouseIRQ p else hasKeyboardIRQ p) then p\<lparr>irqs := irqs p @ [a]\<rparr> else p)"

definition enqueue :: "byte list \<Rightarrow> bool \<Rightarrow> PS2Controller \<Rightarrow> PS2Controller" where
  "enqueue bs a p =
     (if bs = [] then p
      else let p1 = p\<lparr>queue := queue p @ map (\<lambda>b. \<lparr>data = b, aux = a\<rparr>) bs\<rparr>
           in if queue p = [] \<and> irqEnabledLocked (aux (hd (queue p1))) p1 then injectIRQ a p1 else p1)"

definition popLocked :: "PS2Controller \<Rightarrow> (byte \<times> bool \<times> bool) \<times> PS2Controller" where
  "popLocked p =
     (case queue p of
        [] \<Rightarrow> ((0, False, False), p)
      | e # es \<Rightarrow>
          let p1 = p\<lparr>queue := es\<rparr>
          in case es of
               [] \<Rightarrow> ((data e, False, False), p1)
             | n # _ \<Rightarrow> ((data e, irqEnabledLocked (aux n) p1, aux n), p1))"

subsection \<open>Mouse packets\<close>

definition clampMouseDelta :: "int \<Rightarrow> int" where
  "clampMouseDelta v = (if 127 < v then 127 else if v < -127 then -127 else v)"

definition clampMouseWheel :: "int \<Rightarrow> int" where
  "clampMouseWheel v = (if 7 < v then 7 else if v < -8 then -8 else v)"

definition ps2MousePacket :: "byte \<Rightarrow> int \<Rightarrow> int \<Rightarrow> int \<Rightarrow> int \<Rightarrow> byte list" where
  "ps2MousePacket buttons dx dy ident wheel =
     (let flags = 0x08 OR (buttons AND 0x07);
          flags1 = (if dx < 0 then flags OR 0x10 else flags);
          flags2 = (if dy < 0 then flags1 OR 0x20 else flags1)
      in [flags2, of_int dx, of_int dy] @ (if ident = 3 \<or> ident = 4 then [of_int wheel] else []))"

definition ps2Buttons :: "byte \<Rightarrow> byte" where
  "ps2Buttons msk =
     (let b0 = (if msk AND 0x01 \<noteq> 0 then 0x01 else 0);
          b1 = (if msk AND 0x04 \<noteq> 0 then b0 OR 0x02 else b0)
      in if msk AND 0x02 \<noteq> 0 then b1 OR 0x04 else b1)"

definition ps2WheelDelta :: "byte \<Rightarrow> int" where
  "ps2WheelDelta msk = (if msk AND 0x08 \<noteq> 0 then 1 else if msk AND 0x10 \<noteq> 0 then -1 else 0)"

lemma clampMouseDelta_shrinks: "nat \<bar>v - clampMouseDelta v\<bar> \<le> nat \<bar>v\<bar>" "v \<noteq> 0 \<Longrightarrow> nat \<bar>v - clampMouseDelta v\<bar> < nat \<bar>v\<bar>"
  by (auto simp: clampMouseDelta_def)

lemma clampMouseWheel_shrinks: "nat \<bar>v - clampMouseWheel v\<bar> \<le> nat \<bar>v\<bar>" "v \<noteq> 0 \<Longrightarrow> nat \<bar>v - clampMouseWheel v\<bar> < nat \<bar>v\<bar>"
  by (auto simp: clampMouseWheel_def)

lemma less_sum3:
  fixes a b c :: nat
  assumes "a' \<le> a" "b' \<le> b" "c' \<le> c" "a' < a \<or> b' < b \<or> c' < c \<or> \<not> P"
  shows "a' + b' + c' + 0 < a + b + c + (if P then 0 else 1)"
  using assms by auto

function enqueueMouseMotion :: "byte \<Rightarrow> byte \<Rightarrow> int \<Rightarrow> int \<Rightarrow> int \<Rightarrow> int \<Rightarrow> PS2Controller \<Rightarrow> PS2Controller" where
  "enqueueMouseMotion buttons oldButtons dx dy ident wheel p =
     (if dx \<noteq> 0 \<or> dy \<noteq> 0 \<or> wheel \<noteq> 0 \<or> buttons \<noteq> oldButtons then
        let chunkX = clampMouseDelta dx; chunkY = clampMouseDelta dy; chunkWheel = clampMouseWheel wheel
        in enqueueMouseMotion buttons buttons (dx - chunkX) (dy - chunkY) ident (wheel - chunkWheel)
             (enqueue (ps2MousePacket buttons chunkX chunkY ident chunkWheel) True p)
      else p)"
  by pat_completeness auto
termination
proof (relation "measure (\<lambda>(b, ob, dx, dy, i, w, p). nat \<bar>dx\<bar> + nat \<bar>dy\<bar> + nat \<bar>w\<bar> + (if b = ob then 0 else 1))")
  fix b ob :: byte and dx dy i w :: int and p :: PS2Controller and cx cy cw
  assume *: "dx \<noteq> 0 \<or> dy \<noteq> 0 \<or> w \<noteq> 0 \<or> b \<noteq> ob" "cx = clampMouseDelta dx" "cy = clampMouseDelta dy" "cw = clampMouseWheel w"
  have "nat \<bar>dx - cx\<bar> + nat \<bar>dy - cy\<bar> + nat \<bar>w - cw\<bar> + 0 < nat \<bar>dx\<bar> + nat \<bar>dy\<bar> + nat \<bar>w\<bar> + (if b = ob then 0 else 1)"
    using * clampMouseDelta_shrinks clampMouseWheel_shrinks by (intro less_sum3) blast+
  then show "((b, b, dx - cx, dy - cy, i, w - cw, enqueue (ps2MousePacket b cx cy i cw) True p), b, ob, dx, dy, i, w, p)
    \<in> measure (\<lambda>(b, ob, dx, dy, i, w, p). nat \<bar>dx\<bar> + nat \<bar>dy\<bar> + nat \<bar>w\<bar> + (if b = ob then 0 else 1))"
    by (simp only: in_measure prod.case if_True simp_thms)
qed simp

declare enqueueMouseMotion.simps [simp del]

definition PointerEvent :: "byte \<Rightarrow> u16 \<Rightarrow> u16 \<Rightarrow> PS2Controller \<Rightarrow> PS2Controller" where
  "PointerEvent buttonMask x y p =
     (if \<not> mouseEnabled p \<or> \<not> mouseReporting p then p\<lparr>mouseX := x, mouseY := y, mouseInit := True\<rparr>
      else let dx = (if mouseInit p then int (unat x) - int (unat (mouseX p)) else 0);
               dy = (if mouseInit p then int (unat (mouseY p)) - int (unat y) else 0);
               buttons = ps2Buttons buttonMask; oldButtons = mouseButtons p;
               p1 = p\<lparr>mouseX := x, mouseY := y, mouseInit := True, mouseButtons := buttons\<rparr>
           in enqueueMouseMotion buttons oldButtons dx dy (int (unat (mouseID p1))) (ps2WheelDelta buttonMask) p1)"

definition RebasePointer :: "u16 \<Rightarrow> u16 \<Rightarrow> PS2Controller \<Rightarrow> PS2Controller" where
  "RebasePointer x y p = p\<lparr>mouseX := x, mouseY := y, mouseInit := True\<rparr>"

subsection \<open>Keys\<close>

record ps2Scan =
  code :: byte
  extended :: bool

definition ascii_table :: "(nat \<times> byte) list" where
  "ascii_table =
     [(97, 0x1e), (98, 0x30), (99, 0x2e), (100, 0x20), (101, 0x12), (102, 0x21), (103, 0x22), (104, 0x23), (105, 0x17),
      (106, 0x24), (107, 0x25), (108, 0x26), (109, 0x32), (110, 0x31), (111, 0x18), (112, 0x19), (113, 0x10), (114, 0x13),
      (115, 0x1f), (116, 0x14), (117, 0x16), (118, 0x2f), (119, 0x11), (120, 0x2d), (121, 0x15), (122, 0x2c),
      (49, 0x02), (50, 0x03), (51, 0x04), (52, 0x05), (53, 0x06), (54, 0x07), (55, 0x08), (56, 0x09), (57, 0x0a), (48, 0x0b),
      (32, 0x39), (45, 0x0c), (61, 0x0d), (91, 0x1a), (93, 0x1b), (92, 0x2b), (59, 0x27), (39, 0x28), (96, 0x29),
      (44, 0x33), (46, 0x34), (47, 0x35)]"

definition ps2ASCIIKey :: "nat \<Rightarrow> ps2Scan option" where
  "ps2ASCIIKey keysym =
     (let k = (if 65 \<le> keysym \<and> keysym \<le> 90 then keysym + 32 else keysym)
      in map_option (\<lambda>c. \<lparr>code = c, extended = False\<rparr>) (map_of ascii_table k))"

definition function_keys :: "byte list" where
  "function_keys = [0x3b, 0x3c, 0x3d, 0x3e, 0x3f, 0x40, 0x41, 0x42, 0x43, 0x44, 0x57, 0x58]"

definition ps2FunctionKey :: "nat \<Rightarrow> ps2Scan" where
  "ps2FunctionKey n = \<lparr>code = function_keys ! n, extended = False\<rparr>"

definition special_table :: "(nat \<times> byte \<times> bool) list" where
  "special_table =
     [(0xff08, 0x0e, False), (0xff09, 0x0f, False), (0xff0d, 0x1c, False), (0xff1b, 0x01, False), (0xffff, 0x53, True),
      (0xff50, 0x47, True), (0xff51, 0x4b, True), (0xff52, 0x48, True), (0xff53, 0x4d, True), (0xff54, 0x50, True),
      (0xff55, 0x49, True), (0xff56, 0x51, True), (0xff57, 0x4f, True), (0xff63, 0x52, True), (0xffe1, 0x2a, False),
      (0xffe2, 0x36, False), (0xffe3, 0x1d, False), (0xffe4, 0x1d, True), (0xffe9, 0x38, False), (0xffea, 0x38, True),
      (0xffeb, 0x5b, True), (0xffec, 0x5c, True), (0xffe5, 0x3a, False), (0xff14, 0x46, False), (0xff7f, 0x45, False),
      (0xff61, 0x52, True), (0xff13, 0x45, False)]"

definition ps2ScanCode :: "nat \<Rightarrow> ps2Scan option" where
  "ps2ScanCode keysym =
     (case ps2ASCIIKey keysym of
        Some s \<Rightarrow> Some s
      | None \<Rightarrow>
          if 0xffbe \<le> keysym \<and> keysym \<le> 0xffc9 then Some (ps2FunctionKey (keysym - 0xffbe))
          else map_option (\<lambda>(c, e). \<lparr>code = c, extended = e\<rparr>) (map_of special_table keysym))"

definition ps2KeySequence :: "ps2Scan \<Rightarrow> bool \<Rightarrow> byte list" where
  "ps2KeySequence makeSeq down =
     (if extended makeSeq then (if down then [0xe0, code makeSeq] else [0xe0, code makeSeq OR 0x80])
      else if down then [code makeSeq] else [code makeSeq OR 0x80])"

definition KeyEvent :: "bool \<Rightarrow> nat \<Rightarrow> PS2Controller \<Rightarrow> PS2Controller" where
  "KeyEvent down keysym p =
     (case ps2ScanCode keysym of
        None \<Rightarrow> p
      | Some makeSeq \<Rightarrow>
          if \<not> (keyboardEnabled p \<and> keyboardScan p) then p else enqueue (ps2KeySequence makeSeq down) False p)"

subsection \<open>Commands\<close>

definition recordMouseSampleLocked :: "byte \<Rightarrow> PS2Controller \<Rightarrow> PS2Controller" where
  "recordMouseSampleLocked sample p =
     (let s = [mouseSamples p ! 1, mouseSamples p ! 2, sample]; p1 = p\<lparr>mouseSamples := s\<rparr>
      in if s = [200, 100, 80] then p1\<lparr>mouseID := 3\<rparr> else if s = [200, 200, 80] then p1\<lparr>mouseID := 4\<rparr> else p1)"

definition handleKeyboardCommand :: "byte \<Rightarrow> PS2Controller \<Rightarrow> PS2Controller" where
  "handleKeyboardCommand cmd p =
     (if cmd = 0xff then enqueue [ps2ACK, ps2BATPass] False p
      else if cmd = 0xf2 then enqueue [ps2ACK, 0xab, 0x83] False p
      else if cmd = 0xf3 \<or> cmd = 0xed \<or> cmd = 0xf0 then enqueue [ps2ACK] False (p\<lparr>expect := ps2ExpectKeyboardParam\<rparr>)
      else if cmd = 0xf4 then enqueue [ps2ACK] False (p\<lparr>keyboardScan := True\<rparr>)
      else if cmd = 0xf5 then enqueue [ps2ACK] False (p\<lparr>keyboardScan := False\<rparr>)
      else if cmd = 0xee then enqueue [0xee] False p
      else enqueue [ps2ACK] False p)"

definition handleMouseCommand :: "byte \<Rightarrow> PS2Controller \<Rightarrow> PS2Controller" where
  "handleMouseCommand cmd p =
     (if mouseParam p then
        let p1 = p\<lparr>mouseParam := False, mouseParamCmd := 0\<rparr>
        in enqueue [ps2ACK] True (if mouseParamCmd p = 0xf3 then recordMouseSampleLocked cmd p1 else p1)
      else if cmd = 0xff then
        enqueue [ps2ACK, ps2BATPass, 0x00] True (p\<lparr>mouseReporting := False, mouseID := 0, mouseSamples := [0, 0, 0]\<rparr>)
      else if cmd = 0xf2 then enqueue [ps2ACK, mouseID p] True p
      else if cmd = 0xf3 \<or> cmd = 0xe8 then enqueue [ps2ACK] True (p\<lparr>mouseParam := True, mouseParamCmd := cmd\<rparr>)
      else if cmd = 0xf4 then enqueue [ps2ACK] True (p\<lparr>mouseReporting := True\<rparr>)
      else if cmd = 0xf5 then enqueue [ps2ACK] True (p\<lparr>mouseReporting := False\<rparr>)
      else if cmd = 0xe9 then enqueue [ps2ACK, 0x00, 0x02, 100] True p
      else if cmd \<in> {0xe6, 0xe7, 0xea, 0xec, 0xee, 0xf0, 0xf6} then
        enqueue [ps2ACK] True (if cmd = 0xf6 then p\<lparr>mouseReporting := False\<rparr> else p)
      else if cmd = 0xeb then enqueue (ps2ACK # ps2MousePacket (mouseButtons p) 0 0 (int (unat (mouseID p))) 0) True p
      else enqueue [ps2Resend] True p)"

definition writeCommand :: "byte \<Rightarrow> PS2Controller \<Rightarrow> PS2Controller" where
  "writeCommand cmd p =
     (if cmd = 0x20 then enqueue [commandByte p] False p
      else if cmd = 0x60 then p\<lparr>expect := ps2ExpectControllerConfig\<rparr>
      else if cmd = 0xaa then enqueue [0x55] False p
      else if cmd = 0xab \<or> cmd = 0xa9 then enqueue [0x00] False p
      else if cmd = 0xad then p\<lparr>keyboardEnabled := False, commandByte := commandByte p OR ps2CmdKeyboardOff\<rparr>
      else if cmd = 0xae then p\<lparr>keyboardEnabled := True, commandByte := commandByte p AND NOT ps2CmdKeyboardOff\<rparr>
      else if cmd = 0xa7 then p\<lparr>mouseEnabled := False, commandByte := commandByte p OR ps2CmdMouseOff\<rparr>
      else if cmd = 0xa8 then p\<lparr>mouseEnabled := True, commandByte := commandByte p AND NOT ps2CmdMouseOff\<rparr>
      else if cmd = 0xd4 then p\<lparr>expect := ps2ExpectMouseCommand\<rparr>
      else if cmd = 0xd2 then p\<lparr>expect := ps2ExpectKeyboardOutput\<rparr>
      else if cmd = 0xd3 then p\<lparr>expect := ps2ExpectMouseOutput\<rparr>
      else p)"

definition writeData :: "byte \<Rightarrow> PS2Controller \<Rightarrow> PS2Controller" where
  "writeData v p =
     (let p1 = p\<lparr>expect := ps2ExpectNone\<rparr>
      in case expect p of
           ps2ExpectControllerConfig \<Rightarrow> p1\<lparr>commandByte := v, keyboardEnabled := (v AND ps2CmdKeyboardOff = 0),
             mouseEnabled := (v AND ps2CmdMouseOff = 0)\<rparr>
         | ps2ExpectKeyboardParam \<Rightarrow> enqueue [ps2ACK] False p1
         | ps2ExpectKeyboardOutput \<Rightarrow> enqueue [v] False p1
         | ps2ExpectMouseOutput \<Rightarrow> enqueue [v] True p1
         | ps2ExpectMouseCommand \<Rightarrow> handleMouseCommand v p1
         | ps2ExpectNone \<Rightarrow> handleKeyboardCommand v p1)"

subsection \<open>The ports\<close>

text \<open>The buffer of an access of another length than one byte is refused.\<close>

definition ps2_Read :: "nat \<Rightarrow> byte list \<Rightarrow> PS2Controller \<Rightarrow> (dev_err + byte list) \<times> PS2Controller" where
  "ps2_Read port buf p =
     (if length buf \<noteq> 1 then (Inl DataLenInvalid, p)
      else if port = ps2DataPort then
        (case popLocked p of ((v, injectNext, nextAux), p1) \<Rightarrow> (Inr [v], if injectNext then injectIRQ nextAux p1 else p1))
      else if port = ps2StatusPort then
        (Inr [ps2StatusSystemFlag OR (case queue p of [] \<Rightarrow> 0
           | e # _ \<Rightarrow> ps2StatusOutputFull OR (if aux e then ps2StatusAuxData else 0))], p)
      else (Inr [0], p))"

definition ps2_Write :: "nat \<Rightarrow> byte list \<Rightarrow> PS2Controller \<Rightarrow> (dev_err + unit) \<times> PS2Controller" where
  "ps2_Write port buf p =
     (if length buf \<noteq> 1 then (Inl DataLenInvalid, p)
      else if port = ps2DataPort then (Inr (), writeData (buf ! 0) p)
      else if port = ps2StatusPort then (Inr (), writeCommand (buf ! 0) p)
      else (Inr (), p))"

section \<open>Lemmas\<close>

subsection \<open>The queue\<close>

lemma injectIRQ_keeps [simp]:
  "queue (injectIRQ a p) = queue p" "commandByte (injectIRQ a p) = commandByte p" "keyboardEnabled (injectIRQ a p) = keyboardEnabled p"
  "mouseEnabled (injectIRQ a p) = mouseEnabled p" "hasKeyboardIRQ (injectIRQ a p) = hasKeyboardIRQ p" "hasMouseIRQ (injectIRQ a p) = hasMouseIRQ p"
  "mouseSamples (injectIRQ a p) = mouseSamples p"
  by (simp_all add: injectIRQ_def)

lemma enqueue_keeps [simp]:
  "queue (enqueue bs a p) = queue p @ map (\<lambda>b. \<lparr>data = b, aux = a\<rparr>) bs" "commandByte (enqueue bs a p) = commandByte p"
  "keyboardEnabled (enqueue bs a p) = keyboardEnabled p" "mouseEnabled (enqueue bs a p) = mouseEnabled p"
  "hasKeyboardIRQ (enqueue bs a p) = hasKeyboardIRQ p" "hasMouseIRQ (enqueue bs a p) = hasMouseIRQ p"
  "mouseSamples (enqueue bs a p) = mouseSamples p"
  by (simp_all add: enqueue_def Let_def)

text \<open>The interrupts that come with the arrival of a new head of the queue.\<close>

definition head_irqs :: "PS2Controller \<Rightarrow> bool list" where
  "head_irqs p = (case queue p of [] \<Rightarrow> []
     | e # _ \<Rightarrow> if irqEnabledLocked (aux e) p \<and> (if aux e then hasMouseIRQ p else hasKeyboardIRQ p) then [aux e] else [])"

lemma irqEnabled_cong: "commandByte p' = commandByte p \<Longrightarrow> irqEnabledLocked a p' = irqEnabledLocked a p"
  by (simp add: irqEnabledLocked_def)

lemma enqueue_irqs:
  "bs \<noteq> [] \<Longrightarrow> irqs (enqueue bs a p) = irqs p @ (if queue p = [] then head_irqs (enqueue bs a p) else [])"
  by (cases bs) (auto simp: enqueue_def head_irqs_def injectIRQ_def irqEnabledLocked_def Let_def split: list.splits)

lemma read_data:
  "length buf = 1 \<Longrightarrow> queue p = e # es \<Longrightarrow> ps2_Read ps2DataPort buf p = (Inr [data e], p\<lparr>queue := es, irqs := irqs p @ head_irqs (p\<lparr>queue := es\<rparr>)\<rparr>)"
  by (auto simp: ps2_Read_def popLocked_def head_irqs_def injectIRQ_def irqEnabledLocked_def Let_def split: list.splits)

text \<open>The guest drains the queue: \<open>n\<close> reads of the data port.\<close>

fun drain :: "nat \<Rightarrow> PS2Controller \<Rightarrow> byte list \<times> PS2Controller" where
  "drain 0 p = ([], p)"
| "drain (Suc n) p = (case ps2_Read ps2DataPort [0] p of
     (Inr bs, p1) \<Rightarrow> (case drain n p1 of (cs, p2) \<Rightarrow> (bs @ cs, p2)) | (Inl _, p1) \<Rightarrow> ([], p1))"

text \<open>The interrupts during a drain: one for each byte after the first whose port has its interrupt on.\<close>

fun drain_irqs :: "PS2Controller \<Rightarrow> ps2Pending list \<Rightarrow> bool list" where
  "drain_irqs p [] = []"
| "drain_irqs p (e # es) = head_irqs (p\<lparr>queue := es\<rparr>) @ drain_irqs p es"

lemma head_irqs_cong:
  "head_irqs (p\<lparr>queue := es, irqs := xs\<rparr>) = head_irqs (p\<lparr>queue := es\<rparr>)"
  "head_irqs (p\<lparr>queue := q, irqs := xs, queue := es\<rparr>) = head_irqs (p\<lparr>queue := es\<rparr>)"
  by (simp_all add: head_irqs_def irqEnabledLocked_def split: list.split)

lemma drain_irqs_cong: "drain_irqs (p\<lparr>queue := q, irqs := xs\<rparr>) es = drain_irqs p es"
proof (induction es)
  case (Cons e es)
  have "head_irqs ((p\<lparr>queue := q, irqs := xs\<rparr>)\<lparr>queue := es\<rparr>) = head_irqs (p\<lparr>queue := es\<rparr>)"
    by (simp add: head_irqs_def irqEnabledLocked_def split: list.split)
  then show ?case using Cons by simp
qed simp

lemma drain_all:
  "queue p = q \<Longrightarrow> drain (length q) p = (map data q, p\<lparr>queue := [], irqs := irqs p @ drain_irqs p q\<rparr>)"
proof (induction q arbitrary: p)
  case (Cons e es)
  let ?p = "p\<lparr>queue := es, irqs := irqs p @ head_irqs (p\<lparr>queue := es\<rparr>)\<rparr>"
  have "ps2_Read ps2DataPort [0] p = (Inr [data e], ?p)" using read_data [OF _ Cons.prems, of "[0]"] by simp
  then show ?case using Cons.IH [of ?p] drain_irqs_cong by simp
qed simp

subsection \<open>Motion\<close>

text \<open>How a mouse driver reads a packet: nine-bit two's complement deltas, with the signs in the flags.\<close>

definition packet_dx :: "byte list \<Rightarrow> int" where
  "packet_dx k = int (unat (k ! 1)) - (if k ! 0 AND 0x10 \<noteq> 0 then 256 else 0)"

definition packet_dy :: "byte list \<Rightarrow> int" where
  "packet_dy k = int (unat (k ! 2)) - (if k ! 0 AND 0x20 \<noteq> 0 then 256 else 0)"

lemma byte_of_int:
  assumes "-127 \<le> d" "d \<le> 127" shows "int (unat (of_int d :: byte)) = (if d < 0 then d + 256 else d)"
proof -
  have "int (unat (of_int d :: byte)) = d mod 256" by (simp add: uint_word_of_int flip: uint_nat)
  also have "\<dots> = (d + 256) mod 256" by simp
  also have "\<dots> = (if d < 0 then d + 256 else d)"
  proof (cases "d < 0")
    case True
    then show ?thesis using assms by (simp only: if_True) (rule mod_pos_pos_trivial, simp_all)
  next
    case False
    then have "(d + 256) mod 256 = d mod 256" "d mod 256 = d" using assms by simp_all
    then show ?thesis using False by simp
  qed
  finally show ?thesis .
qed

lemma and_bits:
  "(x :: byte) AND 0x10 = 0 \<longleftrightarrow> \<not> bit x 4" "x AND 0x20 = 0 \<longleftrightarrow> \<not> bit x 5" "x AND 0x08 = 0 \<longleftrightarrow> \<not> bit x 3"
  using and_exp_eq_0_iff_not_bit [of x 4] and_exp_eq_0_iff_not_bit [of x 5] and_exp_eq_0_iff_not_bit [of x 3] by simp_all

lemma mask3: "(0x07 :: byte) = mask 3"
  by (simp add: mask_eq_exp_minus_1)

lemma mouse_packet:
  assumes "-127 \<le> dx" "dx \<le> 127" "-127 \<le> dy" "dy \<le> 127"
  shows "packet_dx (ps2MousePacket b dx dy i w) = dx" "packet_dy (ps2MousePacket b dx dy i w) = dy"
    "ps2MousePacket b dx dy i w ! 0 AND 0x07 = b AND 0x07" "ps2MousePacket b dx dy i w ! 0 AND 0x08 \<noteq> 0"
    "length (ps2MousePacket b dx dy i w) = (if i = 3 \<or> i = 4 then 4 else 3)"
proof -
  let ?f = "ps2MousePacket b dx dy i w ! 0"
  have f: "?f = (if dy < 0 then (if dx < 0 then (0x08 OR (b AND 0x07)) OR 0x10 else 0x08 OR (b AND 0x07)) OR 0x20
    else if dx < 0 then (0x08 OR (b AND 0x07)) OR 0x10 else 0x08 OR (b AND 0x07))"
    by (simp add: ps2MousePacket_def Let_def)
  have bits: "bit ?f 4 = (dx < 0)" "bit ?f 5 = (dy < 0)" "bit ?f 3"
    unfolding f mask3 by (auto simp: bit_or_iff bit_and_iff bit_mask_iff)
  show "?f AND 0x07 = b AND 0x07"
    unfolding f by (auto simp: bit.conj_disj_distrib2 and.assoc)
  show "?f AND 0x08 \<noteq> 0" using bits(3) by (simp add: and_bits)
  have "ps2MousePacket b dx dy i w ! 1 = of_int dx" "ps2MousePacket b dx dy i w ! 2 = of_int dy"
    by (simp_all add: ps2MousePacket_def Let_def)
  then show "packet_dx (ps2MousePacket b dx dy i w) = dx" "packet_dy (ps2MousePacket b dx dy i w) = dy"
    using byte_of_int [OF assms(1,2)] byte_of_int [OF assms(3,4)] bits by (simp_all add: packet_dx_def packet_dy_def and_bits)
  show "length (ps2MousePacket b dx dy i w) = (if i = 3 \<or> i = 4 then 4 else 3)" by (simp add: ps2MousePacket_def Let_def)
qed

lemma clamp_range: "-127 \<le> clampMouseDelta v" "clampMouseDelta v \<le> 127"
  by (simp_all add: clampMouseDelta_def)

text \<open>The queue entries of a list of mouse packets.\<close>

definition mouse_bytes :: "byte list list \<Rightarrow> ps2Pending list" where
  "mouse_bytes ks = map (\<lambda>b. \<lparr>data = b, aux = True\<rparr>) (concat ks)"

definition packet_ok :: "byte \<Rightarrow> int \<Rightarrow> byte list \<Rightarrow> bool" where
  "packet_ok b i k \<longleftrightarrow> length k = (if i = 3 \<or> i = 4 then 4 else 3) \<and> k ! 0 AND 0x08 \<noteq> 0 \<and> k ! 0 AND 0x07 = b AND 0x07"

lemma motion_packets:
  "\<exists>ks. queue (enqueueMouseMotion b ob dx dy i w p) = queue p @ mouse_bytes ks \<and> sum_list (map packet_dx ks) = dx \<and>
     sum_list (map packet_dy ks) = dy \<and> (\<forall>k\<in>set ks. packet_ok b i k) \<and> (b \<noteq> ob \<longrightarrow> ks \<noteq> [])"
proof (induction b ob dx dy i w p rule: enqueueMouseMotion.induct)
  case (1 b ob dx dy i w p)
  show ?case
  proof (cases "dx \<noteq> 0 \<or> dy \<noteq> 0 \<or> w \<noteq> 0 \<or> b \<noteq> ob")
    case True
    let ?k = "ps2MousePacket b (clampMouseDelta dx) (clampMouseDelta dy) i (clampMouseWheel w)"
    note k = mouse_packet [OF clamp_range [of dx] clamp_range [of dy], of b i "clampMouseWheel w"]
    obtain ks where ks: "queue (enqueueMouseMotion b b (dx - clampMouseDelta dx) (dy - clampMouseDelta dy) i (w - clampMouseWheel w)
        (enqueue ?k True p)) = queue (enqueue ?k True p) @ mouse_bytes ks"
      "sum_list (map packet_dx ks) = dx - clampMouseDelta dx" "sum_list (map packet_dy ks) = dy - clampMouseDelta dy" "\<forall>k\<in>set ks. packet_ok b i k"
      using 1 [OF True refl refl refl] by blast
    have e: "enqueueMouseMotion b ob dx dy i w p = enqueueMouseMotion b b (dx - clampMouseDelta dx) (dy - clampMouseDelta dy) i
      (w - clampMouseWheel w) (enqueue ?k True p)" using True by (subst enqueueMouseMotion.simps) (simp add: Let_def)
    show ?thesis by (rule exI [of _ "?k # ks"]) (use e ks k in \<open>simp add: mouse_bytes_def packet_ok_def\<close>)
  next
    case False
    then have "enqueueMouseMotion b ob dx dy i w p = p" by (subst enqueueMouseMotion.simps) simp
    then show ?thesis using False by (intro exI [of _ "[]"]) (simp add: mouse_bytes_def)
  qed
qed

subsection \<open>Keys\<close>

text \<open>How a keyboard driver reads one key from the scan code stream: the key, whether it went down, and the rest.\<close>

fun read_key :: "byte list \<Rightarrow> (ps2Scan \<times> bool \<times> byte list) option" where
  "read_key [] = None"
| "read_key (c # cs) =
     (if c = 0xe0 then (case cs of [] \<Rightarrow> None | d # ds \<Rightarrow> Some (\<lparr>code = d AND 0x7f, extended = True\<rparr>, d AND 0x80 = 0, ds))
      else Some (\<lparr>code = c AND 0x7f, extended = False\<rparr>, c AND 0x80 = 0, cs))"

definition scan_ok :: "byte \<Rightarrow> bool" where
  "scan_ok c \<longleftrightarrow> c AND 0x7f = c \<and> c AND 0x80 = 0 \<and> (c OR 0x80) AND 0x7f = c \<and> (c OR 0x80) AND 0x80 \<noteq> 0 \<and> c \<noteq> 0xe0 \<and> c OR 0x80 \<noteq> 0xe0"

lemma tables_ok: "\<forall>(k, c)\<in>set ascii_table. scan_ok c" "\<forall>c\<in>set function_keys. scan_ok c" "\<forall>(k, c, e)\<in>set special_table. scan_ok c"
  by (simp_all add: ascii_table_def function_keys_def special_table_def scan_ok_def)

lemma scan_code_ok:
  assumes "ps2ScanCode k = Some s" shows "scan_ok (code s)"
proof (cases "ps2ASCIIKey k")
  case None
  show ?thesis
  proof (cases "0xffbe \<le> k \<and> k \<le> 0xffc9")
    case True
    then have "s = ps2FunctionKey (k - 0xffbe)" "k - 0xffbe < length function_keys" using assms None
      by (auto simp: ps2ScanCode_def function_keys_def)
    then show ?thesis using tables_ok(2) by (simp add: ps2FunctionKey_def)
  next
    case False
    then obtain c e where "map_of special_table k = Some (c, e)" "code s = c" using assms None by (auto simp: ps2ScanCode_def)
    then show ?thesis using tables_ok(3) map_of_SomeD [of special_table k "(c, e)"] by auto
  qed
next
  case (Some s')
  then obtain k' c where "map_of ascii_table k' = Some c" "code s' = c" by (auto simp: ps2ASCIIKey_def Let_def)
  moreover have "s = s'" using assms Some by (simp add: ps2ScanCode_def)
  ultimately show ?thesis using tables_ok(1) map_of_SomeD [of ascii_table k' c] by auto
qed

subsection \<open>The command byte\<close>

definition ps2_ok :: "PS2Controller \<Rightarrow> bool" where
  "ps2_ok p \<longleftrightarrow> (keyboardEnabled p \<longleftrightarrow> commandByte p AND ps2CmdKeyboardOff = 0) \<and>
     (mouseEnabled p \<longleftrightarrow> commandByte p AND ps2CmdMouseOff = 0) \<and> length (mouseSamples p) = 3"

text \<open>Everything that happens to the controller.\<close>

inductive ps2_step :: "PS2Controller \<Rightarrow> PS2Controller \<Rightarrow> bool" where
  "ps2_Read port buf p = (r, p') \<Longrightarrow> ps2_step p p'"
| "ps2_Write port buf p = (u, p') \<Longrightarrow> ps2_step p p'"
| "ps2_step p (KeyEvent down keysym p)"
| "ps2_step p (PointerEvent buttonMask x y p)"
| "ps2_step p (RebasePointer x y p)"

lemma ps2_ok_cong:
  "commandByte p' = commandByte p \<Longrightarrow> keyboardEnabled p' = keyboardEnabled p \<Longrightarrow> mouseEnabled p' = mouseEnabled p \<Longrightarrow>
   length (mouseSamples p') = length (mouseSamples p) \<Longrightarrow> ps2_ok p' = ps2_ok p"
  by (simp add: ps2_ok_def)

lemma ps2_ok_enqueue [simp]: "ps2_ok (enqueue bs a p) = ps2_ok p"
  by (rule ps2_ok_cong) simp_all

lemma ps2_ok_motion: "ps2_ok (enqueueMouseMotion b ob dx dy i w p) = ps2_ok p"
proof (induction b ob dx dy i w p rule: enqueueMouseMotion.induct)
  case (1 b ob dx dy i w p)
  show ?case using 1 by (subst enqueueMouseMotion.simps) (simp add: Let_def)
qed

lemma motion_keeps:
  "mouseX (enqueueMouseMotion b ob dx dy i w p) = mouseX p \<and> mouseY (enqueueMouseMotion b ob dx dy i w p) = mouseY p \<and>
   mouseInit (enqueueMouseMotion b ob dx dy i w p) = mouseInit p"
proof (induction b ob dx dy i w p rule: enqueueMouseMotion.induct)
  case (1 b ob dx dy i w p)
  have k: "mouseX (enqueue bs a p) = mouseX p" "mouseY (enqueue bs a p) = mouseY p" "mouseInit (enqueue bs a p) = mouseInit p" for bs a
    by (simp_all add: enqueue_def injectIRQ_def Let_def)
  show ?case using 1 by (subst (1 2 3) enqueueMouseMotion.simps) (simp add: Let_def k)
qed

lemma off_bits: "bit ps2CmdKeyboardOff 4" "\<not> bit ps2CmdKeyboardOff 5" "\<not> bit ps2CmdMouseOff 4" "bit ps2CmdMouseOff 5"
  by (simp_all add: ps2CmdKeyboardOff_def ps2CmdMouseOff_def)

lemma ps2_ok_bits:
  "ps2_ok p \<longleftrightarrow> (keyboardEnabled p \<longleftrightarrow> \<not> bit (commandByte p) 4) \<and> (mouseEnabled p \<longleftrightarrow> \<not> bit (commandByte p) 5) \<and> length (mouseSamples p) = 3"
  by (simp add: ps2_ok_def ps2CmdKeyboardOff_def ps2CmdMouseOff_def and_bits)

lemma ps2_ok_commands:
  assumes "ps2_ok p" shows "ps2_ok (writeCommand c p)" "ps2_ok (handleKeyboardCommand c p)" "ps2_ok (handleMouseCommand c p)" "ps2_ok (writeData c p)"
proof -
  have k: "ps2_ok (handleKeyboardCommand c q)" if "ps2_ok q" for q using that
    by (simp add: handleKeyboardCommand_def) (simp add: ps2_ok_def)
  have m: "ps2_ok (handleMouseCommand c q)" if "ps2_ok q" for q using that
    by (simp add: handleMouseCommand_def Let_def recordMouseSampleLocked_def) (simp add: ps2_ok_def)
  show "ps2_ok (handleKeyboardCommand c p)" "ps2_ok (handleMouseCommand c p)" using k m assms by blast+
  have e: "ps2_ok (p\<lparr>expect := x\<rparr>)" for x using assms by (simp add: ps2_ok_def)
  show "ps2_ok (writeData c p)" using k [OF e] m [OF e] e
    by (auto simp: writeData_def Let_def ps2_ok_def split: ps2Expect.split)
  have c: "ps2_ok (p\<lparr>keyboardEnabled := False, commandByte := commandByte p OR ps2CmdKeyboardOff\<rparr>)"
    "ps2_ok (p\<lparr>keyboardEnabled := True, commandByte := commandByte p AND NOT ps2CmdKeyboardOff\<rparr>)"
    "ps2_ok (p\<lparr>mouseEnabled := False, commandByte := commandByte p OR ps2CmdMouseOff\<rparr>)"
    "ps2_ok (p\<lparr>mouseEnabled := True, commandByte := commandByte p AND NOT ps2CmdMouseOff\<rparr>)"
    using assms by (simp_all add: ps2_ok_bits bit_or_iff bit_and_iff bit_not_iff off_bits)
  show "ps2_ok (writeCommand c p)" using assms e c unfolding writeCommand_def by (simp only: ps2_ok_enqueue split: if_split) simp
qed

lemma ps2_ok_step: "ps2_step p p' \<Longrightarrow> ps2_ok p \<Longrightarrow> ps2_ok p'"
proof (induction rule: ps2_step.induct)
  case (1 port buf p r p')
  then have "commandByte p' = commandByte p" "keyboardEnabled p' = keyboardEnabled p" "mouseEnabled p' = mouseEnabled p" "mouseSamples p' = mouseSamples p"
    by (auto simp: ps2_Read_def popLocked_def Let_def split: if_splits list.splits)
  then show ?case using 1 ps2_ok_cong [of p' p] by simp
next
  case (2 port buf p u p')
  then show ?case using ps2_ok_commands [of p "buf ! 0"] by (auto simp: ps2_Write_def split: if_splits)
next
  case (3 p down keysym)
  then show ?case by (simp add: KeyEvent_def split: option.split)
next
  case (4 p b x y)
  have "ps2_ok (p\<lparr>mouseX := x, mouseY := y, mouseInit := True\<rparr>)" "ps2_ok (p\<lparr>mouseX := x, mouseY := y, mouseInit := True, mouseButtons := ps2Buttons b\<rparr>)"
    using 4 by (simp_all add: ps2_ok_def)
  then show ?case by (simp add: PointerEvent_def Let_def ps2_ok_motion)
next
  case (5 p x y)
  then show ?case by (simp add: RebasePointer_def ps2_ok_def)
qed

lemma ps2_ok_new: "ps2_ok (NewPS2Controller k m)"
  by (simp add: ps2_ok_def NewPS2Controller_def ps2_consts)

text \<open>Print has the scan code of Insert.\<close>

lemma print_is_insert: "ps2ScanCode 0xff61 = ps2ScanCode 0xff63"
  by (simp add: ps2ScanCode_def ps2ASCIIKey_def ascii_table_def special_table_def)

section \<open>Properties\<close>

lemma drain_irqs_all:
  assumes "irqEnabledLocked a p" "if a then hasMouseIRQ p else hasKeyboardIRQ p"
  shows "drain_irqs p (map (\<lambda>b. \<lparr>data = b, aux = a\<rparr>) bs) = replicate (length bs - 1) a"
proof (induction bs)
  case (Cons b bs)
  show ?case
  proof (cases bs)
    case (Cons c cs)
    have "head_irqs (p\<lparr>queue := map (\<lambda>b. \<lparr>data = b, aux = a\<rparr>) bs\<rparr>) = [a]" using assms Cons by (simp add: head_irqs_def irqEnabledLocked_def)
    then show ?thesis using Cons.IH Cons by simp
  qed (simp add: head_irqs_def)
qed simp

text \<open>C23. Bytes queued for the guest reach it in order, each with its interrupt: when the queue is empty and the interrupt of the port is on, queueing bytes and reading the data port once per byte returns exactly those bytes, raises exactly one interrupt per byte, on the line of the device they came from, and leaves the queue empty.\<close>

theorem ps2_order:
  assumes "queue p = []" "irqEnabledLocked a p" "if a then hasMouseIRQ p else hasKeyboardIRQ p"
  shows "fst (drain (length bs) (enqueue bs a p)) = bs \<and> irqs (snd (drain (length bs) (enqueue bs a p))) = irqs p @ replicate (length bs) a \<and>
    queue (snd (drain (length bs) (enqueue bs a p))) = []"
proof (intro conjI)
  let ?q = "map (\<lambda>b. \<lparr>data = b, aux = a\<rparr>) bs"
  have q: "queue (enqueue bs a p) = ?q" using assms(1) by simp
  have d: "drain (length bs) (enqueue bs a p) = (bs, (enqueue bs a p)\<lparr>queue := [], irqs := irqs (enqueue bs a p) @ replicate (length bs - 1) a\<rparr>)"
    using drain_all [OF q] drain_irqs_all [of a "enqueue bs a p" bs] assms by (simp add: irqEnabledLocked_def comp_def)
  show "fst (drain (length bs) (enqueue bs a p)) = bs" "queue (snd (drain (length bs) (enqueue bs a p))) = []" using d by simp_all
  show "irqs (snd (drain (length bs) (enqueue bs a p))) = irqs p @ replicate (length bs) a"
  proof (cases bs)
    case Nil
    then show ?thesis using d by (simp add: enqueue_def Let_def)
  next
    case (Cons b cs)
    then have "irqs (enqueue bs a p) = irqs p @ [a]" using enqueue_irqs [of bs a p] assms by (simp add: head_irqs_def irqEnabledLocked_def)
    then show ?thesis using d Cons by simp
  qed
qed

definition kb :: PS2Controller where "kb = NewPS2Controller True True"

theorem ps2_order_witness:
  "fst (drain 2 (enqueue [0xe0, 0x48] False kb)) = [0xe0, 0x48] \<and> irqs (snd (drain 2 (enqueue [0xe0, 0x48] False kb))) = [False, False]"
  using ps2_order [of kb False "[0xe0, 0x48]"]
  by (simp add: kb_def NewPS2Controller_def ps2_consts irqEnabledLocked_def numeral_2_eq_2)

text \<open>C22. Pointer motion is exact: when the mouse is reporting, a pointer event appends to the queue whole packets of the length the guest selected, each with the sync bit and the pressed buttons, whose nine-bit deltas add up to the way from the last position to the new one (with y upwards), however far; a change of buttons sends at least one packet, and the position is remembered for the next event.\<close>

theorem pointer_motion:
  assumes "mouseEnabled p" "mouseReporting p" "mouseInit p"
  shows "(\<exists>ks. queue (PointerEvent b x y p) = queue p @ mouse_bytes ks \<and>
      sum_list (map packet_dx ks) = int (unat x) - int (unat (mouseX p)) \<and> sum_list (map packet_dy ks) = int (unat (mouseY p)) - int (unat y) \<and>
      (\<forall>k\<in>set ks. packet_ok (ps2Buttons b) (int (unat (mouseID p))) k) \<and> (ps2Buttons b \<noteq> mouseButtons p \<longrightarrow> ks \<noteq> [])) \<and>
    mouseX (PointerEvent b x y p) = x \<and> mouseY (PointerEvent b x y p) = y \<and> mouseInit (PointerEvent b x y p)"
proof (rule conjI)
  let ?p = "p\<lparr>mouseX := x, mouseY := y, mouseInit := True, mouseButtons := ps2Buttons b\<rparr>"
  have e: "PointerEvent b x y p = enqueueMouseMotion (ps2Buttons b) (mouseButtons p) (int (unat x) - int (unat (mouseX p)))
    (int (unat (mouseY p)) - int (unat y)) (int (unat (mouseID p))) (ps2WheelDelta b) ?p" using assms by (simp add: PointerEvent_def Let_def)
  show "\<exists>ks. queue (PointerEvent b x y p) = queue p @ mouse_bytes ks \<and>
      sum_list (map packet_dx ks) = int (unat x) - int (unat (mouseX p)) \<and> sum_list (map packet_dy ks) = int (unat (mouseY p)) - int (unat y) \<and>
      (\<forall>k\<in>set ks. packet_ok (ps2Buttons b) (int (unat (mouseID p))) k) \<and> (ps2Buttons b \<noteq> mouseButtons p \<longrightarrow> ks \<noteq> [])"
    unfolding e using motion_packets [of "ps2Buttons b" "mouseButtons p" "int (unat x) - int (unat (mouseX p))"
      "int (unat (mouseY p)) - int (unat y)" "int (unat (mouseID p))" "ps2WheelDelta b" ?p] by simp
  show "mouseX (PointerEvent b x y p) = x \<and> mouseY (PointerEvent b x y p) = y \<and> mouseInit (PointerEvent b x y p)"
    unfolding e by (simp add: motion_keeps)
qed

theorem pointer_motion_witness:
  "\<exists>ks. queue (PointerEvent 1 500 0 (kb\<lparr>mouseReporting := True, mouseInit := True\<rparr>)) = mouse_bytes ks \<and> sum_list (map packet_dx ks) = 500"
  using pointer_motion [of "kb\<lparr>mouseReporting := True, mouseInit := True\<rparr>" 1 500 0]
  by (auto simp: kb_def NewPS2Controller_def)

text \<open>Keys are readable: a key event the keyboard accepts appends to what the guest reads a sequence that a driver reading prefix, make and break codes takes back to that key and that direction, whatever follows it in the stream.\<close>

lemma key_read_back:
  assumes "keyboardEnabled p" "keyboardScan p" "ps2ScanCode keysym = Some s"
  shows "\<exists>bs. fst (drain (length (queue (KeyEvent down keysym p))) (KeyEvent down keysym p)) = map data (queue p) @ bs \<and>
    (\<forall>rest. read_key (bs @ rest) = Some (s, down, rest))"
proof -
  have ok: "scan_ok (code s)" using scan_code_ok [OF assms(3)] .
  have "read_key (ps2KeySequence s down @ rest) = Some (s, down, rest)" for rest
    using ok by (cases s) (auto simp: ps2KeySequence_def scan_ok_def Let_def)
  then show ?thesis using drain_all [OF refl, of "KeyEvent down keysym p"] assms
    by (intro exI [of _ "ps2KeySequence s down"]) (simp add: KeyEvent_def comp_def)
qed

lemma key_read_back_witness:
  "\<exists>bs. fst (drain (length (queue (KeyEvent False 0xff52 kb))) (KeyEvent False 0xff52 kb)) = bs \<and>
    read_key (bs @ [0x1e]) = Some (\<lparr>code = 0x48, extended = True\<rparr>, False, [0x1e])"
  using key_read_back [of kb "0xff52" "\<lparr>code = 0x48, extended = True\<rparr>" False]
  by (auto simp: kb_def NewPS2Controller_def ps2ScanCode_def ps2ASCIIKey_def ascii_table_def special_table_def)

text \<open>The enable flags follow the command byte: in every state reached from a new controller by port accesses and input events, the keyboard and the mouse are enabled exactly when their disable bits of the command byte are clear, and the sample history has its three entries.\<close>

lemma ps2_enable_flags:
  assumes "ps2_step\<^sup>*\<^sup>* (NewPS2Controller hk hm) p"
  shows "(keyboardEnabled p \<longleftrightarrow> commandByte p AND ps2CmdKeyboardOff = 0) \<and> (mouseEnabled p \<longleftrightarrow> commandByte p AND ps2CmdMouseOff = 0) \<and>
    length (mouseSamples p) = 3"
  using assms by (induction rule: rtranclp_induct) (use ps2_ok_new ps2_ok_step in \<open>auto simp: ps2_ok_def\<close>)

lemma ps2_enable_flags_witness:
  "mouseEnabled (writeCommand 0xa7 kb) = (commandByte (writeCommand 0xa7 kb) AND ps2CmdMouseOff = 0)"
proof -
  have "ps2_Write ps2StatusPort [0xa7] kb = (Inr (), writeCommand 0xa7 kb)" by (simp add: ps2_Write_def ps2_consts)
  then have "ps2_step\<^sup>*\<^sup>* (NewPS2Controller True True) (writeCommand 0xa7 kb)" using ps2_step.intros(2) [of _ _ kb] unfolding kb_def by blast
  from ps2_enable_flags [OF this] show ?thesis by simp
qed

end
