(* ===== verification/Cmos.thy ===== *)
theory Cmos
  imports Io_Devices
begin

text \<open>
  The CMOS memory and clock, \<^verbatim>\<open>internal/iodev/cmos.go\<close>. The time a read takes from
  \<^verbatim>\<open>time.Now\<close> is an argument; the 128 bytes are a list. The properties show
  that a driver reads the clock right in every mode it can select, and finds the memory size.
\<close>

unbundle bit_operations_syntax

section \<open>The device\<close>

definition indexMask :: byte where "indexMask = 0x7f"
definition indexOffset :: nat where "indexOffset = 0x70"
definition dataOffset :: nat where "dataOffset = 0x71"
definition dataLen :: nat where "dataLen = 128"
definition kib :: u64 where "kib = 1024"
definition mib :: u64 where "mib = 1024 * kib"

lemmas cmos_consts = indexMask_def indexOffset_def dataOffset_def dataLen_def kib_def mib_def

record CMOS =
  Index :: byte
  Data :: "byte list"

text \<open>What a read uses of a \<^verbatim>\<open>time.Time\<close>.\<close>

record clock_time =
  Second :: nat
  Minute :: nat
  Hour :: nat
  Weekday :: nat
  Day :: nat
  Month :: nat
  Year :: nat

definition clampMax :: "u64 \<Rightarrow> u64 \<Rightarrow> u64" where
  "clampMax v m = (if v > m then m else v)"

definition saturatingSub :: "u64 \<Rightarrow> u64 \<Rightarrow> u64" where
  "saturatingSub v sub = (if v < sub then 0 else v - sub)"

definition setUint16 :: "byte \<Rightarrow> u16 \<Rightarrow> CMOS \<Rightarrow> CMOS" where
  "setUint16 index v c = c\<lparr>Data := (Data c)[unat index := ucast v, unat (index + 1) := ucast (drop_bit 8 v)]\<rparr>"

definition NewCMOS :: "u64 \<Rightarrow> u64 \<Rightarrow> CMOS" where
  "NewCMOS memBelow4G memAbove4G =
     (let c = \<lparr>Index = 0, Data = (replicate dataLen 0)[0x0b := 0x02]\<rparr>;
          c = setUint16 0x15 640 c;
          extendedKiB = saturatingSub memBelow4G (1 * mib) div kib;
          c = setUint16 0x17 (ucast (clampMax extendedKiB 0xffff)) c;
          c = setUint16 0x30 (ucast (clampMax extendedKiB 0xffff)) c;
          extMem64K = ucast (clampMax (saturatingSub memBelow4G (16 * mib) div (64 * kib)) 0xffff);
          c = setUint16 0x34 extMem64K c;
          above4G64K = clampMax (memAbove4G div (64 * kib)) 0xffffff
      in c\<lparr>Data := (Data c)[0x5b := ucast above4G64K, 0x5c := ucast (drop_bit 8 above4G64K), 0x5d := ucast (drop_bit 16 above4G64K)]\<rparr>)"

definition toBCD :: "byte \<Rightarrow> byte" where
  "toBCD v = push_bit 4 (v div 10) OR v mod 10"

text \<open>The byte behind the data port: the clock registers, the two fixed status registers, or memory.\<close>

definition cmos_data :: "clock_time \<Rightarrow> CMOS \<Rightarrow> byte" where
  "cmos_data dt c =
     (let encode = (if Data c ! 0x0b AND 0x04 \<noteq> 0 then (\<lambda>v. v) else toBCD); i = Index c AND indexMask
      in if i = 0x00 then encode (of_nat (Second dt))
         else if i = 0x02 then encode (of_nat (Minute dt))
         else if i = 0x04 then
           (if Data c ! 0x0b AND 0x02 = 0
            then (let d = encode (of_nat ((Hour dt + 11) mod 12 + 1)) in if Hour dt \<ge> 12 then d OR 0x80 else d)
            else encode (of_nat (Hour dt)))
         else if i = 0x06 then encode (of_nat (Weekday dt) + 1)
         else if i = 0x07 then encode (of_nat (Day dt))
         else if i = 0x08 then encode (of_nat (Month dt))
         else if i = 0x09 then encode (of_nat (Year dt mod 100))
         else if i = 0x0a then 0x20
         else if i = 0x0d then 0x80
         else if i = 0x32 then encode (of_nat (Year dt div 100))
         else Data c ! unat i)"

definition cmos_Read :: "clock_time \<Rightarrow> nat \<Rightarrow> byte list \<Rightarrow> CMOS \<Rightarrow> dev_err + byte list" where
  "cmos_Read now base buf c =
     (if length buf \<noteq> 1 then Inl DataLenInvalid
      else if base = indexOffset then Inr [Index c]
      else if base = dataOffset then Inr [cmos_data now c]
      else Inr buf)"

definition cmos_Write :: "nat \<Rightarrow> byte list \<Rightarrow> CMOS \<Rightarrow> (dev_err + unit) \<times> CMOS" where
  "cmos_Write base buf c =
     (if length buf \<noteq> 1 then (Inl DataLenInvalid, c)
      else if base = indexOffset then (Inr (), c\<lparr>Index := buf ! 0\<rparr>)
      else if base = dataOffset then
        (if Index c = 0x8f \<and> buf ! 0 = 0 then (Inr (), c)
         else (Inr (), c\<lparr>Data := (Data c)[unat (Index c AND indexMask) := buf ! 0]\<rparr>))
      else (Inr (), c))"

section \<open>Lemmas\<close>

text \<open>Every access to the list is in range: it keeps its 128 bytes, and an index has seven bits.\<close>

inductive cmos_step :: "CMOS \<Rightarrow> CMOS \<Rightarrow> bool" where
  "cmos_Write base buf c = (r, c') \<Longrightarrow> cmos_step c c'"

lemma masked_index: "unat (i AND indexMask) < dataLen"
proof -
  have "i AND indexMask = take_bit 7 i" by (simp add: indexMask_def take_bit_eq_mask mask_eq_exp_minus_1)
  then show ?thesis using take_bit_nat_less_exp [of 7 "unat i"] by (simp add: unsigned_take_bit_eq dataLen_def)
qed

lemma new_length: "length (Data (NewCMOS b a)) = dataLen"
  by (simp add: NewCMOS_def Let_def setUint16_def)

lemma cmos_length: "cmos_step\<^sup>*\<^sup>* (NewCMOS b a) c \<Longrightarrow> length (Data c) = dataLen"
proof (induction rule: rtranclp_induct)
  case (step c c')
  then show ?case by (auto elim!: cmos_step.cases simp: cmos_Write_def split: if_splits)
qed (simp add: new_length)

text \<open>A driver's access: it writes the index, then reads the data port.\<close>

definition read_reg :: "byte \<Rightarrow> clock_time \<Rightarrow> CMOS \<Rightarrow> byte" where
  "read_reg i now c = (case cmos_Read now dataOffset [0] (snd (cmos_Write indexOffset [i] c)) of Inr [d] \<Rightarrow> d | _ \<Rightarrow> 0)"

lemma read_reg: "read_reg i now c = cmos_data now (c\<lparr>Index := i\<rparr>)"
  by (simp add: read_reg_def cmos_Read_def cmos_Write_def indexOffset_def dataOffset_def)

subsection \<open>The clock\<close>

text \<open>How a driver reads the clock: registers in BCD or binary, and the hour with its afternoon bit in twelve hour mode, as register B says.\<close>

definition from_bcd :: "byte \<Rightarrow> nat" where
  "from_bcd d = unat (drop_bit 4 d) * 10 + unat (d AND 0x0f)"

definition driver_hour :: "byte \<Rightarrow> (byte \<Rightarrow> nat) \<Rightarrow> byte \<Rightarrow> nat" where
  "driver_hour b decode d =
     (if b AND 0x02 \<noteq> 0 then decode d else decode (d AND 0x7f) mod 12 + (if d AND 0x80 \<noteq> 0 then 12 else 0))"

definition driver_time :: "clock_time \<Rightarrow> CMOS \<Rightarrow> clock_time" where
  "driver_time now c =
     (let b = read_reg 0x0b now c; decode = (if b AND 0x04 \<noteq> 0 then unat else from_bcd); get = (\<lambda>i. decode (read_reg i now c))
      in \<lparr>Second = get 0x00, Minute = get 0x02, Hour = driver_hour b decode (read_reg 0x04 now c), Weekday = get 0x06 - 1,
          Day = get 0x07, Month = get 0x08, Year = get 0x32 * 100 + get 0x09\<rparr>)"

definition valid_time :: "clock_time \<Rightarrow> bool" where
  "valid_time t \<longleftrightarrow> Second t < 60 \<and> Minute t < 60 \<and> Hour t < 24 \<and> Weekday t < 7 \<and> Day t < 32 \<and> Month t < 13 \<and> Year t < 10000"

lemma bcd_all: "\<forall>n\<in>set [0..<100]. from_bcd (toBCD (of_nat n)) = n"
  by code_simp

lemma bcd: "n < 100 \<Longrightarrow> from_bcd (toBCD (of_nat n)) = n"
  using bcd_all by simp

lemma hour_all:
  "\<forall>h\<in>set [0..<24]. let e = (h + 11) mod 12 + 1; d = toBCD (of_nat e); d' = (if h \<ge> 12 then d OR 0x80 else d);
     g' = (if h \<ge> 12 then of_nat e OR 0x80 else of_nat e) in
     from_bcd (d' AND 0x7f) mod 12 + (if d' AND 0x80 \<noteq> 0 then 12 else 0) = h \<and>
     unat (g' AND 0x7f :: byte) mod 12 + (if g' AND 0x80 \<noteq> 0 then 12 else 0) = h"
  by code_simp

lemma driver_hour:
  assumes "h < 24"
  shows "driver_hour b (if b AND 0x04 \<noteq> 0 then unat else from_bcd)
    (let encode = (if b AND 0x04 \<noteq> 0 then (\<lambda>v. v) else toBCD) in
     if b AND 0x02 = 0 then (let d = encode (of_nat ((h + 11) mod 12 + 1)) in if h \<ge> 12 then d OR 0x80 else d) else encode (of_nat h)) = h"
proof -
  note all = bspec [OF hour_all, of h, unfolded Let_def]
  show ?thesis
  proof (cases "b AND 0x02 = 0")
    case True
    then show ?thesis using all assms by (cases "b AND 0x04 = 0") (simp_all only: driver_hour_def Let_def set_upt atLeastLessThan_iff le0 simp_thms if_True if_False)
  next
    case False
    then show ?thesis using bcd [of h] assms by (simp add: driver_hour_def unat_of_nat)
  qed
qed

subsection \<open>Memory sizes\<close>

lemma unat_saturatingSub: "unat (saturatingSub v s) = unat v - unat s"
  by (simp add: saturatingSub_def word_less_nat_alt unat_sub_if')

lemma unat_clampMax: "unat (clampMax v m) = min (unat v) (unat m)"
  by (simp add: clampMax_def word_less_nat_alt min_def)

lemma byte_of: "(ucast (w :: u64) :: byte) = of_nat (unat w)" "(ucast (x :: u16) :: byte) = of_nat (unat x)"
  unfolding word_unat_eq_iff by (simp_all add: unsigned_ucast_eq unsigned_of_nat)

lemma registers16: "le_nat [ucast v, ucast (drop_bit 8 v)] = unat (v :: u16)"
proof -
  have "unat v < 256 ^ 2" using unsigned_less [of v] by simp
  moreover have "unat (drop_bit 8 v) = unat v div 256" by (simp add: drop_bit_eq_div unat_div)
  then have "[ucast v, ucast (drop_bit 8 v)] = put_le 2 (unat v)" by (simp only: byte_of numeral_2_eq_2 put_le.simps)
  ultimately show ?thesis by (simp only: le_nat_put_le)
qed

lemma registers24:
  assumes "unat (v :: u64) < 2 ^ 24" shows "le_nat [ucast v, ucast (drop_bit 8 v), ucast (drop_bit 16 v)] = unat v"
proof -
  have "unat (drop_bit 8 v) = unat v div 256" "unat (drop_bit 16 v) = unat v div 256 div 256"
    by (simp_all add: drop_bit_eq_div unat_div div_mult2_eq [symmetric])
  then have "[ucast v, ucast (drop_bit 8 v), ucast (drop_bit 16 v)] = put_le 3 (unat v)" by (simp only: byte_of numeral_3_eq_3 put_le.simps)
  moreover have "unat v < 256 ^ 3" using assms by simp
  ultimately show ?thesis by (simp only: le_nat_put_le)
qed

lemma low16: "unat v < 2 ^ 16 \<Longrightarrow> unat (ucast (v :: u64) :: u16) = unat v"
  by (simp add: unsigned_ucast_eq take_bit_nat_eq_self)

text \<open>How firmware finds the memory: what lies above 16 MiB and above 4 GiB, in units of 64 KiB.\<close>

definition below_4g :: "clock_time \<Rightarrow> CMOS \<Rightarrow> nat" where
  "below_4g now c = 16 * 1024 * 1024 + 64 * 1024 * le_nat [read_reg 0x34 now c, read_reg 0x35 now c]"

definition above_4g :: "clock_time \<Rightarrow> CMOS \<Rightarrow> nat" where
  "above_4g now c = 64 * 1024 * le_nat [read_reg 0x5b now c, read_reg 0x5c now c, read_reg 0x5d now c]"

section \<open>Properties\<close>

text \<open>C25. The clock is right in every mode: whatever the guest has written to the device, so whether it selected BCD or binary registers and twelve or twenty-four hours, a driver that reads the clock registers as register B prescribes finds the host's time.\<close>

theorem cmos_clock:
  assumes "cmos_step\<^sup>*\<^sup>* (NewCMOS mb ma) c" "valid_time now"
  shows "driver_time now c = now"
proof -
  let ?b = "Data c ! 0x0b"
  let ?dec = "if ?b AND 0x04 \<noteq> 0 then unat else from_bcd" and ?enc = "if ?b AND 0x04 \<noteq> 0 then (\<lambda>v. v) else toBCD"
  have b: "read_reg 0x0b now c = ?b" by (simp add: read_reg cmos_data_def indexMask_def Let_def)
  have round: "?dec (?enc (of_nat n)) = n" if "n < 100" for n using bcd [OF that] that by (simp add: unat_of_nat)
  have w: "?dec (?enc (of_nat (Weekday now) + 1)) = Weekday now + 1" using round [of "Weekday now + 1"] assms(2) by (simp add: valid_time_def add.commute)
  have h: "driver_hour ?b ?dec (read_reg 0x04 now c) = Hour now" using driver_hour [of "Hour now" ?b] assms(2)
    by (simp add: read_reg cmos_data_def indexMask_def Let_def valid_time_def)
  have y: "Year now div 100 * 100 + Year now mod 100 = Year now" "Year now div 100 < 100" "Year now mod 100 < 100"
    using assms(2) less_mult_imp_div_less [of "Year now" 100 100] by (simp_all add: valid_time_def)
  have r: "?dec (read_reg 0x00 now c) = Second now" "?dec (read_reg 0x02 now c) = Minute now" "?dec (read_reg 0x06 now c) - 1 = Weekday now"
    "?dec (read_reg 0x07 now c) = Day now" "?dec (read_reg 0x08 now c) = Month now" "?dec (read_reg 0x32 now c) = Year now div 100"
    "?dec (read_reg 0x09 now c) = Year now mod 100"
    using round [of "Second now"] round [of "Minute now"] w round [of "Day now"] round [of "Month now"] round [OF y(2)] round [OF y(3)] assms(2)
    by (simp_all add: read_reg cmos_data_def indexMask_def Let_def valid_time_def)
  show ?thesis unfolding driver_time_def b Let_def r h y(1) by simp
qed

definition noon :: clock_time where
  "noon = \<lparr>Second = 7, Minute = 30, Hour = 12, Weekday = 3, Day = 29, Month = 2, Year = 2024\<rparr>"

theorem cmos_clock_witness:
  "driver_time noon ((NewCMOS 0x8000000 0)\<lparr>Index := 0x0b, Data := (Data (NewCMOS 0x8000000 0))[0x0b := 0x04]\<rparr>) = noon"
proof -
  let ?c = "NewCMOS 0x8000000 0"
  have "cmos_step ?c (?c\<lparr>Index := 0x0b\<rparr>)" by (rule cmos_step.intros [of indexOffset "[0x0b]"]) (simp add: cmos_Write_def)
  moreover have "cmos_step (?c\<lparr>Index := 0x0b\<rparr>) (?c\<lparr>Index := 0x0b, Data := (Data ?c)[0x0b := 0x04]\<rparr>)"
    by (rule cmos_step.intros [of dataOffset "[0x04]"]) (simp add: cmos_Write_def cmos_consts)
  ultimately have "cmos_step\<^sup>*\<^sup>* ?c (?c\<lparr>Index := 0x0b, Data := (Data ?c)[0x0b := 0x04]\<rparr>)" by (meson converse_rtranclp_into_rtranclp r_into_rtranclp)
  from cmos_clock [OF this, of noon] show ?thesis by (simp add: noon_def valid_time_def)
qed

text \<open>Firmware finds all of memory: for memory below 4 GiB of at least 16 MiB and memory above it of less than 1 TiB, both in whole units of 64 KiB, the sizes that firmware computes from the CMOS registers of a new device are exact.\<close>

lemma cmos_memory:
  assumes "16 * 1024 * 1024 \<le> unat mb" "unat mb \<le> 2 ^ 32" "64 * 1024 dvd unat mb" "unat ma < 2 ^ 40" "64 * 1024 dvd unat ma"
  shows "below_4g now (NewCMOS mb ma) = unat mb \<and> above_4g now (NewCMOS mb ma) = unat ma"
proof (rule conjI)
  let ?v = "clampMax (saturatingSub mb (16 * mib) div (64 * kib)) 0xffff" and ?w = "clampMax (ma div (64 * kib)) 0xffffff"
  have k: "unat (64 * kib) = 65536" "unat (16 * mib) = 16777216" by (simp_all add: mib_def kib_def)
  have b: "(unat mb - 16777216) div 65536 \<le> 65535" using assms(2) div_le_mono [of "unat mb - 16777216" "2 ^ 32 - 16777216" 65536] by simp
  then have v: "unat ?v = (unat mb - 16777216) div 65536" by (simp add: unat_clampMax unat_div unat_saturatingSub k)
  have "unat ma div 65536 < 16777216" using assms(4) by (intro less_mult_imp_div_less) simp
  then have w: "unat ?w = unat ma div 65536" "unat ?w < 2 ^ 24" by (simp_all add: unat_clampMax unat_div k)
  have "le_nat [ucast (ucast ?v :: u16), ucast (drop_bit 8 (ucast ?v :: u16))] = (unat mb - 16777216) div 65536"
    using low16 [of ?v] v b by (subst registers16) simp
  moreover have "65536 dvd unat mb - 16777216" using assms(3) by (intro dvd_diff_nat) simp_all
  ultimately show "below_4g now (NewCMOS mb ma) = unat mb" using assms(1)
    by (simp add: below_4g_def read_reg cmos_data_def indexMask_def NewCMOS_def setUint16_def dataLen_def Let_def)
  have "le_nat [ucast ?w, ucast (drop_bit 8 ?w), ucast (drop_bit 16 ?w)] = unat ma div 65536" using registers24 [OF w(2)] w(1) by simp
  then show "above_4g now (NewCMOS mb ma) = unat ma" using assms(5)
    by (simp add: above_4g_def read_reg cmos_data_def indexMask_def NewCMOS_def setUint16_def dataLen_def Let_def)
qed

lemma cmos_memory_witness:
  "below_4g noon (NewCMOS 0xc0000000 0x40000000) = 0xc0000000 \<and> above_4g noon (NewCMOS 0xc0000000 0x40000000) = 0x40000000"
  using cmos_memory [of "0xc0000000" "0x40000000" noon] by simp

end
