(* ===== verification/Fw_Cfg.thy ===== *)
theory Fw_Cfg
  imports Io_Devices "HOL-Library.List_Lexorder"
begin

text \<open>
  The firmware configuration device, \<^verbatim>\<open>internal/iodev/fw_cfg.go\<close>: the construction of the
  items and of the file directory, and the selector and data ports. Items are a map from selectors to
  byte strings; the maps the constructor takes are association lists with distinct keys, whose order is the
  order of Go's iteration. Names are byte strings, ordered as Go orders them. The property walks the
  directory the way firmware does.
\<close>

unbundle bit_operations_syntax

section \<open>Construction\<close>

definition FWCfgSignature :: u16 where "FWCfgSignature = 0x00"
definition FWCfgID :: u16 where "FWCfgID = 0x01"
definition FWCfgFileDir :: u16 where "FWCfgFileDir = 0x19"
definition FWCfgFileFirst :: u16 where "FWCfgFileFirst = 0x20"
definition fwCfgSelectorPort :: nat where "fwCfgSelectorPort = 0x510"
definition fwCfgDataPort :: nat where "fwCfgDataPort = 0x511"
definition fwCfgWriteChannel :: u16 where "fwCfgWriteChannel = 0x4000"
definition fwCfgArchLocal :: u16 where "fwCfgArchLocal = 0x8000"
definition fwCfgFileNameSize :: nat where "fwCfgFileNameSize = 56"
definition fwCfgFileSize :: nat where "fwCfgFileSize = 64"

lemmas fw_consts = FWCfgSignature_def FWCfgID_def FWCfgFileDir_def FWCfgFileFirst_def fwCfgSelectorPort_def fwCfgDataPort_def
  fwCfgWriteChannel_def fwCfgArchLocal_def fwCfgFileNameSize_def fwCfgFileSize_def

type_synonym fw_items = "u16 \<rightharpoonup> byte list"

record FWCfg =
  items :: fw_items
  selected :: u16
  fw_offset :: nat

definition validateFWCfgFileName :: "byte list \<Rightarrow> bool" where
  "validateFWCfgFileName name \<longleftrightarrow>
     \<not> (length name = 0 \<or> length name \<ge> fwCfgFileNameSize) \<and> (\<forall>b\<in>set name. \<not> (b < 0x20 \<or> b > 0x7e))"

definition entry_refused :: "u16 \<times> byte list \<Rightarrow> bool" where
  "entry_refused e = (case e of (selector, d) \<Rightarrow>
     selector AND fwCfgWriteChannel \<noteq> 0 \<or>
     (selector = FWCfgSignature \<or> selector = FWCfgID \<or> selector = FWCfgFileDir) \<or>
     (selector \<ge> FWCfgFileFirst \<and> selector AND fwCfgArchLocal = 0) \<or>
     length d > 0xffffffff)"

fun put_entries :: "(u16 \<times> byte list) list \<Rightarrow> fw_items \<Rightarrow> dev_err + fw_items" where
  "put_entries [] m = Inr m"
| "put_entries (e # es) m = (if entry_refused e then Inl FWCfgError else put_entries es (m(fst e \<mapsto> snd e)))"

definition file_refused :: "byte list \<times> byte list \<Rightarrow> bool" where
  "file_refused f \<longleftrightarrow> \<not> validateFWCfgFileName (fst f) \<or> length (snd f) > 0xffffffff"

text \<open>An entry of the directory: size, selector, two reserved bytes, and the name padded with zeros.\<close>

definition pad_name :: "byte list \<Rightarrow> byte list" where
  "pad_name name = name @ replicate (fwCfgFileNameSize - length name) 0"

definition dir_entry :: "u16 \<Rightarrow> byte list \<Rightarrow> byte list \<Rightarrow> byte list" where
  "dir_entry selector name d = put_be 4 (length d) @ put_be 2 (unat selector) @ [0, 0] @ pad_name name"

definition file_data :: "(byte list \<times> byte list) list \<Rightarrow> byte list \<Rightarrow> byte list" where
  "file_data files name = (case map_of files name of Some d \<Rightarrow> d | None \<Rightarrow> [])"

fun put_files :: "(byte list \<times> byte list) list \<Rightarrow> nat \<Rightarrow> byte list list \<Rightarrow> byte list \<times> fw_items \<Rightarrow> byte list \<times> fw_items" where
  "put_files files i [] (directory, m) = (directory, m)"
| "put_files files i (name # names) (directory, m) =
     (let selector = FWCfgFileFirst + of_nat i; d = file_data files name
      in put_files files (Suc i) names (directory @ dir_entry selector name d, m(selector \<mapsto> d)))"

definition NewFWCfg :: "(u16 \<times> byte list) list \<Rightarrow> (byte list \<times> byte list) list \<Rightarrow> dev_err + FWCfg" where
  "NewFWCfg entries files =
     (if length files > unat fwCfgWriteChannel - unat FWCfgFileFirst then Inl FWCfgError
      else case put_entries entries [FWCfgSignature \<mapsto> [0x51, 0x45, 0x4d, 0x55], FWCfgID \<mapsto> [1, 0, 0, 0]] of
        Inl e \<Rightarrow> Inl e
      | Inr m \<Rightarrow>
          if \<exists>f\<in>set files. file_refused f then Inl FWCfgError
          else let names = sort (map fst files);
                   (directory, m) = put_files files 0 names (put_be 4 (length names), m)
               in Inr \<lparr>items = m(FWCfgFileDir \<mapsto> directory), selected = 0, fw_offset = 0\<rparr>)"

section \<open>The ports\<close>

definition fw_Read :: "nat \<Rightarrow> byte list \<Rightarrow> FWCfg \<Rightarrow> (dev_err + byte list) \<times> FWCfg" where
  "fw_Read port buf f =
     (if port = fwCfgSelectorPort then
        (if length buf \<noteq> 2 then (Inl DataLenInvalid, f) else (Inr (replicate (length buf) 0), f))
      else if port \<noteq> fwCfgDataPort then (Inl FWCfgError, f)
      else if length buf \<noteq> 1 then (Inl DataLenInvalid, f)
      else let item = (case items f (selected f) of Some d \<Rightarrow> d | None \<Rightarrow> [])
           in if fw_offset f < length item then (Inr [item ! fw_offset f], f\<lparr>fw_offset := fw_offset f + 1\<rparr>) else (Inr [0], f))"

definition fw_Write :: "nat \<Rightarrow> byte list \<Rightarrow> FWCfg \<Rightarrow> (dev_err + unit) \<times> FWCfg" where
  "fw_Write port buf f =
     (if port = fwCfgDataPort then (if length buf \<noteq> 1 then (Inl DataLenInvalid, f) else (Inr (), f))
      else if port \<noteq> fwCfgSelectorPort then (Inl FWCfgError, f)
      else if length buf \<noteq> 2 then (Inl DataLenInvalid, f)
      else (Inr (), f\<lparr>selected := of_nat (le_nat buf) AND NOT fwCfgWriteChannel, fw_offset := 0\<rparr>))"

section \<open>Firmware\<close>

text \<open>How firmware uses the device: select an item, read bytes, and find a file by walking the directory.\<close>

definition fw_select :: "nat \<Rightarrow> FWCfg \<Rightarrow> FWCfg" where
  "fw_select s f = snd (fw_Write fwCfgSelectorPort (put_le 2 s) f)"

fun fw_bytes :: "nat \<Rightarrow> FWCfg \<Rightarrow> byte list \<times> FWCfg" where
  "fw_bytes 0 f = ([], f)"
| "fw_bytes (Suc n) f = (case fw_Read fwCfgDataPort [0] f of
     (Inr bs, f1) \<Rightarrow> (case fw_bytes n f1 of (cs, f2) \<Rightarrow> (bs @ cs, f2)) | (Inl _, f1) \<Rightarrow> ([], f1))"

fun fw_search :: "nat \<Rightarrow> byte list \<Rightarrow> FWCfg \<Rightarrow> (nat \<times> nat) option" where
  "fw_search 0 name f = None"
| "fw_search (Suc n) name f =
     (case fw_bytes fwCfgFileSize f of (e, f1) \<Rightarrow>
        if drop 8 e = pad_name name then Some (be_nat (take 4 e), be_nat (take 2 (drop 4 e))) else fw_search n name f1)"

definition fw_find :: "byte list \<Rightarrow> FWCfg \<Rightarrow> byte list option" where
  "fw_find name f =
     (case fw_bytes 4 (fw_select (unat FWCfgFileDir) f) of (count, f1) \<Rightarrow>
        case fw_search (be_nat count) name f1 of
          None \<Rightarrow> None
        | Some (size', selector) \<Rightarrow> Some (fst (fw_bytes size' (fw_select selector f1))))"

section \<open>Lemmas\<close>

abbreviation item_of :: "FWCfg \<Rightarrow> byte list" where
  "item_of f \<equiv> (case items f (selected f) of Some d \<Rightarrow> d | None \<Rightarrow> [])"

lemma fw_bytes:
  "fw_offset f + n \<le> length (item_of f) \<Longrightarrow> fw_bytes n f = (take n (drop (fw_offset f) (item_of f)), f\<lparr>fw_offset := fw_offset f + n\<rparr>)"
proof (induction n arbitrary: f)
  case (Suc n)
  let ?f = "f\<lparr>fw_offset := fw_offset f + 1\<rparr>"
  have "fw_Read fwCfgDataPort [0] f = (Inr [item_of f ! fw_offset f], ?f)" using Suc.prems by (simp add: fw_Read_def fw_consts Let_def)
  moreover have "drop (fw_offset f) (item_of f) = item_of f ! fw_offset f # drop (Suc (fw_offset f)) (item_of f)"
    using Suc.prems by (intro Cons_nth_drop_Suc [symmetric]) linarith
  moreover have "fw_bytes n ?f = (take n (drop (fw_offset ?f) (item_of ?f)), ?f\<lparr>fw_offset := fw_offset ?f + n\<rparr>)" using Suc.prems by (intro Suc.IH) simp
  ultimately show ?case by simp
qed simp

lemma selector_bits:
  assumes "s < 0x4000" shows "of_nat s AND NOT fwCfgWriteChannel = (of_nat s :: u16)"
proof (rule bit_word_eqI)
  fix n assume "n < LENGTH(16)"
  have "of_nat s = take_bit 14 (of_nat s :: u16)" using assms by (simp add: take_bit_of_nat take_bit_nat_eq_self)
  then have "bit (of_nat s :: u16) n \<Longrightarrow> n < 14" by (metis bit_take_bit_iff)
  moreover have "bit fwCfgWriteChannel n \<Longrightarrow> n = 14"
  proof -
    have "fwCfgWriteChannel = 2 ^ 14" by (simp add: fwCfgWriteChannel_def)
    then show "bit fwCfgWriteChannel n \<Longrightarrow> n = 14" by (metis bit_exp_iff)
  qed
  ultimately show "bit (of_nat s AND NOT fwCfgWriteChannel :: u16) n = bit (of_nat s :: u16) n"
    using \<open>n < LENGTH(16)\<close> by (auto simp: bit_and_iff bit_not_iff)
qed

lemma fw_select: "s < 0x4000 \<Longrightarrow> fw_select s f = f\<lparr>selected := of_nat s, fw_offset := 0\<rparr>"
  using selector_bits [of s] by (simp add: fw_select_def fw_Write_def fwCfgSelectorPort_def fwCfgDataPort_def le_nat_put_le)

fun dir_from :: "(byte list \<times> byte list) list \<Rightarrow> nat \<Rightarrow> byte list list \<Rightarrow> byte list" where
  "dir_from files i [] = []"
| "dir_from files i (n # ns) = dir_entry (FWCfgFileFirst + of_nat i) n (file_data files n) @ dir_from files (Suc i) ns"

lemma put_files_dir: "fst (put_files files i names (d, m)) = d @ dir_from files i names"
  by (induction names arbitrary: i d m) (simp_all add: Let_def)

lemma file_selector_eq: "j < 0x3fe0 \<Longrightarrow> k < 0x3fe0 \<Longrightarrow> FWCfgFileFirst + of_nat j = FWCfgFileFirst + of_nat k \<longleftrightarrow> j = k"
  by (simp add: word_of_nat_eq_iff take_bit_nat_eq_self)

lemma unat_file_selector: "k < 0x3fe0 \<Longrightarrow> unat (FWCfgFileFirst + of_nat k) = 0x20 + k"
  by (simp add: FWCfgFileFirst_def unat_word_ariths unsigned_of_nat take_bit_nat_eq_self)

lemma put_files_items:
  assumes "i + length names \<le> 0x3fe0"
  shows "k < i \<Longrightarrow> snd (put_files files i names (d, m)) (FWCfgFileFirst + of_nat k) = m (FWCfgFileFirst + of_nat k)"
    "k < length names \<Longrightarrow> snd (put_files files i names (d, m)) (FWCfgFileFirst + of_nat (i + k)) = Some (file_data files (names ! k))"
  using assms
proof (induction names arbitrary: i d m k)
  case (Cons n ns)
  { case 1
    then show ?case using Cons.IH(1) [of k "Suc i"] file_selector_eq [of k i] by (simp add: Let_def)
  next
    case 2
    show ?case
    proof (cases k)
      case 0
      then show ?thesis using 2 Cons.IH(1) [of i "Suc i"] by (simp add: Let_def)
    next
      case (Suc j)
      then show ?thesis using 2 Cons.IH(2) [of j "Suc i"] by (simp add: Let_def)
    qed
  }
qed simp_all

lemma length_pad [simp]: "length name < fwCfgFileNameSize \<Longrightarrow> length (pad_name name) = 56"
  by (simp add: pad_name_def fwCfgFileNameSize_def)

lemma pad_name_eq:
  assumes "validateFWCfgFileName a" "validateFWCfgFileName b" "pad_name a = pad_name b" shows "a = b"
proof -
  have "takeWhile (\<lambda>b. b \<noteq> 0) (pad_name n) = n" if "validateFWCfgFileName n" for n
  proof -
    have "0 \<notin> set n" using that by (auto simp: validateFWCfgFileName_def)
    then have "takeWhile (\<lambda>b. b \<noteq> 0) n = n" by (auto simp: takeWhile_eq_all_conv)
    then show ?thesis using \<open>0 \<notin> set n\<close> unfolding pad_name_def by (subst takeWhile_append2) (auto simp: takeWhile_replicate)
  qed
  then show ?thesis using assms by metis
qed

lemma valid_length: "validateFWCfgFileName n \<Longrightarrow> length n < fwCfgFileNameSize"
  by (simp add: validateFWCfgFileName_def)

text \<open>One step of the search, on the entry in front of the reader.\<close>

lemma search_step:
  assumes "item_of f = pre @ dir_entry s n d @ rest" "fw_offset f = length pre" "validateFWCfgFileName n" "validateFWCfgFileName name"
  shows "fw_search (Suc c) name f =
    (if n = name then Some (length d mod 256 ^ 4, unat s) else fw_search c name (f\<lparr>fw_offset := fw_offset f + 64\<rparr>))"
proof -
  have l: "length (dir_entry s n d) = 64" using valid_length [OF assms(3)] by (simp add: dir_entry_def)
  have "fw_bytes fwCfgFileSize f = (dir_entry s n d, f\<lparr>fw_offset := fw_offset f + 64\<rparr>)"
    using fw_bytes [of f 64] assms(1,2) l by (simp add: fwCfgFileSize_def)
  moreover have "drop 8 (dir_entry s n d) = pad_name n" "be_nat (take 4 (dir_entry s n d)) = length d mod 256 ^ 4"
    "be_nat (take 2 (drop 4 (dir_entry s n d))) = unat s mod 256 ^ 2"
    by (simp_all add: dir_entry_def be_nat_put_be_mod)
  moreover have "unat s < 2 ^ LENGTH(16)" by (rule unsigned_less)
  then have "unat s mod 256 ^ 2 = unat s" by simp
  ultimately show ?thesis using pad_name_eq [OF assms(3,4)] by auto
qed

lemma search_found:
  assumes "item_of f = pre @ dir_from files i names" "fw_offset f = length pre" "\<forall>n\<in>set names. validateFWCfgFileName n"
    "distinct names" "k < length names"
  shows "fw_search (length names) (names ! k) f = Some (length (file_data files (names ! k)) mod 256 ^ 4, unat (FWCfgFileFirst + of_nat (i + k)))"
  using assms
proof (induction names arbitrary: i pre f k)
  case (Cons n ns)
  have v: "validateFWCfgFileName n" "validateFWCfgFileName ((n # ns) ! k)" using Cons.prems(3,5) nth_mem [of k "n # ns"] by auto
  have "item_of f = pre @ dir_entry (FWCfgFileFirst + of_nat i) n (file_data files n) @ dir_from files (Suc i) ns" using Cons.prems(1) by simp
  note s = search_step [OF this Cons.prems(2) v]
  show ?case
  proof (cases k)
    case 0
    then show ?thesis using s [of "length ns"] by simp
  next
    case (Suc j)
    let ?pre = "pre @ dir_entry (FWCfgFileFirst + of_nat i) n (file_data files n)"
    have l: "length ?pre = length pre + 64" using valid_length [OF v(1)] by (simp add: dir_entry_def)
    have "n \<noteq> (n # ns) ! k" using Cons.prems(4,5) Suc nth_mem [of j ns] by auto
    then have "fw_search (length (n # ns)) ((n # ns) ! k) f = fw_search (length ns) (ns ! j) (f\<lparr>fw_offset := fw_offset f + 64\<rparr>)"
      using s [of "length ns"] Suc by simp
    then show ?thesis using Cons.IH [of "f\<lparr>fw_offset := fw_offset f + 64\<rparr>" ?pre "Suc i" j] Cons.prems Suc l by simp
  qed
qed simp

lemma search_absent:
  assumes "item_of f = pre @ dir_from files i names" "fw_offset f = length pre" "\<forall>n\<in>set names. validateFWCfgFileName n"
    "validateFWCfgFileName name" "name \<notin> set names"
  shows "fw_search (length names) name f = None"
  using assms
proof (induction names arbitrary: i pre f)
  case (Cons n ns)
  have v: "validateFWCfgFileName n" using Cons.prems(3) by simp
  have "item_of f = pre @ dir_entry (FWCfgFileFirst + of_nat i) n (file_data files n) @ dir_from files (Suc i) ns" using Cons.prems(1) by simp
  note s = search_step [OF this Cons.prems(2) v Cons.prems(4)]
  let ?pre = "pre @ dir_entry (FWCfgFileFirst + of_nat i) n (file_data files n)"
  have l: "length ?pre = length pre + 64" using valid_length [OF v] by (simp add: dir_entry_def)
  have "n \<noteq> name" using Cons.prems(5) by auto
  then have "fw_search (length (n # ns)) name f = fw_search (length ns) name (f\<lparr>fw_offset := fw_offset f + 64\<rparr>)"
    using s [of "length ns"] by (simp only: list.size if_False add_Suc_right add_0_right)
  then show ?case using Cons.IH [of "f\<lparr>fw_offset := fw_offset f + 64\<rparr>" ?pre "Suc i"] Cons.prems l by simp
qed simp

text \<open>What a device that was built holds.\<close>

lemma built:
  assumes "NewFWCfg entries files = Inr f" "distinct (map fst files)"
  defines "names \<equiv> sort (map fst files)"
  shows "items f FWCfgFileDir = Some (put_be 4 (length names) @ dir_from files 0 names)"
    "\<And>k. k < length names \<Longrightarrow> items f (FWCfgFileFirst + of_nat k) = Some (file_data files (names ! k))"
    "\<forall>n\<in>set names. validateFWCfgFileName n" "distinct names" "length names \<le> 0x3fe0"
    "\<And>n. n \<in> set names \<Longrightarrow> length (file_data files n) < 256 ^ 4"
proof -
  from assms(1) obtain m where l: "length files \<le> 0x3fe0" and ok: "\<forall>x\<in>set files. \<not> file_refused x" and
    f: "f = \<lparr>items = (snd (put_files files 0 names (put_be 4 (length names), m)))(FWCfgFileDir \<mapsto> fst (put_files files 0 names (put_be 4 (length names), m))),
      selected = 0, fw_offset = 0\<rparr>"
    unfolding names_def
    by (auto simp: NewFWCfg_def Let_def fwCfgWriteChannel_def FWCfgFileFirst_def case_prod_beta split: if_splits sum.splits)
  show "items f FWCfgFileDir = Some (put_be 4 (length names) @ dir_from files 0 names)" by (simp add: f put_files_dir)
  show n: "length names \<le> 0x3fe0" using l by (simp add: names_def)
  show "distinct names" using assms(2) by (simp add: names_def)
  have set: "set names = fst ` set files" by (simp add: names_def)
  show "\<forall>n\<in>set names. validateFWCfgFileName n" using ok set by (auto simp: file_refused_def)
  show "length (file_data files n) < 256 ^ 4" if m: "n \<in> set names" for n
  proof -
    obtain d where "(n, d) \<in> set files" using m set by auto
    then have "map_of files n = Some d" "\<not> length d > 0xffffffff" using assms(2) ok by (auto simp: file_refused_def)
    then show ?thesis by (simp add: file_data_def)
  qed
  show "items f (FWCfgFileFirst + of_nat k) = Some (file_data files (names ! k))" if "k < length names" for k
  proof -
    have "unat (FWCfgFileFirst + of_nat k) \<noteq> unat FWCfgFileDir" using unat_file_selector [of k] that n by (simp add: FWCfgFileDir_def)
    then have "FWCfgFileFirst + of_nat k \<noteq> FWCfgFileDir" by metis
    then show ?thesis using put_files_items(2) [of 0 names k files _ m] that n by (simp add: f)
  qed
qed

section \<open>Properties\<close>

text \<open>C26. Firmware finds exactly the files it was given: on a device that was built, whatever item is selected and however far it was read, walking the directory for a name returns the contents of that file byte for byte if there is one, and finds nothing if there is none.\<close>

theorem fw_cfg_discovery:
  assumes "NewFWCfg entries files = Inr f" "distinct (map fst files)" "validateFWCfgFileName name" "items g = items f"
  shows "fw_find name g = map_of files name"
proof -
  define names where "names = sort (map fst files)"
  note b = built [OF assms(1,2), folded names_def]
  let ?dir = "put_be 4 (length names) @ dir_from files 0 names"
  define g0 where "g0 = fw_select (unat FWCfgFileDir) g"
  have g0: "g0 = g\<lparr>selected := FWCfgFileDir, fw_offset := 0\<rparr>" unfolding g0_def by (subst fw_select) (simp_all add: FWCfgFileDir_def)
  have i0: "item_of g0 = ?dir" using b(1) assms(4) by (simp add: g0)
  define g1 where "g1 = g0\<lparr>fw_offset := 4\<rparr>"
  have c: "fw_bytes 4 g0 = (put_be 4 (length names), g1)" using fw_bytes [of g0 4] i0 by (simp add: g0 g1_def)
  have n: "be_nat (put_be 4 (length names)) = length names" using b(5) by (simp add: be_nat_put_be_mod)
  have i1: "item_of g1 = ?dir" "fw_offset g1 = length (put_be 4 (length names))" using i0 by (simp_all add: g1_def)
  have find: "fw_find name g = (case fw_search (length names) name g1 of None \<Rightarrow> None
      | Some (s, sel) \<Rightarrow> Some (fst (fw_bytes s (fw_select sel g1))))" by (simp add: fw_find_def c n flip: g0_def)
  show ?thesis
  proof (cases "name \<in> set names")
    case True
    then obtain k where k: "k < length names" "names ! k = name" by (auto simp: in_set_conv_nth)
    let ?d = "file_data files name"
    have "length ?d mod 256 ^ 4 = length ?d" using b(6) [OF True] by simp
    moreover have "unat (FWCfgFileFirst + of_nat k) = 0x20 + k" using k b(5) by (intro unat_file_selector) simp
    ultimately have s: "fw_search (length names) name g1 = Some (length ?d, 0x20 + k)"
      using search_found [OF i1 b(3,4) k(1)] k(2) by simp
    let ?g = "g1\<lparr>selected := of_nat (0x20 + k), fw_offset := 0\<rparr>"
    have sel: "fw_select (0x20 + k) g1 = ?g" using k b(5) by (intro fw_select) simp
    have "items ?g (selected ?g) = Some ?d" using b(2) [OF k(1)] k(2) assms(4) by (simp add: g1_def g0 FWCfgFileFirst_def)
    then have "fst (fw_bytes (length ?d) ?g) = ?d" using fw_bytes [of ?g "length ?d"] by simp
    moreover have "map_of files name = Some ?d"
    proof -
      have "name \<in> fst ` set files" using True by (simp add: names_def)
      then show ?thesis by (cases "map_of files name") (auto simp: file_data_def map_of_eq_None_iff)
    qed
    ultimately show ?thesis using find s sel by simp
  next
    case False
    then have "map_of files name = None" by (simp add: names_def map_of_eq_None_iff)
    then show ?thesis using find search_absent [OF i1 b(3) assms(3) False] by simp
  qed
qed

theorem fw_cfg_discovery_witness:
  "\<exists>f. NewFWCfg [(5, [1, 0])] [([0x62], [1, 2, 3]), ([0x61], [])] = Inr f \<and> fw_find [0x62] (f\<lparr>selected := 7\<rparr>) = Some [1, 2, 3]"
proof -
  obtain f where f: "NewFWCfg [(5, [1, 0])] [([0x62], [1, 2, 3]), ([0x61], [])] = Inr f"
    by (simp add: NewFWCfg_def Let_def fw_consts entry_refused_def file_refused_def validateFWCfgFileName_def split: prod.split)
  have "fw_find [0x62] (f\<lparr>selected := 7\<rparr>) = Some [1, 2, 3]"
    using fw_cfg_discovery [OF f, of "[0x62]" "f\<lparr>selected := 7\<rparr>"] by (simp add: validateFWCfgFileName_def fw_consts)
  then show ?thesis using f by blast
qed

end
