(* ===== verification/Uefi_Flash.thy ===== *)
theory Uefi_Flash
  imports Host_File
begin

text \<open>
  The flash chip that holds the UEFI variables, \<^verbatim>\<open>internal/machine/uefi_flash.go\<close>: the command machine of the
  chip, its image in memory, and the file it is saved to, over the host file whose calls may fail. The property is a
  refinement: the command sequences of a flash driver implement an array of bytes that can be read, programmed
  (bits are only cleared) and erased by blocks, and a successful one leaves the array in the file.
\<close>

unbundle bit_operations_syntax

section \<open>The chip\<close>

definition uefiFlashBlockSize :: nat where "uefiFlashBlockSize = 4096"

datatype flash_err = UEFIVarsImage | UEFIVarsHeader | UEFIFlashBoundary | ErrClosed | FlashIO ioerr | FlashPanic

record uefiFlash =
  f_file :: hostfile
  f_data :: "byte list"
  f_base :: nat
  f_command :: byte
  f_status :: byte
  f_dirty :: bool
  f_closed :: bool

text \<open>
  Opening: the file is open already; whether it is the code file and whether it is a regular file are arguments, and
  the lock consumes an outcome of the operating system like the other calls.
\<close>

definition openUEFIVars :: "bool \<Rightarrow> bool \<Rightarrow> hostfile \<Rightarrow> flash_err + uefiFlash" where
  "openUEFIVars same_file regular f =
     (case file_Stat f of (Inl e, f1) \<Rightarrow> Inl (FlashIO e)
      | (Inr n, f1) \<Rightarrow>
          if same_file \<or> \<not> regular \<or> n < uefiFlashBlockSize \<or> n > 16 * 1024 * 1024 \<or> n mod uefiFlashBlockSize \<noteq> 0 then Inl UEFIVarsImage
          else case tick f1 of (IoFail k, f2) \<Rightarrow> Inl (FlashIO EIO)
          | (IoOk, f2) \<Rightarrow>
              (case file_ReadAt n 0 f2 of ((d, Some e), f3) \<Rightarrow> Inl (FlashIO e)
               | ((d, None), f3) \<Rightarrow>
                   if slice d 40 4 \<noteq> [0x5f, 0x46, 0x56, 0x48] then Inl UEFIVarsHeader
                   else Inr \<lparr>f_file = f3, f_data = d, f_base = 0, f_command = 0, f_status = 0x80, f_dirty = False, f_closed = False\<rparr>))"

definition syncLocked :: "uefiFlash \<Rightarrow> (flash_err + unit) \<times> uefiFlash" where
  "syncLocked f =
     (if \<not> f_dirty f then (Inr (), f)
      else case file_WriteAt (f_data f) 0 (f_file f) of
        ((n, Some e), h) \<Rightarrow> (Inl (FlashIO e), f\<lparr>f_file := h\<rparr>)
      | ((n, None), h) \<Rightarrow>
          (case file_Sync h of (Some e, h1) \<Rightarrow> (Inl (FlashIO e), f\<lparr>f_file := h1\<rparr>)
           | (None, h1) \<Rightarrow> (Inr (), f\<lparr>f_file := h1, f_dirty := False\<rparr>)))"

text \<open>One byte written to the chip.\<close>

definition write_byte :: "nat \<Rightarrow> byte \<Rightarrow> uefiFlash \<Rightarrow> (flash_err + unit) \<times> uefiFlash" where
  "write_byte pos v f =
     (if f_command f = 0x10 \<or> f_command f = 0x40 then
        (Inr (), f\<lparr>f_data := (f_data f)[pos := f_data f ! pos AND v], f_dirty := True, f_status := 0x80, f_command := 0x70\<rparr>)
      else if f_command f = 0x20 then
        (if v = 0xd0 then
           (let start = pos - pos mod uefiFlashBlockSize
            in if start + uefiFlashBlockSize \<le> length (f_data f)
               then (Inr (), f\<lparr>f_data := copy_at (f_data f) start (replicate uefiFlashBlockSize 0xff), f_dirty := True, f_status := 0x80, f_command := 0x70\<rparr>)
               else (Inl FlashPanic, f))
         else (Inr (), f\<lparr>f_status := 0xb0, f_command := 0x70\<rparr>))
      else if v = 0xff then syncLocked (f\<lparr>f_command := 0\<rparr>)
      else if v = 0x50 then (Inr (), f\<lparr>f_status := 0, f_command := 0\<rparr>)
      else if v = 0x10 \<or> v = 0x40 \<or> v = 0x20 \<or> v = 0x70 \<or> v = 0x90 then (Inr (), f\<lparr>f_command := v\<rparr>)
      else (Inr (), f\<lparr>f_status := 0x90, f_command := 0x70\<rparr>))"

fun write_bytes :: "nat \<Rightarrow> byte list \<Rightarrow> uefiFlash \<Rightarrow> (flash_err + unit) \<times> uefiFlash" where
  "write_bytes pos [] f = (Inr (), f)"
| "write_bytes pos (v # vs) f = (case write_byte pos v f of (Inl e, f1) \<Rightarrow> (Inl e, f1) | (Inr _, f1) \<Rightarrow> write_bytes (Suc pos) vs f1)"

definition read_flash :: "nat \<Rightarrow> nat \<Rightarrow> uefiFlash \<Rightarrow> byte list" where
  "read_flash off n f =
     map (\<lambda>i. if f_command f = 0x70 then f_status f else if f_command f = 0x90 then 0 else f_data f ! (off + i)) [0..<n]"

text \<open>An access returns whether the chip handled it, and the data or the error.\<close>

definition flash_access :: "nat \<Rightarrow> byte list \<Rightarrow> bool \<Rightarrow> uefiFlash \<Rightarrow> (bool \<times> (flash_err + byte list)) \<times> uefiFlash" where
  "flash_access addr d isWrite f =
     (if addr < f_base f \<or> addr - f_base f \<ge> length (f_data f) then ((False, Inr d), f)
      else let off = addr - f_base f
           in if length d > length (f_data f) - off then ((True, Inl UEFIFlashBoundary), f)
              else if f_closed f then ((True, Inl ErrClosed), f)
              else if \<not> isWrite then ((True, Inr (read_flash off (length d) f)), f)
              else case write_bytes off d f of (Inl e, f1) \<Rightarrow> ((True, Inl e), f1) | (Inr _, f1) \<Rightarrow> ((True, Inr d), f1))"

text \<open>Close reports the error of the sync; the close of the file itself is the environment's.\<close>

definition flash_Close :: "uefiFlash \<Rightarrow> (flash_err + unit) \<times> uefiFlash" where
  "flash_Close f = (if f_closed f then (Inr (), f) else syncLocked (f\<lparr>f_closed := True\<rparr>))"

section \<open>The specification\<close>

text \<open>The array behind the chip and the operations of a driver on it.\<close>

datatype flash_op = Read_Array nat nat | Program nat "byte list" | Erase_Block nat

fun in_range :: "flash_op \<Rightarrow> byte list \<Rightarrow> bool" where
  "in_range (Read_Array off n) cells \<longleftrightarrow> 0 < n \<and> off + n \<le> length cells"
| "in_range (Program off bs) cells \<longleftrightarrow> bs \<noteq> [] \<and> off + length bs \<le> length cells"
| "in_range (Erase_Block off) cells \<longleftrightarrow> off < length cells"

fun program :: "nat \<Rightarrow> byte list \<Rightarrow> byte list \<Rightarrow> byte list" where
  "program off [] cells = cells"
| "program off (b # bs) cells = program (Suc off) bs (cells[off := cells ! off AND b])"

fun spec_op :: "flash_op \<Rightarrow> byte list \<Rightarrow> byte list" where
  "spec_op (Read_Array off n) cells = cells"
| "spec_op (Program off bs) cells = program off bs cells"
| "spec_op (Erase_Block off) cells = copy_at cells (off - off mod uefiFlashBlockSize) (replicate uefiFlashBlockSize 0xff)"

fun spec_result :: "flash_op \<Rightarrow> byte list \<Rightarrow> byte list" where
  "spec_result (Read_Array off n) cells = slice cells off n"
| "spec_result _ cells = []"

text \<open>The accesses a driver makes: for each byte the program command and the byte, or the two erase commands, and then back to reading the array.\<close>

definition store :: "nat \<Rightarrow> byte \<Rightarrow> uefiFlash \<Rightarrow> (flash_err + byte list) \<times> uefiFlash" where
  "store off v f = (case flash_access (f_base f + off) [v] True f of ((_, r), f1) \<Rightarrow> (r, f1))"

fun driver_program :: "nat \<Rightarrow> byte list \<Rightarrow> uefiFlash \<Rightarrow> (flash_err + unit) \<times> uefiFlash" where
  "driver_program off [] f = (Inr (), f)"
| "driver_program off (b # bs) f =
     (case store off 0x10 f of (Inl e, f1) \<Rightarrow> (Inl e, f1) | (Inr _, f1) \<Rightarrow>
      (case store off b f1 of (Inl e, f2) \<Rightarrow> (Inl e, f2) | (Inr _, f2) \<Rightarrow> driver_program (Suc off) bs f2))"

definition read_mode :: "nat \<Rightarrow> uefiFlash \<Rightarrow> (flash_err + byte list) \<times> uefiFlash" where
  "read_mode off f = (case store off 0xff f of (Inl e, f1) \<Rightarrow> (Inl e, f1) | (Inr _, f1) \<Rightarrow> (Inr [], f1))"

fun driver :: "flash_op \<Rightarrow> uefiFlash \<Rightarrow> (flash_err + byte list) \<times> uefiFlash" where
  "driver (Read_Array off n) f = (case flash_access (f_base f + off) (replicate n 0) False f of ((_, r), f1) \<Rightarrow> (r, f1))"
| "driver (Program off bs) f = (case driver_program off bs f of (Inl e, f1) \<Rightarrow> (Inl e, f1) | (Inr _, f1) \<Rightarrow> read_mode off f1)"
| "driver (Erase_Block off) f =
     (case store off 0x20 f of (Inl e, f1) \<Rightarrow> (Inl e, f1) | (Inr _, f1) \<Rightarrow>
      (case store off 0xd0 f1 of (Inl e, f2) \<Rightarrow> (Inl e, f2) | (Inr _, f2) \<Rightarrow> read_mode off f2))"

text \<open>The chip shows the array: in read mode, open, with the array as its image, and with the image in the file unless it is dirty.\<close>

definition shows_array :: "uefiFlash \<Rightarrow> byte list \<Rightarrow> bool" where
  "shows_array f cells \<longleftrightarrow> f_data f = cells \<and> f_command f = 0 \<and> \<not> f_closed f \<and> fsize (f_file f) = length cells \<and>
     uefiFlashBlockSize dvd length cells \<and> (\<not> f_dirty f \<longrightarrow> bytes_at (f_file f) 0 (length cells) = cells)"

section \<open>Lemmas\<close>

text \<open>A sync keeps the image; when it succeeds the image is in the file.\<close>

lemma syncLocked_cases:
  assumes "syncLocked f = (r, f')" "fsize (f_file f) = length (f_data f)"
  obtains (clean) "\<not> f_dirty f" "r = Inr ()" "f' = f"
    | (saved) h where "f_dirty f" "r = Inr ()" "f' = f\<lparr>f_file := h, f_dirty := False\<rparr>" "fsize h = length (f_data f)" "bytes_at h 0 (length (f_data f)) = f_data f"
    | (failed) h e where "f_dirty f" "r = Inl (FlashIO e)" "f' = f\<lparr>f_file := h\<rparr>" "fsize h = length (f_data f)"
proof (cases "f_dirty f")
  case False
  then have "r = Inr ()" "f' = f" using assms(1) by (simp_all add: syncLocked_def)
  then show ?thesis by (rule clean [OF False])
next
  case True
  obtain n e h where w: "file_WriteAt (f_data f) 0 (f_file f) = ((n, e), h)" by (metis surj_pair)
  have size: "fsize h = length (f_data f)" and same: "e = None \<Longrightarrow> bytes_at h 0 (length (f_data f)) = f_data f"
  proof -
    obtain x h0 where k: "tick (f_file f) = (x, h0)" by (cases "tick (f_file f)")
    note d = tick_data [OF k]
    have "fsize h = length (f_data f) \<and> (e = None \<longrightarrow> bytes_at h 0 (length (f_data f)) = f_data f)"
    proof (cases "f_data f = []")
      case True
      then show ?thesis using w assms(2) by (simp add: file_WriteAt_def bytes_at_def)
    next
      case False
      show ?thesis
      proof (cases x)
        case IoOk
        then have "h = store_bytes 0 (f_data f) h0" using w k False by (simp add: file_WriteAt_def)
        then show ?thesis using bytes_at_store_same [of 0 "f_data f" h0] d(2) assms(2) by (simp add: fsize_store)
      next
        case (IoFail j)
        then have "h = store_bytes 0 (take j (f_data f)) h0" "e = Some EIO" using w k False by (simp_all add: file_WriteAt_def)
        then show ?thesis using d(2) assms(2) by (simp add: fsize_store)
      qed
    qed
    then show "fsize h = length (f_data f)" "e = None \<Longrightarrow> bytes_at h 0 (length (f_data f)) = f_data f" by blast+
  qed
  show ?thesis
  proof (cases e)
    case (Some e')
    then have "r = Inl (FlashIO e')" "f' = f\<lparr>f_file := h\<rparr>" using assms(1) w True by (simp_all add: syncLocked_def)
    then show ?thesis using failed [OF True _ _ size] by blast
  next
    case None
    obtain e' h1 where s: "file_Sync h = (e', h1)" by (cases "file_Sync h")
    then have d: "fsize h1 = fsize h" "bytes_at h1 0 k = bytes_at h 0 k" for k using file_Sync_data [OF s] by (simp_all add: bytes_at_def)
    show ?thesis
    proof (cases e')
      case None
      then have "r = Inr ()" "f' = f\<lparr>f_file := h1, f_dirty := False\<rparr>" using assms(1) w \<open>e = None\<close> s True by (simp_all add: syncLocked_def)
      then show ?thesis using saved [OF True, of h1] size same \<open>e = None\<close> d by metis
    next
      case (Some e'')
      then have "r = Inl (FlashIO e'')" "f' = f\<lparr>f_file := h1\<rparr>" using assms(1) w \<open>e = None\<close> s True by (simp_all add: syncLocked_def)
      then show ?thesis using failed [OF True, of e'' h1] size d by metis
    qed
  qed
qed

text \<open>The chip waits for a command.\<close>

definition ready :: "uefiFlash \<Rightarrow> bool" where
  "ready f \<longleftrightarrow> f_command f = 0 \<or> f_command f = 0x70"

lemma store_eq:
  "off < length (f_data f) \<Longrightarrow> \<not> f_closed f \<Longrightarrow>
   store off v f = (case write_byte off v f of (Inl e, f1) \<Rightarrow> (Inl e, f1) | (Inr _, f1) \<Rightarrow> (Inr [v], f1))"
  by (simp add: store_def flash_access_def split: prod.split sum.split)

lemma command_stored: "off < length (f_data f) \<Longrightarrow> \<not> f_closed f \<Longrightarrow> ready f \<Longrightarrow> v = 0x10 \<or> v = 0x20 \<Longrightarrow> store off v f = (Inr [v], f\<lparr>f_command := v\<rparr>)"
  by (auto simp: store_eq write_byte_def ready_def)

lemma length_program [simp]: "length (program off bs cells) = length cells"
  by (induction bs arbitrary: off cells) simp_all

lemma driver_program:
  assumes "ready f" "\<not> f_closed f" "off + length bs \<le> length (f_data f)"
  shows "\<exists>f'. driver_program off bs f = (Inr (), f') \<and> f_data f' = program off bs (f_data f) \<and> ready f' \<and> \<not> f_closed f' \<and>
    f_file f' = f_file f \<and> f_base f' = f_base f \<and> (f_dirty f' \<longleftrightarrow> f_dirty f \<or> bs \<noteq> [])"
  using assms
proof (induction bs arbitrary: off f)
  case (Cons b bs)
  let ?f1 = "f\<lparr>f_command := 0x10\<rparr>"
  let ?f2 = "f\<lparr>f_command := 0x70, f_data := (f_data f)[off := f_data f ! off AND b], f_dirty := True, f_status := 0x80\<rparr>"
  have o: "off < length (f_data f)" using Cons.prems(3) by simp
  have "store off 0x10 f = (Inr [0x10], ?f1)" by (rule command_stored [OF o Cons.prems(2,1)]) simp
  moreover have "store off b ?f1 = (Inr [b], ?f2)" using o Cons.prems(2) by (simp add: store_eq write_byte_def)
  ultimately show ?case using Cons.IH [of ?f2 "Suc off"] Cons.prems by (auto simp: ready_def)
qed simp

lemma read_mode:
  assumes "ready f" "\<not> f_closed f" "off < length (f_data f)" "fsize (f_file f) = length (f_data f)" "uefiFlashBlockSize dvd length (f_data f)" "f_dirty f"
    "read_mode off f = (r, f')"
  shows "shows_array f' (f_data f)" "r = Inr [] \<and> \<not> f_dirty f' \<or> (\<exists>e. r = Inl (FlashIO e))" "f_base f' = f_base f"
proof -
  obtain r1 where s: "syncLocked (f\<lparr>f_command := 0\<rparr>) = (r1, f')" and r: "r = (case r1 of Inl e \<Rightarrow> Inl e | Inr _ \<Rightarrow> Inr [])"
    using assms(1,2,3,7) by (auto simp: read_mode_def store_eq write_byte_def ready_def split: prod.splits sum.splits)
  have "shows_array f' (f_data f) \<and> (r = Inr [] \<and> \<not> f_dirty f' \<or> (\<exists>e. r = Inl (FlashIO e))) \<and> f_base f' = f_base f"
  proof (cases rule: syncLocked_cases [OF s])
    case 1
    then show ?case using assms(4) by simp
  qed (use assms r in \<open>auto simp: shows_array_def\<close>)
  then show "shows_array f' (f_data f)" "r = Inr [] \<and> \<not> f_dirty f' \<or> (\<exists>e. r = Inl (FlashIO e))" "f_base f' = f_base f" by blast+
qed

lemma block_in_range: "uefiFlashBlockSize dvd n \<Longrightarrow> off < n \<Longrightarrow> off - off mod uefiFlashBlockSize + uefiFlashBlockSize \<le> n"
proof -
  assume "uefiFlashBlockSize dvd n" "off < n"
  then obtain k where k: "n = uefiFlashBlockSize * k" by blast
  have "off div uefiFlashBlockSize < k" using \<open>off < n\<close> k by (simp add: less_mult_imp_div_less mult.commute)
  then have "uefiFlashBlockSize * (off div uefiFlashBlockSize + 1) \<le> n" unfolding k by (intro mult_le_mono2) simp
  then show ?thesis by (simp add: minus_mod_eq_mult_div)
qed

text \<open>A chip that was opened shows the array its file holds, wherever it is mapped.\<close>

lemma opened_shows_array:
  assumes "openUEFIVars same_file regular h = Inr f" shows "shows_array (f\<lparr>f_base := b\<rparr>) (f_data f)"
proof -
  obtain rs h1 where st: "file_Stat h = (rs, h1)" by (cases "file_Stat h")
  obtain n where n': "rs = Inr n" using assms st by (cases rs) (simp_all add: openUEFIVars_def)
  obtain x h2 where tk: "tick h1 = (x, h2)" by (cases "tick h1")
  obtain d e h3 where rd: "file_ReadAt n 0 h2 = ((d, e), h3)" by (metis surj_pair)
  have "n mod uefiFlashBlockSize = 0" "x = IoOk" using assms st n' tk by (auto simp: openUEFIVars_def split: if_splits io_outcome.splits)
  moreover from this have "e = None" using assms st n' tk rd by (cases e) (auto simp: openUEFIVars_def split: if_splits)
  ultimately have o: "file_Stat h = (Inr n, h1)" "n mod uefiFlashBlockSize = 0" "tick h1 = (IoOk, h2)" "file_ReadAt n 0 h2 = ((d, None), h3)"
    and f: "f = \<lparr>f_file = h3, f_data = d, f_base = 0, f_command = 0, f_status = 0x80, f_dirty = False, f_closed = False\<rparr>"
    using assms st n' tk rd by (simp_all add: openUEFIVars_def split: if_splits)
  have n: "n = fsize h" using file_Stat_data(3) [OF o(1)] by simp
  have d: "d = bytes_at h2 0 n" using file_ReadAt_ok(1) [OF o(4)] .
  have "fsize h3 = n" unfolding n file_ReadAt_data(2) [OF o(4)] tick_data(2) [OF o(3)] file_Stat_data(2) [OF o(1)] ..
  moreover have "bytes_at h3 0 n = d" unfolding d bytes_at_def file_ReadAt_data(1) [OF o(4)] ..
  moreover have "length d = n" unfolding d by simp
  ultimately show ?thesis using f o(2) by (simp add: shows_array_def dvd_eq_mod_eq_0)
qed

section \<open>Properties\<close>

text \<open>C31. The chip implements a flash array: on a chip that shows an array, reading, programming and erasing through the command sequences of a driver leaves it showing the array after that operation, with the specified result, whatever calls of the operating system fail; the only errors are those of the file, and a programming or an erase that reports success has saved the array to the file.\<close>

theorem flash_refines_array:
  assumes "shows_array f cells" "in_range op cells" "driver op f = (r, f')"
  shows "shows_array f' (spec_op op cells) \<and> (r = Inr (spec_result op cells) \<or> (\<exists>e. r = Inl (FlashIO e))) \<and>
    (r = Inr (spec_result op cells) \<and> spec_op op cells \<noteq> cells \<longrightarrow> bytes_at (f_file f') 0 (length cells) = spec_op op cells)"
proof (cases op)
  case (Read_Array off n)
  have "flash_access (f_base f + off) (replicate n 0) False f = ((True, Inr (read_flash off n f)), f)"
    using assms(1,2) Read_Array by (auto simp: flash_access_def shows_array_def)
  moreover have "read_flash off n f = slice cells off n" using assms(1,2) Read_Array
    by (intro nth_equalityI) (auto simp: read_flash_def shows_array_def slice_def)
  ultimately show ?thesis using assms Read_Array by simp
next
  case (Program off bs)
  obtain f1 where f1: "driver_program off bs f = (Inr (), f1)" "f_data f1 = program off bs cells" "ready f1" "\<not> f_closed f1" "f_file f1 = f_file f" "f_dirty f1"
    using driver_program [of f off bs] assms(1,2) Program by (auto simp: shows_array_def ready_def)
  have "off < length (f_data f1)" "fsize (f_file f1) = length (f_data f1)" "uefiFlashBlockSize dvd length (f_data f1)"
    using assms(1,2) Program f1(2,5) by (cases bs; simp add: shows_array_def)+
  moreover have "read_mode off f1 = (r, f')" using assms(3) Program f1(1) by simp
  ultimately have "shows_array f' (program off bs cells)" "r = Inr [] \<and> \<not> f_dirty f' \<or> (\<exists>e. r = Inl (FlashIO e))"
    using read_mode [OF f1(3,4) _ _ _ f1(6), of off r f'] f1(2) by simp_all
  then show ?thesis using Program by (auto simp: shows_array_def)
next
  case (Erase_Block off)
  have f: "ready f" "\<not> f_closed f" "off < length (f_data f)" "f_data f = cells" "uefiFlashBlockSize dvd length cells" "fsize (f_file f) = length cells"
    using assms(1,2) Erase_Block by (simp_all add: shows_array_def ready_def)
  let ?f1 = "f\<lparr>f_command := 0x20\<rparr>" and ?d = "copy_at cells (off - off mod uefiFlashBlockSize) (replicate uefiFlashBlockSize 0xff)"
  let ?f2 = "f\<lparr>f_command := 0x70, f_data := ?d, f_dirty := True, f_status := 0x80\<rparr>"
  have "store off 0x20 f = (Inr [0x20], ?f1)" by (rule command_stored [OF f(3,2,1)]) simp
  moreover have "store off 0xd0 ?f1 = (Inr [0xd0], ?f2)" using f block_in_range [OF f(5), of off] by (simp add: store_eq write_byte_def Let_def)
  ultimately have r: "read_mode off ?f2 = (r, f')" using assms(3) Erase_Block by simp
  have l: "length ?d = length cells" using f(3,4) by (intro length_copy_at) simp
  have "shows_array f' ?d" "r = Inr [] \<and> \<not> f_dirty f' \<or> (\<exists>e. r = Inl (FlashIO e))"
    using read_mode [OF _ _ _ _ _ _ r] f l by (simp_all add: ready_def)
  then show ?thesis using Erase_Block l by (auto simp: shows_array_def)
qed

definition blank_flash :: uefiFlash where
  "blank_flash = \<lparr>f_file = \<lparr>fbytes = (\<lambda>_. 0xff), fsize = 4096, script = []\<rparr>, f_data = replicate 4096 0xff, f_base = 0xffc00000, f_command = 0,
     f_status = 0x80, f_dirty = False, f_closed = False\<rparr>"

theorem flash_refines_array_witness:
  "\<exists>r f'. driver (Program 3 [0x5a]) blank_flash = (r, f') \<and> shows_array f' ((replicate 4096 0xff)[3 := 0x5a])"
proof -
  obtain r f' where d: "driver (Program 3 [0x5a]) blank_flash = (r, f')" by (cases "driver (Program 3 [0x5a]) blank_flash")
  have "bytes_at \<lparr>fbytes = (\<lambda>_. 0xff), fsize = 4096, script = []\<rparr> 0 4096 = replicate 4096 (0xff :: byte)" by (intro nth_equalityI) simp_all
  then have "shows_array blank_flash (replicate 4096 0xff)" by (simp add: shows_array_def blank_flash_def uefiFlashBlockSize_def)
  from flash_refines_array [OF this _ d] show ?thesis using d by simp
qed

end
