(* ===== verification/Machine_Irq.thy ===== *)
theory Machine_Irq
  imports Io_Devices
begin

text \<open>
  Interrupt lines shared by several devices, \<^verbatim>\<open>internal/machine/pci_irq.go\<close>, and the ACPI power
  management registers of the UEFI machine, \<^verbatim>\<open>internal/machine/uefi_power.go\<close>, whose system control interrupt
  is one source of such a line. The calls to KVM may fail: their results are a script, and an exhausted
  script means success. The property is about the composition of both.
\<close>

unbundle bit_operations_syntax

section \<open>Shared lines\<close>

text \<open>A line with the flag of each of its sources, the level KVM has, and the results of the calls to come.\<close>

record sharedIRQLine =
  src :: "bool list"
  asserted :: int
  high :: bool
  level :: bool
  outcomes :: "bool list"

definition new_line :: "bool list \<Rightarrow> sharedIRQLine" where
  "new_line os = \<lparr>src = [], asserted = 0, high = False, level = False, outcomes = os\<rparr>"

definition setLevel :: "bool \<Rightarrow> sharedIRQLine \<Rightarrow> bool \<times> sharedIRQLine" where
  "setLevel h l = (case outcomes l of [] \<Rightarrow> (True, l\<lparr>level := h\<rparr>)
     | ok # os \<Rightarrow> if ok then (True, l\<lparr>level := h, outcomes := os\<rparr>) else (False, l\<lparr>outcomes := os\<rparr>))"

definition add_source :: "sharedIRQLine \<Rightarrow> nat \<times> sharedIRQLine" where
  "add_source l = (length (src l), l\<lparr>src := src l @ [False]\<rparr>)"

text \<open>The function a source is: it returns whether there was no error.\<close>

definition source :: "nat \<Rightarrow> bool \<Rightarrow> sharedIRQLine \<Rightarrow> bool \<times> sharedIRQLine" where
  "source i lvl l =
     (let l1 = (if lvl \<noteq> src l ! i then l\<lparr>asserted := (if lvl then asserted l + 1 else asserted l - 1), src := (src l)[i := lvl]\<rparr> else l);
          h = (asserted l1 \<noteq> 0)
      in if h = high l1 then (True, l1)
         else case setLevel h l1 of (False, l2) \<Rightarrow> (False, l2) | (True, l2) \<Rightarrow> (True, l2\<lparr>high := h\<rparr>))"

definition sharedIRQSource :: "bool list \<Rightarrow> byte \<Rightarrow> (byte \<rightharpoonup> sharedIRQLine) \<Rightarrow> nat \<times> (byte \<rightharpoonup> sharedIRQLine)" where
  "sharedIRQSource os irq lines =
     (let line = (case lines irq of None \<Rightarrow> new_line os | Some l \<Rightarrow> l)
      in case add_source line of (i, line1) \<Rightarrow> (i, lines(irq \<mapsto> line1)))"

section \<open>Power management\<close>

record uefiPower =
  p_status :: u16
  p_enable :: u16
  p_control :: u16
  p_timer :: int
  p_irq :: "nat option"
  sciHigh :: bool
  sciPending :: bool

definition power_Read :: "int \<Rightarrow> nat \<Rightarrow> byte list \<Rightarrow> uefiPower \<Rightarrow> dev_err + byte list" where
  "power_Read now port buf p =
     (if port = 0xb008 \<and> length buf = 4 then pm_Read (p_timer p) now port (replicate (length buf) 0)
      else let registers = put_le 2 (unat (p_status p)) @ put_le 2 (unat (p_enable p)) @ put_le 2 (unat (p_control p))
           in Inr (map (\<lambda>i. if 0xb000 \<le> port + i \<and> port + i < 0xb006 then registers ! (port + i - 0xb000) else 0) [0..<length buf]))"

definition sci_wanted :: "uefiPower \<Rightarrow> bool" where
  "sci_wanted p \<longleftrightarrow> p_control p AND 1 \<noteq> 0 \<and> p_status p AND p_enable p AND 0x100 \<noteq> 0"

definition updateSCILocked :: "uefiPower \<times> sharedIRQLine \<Rightarrow> bool \<times> uefiPower \<times> sharedIRQLine" where
  "updateSCILocked s = (case s of (p, l) \<Rightarrow>
     let h = sci_wanted p
     in case p_irq p of None \<Rightarrow> (True, p, l)
        | Some i \<Rightarrow>
            if h = sciHigh p \<and> \<not> sciPending p then (True, p, l)
            else case source i h l of
              (False, l1) \<Rightarrow> (False, p\<lparr>sciPending := True\<rparr>, l1)
            | (True, l1) \<Rightarrow> (True, p\<lparr>sciHigh := h, sciPending := False\<rparr>, l1))"

text \<open>One byte written to the registers: status bits are cleared by writing one.\<close>

definition put_register :: "u16 \<Rightarrow> nat \<Rightarrow> byte \<Rightarrow> u16" where
  "put_register r shift b = (r AND NOT (push_bit shift 0xff)) OR push_bit shift (ucast b)"

definition power_byte :: "nat \<Rightarrow> byte \<Rightarrow> uefiPower \<Rightarrow> uefiPower" where
  "power_byte addr b p =
     (if 0xb000 \<le> addr \<and> addr < 0xb002 then p\<lparr>p_status := p_status p AND NOT (push_bit (8 * (addr - 0xb000)) (ucast b))\<rparr>
      else if 0xb002 \<le> addr \<and> addr < 0xb004 then p\<lparr>p_enable := put_register (p_enable p) (8 * (addr - 0xb002)) b\<rparr>
      else if 0xb004 \<le> addr \<and> addr < 0xb006 then p\<lparr>p_control := put_register (p_control p) (8 * (addr - 0xb004)) b\<rparr>
      else p)"

fun power_bytes :: "nat \<Rightarrow> byte list \<Rightarrow> uefiPower \<Rightarrow> uefiPower" where
  "power_bytes addr [] p = p"
| "power_bytes addr (b # bs) p = power_bytes (Suc addr) bs (power_byte addr b p)"

text \<open>A write returns whether the interrupt update had no error, and whether it asks the machine to stop.\<close>

definition power_Write :: "nat \<Rightarrow> byte list \<Rightarrow> uefiPower \<times> sharedIRQLine \<Rightarrow> (bool \<times> bool) \<times> uefiPower \<times> sharedIRQLine" where
  "power_Write port buf s = (case s of (p, l) \<Rightarrow>
     let p1 = power_bytes port buf p;
         shutdown = (p_control p1 AND 0x2000 \<noteq> 0 \<and> drop_bit 10 (p_control p1) AND 7 = 0);
         p2 = p1\<lparr>p_control := p_control p1 AND NOT 0x2000\<rparr>
     in case updateSCILocked (p2, l) of (ok, s1) \<Rightarrow> ((ok, shutdown), s1))"

definition smi :: "byte list \<Rightarrow> uefiPower \<times> sharedIRQLine \<Rightarrow> bool \<times> uefiPower \<times> sharedIRQLine" where
  "smi buf s = (case s of (p, l) \<Rightarrow>
     let p1 = (case buf of [] \<Rightarrow> p
         | b # _ \<Rightarrow> if b = 0xf1 then p\<lparr>p_control := p_control p OR 1\<rparr> else if b = 0xf0 then p\<lparr>p_control := p_control p AND NOT 1\<rparr> else p)
     in updateSCILocked (p1, l))"

definition pressPowerButton :: "uefiPower \<times> sharedIRQLine \<Rightarrow> bool \<times> uefiPower \<times> sharedIRQLine" where
  "pressPowerButton s = (case s of (p, l) \<Rightarrow> updateSCILocked (p\<lparr>p_status := p_status p OR 0x100\<rparr>, l))"

definition new_power :: "int \<Rightarrow> nat \<Rightarrow> uefiPower" where
  "new_power start i = \<lparr>p_status = 0, p_enable = 0, p_control = 0, p_timer = start, p_irq = Some i, sciHigh = False, sciPending = False\<rparr>"

section \<open>Steps\<close>

text \<open>Everything that happens to the pair: the operations of the power device, and the other sources of its line.\<close>

inductive power_step :: "bool \<Rightarrow> uefiPower \<times> sharedIRQLine \<Rightarrow> uefiPower \<times> sharedIRQLine \<Rightarrow> bool" where
  "power_Write port buf s = ((ok, shutdown), s') \<Longrightarrow> power_step ok s s'"
| "smi buf s = (ok, s') \<Longrightarrow> power_step ok s s'"
| "pressPowerButton s = (ok, s') \<Longrightarrow> power_step ok s s'"

inductive line_step :: "uefiPower \<times> sharedIRQLine \<Rightarrow> uefiPower \<times> sharedIRQLine \<Rightarrow> bool" where
  power: "power_step ok s s' \<Longrightarrow> line_step s s'"
| other: "source j lvl l = (ok, l') \<Longrightarrow> p_irq p \<noteq> Some j \<Longrightarrow> j < length (src l) \<Longrightarrow> line_step (p, l) (p, l')"
| attach: "add_source l = (j, l') \<Longrightarrow> line_step (p, l) (p, l')"

section \<open>Lemmas\<close>

definition line_ok :: "sharedIRQLine \<Rightarrow> bool" where
  "line_ok l \<longleftrightarrow> asserted l = int (length (filter (\<lambda>b. b) (src l))) \<and> level l = high l"

lemma count_flip: "i < length xs \<Longrightarrow> xs ! i \<noteq> b \<Longrightarrow> int (length (filter (\<lambda>b. b) (xs[i := b]))) = int (length (filter (\<lambda>b. b) xs)) + (if b then 1 else -1)"
proof (induction xs arbitrary: i)
  case (Cons x xs)
  then show ?case by (cases i) auto
qed simp

text \<open>What a call to a source does to a line in good order.\<close>

lemma source_effect:
  assumes "line_ok l" "i < length (src l)" "source i lvl l = (ok, l')"
  shows "line_ok l' \<and> src l' = (src l)[i := lvl] \<and> (ok \<longrightarrow> level l' = (asserted l' \<noteq> 0)) \<and> (asserted l' \<noteq> 0 \<and> high l \<longrightarrow> high l')"
proof -
  define l1 where "l1 = (if lvl \<noteq> src l ! i then l\<lparr>asserted := (if lvl then asserted l + 1 else asserted l - 1), src := (src l)[i := lvl]\<rparr> else l)"
  have s1: "src l1 = (src l)[i := lvl]" "high l1 = high l" "level l1 = level l" by (auto simp: l1_def list_update_id)
  have ok1: "line_ok l1" using assms(1,2) count_flip [of i "src l" lvl] by (auto simp: line_ok_def l1_def)
  have "(if (asserted l1 \<noteq> 0) = high l1 then (True, l1)
     else case setLevel (asserted l1 \<noteq> 0) l1 of (False, l2) \<Rightarrow> (False, l2) | (True, l2) \<Rightarrow> (True, l2\<lparr>high := (asserted l1 \<noteq> 0)\<rparr>)) = (ok, l')"
    using assms(3) unfolding source_def Let_def l1_def [symmetric] .
  then show ?thesis using ok1 s1 assms(1) by (auto simp: setLevel_def line_ok_def split: if_splits list.splits)
qed

lemma member_asserted: "line_ok l \<Longrightarrow> i < length (src l) \<Longrightarrow> src l ! i \<Longrightarrow> asserted l \<noteq> 0"
proof -
  assume l: "line_ok l" "i < length (src l)" "src l ! i"
  have "src l ! i \<in> set (src l)" by (rule nth_mem [OF l(2)])
  then have "True \<in> set (filter (\<lambda>b. b) (src l))" using l(3) by simp
  then have "filter (\<lambda>b. b) (src l) \<noteq> []" by (metis empty_iff empty_set)
  then show ?thesis using l(1) by (simp add: line_ok_def)
qed

text \<open>The pair is in good order: the flag of the source is the last level the device set, unless an update is pending.\<close>

definition power_ok :: "uefiPower \<times> sharedIRQLine \<Rightarrow> bool" where
  "power_ok s = (case s of (p, l) \<Rightarrow> line_ok l \<and> (case p_irq p of None \<Rightarrow> True
     | Some i \<Rightarrow> i < length (src l) \<and> (sciPending p \<or> src l ! i = sciHigh p \<and> (sciHigh p \<longrightarrow> high l))))"

lemma update_ok:
  assumes "power_ok (p, l)" "updateSCILocked (p, l) = (ok, p', l')" "p_irq p = Some i"
  shows "power_ok (p', l') \<and> (ok \<longrightarrow> src l' ! i = sci_wanted p \<and> \<not> sciPending p' \<and> sciHigh p' = sci_wanted p) \<and> p_irq p' = Some i \<and> sci_wanted p' = sci_wanted p"
proof (cases "sci_wanted p = sciHigh p \<and> \<not> sciPending p")
  case True
  then show ?thesis using assms by (auto simp: updateSCILocked_def power_ok_def line_ok_def)
next
  case False
  obtain ok1 l1 where s: "source i (sci_wanted p) l = (ok1, l1)" by (cases "source i (sci_wanted p) l")
  have l: "line_ok l" "i < length (src l)" using assms(1,3) by (auto simp: power_ok_def)
  note e = source_effect [OF l s]
  have "asserted l1 \<noteq> 0" if "sci_wanted p" using member_asserted [of l1 i] e l that by simp
  then have lv: "high l1" if "sci_wanted p" "ok1" using e that by (auto simp: line_ok_def)
  have w: "sci_wanted (p\<lparr>sciPending := a\<rparr>) = sci_wanted p" "sci_wanted (p\<lparr>sciHigh := b, sciPending := a\<rparr>) = sci_wanted p" for a b by (simp_all add: sci_wanted_def)
  show ?thesis
  proof (cases ok1)
    case True
    then have "ok" "p' = p\<lparr>sciHigh := sci_wanted p, sciPending := False\<rparr>" "l' = l1" using assms(2,3) False s by (simp_all add: updateSCILocked_def Let_def)
    then show ?thesis using e l lv True assms(3) by (simp add: power_ok_def w)
  next
    case nok: False
    then have "\<not> ok" "p' = p\<lparr>sciPending := True\<rparr>" "l' = l1" using assms(2,3) False s by (simp_all add: updateSCILocked_def Let_def)
    then show ?thesis using e l assms(3) by (simp add: power_ok_def w)
  qed
qed

lemma power_step_update:
  assumes "power_step ok (p, l) s'" obtains p1 where "updateSCILocked (p1, l) = (ok, s')" "p_irq p1 = p_irq p" "sciHigh p1 = sciHigh p" "sciPending p1 = sciPending p"
  using assms
proof cases
  case (1 port buf shutdown)
  have k: "p_irq (power_bytes a bs q) = p_irq q \<and> sciHigh (power_bytes a bs q) = sciHigh q \<and> sciPending (power_bytes a bs q) = sciPending q" for a bs q
    by (induction bs arbitrary: a q) (simp_all add: power_byte_def)
  let ?q = "power_bytes port buf p"
  show ?thesis by (rule that [of "?q\<lparr>p_control := p_control ?q AND NOT 0x2000\<rparr>"]) (use 1 k [of port buf p] in \<open>auto simp: power_Write_def Let_def split: prod.splits\<close>)
next
  case (2 buf)
  let ?q = "case buf of [] \<Rightarrow> p | b # _ \<Rightarrow> if b = 0xf1 then p\<lparr>p_control := p_control p OR 1\<rparr> else if b = 0xf0 then p\<lparr>p_control := p_control p AND NOT 1\<rparr> else p"
  show ?thesis by (rule that [of ?q]) (use 2 in \<open>auto simp: smi_def Let_def split: list.splits\<close>)
next
  case 3
  show ?thesis by (rule that [of "p\<lparr>p_status := p_status p OR 0x100\<rparr>"]) (use 3 in \<open>auto simp: pressPowerButton_def\<close>)
qed

lemma power_ok_power:
  assumes "power_ok (p, l)" "p_irq p = Some i" "power_step ok (p, l) (p', l')"
  shows "power_ok (p', l') \<and> p_irq p' = Some i \<and> (ok \<longrightarrow> src l' ! i = sci_wanted p' \<and> \<not> sciPending p' \<and> sciHigh p' = sci_wanted p')"
proof -
  obtain p1 where p1: "updateSCILocked (p1, l) = (ok, p', l')" "p_irq p1 = p_irq p" "sciHigh p1 = sciHigh p" "sciPending p1 = sciPending p"
    using power_step_update [OF assms(3)] .
  have "power_ok (p1, l)" using assms(1) p1(2-4) by (simp add: power_ok_def split: option.splits)
  from update_ok [OF this p1(1)] show ?thesis using p1(2) assms(2) by auto
qed

lemma power_ok_step:
  assumes "line_step s s'" "power_ok s" "p_irq (fst s) = Some i" shows "power_ok s' \<and> p_irq (fst s') = Some i"
  using assms(1)
proof cases
  case (power ok)
  obtain p l p' l' where "s = (p, l)" "s' = (p', l')" by (metis surj_pair)
  then show ?thesis using power_ok_power [of p l i ok p' l'] power assms(2,3) by simp
next
  case (other j lvl l ok l' p)
  have l: "line_ok l" "i < length (src l)" "p_irq p = Some i" "j \<noteq> i" using assms(2,3) other by (auto simp: power_ok_def)
  note e = source_effect [OF l(1) other(5) other(3)]
  have "src l' ! i = src l ! i" using e l(4) by simp
  moreover have "high l'" if "src l ! i" "high l" using member_asserted [of l' i] e that l(2,4) by simp
  ultimately show ?thesis using assms(2) other(1,2) e l(2,3) by (auto simp: power_ok_def)
next
  case (attach l j l' p)
  then have "src l' = src l @ [False]" "line_ok l' = line_ok l" "high l' = high l" by (auto simp: add_source_def line_ok_def)
  then show ?thesis using assms(2,3) attach by (auto simp: power_ok_def nth_append)
qed

lemma power_ok_run:
  assumes "line_step\<^sup>*\<^sup>* s s'" "power_ok s" "p_irq (fst s) = Some i" shows "power_ok s' \<and> p_irq (fst s') = Some i"
  using assms by (induction rule: rtranclp_induct) (auto dest: power_ok_step)

lemma power_ok_new: "power_ok (new_power start i, snd (add_source (new_line os)))" if "i = fst (add_source (new_line os))"
  using that by (simp add: power_ok_def new_power_def add_source_def new_line_def line_ok_def)

section \<open>Properties\<close>

text \<open>C32. The power button interrupt is not lost: however the operations of the power device and of the other devices on its line interleave, and whichever calls to KVM have failed before, after an operation of the power device without an error its source is asserted exactly when SCI is enabled and the power button status is set and enabled; and for as long as its registers stay as they are the line is then high, whatever the other devices on the line do and whatever calls fail.\<close>

theorem power_button_held:
  assumes "line_step\<^sup>*\<^sup>* (new_power start 0, snd (add_source (new_line os))) s" "power_step True s s'" "line_step\<^sup>*\<^sup>* s' s''" "fst s'' = fst s'"
  shows "src (snd s') ! 0 = sci_wanted (fst s') \<and> (sci_wanted (fst s'') \<longrightarrow> level (snd s''))"
proof -
  have "power_ok s \<and> p_irq (fst s) = Some 0"
    using power_ok_run [OF assms(1)] power_ok_new [of 0 os start] by (simp add: add_source_def new_line_def new_power_def)
  then have s': "power_ok s'" "p_irq (fst s') = Some 0" "src (snd s') ! 0 = sci_wanted (fst s')" "\<not> sciPending (fst s')" "sciHigh (fst s') = sci_wanted (fst s')"
    using power_ok_power [of "fst s" "snd s" 0 True "fst s'" "snd s'"] assms(2) by simp_all
  have "power_ok s''" using power_ok_run [OF assms(3) s'(1,2)] by simp
  then have "sci_wanted (fst s'') \<longrightarrow> level (snd s'')" using s'(2,4,5) assms(4) by (auto simp: power_ok_def line_ok_def split: prod.splits)
  then show ?thesis using s'(3) by blast
qed

definition armed :: "uefiPower \<times> sharedIRQLine" where
  "armed = snd (smi [0xf1] (snd (power_Write 0xb003 [0x01] (new_power 0 0, snd (add_source (new_line []))))))"

lemma armed_reached: "line_step\<^sup>*\<^sup>* (new_power 0 0, snd (add_source (new_line []))) armed"
proof -
  let ?a = "(new_power 0 0, snd (add_source (new_line [])))"
  let ?b = "snd (power_Write 0xb003 [0x01] ?a)"
  have "line_step ?a ?b"
    by (rule line_step.power, rule power_step.intros(1) [where port = "0xb003" and buf = "[0x01]" and shutdown = "snd (fst (power_Write 0xb003 [0x01] ?a))"
      and ok = "fst (fst (power_Write 0xb003 [0x01] ?a))"]) simp
  moreover have "line_step ?b armed"
    by (rule line_step.power, rule power_step.intros(2) [where buf = "[0xf1]" and ok = "fst (smi [0xf1] ?b)"]) (simp add: armed_def)
  ultimately show ?thesis by simp
qed

theorem power_button_held_witness: "level (snd (snd (pressPowerButton armed)))"
proof -
  have a: "armed = (\<lparr>p_status = 0, p_enable = 0x100, p_control = 1, p_timer = 0, p_irq = Some 0, sciHigh = False, sciPending = False\<rparr>,
      \<lparr>src = [False], asserted = 0, high = False, level = False, outcomes = []\<rparr>)"
    by (simp add: armed_def smi_def power_Write_def power_byte_def put_register_def new_power_def add_source_def new_line_def updateSCILocked_def
      sci_wanted_def Let_def push_bit_eq_mult)
  have "fst (pressPowerButton armed)" "sci_wanted (fst (snd (pressPowerButton armed)))"
    by (simp_all add: a pressPowerButton_def updateSCILocked_def sci_wanted_def source_def setLevel_def Let_def)
  then have "power_step True armed (snd (pressPowerButton armed))" by (intro power_step.intros(3)) (simp add: prod_eq_iff)
  from power_button_held [OF armed_reached this rtranclp.rtrancl_refl refl] show ?thesis
    using \<open>sci_wanted (fst (snd (pressPowerButton armed)))\<close> by simp
qed

end
