(* ===== verification/Serial_Port.thy ===== *)
theory Serial_Port
  imports Io_Devices
begin

text \<open>
  The serial port, \<^verbatim>\<open>internal/serial/serial.go\<close>: the registers the guest reads and writes, the input
  channel, and the loop that feeds it. Printed text is a list of code points, the interrupts injected are counted, and
  the results of the injections to come are a script.
\<close>

unbundle bit_operations_syntax

section \<open>The device\<close>

definition COM1Addr :: nat where "COM1Addr = 0x3f8"
definition input_capacity :: nat where "input_capacity = 10000"

record Serial =
  IER :: byte
  LCR :: byte
  inputChan :: "byte list"
  s_output :: "nat list"
  injected :: nat
  inject_outcomes :: "bool list"

definition newSerial :: "bool list \<Rightarrow> Serial" where
  "newSerial os = \<lparr>IER = 0, LCR = 0, inputChan = [], s_output = [], injected = 0, inject_outcomes = os\<rparr>"

definition dlab :: "Serial \<Rightarrow> bool" where
  "dlab s \<longleftrightarrow> LCR s AND 0x80 \<noteq> 0"

definition inject :: "Serial \<Rightarrow> bool \<times> Serial" where
  "inject s = (case inject_outcomes s of [] \<Rightarrow> (True, s\<lparr>injected := injected s + 1\<rparr>)
     | ok # os \<Rightarrow> (ok, s\<lparr>injected := injected s + 1, inject_outcomes := os\<rparr>))"

definition serial_In :: "nat \<Rightarrow> byte list \<Rightarrow> Serial \<Rightarrow> (dev_err + byte list) \<times> Serial" where
  "serial_In port values s =
     (let r = int port - int COM1Addr
      in if r = 0 \<and> \<not> dlab s then
           (case inputChan s of [] \<Rightarrow> (Inr values, s)
            | b # bs \<Rightarrow> if values = [] then (Inl IndexPanic, s\<lparr>inputChan := bs\<rparr>) else (Inr (values[0 := b]), s\<lparr>inputChan := bs\<rparr>))
         else if r \<in> {0, 1, 5} \<and> values = [] then (Inl IndexPanic, s)
         else if r = 0 then (Inr (values[0 := 0x0c]), s)
         else if r = 1 \<and> \<not> dlab s then (Inr (values[0 := IER s]), s)
         else if r = 1 then (Inr (values[0 := 0x00]), s)
         else if r = 5 then
           (Inr (values[0 := (if inputChan s \<noteq> [] then ((values ! 0 OR 0x20) OR 0x40) OR 0x1 else (values ! 0 OR 0x20) OR 0x40)]), s)
         else (Inr values, s))"

definition serial_Out :: "nat \<Rightarrow> byte list \<Rightarrow> Serial \<Rightarrow> (dev_err + unit) \<times> Serial" where
  "serial_Out port values s =
     (let r = int port - int COM1Addr
      in if values = [] \<and> (r = 3 \<or> r \<in> {0, 1} \<and> \<not> dlab s) then (Inl IndexPanic, s)
         else if r = 0 \<and> \<not> dlab s then (Inr (), s\<lparr>s_output := s_output s @ [unat (values ! 0)]\<rparr>)
         else if r = 1 \<and> \<not> dlab s then
           (let s1 = s\<lparr>IER := values ! 0\<rparr>
            in if IER s1 \<noteq> 0 then (case inject s1 of (ok, s2) \<Rightarrow> (if ok then Inr () else Inl InjectError, s2)) else (Inr (), s1))
         else if r = 3 then (Inr (), s\<lparr>LCR := values ! 0\<rparr>)
         else (Inr (), s))"

text \<open>
  One round of the loop that feeds the channel: it waits while the channel is full (\<open>None\<close>), and ends after the
  escape sequence. The result says whether the loop goes on.
\<close>

definition start_round :: "byte \<Rightarrow> byte \<Rightarrow> Serial \<Rightarrow> (bool \<times> Serial) option" where
  "start_round before b s =
     (if length (inputChan s) \<ge> input_capacity then None
      else let s1 = s\<lparr>inputChan := inputChan s @ [b]\<rparr>
           in Some (\<not> (before = 0x01 \<and> b = 0x78), snd (inject s1)))"

fun serial_Start :: "byte \<Rightarrow> byte list \<Rightarrow> Serial \<Rightarrow> Serial option" where
  "serial_Start before [] s = Some s"
| "serial_Start before (b # bs) s =
     (case start_round before b s of None \<Rightarrow> None | Some (continue, s1) \<Rightarrow> if continue then serial_Start b bs s1 else Some s1)"

section \<open>Lemmas\<close>

text \<open>Input reaches the guest in order: reading the receive register once per byte returns what was fed.\<close>

fun serial_drain :: "nat \<Rightarrow> Serial \<Rightarrow> byte list" where
  "serial_drain 0 s = []"
| "serial_drain (Suc n) s = (case serial_In COM1Addr [0] s of (Inr bs, s1) \<Rightarrow> bs @ serial_drain n s1 | (Inl _, s1) \<Rightarrow> [])"

lemma serial_drain: "\<not> dlab s \<Longrightarrow> serial_drain (length (inputChan s)) s = inputChan s"
proof (induction "inputChan s" arbitrary: s)
  case (Cons b bs)
  have "serial_In COM1Addr [0] s = (Inr [b], s\<lparr>inputChan := bs\<rparr>)" using Cons.hyps(2) [symmetric] Cons.prems by (simp add: serial_In_def)
  moreover have "\<not> dlab (s\<lparr>inputChan := bs\<rparr>)" using Cons.prems by (simp add: dlab_def)
  ultimately show ?case using Cons.hyps(1) [of "s\<lparr>inputChan := bs\<rparr>"] Cons.hyps(2) [symmetric] by simp
qed simp

end
