(* ===== verification/Atapi_Cdrom.thy ===== *)
theory Atapi_Cdrom
  imports Io_Devices
begin

text \<open>
  The ATAPI CD-ROM, \<^verbatim>\<open>internal/iodev/atapi_cdrom.go\<close>: the task file registers, packet commands and the data
  port. The medium is an \<^verbatim>\<open>io.ReaderAt\<close> and an argument of the operations that read it; the interrupts
  raised are counted, because the code ignores the result of the callback. The property follows a read command from
  its packet to the last byte of its data, in whatever pieces the driver accesses the data port.
\<close>

unbundle bit_operations_syntax

section \<open>The drive\<close>

definition ataPrimaryBase :: nat where "ataPrimaryBase = 0x1f0"
definition ataPrimaryControl :: nat where "ataPrimaryControl = 0x3f6"
definition ataRegData :: nat where "ataRegData = 0x1f0"
definition ataRegError :: nat where "ataRegError = 0x1f1"
definition ataRegFeatures :: nat where "ataRegFeatures = 0x1f1"
definition ataRegSectorCnt :: nat where "ataRegSectorCnt = 0x1f2"
definition ataRegLBALow :: nat where "ataRegLBALow = 0x1f3"
definition ataRegLBAMid :: nat where "ataRegLBAMid = 0x1f4"
definition ataRegLBAHigh :: nat where "ataRegLBAHigh = 0x1f5"
definition ataRegDriveHead :: nat where "ataRegDriveHead = 0x1f6"
definition ataRegStatus :: nat where "ataRegStatus = 0x1f7"
definition ataRegCommand :: nat where "ataRegCommand = 0x1f7"
definition ataRegAltStatus :: nat where "ataRegAltStatus = 0x3f6"
definition ataRegDevControl :: nat where "ataRegDevControl = 0x3f6"

definition ataStatusErr :: byte where "ataStatusErr = 0x01"
definition ataStatusDRQ :: byte where "ataStatusDRQ = 0x08"
definition ataStatusDSC :: byte where "ataStatusDSC = 0x10"
definition ataStatusDRDY :: byte where "ataStatusDRDY = 0x40"
definition ataErrABRT :: byte where "ataErrABRT = 0x04"

definition ataCmdDeviceReset :: byte where "ataCmdDeviceReset = 0x08"
definition ataCmdExecuteDiag :: byte where "ataCmdExecuteDiag = 0x90"
definition ataCmdPacket :: byte where "ataCmdPacket = 0xa0"
definition ataCmdIdentifyPacket :: byte where "ataCmdIdentifyPacket = 0xa1"
definition ataCmdIdentifyDevice :: byte where "ataCmdIdentifyDevice = 0xec"

definition atapiSectorSize :: nat where "atapiSectorSize = 2048"

lemmas ata_ports = ataPrimaryBase_def ataPrimaryControl_def ataRegData_def ataRegError_def ataRegFeatures_def ataRegSectorCnt_def
  ataRegLBALow_def ataRegLBAMid_def ataRegLBAHigh_def ataRegDriveHead_def ataRegStatus_def ataRegCommand_def ataRegAltStatus_def ataRegDevControl_def

lemmas ata_consts = ataStatusErr_def ataStatusDRQ_def ataStatusDSC_def ataStatusDRDY_def ataErrABRT_def
  ataCmdDeviceReset_def ataCmdExecuteDiag_def ataCmdPacket_def ataCmdIdentifyPacket_def ataCmdIdentifyDevice_def

text \<open>What a read of the medium returns: the bytes read, at most as many as asked for, and how it ended.\<close>

datatype reader_err = ReaderEOF | ReaderFailed

type_synonym reader = "nat \<Rightarrow> int \<Rightarrow> byte list \<times> reader_err option"

record ATAPICDROM =
  cd_size :: int
  cd_inject :: bool
  cd_irqs :: nat
  errorReg :: byte
  featuresReg :: byte
  sectorCount :: byte
  lbaLow :: byte
  lbaMid :: byte
  lbaHigh :: byte
  driveHead :: byte
  cd_status :: byte
  devControl :: byte
  cd_data :: "byte list"
  dataOffset :: nat
  awaitingPacket :: bool
  cd_packet :: "byte list"
  senseKey :: byte
  senseASC :: byte
  senseASCQ :: byte

definition clearSense :: "ATAPICDROM \<Rightarrow> ATAPICDROM" where
  "clearSense c = c\<lparr>senseKey := 0, senseASC := 0, senseASCQ := 0\<rparr>"

definition setSense :: "byte \<Rightarrow> byte \<Rightarrow> ATAPICDROM \<Rightarrow> ATAPICDROM" where
  "setSense key asc c = c\<lparr>senseKey := key, senseASC := asc, senseASCQ := 0\<rparr>"

definition interrupt :: "ATAPICDROM \<Rightarrow> ATAPICDROM" where
  "interrupt c = (if devControl c AND 0x02 \<noteq> 0 \<or> \<not> cd_inject c then c else c\<lparr>cd_irqs := cd_irqs c + 1\<rparr>)"

definition cd_reset :: "ATAPICDROM \<Rightarrow> ATAPICDROM" where
  "cd_reset c = clearSense (c\<lparr>errorReg := 0x01, featuresReg := 0, sectorCount := 0x01, lbaLow := 0x01, lbaMid := 0x14, lbaHigh := 0xeb,
     driveHead := 0xa0, cd_status := ataStatusDRDY OR ataStatusDSC, cd_data := [], dataOffset := 0, awaitingPacket := False, cd_packet := []\<rparr>)"

definition NewATAPICDROM :: "int \<Rightarrow> bool \<Rightarrow> ATAPICDROM" where
  "NewATAPICDROM n irq = cd_reset \<lparr>cd_size = n, cd_inject = irq, cd_irqs = 0, errorReg = 0, featuresReg = 0, sectorCount = 0, lbaLow = 0,
     lbaMid = 0, lbaHigh = 0, driveHead = 0, cd_status = 0, devControl = 0, cd_data = [], dataOffset = 0, awaitingPacket = False,
     cd_packet = [], senseKey = 0, senseASC = 0, senseASCQ = 0\<rparr>"

definition slaveSelected :: "ATAPICDROM \<Rightarrow> bool" where
  "slaveSelected c \<longleftrightarrow> driveHead c AND 0x10 \<noteq> 0"

definition abort :: "ATAPICDROM \<Rightarrow> ATAPICDROM" where
  "abort c = interrupt (setSense 0x05 0x20 (c\<lparr>errorReg := ataErrABRT, cd_status := ataStatusDRDY OR ataStatusDSC OR ataStatusErr\<rparr>))"

subsection \<open>Data to the host\<close>

definition max_transfer :: "ATAPICDROM \<Rightarrow> nat" where
  "max_transfer c = (let n = le_nat [lbaMid c, lbaHigh c] in if n = 0 then 65536 else n)"

definition prepareData :: "byte list \<Rightarrow> nat \<Rightarrow> ATAPICDROM \<Rightarrow> ATAPICDROM" where
  "prepareData d alloc c =
     (let d1 = (if alloc > 0 \<and> length d > alloc then take alloc d else d);
          d2 = (if length d1 > max_transfer c then take (max_transfer c) d1 else d1);
          c1 = c\<lparr>cd_data := d2, dataOffset := 0, lbaMid := of_nat (length d2), lbaHigh := of_nat (length d2 div 256)\<rparr>
      in interrupt (if length d2 = 0 then c1\<lparr>cd_status := ataStatusDRDY OR ataStatusDSC, sectorCount := 0x03\<rparr>
                    else c1\<lparr>cd_status := ataStatusDRDY OR ataStatusDRQ, sectorCount := 0x02\<rparr>))"

definition finishPacket :: "byte list \<Rightarrow> nat \<Rightarrow> ATAPICDROM \<Rightarrow> ATAPICDROM" where
  "finishPacket d alloc c = prepareData d alloc (c\<lparr>errorReg := 0\<rparr>)"

text \<open>The loop that copies to the buffer of an access.\<close>

fun fill :: "nat \<Rightarrow> ATAPICDROM \<Rightarrow> byte list \<times> ATAPICDROM" where
  "fill 0 c = ([], c)"
| "fill (Suc n) c =
     (if dataOffset c \<ge> length (cd_data c) then (case fill n c of (bs, c1) \<Rightarrow> (0 # bs, c1))
      else case fill n (c\<lparr>dataOffset := dataOffset c + 1\<rparr>) of (bs, c1) \<Rightarrow> (cd_data c ! dataOffset c # bs, c1))"

definition readData :: "nat \<Rightarrow> ATAPICDROM \<Rightarrow> byte list \<times> ATAPICDROM" where
  "readData n c = (case fill n c of (bs, c1) \<Rightarrow>
     (bs, if dataOffset c1 \<ge> length (cd_data c1)
          then c1\<lparr>cd_data := [], dataOffset := 0, cd_status := ataStatusDRDY OR ataStatusDSC, sectorCount := 0x03\<rparr> else c1))"

subsection \<open>Answers of the packet commands\<close>

definition ascii :: "string \<Rightarrow> byte list" where
  "ascii s = map of_char s"

definition copyPadded :: "nat \<Rightarrow> string \<Rightarrow> byte list" where
  "copyPadded n s = copy_at (replicate n 0x20) 0 (ascii s)"

fun swap_pairs :: "byte list \<Rightarrow> byte list" where
  "swap_pairs (a # b # bs) = b # a # swap_pairs bs"
| "swap_pairs bs = bs"

definition copyATAString :: "nat \<Rightarrow> string \<Rightarrow> byte list" where
  "copyATAString n s = swap_pairs (copyPadded n s)"

definition put_word :: "nat \<Rightarrow> nat \<Rightarrow> byte list \<Rightarrow> byte list" where
  "put_word idx v d = copy_at d (idx * 2) (put_le 2 v)"

definition identifyPacket :: "byte list" where
  "identifyPacket =
     copy_at (copy_at (put_word 93 0x4041 (put_word 84 0x4000 (put_word 83 0x4000 (put_word 82 0x4000 (put_word 80 0x007e
       (put_word 64 0x0003 (put_word 53 0x0003 (put_word 49 0x0200 (put_word 0 0x85c0 (replicate 512 0))))))))))
       (23 * 2) (copyATAString (27 * 2 - 23 * 2) ''1.0'')) (27 * 2) (copyATAString (47 * 2 - 27 * 2) ''gokvm ATAPI CD-ROM'')"

definition inquiry :: "byte list" where
  "inquiry = [0x05, 0x80, 0x05, 0x02, 31, 0, 0, 0] @ copyPadded 8 ''GOKVM'' @ copyPadded 16 ''VIRTUAL CD-ROM'' @ copyPadded 4 ''1.0''"

definition requestSense :: "ATAPICDROM \<Rightarrow> byte list" where
  "requestSense c = [0x70, 0, senseKey c, 0, 0, 0, 0, 10, 0, 0, 0, 0, senseASC c, senseASCQ c, 0, 0, 0, 0]"

definition blockCount :: "ATAPICDROM \<Rightarrow> u32" where
  "blockCount c =
     (if cd_size c \<le> 0 then 0
      else let blocks = (nat (cd_size c) + atapiSectorSize - 1) div atapiSectorSize
           in if blocks > 0xffffffff then 0xffffffff else of_nat blocks)"

definition readCapacity :: "ATAPICDROM \<Rightarrow> byte list" where
  "readCapacity c =
     (let blocks = blockCount c; lastBlock = (if blocks > 0 then blocks - 1 else 0)
      in put_be 4 (unat lastBlock) @ put_be 4 atapiSectorSize)"

definition lbaToMSF :: "u32 \<Rightarrow> byte \<times> byte \<times> byte" where
  "lbaToMSF lba = (let minutes = lba div (60 * 75); rest = lba mod (60 * 75)
     in (ucast minutes, ucast (rest div 75), ucast (rest mod 75)))"

definition putTOCAddress :: "u32 \<Rightarrow> bool \<Rightarrow> byte list" where
  "putTOCAddress lba msf =
     (if \<not> msf then put_be 4 (unat lba) else case lbaToMSF (lba + 150) of (minutes, seconds, frames) \<Rightarrow> [0, minutes, seconds, frames])"

definition readTOC :: "bool \<Rightarrow> ATAPICDROM \<Rightarrow> byte list" where
  "readTOC msf c = put_be 2 18 @ [1, 1] @ [0, 0x14, 1, 0] @ putTOCAddress 0 msf @ [0, 0x14, 0xaa, 0] @ putTOCAddress (blockCount c) msf"

definition getConfiguration :: "byte list" where
  "getConfiguration = put_be 4 4 @ [0, 0] @ put_be 2 0x0008"

definition readDiscInformation :: "byte list" where
  "readDiscInformation = put_be 2 32 @ [0x0e, 1, 1, 1] @ replicate 28 0"

text \<open>A read of the medium; \<^verbatim>\<open>int\<close> has 64 bits.\<close>

definition readBlocks :: "reader \<Rightarrow> u32 \<Rightarrow> u32 \<Rightarrow> ATAPICDROM \<Rightarrow> ATAPICDROM" where
  "readBlocks r lba blocks c =
     (if blocks = 0 then finishPacket [] 0 (clearSense c)
      else let byteCount = ucast blocks * 2048 :: u64
           in if byteCount > 0x7fffffffffffffff then
                interrupt ((setSense 0x05 0x21 c)\<lparr>errorReg := ataErrABRT, cd_status := ataStatusDRDY OR ataStatusDSC OR ataStatusErr\<rparr>)
              else case r (unat byteCount) (int (unat lba) * int atapiSectorSize) of (d, e) \<Rightarrow>
                if e = Some ReaderFailed then
                  interrupt ((setSense 0x03 0x11 c)\<lparr>errorReg := ataErrABRT, cd_status := ataStatusDRDY OR ataStatusDSC OR ataStatusErr\<rparr>)
                else finishPacket (copy_at (replicate (unat byteCount) 0) 0 d) 0 (clearSense c))"

definition handlePacket :: "reader \<Rightarrow> byte list \<Rightarrow> ATAPICDROM \<Rightarrow> ATAPICDROM" where
  "handlePacket r cmd c =
     (if cmd ! 0 = 0x00 then finishPacket [] 0 (clearSense c)
      else if cmd ! 0 = 0x03 then clearSense (finishPacket (requestSense c) (unat (cmd ! 4)) c)
      else if cmd ! 0 = 0x12 then finishPacket inquiry (unat (cmd ! 4)) (clearSense c)
      else if cmd ! 0 = 0x1a then finishPacket [3, 0, 0, 0] (unat (cmd ! 4)) (clearSense c)
      else if cmd ! 0 = 0x1b \<or> cmd ! 0 = 0x1e then finishPacket [] 0 (clearSense c)
      else if cmd ! 0 = 0x25 then finishPacket (readCapacity (clearSense c)) 8 (clearSense c)
      else if cmd ! 0 = 0x28 then readBlocks r (of_nat (be_nat (slice cmd 2 4))) (of_nat (be_nat (slice cmd 7 2))) c
      else if cmd ! 0 = 0x43 then finishPacket (readTOC (cmd ! 1 AND 0x02 \<noteq> 0) (clearSense c)) (be_nat (slice cmd 7 2)) (clearSense c)
      else if cmd ! 0 = 0x46 then finishPacket getConfiguration (be_nat (slice cmd 7 2)) (clearSense c)
      else if cmd ! 0 = 0x51 then finishPacket readDiscInformation (be_nat (slice cmd 7 2)) (clearSense c)
      else if cmd ! 0 = 0xa8 then readBlocks r (of_nat (be_nat (slice cmd 2 4))) (of_nat (be_nat (slice cmd 6 4))) c
      else interrupt ((setSense 0x05 0x20 c)\<lparr>errorReg := ataErrABRT, cd_status := ataStatusDRDY OR ataStatusDSC OR ataStatusErr, sectorCount := 0x03\<rparr>))"

subsection \<open>Registers\<close>

definition cd_writeData :: "reader \<Rightarrow> byte list \<Rightarrow> ATAPICDROM \<Rightarrow> ATAPICDROM" where
  "cd_writeData r src c =
     (if \<not> awaitingPacket c then c
      else let p = cd_packet c @ src
           in if length p < 12 then c\<lparr>cd_packet := p\<rparr>
              else handlePacket r (take 12 p) (c\<lparr>awaitingPacket := False, cd_packet := []\<rparr>))"

definition cd_command :: "byte \<Rightarrow> ATAPICDROM \<Rightarrow> ATAPICDROM" where
  "cd_command cmd c =
     (if slaveSelected c then c
      else if cmd = ataCmdDeviceReset then interrupt (cd_reset c)
      else if cmd = ataCmdExecuteDiag then interrupt (c\<lparr>errorReg := 0x01, cd_status := ataStatusDRDY OR ataStatusDSC\<rparr>)
      else if cmd = ataCmdIdentifyDevice then abort c
      else if cmd = ataCmdIdentifyPacket then prepareData identifyPacket 0 c
      else if cmd = ataCmdPacket then
        c\<lparr>awaitingPacket := True, cd_packet := [], errorReg := 0, cd_status := ataStatusDRDY OR ataStatusDRQ, sectorCount := 0x01\<rparr>
      else abort c)"

definition cd_Read :: "nat \<Rightarrow> byte list \<Rightarrow> ATAPICDROM \<Rightarrow> byte list \<times> ATAPICDROM" where
  "cd_Read port buf c =
     (if buf = [] then (buf, c)
      else if slaveSelected c then (replicate (length buf) 0, c)
      else if port = ataRegData then readData (length buf) c
      else if port = ataRegError then (buf[0 := errorReg c], c)
      else if port = ataRegSectorCnt then (buf[0 := sectorCount c], c)
      else if port = ataRegLBALow then (buf[0 := lbaLow c], c)
      else if port = ataRegLBAMid then (buf[0 := lbaMid c], c)
      else if port = ataRegLBAHigh then (buf[0 := lbaHigh c], c)
      else if port = ataRegDriveHead then (buf[0 := driveHead c], c)
      else if port = ataRegStatus \<or> port = ataRegAltStatus then (buf[0 := cd_status c], c)
      else (replicate (length buf) 0xff, c))"

definition cd_Write :: "reader \<Rightarrow> nat \<Rightarrow> byte list \<Rightarrow> ATAPICDROM \<Rightarrow> ATAPICDROM" where
  "cd_Write r port buf c =
     (if buf = [] then c
      else if port = ataRegData then cd_writeData r buf c
      else if port = ataRegFeatures then c\<lparr>featuresReg := buf ! 0\<rparr>
      else if port = ataRegSectorCnt then c\<lparr>sectorCount := buf ! 0\<rparr>
      else if port = ataRegLBALow then c\<lparr>lbaLow := buf ! 0\<rparr>
      else if port = ataRegLBAMid then c\<lparr>lbaMid := buf ! 0\<rparr>
      else if port = ataRegLBAHigh then c\<lparr>lbaHigh := buf ! 0\<rparr>
      else if port = ataRegDriveHead then c\<lparr>driveHead := buf ! 0\<rparr>
      else if port = ataRegCommand then cd_command (buf ! 0) c
      else if port = ataRegDevControl then
        (let c1 = c\<lparr>devControl := buf ! 0\<rparr> in if buf ! 0 AND 0x04 \<noteq> 0 then cd_reset c1 else c1)
      else c)"

section \<open>Lemmas\<close>

lemma interrupt_keeps [simp]:
  "cd_data (interrupt c) = cd_data c" "dataOffset (interrupt c) = dataOffset c" "cd_status (interrupt c) = cd_status c" "driveHead (interrupt c) = driveHead c"
  "lbaMid (interrupt c) = lbaMid c" "lbaHigh (interrupt c) = lbaHigh c" "senseKey (interrupt c) = senseKey c" "slaveSelected (interrupt c) = slaveSelected c"
  by (simp_all add: interrupt_def slaveSelected_def)

lemma clearSense_keeps [simp]:
  "lbaMid (clearSense c) = lbaMid c" "lbaHigh (clearSense c) = lbaHigh c" "driveHead (clearSense c) = driveHead c" "senseKey (clearSense c) = 0"
  by (simp_all add: clearSense_def)

lemma max_transfer_pos: "0 < max_transfer c"
  by (simp add: max_transfer_def Let_def)

text \<open>The parts of the drive after data was prepared.\<close>

lemma finishPacket_parts:
  assumes "c' = finishPacket d 0 c" "d \<noteq> []"
  shows "cd_data c' = take (max_transfer c) d" "dataOffset c' = 0" "cd_status c' = ataStatusDRDY OR ataStatusDRQ"
    "le_nat [lbaMid c', lbaHigh c'] = length (take (max_transfer c) d) mod 65536" "slaveSelected c' = slaveSelected c" "senseKey c' = senseKey c"
proof -
  have m: "max_transfer (c\<lparr>errorReg := 0\<rparr>) = max_transfer c" by (simp add: max_transfer_def)
  have t: "(if length d > max_transfer c then take (max_transfer c) d else d) = take (max_transfer c) d" by simp
  have ne: "length (take (max_transfer c) d) \<noteq> 0" using assms(2) max_transfer_pos [of c] by simp
  note u = assms(1) [unfolded finishPacket_def prepareData_def Let_def m, simplified t if_False less_irrefl simp_thms]
  show "cd_data c' = take (max_transfer c) d" "dataOffset c' = 0" "cd_status c' = ataStatusDRDY OR ataStatusDRQ"
    "slaveSelected c' = slaveSelected c" "senseKey c' = senseKey c" unfolding u if_not_P [OF ne] by (simp_all add: slaveSelected_def)
  show "le_nat [lbaMid c', lbaHigh c'] = length (take (max_transfer c) d) mod 65536"
    unfolding u if_not_P [OF ne] by (simp add: unat_of_nat mod_mult2_eq [of _ 256 256, simplified] del: length_take)
qed

lemma fill_bytes:
  "dataOffset c \<le> length (cd_data c) \<Longrightarrow>
   fill n c = (take n (drop (dataOffset c) (cd_data c)) @ replicate (n - (length (cd_data c) - dataOffset c)) 0,
     c\<lparr>dataOffset := min (dataOffset c + n) (length (cd_data c))\<rparr>)"
proof (induction n arbitrary: c)
  case (Suc n)
  show ?case
  proof (cases "dataOffset c < length (cd_data c)")
    case True
    then show ?thesis using Suc.IH [of "c\<lparr>dataOffset := dataOffset c + 1\<rparr>"]
      by (simp add: Suc_diff_Suc Cons_nth_drop_Suc [symmetric])
  next
    case False
    then have "dataOffset c = length (cd_data c)" using Suc.prems by simp
    then show ?thesis using Suc.IH [of c] Suc.prems by simp
  qed
qed simp

section \<open>Drivers\<close>

text \<open>A driver writes a packet in pieces, and reads data in pieces.\<close>

definition write_pieces :: "reader \<Rightarrow> byte list list \<Rightarrow> ATAPICDROM \<Rightarrow> ATAPICDROM" where
  "write_pieces r ds c = fold (cd_Write r ataRegData) ds c"

fun read_pieces :: "nat list \<Rightarrow> ATAPICDROM \<Rightarrow> byte list \<times> ATAPICDROM" where
  "read_pieces [] c = ([], c)"
| "read_pieces (n # ns) c =
     (case cd_Read ataRegData (replicate n 0) c of (b, c1) \<Rightarrow> (case read_pieces ns c1 of (bs, c2) \<Rightarrow> (b @ bs, c2)))"

lemma write_pieces:
  assumes "awaitingPacket c" "length (cd_packet c @ concat ds) = 12" "[] \<notin> set ds" "ds \<noteq> []"
  shows "write_pieces r ds c = handlePacket r (cd_packet c @ concat ds) (c\<lparr>awaitingPacket := False, cd_packet := []\<rparr>)"
  using assms
proof (induction ds arbitrary: c)
  case (Cons d ds)
  have w: "cd_Write r ataRegData d c = cd_writeData r d c" using Cons.prems(3) by (auto simp: cd_Write_def)
  show ?case
  proof (cases "ds = []")
    case True
    then show ?thesis using Cons.prems w by (simp add: write_pieces_def cd_writeData_def)
  next
    case False
    then have "length (concat ds) > 0" using Cons.prems(3) by (cases ds) auto
    then have "length (cd_packet c @ d) < 12" using Cons.prems(2) by (simp del: length_greater_0_conv length_concat)
    then have "cd_writeData r d c = c\<lparr>cd_packet := cd_packet c @ d\<rparr>" using Cons.prems(1) by (simp add: cd_writeData_def)
    then show ?thesis using Cons.IH [of "c\<lparr>cd_packet := cd_packet c @ d\<rparr>"] Cons.prems False w by (simp add: write_pieces_def)
  qed
qed simp

lemma read_piece:
  assumes "\<not> slaveSelected c" "0 < n" "dataOffset c + n \<le> length (cd_data c)"
  shows "cd_Read ataRegData (replicate n 0) c = (slice (cd_data c) (dataOffset c) n,
    if dataOffset c + n = length (cd_data c)
    then c\<lparr>cd_data := [], dataOffset := 0, cd_status := ataStatusDRDY OR ataStatusDSC, sectorCount := 0x03\<rparr> else c\<lparr>dataOffset := dataOffset c + n\<rparr>)"
  using assms fill_bytes [of c n] by (auto simp: cd_Read_def readData_def slice_def min_def)

lemma read_pieces:
  assumes "\<not> slaveSelected c" "dataOffset c + sum_list ns = length (cd_data c)" "0 \<notin> set ns" "ns \<noteq> []"
  shows "\<exists>c'. read_pieces ns c = (drop (dataOffset c) (cd_data c), c') \<and> cd_status c' = ataStatusDRDY OR ataStatusDSC \<and> cd_data c' = []"
  using assms
proof (induction ns arbitrary: c)
  case (Cons n ns)
  have n: "0 < n" "dataOffset c + n \<le> length (cd_data c)" using Cons.prems by auto
  note piece = read_piece [OF Cons.prems(1) n]
  show ?case
  proof (cases "ns = []")
    case True
    then show ?thesis using piece Cons.prems(2) by (auto simp: slice_def)
  next
    case False
    then have "0 < sum_list ns" using Cons.prems(3) by (cases ns) auto
    then have p: "cd_Read ataRegData (replicate n 0) c = (slice (cd_data c) (dataOffset c) n, c\<lparr>dataOffset := dataOffset c + n\<rparr>)"
      using piece Cons.prems(2) by simp
    have "\<not> slaveSelected (c\<lparr>dataOffset := dataOffset c + n\<rparr>)" using Cons.prems(1) by (simp add: slaveSelected_def)
    then obtain c' where "read_pieces ns (c\<lparr>dataOffset := dataOffset c + n\<rparr>) = (drop (dataOffset c + n) (cd_data c), c')"
      "cd_status c' = ataStatusDRDY OR ataStatusDSC" "cd_data c' = []"
      using Cons.IH [of "c\<lparr>dataOffset := dataOffset c + n\<rparr>"] Cons.prems(2,3) False by auto
    moreover have "slice (cd_data c) (dataOffset c) n @ drop (dataOffset c + n) (cd_data c) = drop (dataOffset c) (cd_data c)"
      using append_take_drop_id [of n "drop (dataOffset c) (cd_data c)"] by (simp add: slice_def add.commute)
    ultimately show ?thesis using p by simp
  qed
qed simp

text \<open>The packet of a read command with 16 and with 32 bit block counts.\<close>

definition read10 :: "nat \<Rightarrow> nat \<Rightarrow> byte list" where
  "read10 lba blocks = [0x28, 0] @ put_be 4 lba @ [0] @ put_be 2 blocks @ [0, 0, 0]"

definition read12 :: "nat \<Rightarrow> nat \<Rightarrow> byte list" where
  "read12 lba blocks = [0xa8, 0] @ put_be 4 lba @ put_be 4 blocks @ [0, 0]"

lemma handle_read:
  assumes "lba < 2 ^ 32" "cmd = read10 lba blocks \<and> blocks < 2 ^ 16 \<or> cmd = read12 lba blocks \<and> blocks < 2 ^ 32"
  shows "handlePacket r cmd c = readBlocks r (of_nat lba) (of_nat blocks) c \<and> length cmd = 12"
  using assms by (auto simp: handlePacket_def read10_def read12_def slice_def be_nat_put_be)

text \<open>The size check of a read never fails: the byte count of every block count fits.\<close>

lemma byte_count_fits: "\<not> (ucast (blocks :: u32) * 2048 :: u64) > 0x7fffffffffffffff"
proof -
  have "unat (ucast blocks :: u64) < 2 ^ 32" using unsigned_less [of blocks] by (simp add: unat_up32)
  then have "unat (ucast blocks * 2048 :: u64) \<le> 0x7fffffffffffffff" by (simp add: unat_word_ariths)
  then show ?thesis by (simp add: word_less_nat_alt)
qed

text \<open>What the documentation of \<^verbatim>\<open>io.ReaderAt\<close> says of a medium with the contents \<open>img\<close>.\<close>

definition reader_of :: "byte list \<Rightarrow> reader" where
  "reader_of img n off = (let d = take n (drop (nat off) img) in (d, if length d < n then Some ReaderEOF else None))"

definition block_bytes :: "byte list \<Rightarrow> nat \<Rightarrow> nat \<Rightarrow> byte list" where
  "block_bytes img lba blocks = take (blocks * atapiSectorSize) (drop (lba * atapiSectorSize) img @ replicate (blocks * atapiSectorSize) 0)"

lemma readBlocks_data:
  assumes "lba < 2 ^ 32" "0 < blocks" "blocks < 2 ^ 32"
  shows "readBlocks (reader_of img) (of_nat lba) (of_nat blocks) c = finishPacket (block_bytes img lba blocks) 0 (clearSense c)"
proof -
  have u: "unat (of_nat lba :: u32) = lba" "unat (of_nat blocks :: u32) = blocks" using assms by (simp_all add: unat_of_nat)
  then have n: "unat (ucast (of_nat blocks :: u32) * 2048 :: u64) = blocks * atapiSectorSize"
    using assms(3) by (simp add: unat_word_ariths unat_up32 atapiSectorSize_def)
  have z: "(of_nat blocks :: u32) \<noteq> 0" using u(2) assms(2) by (metis less_irrefl unat_0)
  let ?d = "take (blocks * atapiSectorSize) (drop (lba * atapiSectorSize) img)"
  have "copy_at (replicate (blocks * atapiSectorSize) 0) 0 ?d = block_bytes img lba blocks"
    by (simp add: copy_at_def block_bytes_def)
  then show ?thesis using z byte_count_fits [of "of_nat blocks"] u(1)
    by (simp add: readBlocks_def Let_def n reader_of_def nat_mult_distrib)
qed

section \<open>Properties\<close>

text \<open>
  C27. A read command transfers the blocks of the medium. Whatever pieces a driver uses to write the packet and to read the
  data port, a READ(10) or READ(12) of a nonempty range leaves the drive with data to offer and its length in the byte count
  registers; the pieces read are the bytes of those blocks, zeros behind the end of the medium, up to the
  transfer limit that the driver had set in the byte count registers; and with the last byte the drive is idle again, without an error.
  What exceeds the limit is not transferred at all.
\<close>

theorem cd_read_transfer:
  assumes "\<not> slaveSelected c" "lba < 2 ^ 32" "0 < blocks"
    "concat ds = read10 lba blocks \<and> blocks < 2 ^ 16 \<or> concat ds = read12 lba blocks \<and> blocks < 2 ^ 32" "[] \<notin> set ds"
    "c1 = write_pieces (reader_of img) ds (cd_Write (reader_of img) ataRegCommand [ataCmdPacket] c)"
    "sum_list ns = min (max_transfer c) (blocks * 2048)" "0 \<notin> set ns"
  shows "cd_status c1 = ataStatusDRDY OR ataStatusDRQ \<and> le_nat [lbaMid c1, lbaHigh c1] = sum_list ns mod 65536 \<and> senseKey c1 = 0 \<and>
    (\<exists>c2. read_pieces ns c1 = (take (sum_list ns) (block_bytes img lba blocks), c2) \<and> cd_status c2 = ataStatusDRDY OR ataStatusDSC)"
proof -
  let ?p = "c\<lparr>awaitingPacket := True, cd_packet := [], errorReg := 0, cd_status := ataStatusDRDY OR ataStatusDRQ, sectorCount := 0x01\<rparr>"
  let ?q = "?p\<lparr>awaitingPacket := False, cd_packet := []\<rparr>" and ?b = "block_bytes img lba blocks"
  have p: "cd_Write (reader_of img) ataRegCommand [ataCmdPacket] c = ?p"
    using assms(1) by (simp add: cd_Write_def ata_ports cd_command_def ata_consts)
  note h = handle_read [OF assms(2), of "concat ds" blocks "reader_of img" ?q]
  have "ds \<noteq> []" using h assms(4) by auto
  then have "c1 = handlePacket (reader_of img) (concat ds) ?q"
    using assms(5,6) p h assms(4) write_pieces [of ?p ds "reader_of img"] by simp
  then have c1: "c1 = finishPacket ?b 0 (clearSense ?q)" using h assms(2-4) readBlocks_data [OF assms(2,3)] by auto
  have len: "length ?b = blocks * 2048" by (simp add: block_bytes_def atapiSectorSize_def)
  have b: "?b \<noteq> []" using len assms(3) by auto
  have m: "max_transfer (clearSense ?q) = max_transfer c" by (simp add: max_transfer_def)
  note parts = finishPacket_parts [OF c1 b, unfolded m]
  have s: "\<not> slaveSelected c1" using parts(5) assms(1) by (simp add: slaveSelected_def)
  have n: "sum_list ns = length (take (max_transfer c) ?b)" using assms(7) len by simp
  moreover have "ns \<noteq> []"
  proof
    assume "ns = []"
    then show False using assms(3,7) max_transfer_pos [of c] by simp
  qed
  ultimately obtain c2 where "read_pieces ns c1 = (take (max_transfer c) ?b, c2)" "cd_status c2 = ataStatusDRDY OR ataStatusDSC"
    using read_pieces [OF s, of ns] assms(8) parts(1,2) by auto
  moreover have "take (max_transfer c) ?b = take (sum_list ns) ?b" using assms(7) len by (simp add: min_def)
  ultimately show ?thesis using parts n by (simp add: max_transfer_def)
qed

theorem cd_read_transfer_witness:
  "\<exists>c2. read_pieces [2048, 2048] (write_pieces (reader_of [7, 8, 9]) [[0x28, 0, 0, 0], [0, 0, 0, 0], [2, 0, 0, 0]]
       (cd_Write (reader_of [7, 8, 9]) ataRegCommand [ataCmdPacket] (NewATAPICDROM 3 True))) =
     (take 4096 (block_bytes [7, 8, 9] 0 2), c2) \<and> cd_status c2 = ataStatusDRDY OR ataStatusDSC"
proof -
  let ?c = "NewATAPICDROM 3 True" and ?ds = "[[0x28, 0, 0, 0], [0, 0, 0, 0], [2, 0, 0, 0]]"
  have c: "\<not> slaveSelected ?c" "max_transfer ?c = 0xeb14"
    by (simp_all add: slaveSelected_def NewATAPICDROM_def cd_reset_def max_transfer_def)
  have "concat ?ds = read10 0 2" by (simp add: read10_def put_be_def put_le_numeral)
  then have ds: "concat ?ds = read10 0 2 \<and> (2 :: nat) < 2 ^ 16 \<or> concat ?ds = read12 0 2 \<and> (2 :: nat) < 2 ^ 32" by simp
  have ns: "sum_list [2048, 2048] = min (max_transfer ?c) (2 * 2048)" "0 \<notin> set [2048, 2048 :: nat]" "sum_list [2048, 2048 :: nat] = 4096"
    using c(2) by simp_all
  show ?thesis using cd_read_transfer [OF c(1) _ _ ds _ refl ns(1,2)] unfolding ns(3) by simp
qed

end
