(* ===== verification/Machine_Exits.thy ===== *)
theory Machine_Exits
  imports Virtio_Blk Pci_Bus Ps2_Controller Cmos Fw_Cfg Uefi_Flash Machine_Irq Serial_Port Atapi_Cdrom
begin

text \<open>
  The machine that puts the devices together, from \<^verbatim>\<open>internal/machine/machine.go\<close> and
  \<^verbatim>\<open>uefi.go\<close>: the table of I/O port handlers, the dispatch of port and memory exits of a vCPU to the devices,
  and the loop that runs a vCPU. Handlers are names of the closures the code installs. The devices on
  the ports are the ones of the other theories; a virtio device is whatever state \<open>'v\<close> the access function
  \<open>dev_mmio\<close> works on, which the block device instantiates. What KVM returns from a run is an argument.
\<close>

section \<open>Devices on ports\<close>

text \<open>
  The two port ranges of a CD-ROM drive, its command block and its control block, belong to one drive: such a device is the number of the drive,
  the base and the size of the range.
\<close>

datatype iodevice = NoopDev Noop | PostDev | DebugDev | AcpiDev | PmDev int | CmosDev CMOS | Ps2Dev PS2Controller | FwDev FWCfg | PowerDev uefiPower
  | CdDev nat nat nat

text \<open>What a device reads of the host, and what it changes outside itself.\<close>

record host_time =
  now_ns :: int
  wall :: clock_time

text \<open>Beside the output it is the CD-ROM drives with their media, and whether waking the vCPU threads fails when the machine is stopped.\<close>

record world =
  printed :: "nat list"
  acpi_log :: "acpi_event list"
  sci_line :: sharedIRQLine
  stopped :: bool
  wake_fails :: bool
  drives :: "(reader \<times> ATAPICDROM) list"

fun IOPort :: "iodevice \<Rightarrow> nat" where
  "IOPort (NoopDev n) = unat (Port n)"
| "IOPort PostDev = 0x80"
| "IOPort DebugDev = 0x402"
| "IOPort AcpiDev = 0x600"
| "IOPort (PmDev start) = 0x608"
| "IOPort (CmosDev c) = 0x70"
| "IOPort (Ps2Dev p) = ps2DataPort"
| "IOPort (FwDev f) = fwCfgSelectorPort"
| "IOPort (PowerDev p) = 0xb000"
| "IOPort (CdDev k base size') = base"

fun dev_Size :: "iodevice \<Rightarrow> nat" where
  "dev_Size (NoopDev n) = unat (Psize n)"
| "dev_Size PostDev = 1"
| "dev_Size DebugDev = 1"
| "dev_Size AcpiDev = 8"
| "dev_Size (PmDev start) = 4"
| "dev_Size (CmosDev c) = 2"
| "dev_Size (Ps2Dev p) = 5"
| "dev_Size (FwDev f) = 2"
| "dev_Size (PowerDev p) = 0x40"
| "dev_Size (CdDev k base size') = size'"

fun dev_Read :: "host_time \<Rightarrow> nat \<Rightarrow> byte list \<Rightarrow> iodevice \<Rightarrow> world \<Rightarrow> (dev_err + byte list) \<times> iodevice \<times> world" where
  "dev_Read t port bs (NoopDev n) w = (noop_Read port bs n, NoopDev n, w)"
| "dev_Read t port bs PostDev w = (post_Read port bs, PostDev, w)"
| "dev_Read t port bs DebugDev w = (debug_Read port bs, DebugDev, w)"
| "dev_Read t port bs AcpiDev w = (acpi_Read port bs, AcpiDev, w)"
| "dev_Read t port bs (PmDev start) w = (pm_Read start (now_ns t) port bs, PmDev start, w)"
| "dev_Read t port bs (CmosDev c) w = (cmos_Read (wall t) port bs c, CmosDev c, w)"
| "dev_Read t port bs (Ps2Dev p) w = (case ps2_Read port bs p of (r, p1) \<Rightarrow> (r, Ps2Dev p1, w))"
| "dev_Read t port bs (FwDev f) w = (case fw_Read port bs f of (r, f1) \<Rightarrow> (r, FwDev f1, w))"
| "dev_Read t port bs (PowerDev p) w = (power_Read (now_ns t) port bs p, PowerDev p, w)"
| "dev_Read t port bs (CdDev k base size') w =
     (case drives w ! k of (medium, c) \<Rightarrow> (case cd_Read port bs c of (b, c1) \<Rightarrow>
        (Inr b, CdDev k base size', w\<lparr>drives := (drives w)[k := (medium, c1)]\<rparr>)))"

text \<open>
  The stop of the machine, which the power device asks for. Only the first one wakes the vCPU threads, and this may fail.
  Errors of the interrupt and of the stop are joined.
\<close>

definition Stop :: "world \<Rightarrow> (dev_err + unit) \<times> world" where
  "Stop w = (if stopped w then (Inr (), w) else (if wake_fails w then Inl WakeError else Inr (), w\<lparr>stopped := True\<rparr>))"

definition Join :: "dev_err + unit \<Rightarrow> dev_err + unit \<Rightarrow> dev_err + unit" where
  "Join r1 r2 = (case (r1, r2) of (Inl e1, Inl e2) \<Rightarrow> Inl (JoinedError e1 e2) | (Inl e1, Inr _) \<Rightarrow> Inl e1 | (Inr _, r) \<Rightarrow> r)"

fun dev_Write :: "nat \<Rightarrow> byte list \<Rightarrow> iodevice \<Rightarrow> world \<Rightarrow> (dev_err + unit) \<times> iodevice \<times> world" where
  "dev_Write port bs (NoopDev n) w = (case noop_Write port bs n of (r, n1) \<Rightarrow> (r, NoopDev n1, w))"
| "dev_Write port bs PostDev w = (case post_Write port bs (printed w) of (r, out) \<Rightarrow> (r, PostDev, w\<lparr>printed := out\<rparr>))"
| "dev_Write port bs DebugDev w = (case debug_Write port bs (printed w) of (r, out) \<Rightarrow> (r, DebugDev, w\<lparr>printed := out\<rparr>))"
| "dev_Write port bs AcpiDev w = (case acpi_Write port bs (acpi_log w) of (r, log) \<Rightarrow> (r, AcpiDev, w\<lparr>acpi_log := log\<rparr>))"
| "dev_Write port bs (PmDev start) w = (Inr (), PmDev start, w)"
| "dev_Write port bs (CmosDev c) w = (case cmos_Write port bs c of (r, c1) \<Rightarrow> (r, CmosDev c1, w))"
| "dev_Write port bs (Ps2Dev p) w = (case ps2_Write port bs p of (r, p1) \<Rightarrow> (r, Ps2Dev p1, w))"
| "dev_Write port bs (FwDev f) w = (case fw_Write port bs f of (r, f1) \<Rightarrow> (r, FwDev f1, w))"
| "dev_Write port bs (PowerDev p) w =
     (case power_Write port bs (p, sci_line w) of ((ok, shutdown), p1, line) \<Rightarrow>
        let irq = (if ok then Inr () else Inl InjectError); w1 = w\<lparr>sci_line := line\<rparr>
        in if shutdown then (case Stop w1 of (r, w2) \<Rightarrow> (Join irq r, PowerDev p1, w2)) else (irq, PowerDev p1, w1))"
| "dev_Write port bs (CdDev k base size') w =
     (case drives w ! k of (medium, c) \<Rightarrow> (Inr (), CdDev k base size', w\<lparr>drives := (drives w)[k := (medium, cd_Write medium port bs c)]\<rparr>))"

section \<open>The machine\<close>

datatype handler = funcNone | funcInAbsent | funcError | funcOutbCF9 | funcInbPS2 | serialIn | serialOut | pciAddrIn | pciAddrOut
  | pciDataIn | pciDataOut | devRead nat | devWrite nat | pciPort bool | powerSmi nat | uefiReset

datatype mach_err = UnexpectedPort nat | WriteToCF9 | ErrUEFIReset | DevErr dev_err | IONotPermit | FlashErr flash_err | DevicePanic
  | ErrMachineStopped | ErrRun | ErrDebug | UnexpectedExit

record 'v Machine =
  ioportHandlers :: "nat \<Rightarrow> handler \<times> handler"
  m_pci :: "nat PCI"
  virtio :: "'v list"
  m_devices :: "iodevice list"
  m_serial :: "Serial option"
  uefiVars :: "uefiFlash option"
  uefiCode :: "nat \<times> nat"
  m_world :: world

definition AddDevice :: "iodevice \<Rightarrow> 'v Machine \<Rightarrow> 'v Machine" where
  "AddDevice d m = m\<lparr>m_devices := m_devices m @ [d]\<rparr>"

text \<open>A CD-ROM: the IDE controller on the bus, which has no memory, and the two port ranges of a new drive.\<close>

definition AddReadOnlyCDROM :: "reader \<Rightarrow> int \<Rightarrow> 'v Machine \<Rightarrow> 'v Machine" where
  "AddReadOnlyCDROM medium size' m =
     (let w = m_world m; k = length (drives w);
          m1 = m\<lparr>m_pci := AddDevices [plain_device 0 ide_header] (m_pci m), m_world := w\<lparr>drives := drives w @ [(medium, NewATAPICDROM size' True)]\<rparr>\<rparr>
      in AddDevice (CdDev k ataPrimaryControl 1) (AddDevice (CdDev k ataPrimaryBase 8) m1))"

text \<open>Registration of a range; a range past the end of the table panics.\<close>

definition registerIOPortHandler :: "nat \<Rightarrow> nat \<Rightarrow> handler \<Rightarrow> handler \<Rightarrow> 'v Machine \<Rightarrow> 'v Machine option" where
  "registerIOPortHandler start end' inHandler outHandler m =
     (if start < end' \<and> end' > 0x10000 then None
      else Some (m\<lparr>ioportHandlers := (\<lambda>p. if start \<le> p \<and> p < end' then (inHandler, outHandler) else ioportHandlers m p)\<rparr>))"

fun register_all :: "(nat \<times> nat \<times> handler \<times> handler) list \<Rightarrow> 'v Machine \<Rightarrow> 'v Machine option" where
  "register_all [] m = Some m"
| "register_all ((s, e, i, o') # rs) m = (case registerIOPortHandler s e i o' m of None \<Rightarrow> None | Some m1 \<Rightarrow> register_all rs m1)"

text \<open>The fixed registrations in the order of the code, then the serial port, PCI configuration and the devices.\<close>

definition fixed_ports :: "(nat \<times> nat \<times> handler \<times> handler) list" where
  "fixed_ports =
     [(0, 0x10000, funcError, funcError), (0x00, 0x10, funcNone, funcNone), (0xc0, 0xe0, funcNone, funcNone), (0xcf9, 0xcfa, funcNone, funcOutbCF9),
      (0x120, 0x3f8, funcInAbsent, funcNone), (0x3c0, 0x3db, funcNone, funcNone), (0x3b4, 0x3b6, funcNone, funcNone), (0xcfe, 0xcff, funcNone, funcNone),
      (0xcfa, 0xcfc, funcNone, funcNone), (0xc000, 0xd000, funcNone, funcNone), (0x279, 0x27a, funcNone, funcNone), (0xa79, 0xa7a, funcNone, funcNone),
      (0x60, 0x70, funcInbPS2, funcNone), (0xed, 0xee, funcNone, funcNone)]"

definition serial_ports :: "Serial option \<Rightarrow> (nat \<times> nat \<times> handler \<times> handler) list" where
  "serial_ports s = [(COM1Addr, COM1Addr + 8, if s = None then funcInAbsent else serialIn, if s = None then funcNone else serialOut)]"

definition pci_ports :: "(nat \<times> nat \<times> handler \<times> handler) list" where
  "pci_ports = [(0xcf8, 0xcf9, pciAddrIn, pciAddrOut), (0xcfc, 0xd00, pciDataIn, pciDataOut)]"

definition device_ports :: "iodevice list \<Rightarrow> (nat \<times> nat \<times> handler \<times> handler) list" where
  "device_ports ds = map (\<lambda>i. (IOPort (ds ! i), IOPort (ds ! i) + dev_Size (ds ! i), devRead i, devWrite i)) [0..<length ds]"

definition pci_device_ports :: "nat PCI \<Rightarrow> (nat \<times> nat \<times> handler \<times> handler) list" where
  "pci_device_ports p = map (\<lambda>d. (0, unat (io_Size d), pciPort (modern d = None), pciPort (modern d = None))) (Devices p)"

definition initIOPortHandlers :: "'v Machine \<Rightarrow> 'v Machine option" where
  "initIOPortHandlers m =
     register_all (fixed_ports @ serial_ports (m_serial m) @ pci_ports @ device_ports (m_devices m) @ pci_device_ports (m_pci m)) m"

text \<open>What the firmware boot mode registers on top; \<open>i\<close> is the position of the power device.\<close>

definition uefi_ports :: "nat \<Rightarrow> (nat \<times> nat \<times> handler \<times> handler) list" where
  "uefi_ports i =
     [(0x80, 0xa0, funcInAbsent, funcNone), (0xb2, 0xb4, funcInAbsent, funcNone), (0x600, 0x608, funcInAbsent, funcNone),
      (0xaf00, 0xaf20, funcInAbsent, funcNone), (0x5658, 0x565a, funcInAbsent, funcNone), (0xb2, 0xb3, funcInAbsent, powerSmi i),
      (0xcf9, 0xcfa, funcInAbsent, uefiReset)]"

definition uefiPortHandlers :: "nat \<Rightarrow> 'v Machine \<Rightarrow> 'v Machine option" where
  "uefiPortHandlers i m = (case initIOPortHandlers m of None \<Rightarrow> None | Some m1 \<Rightarrow> register_all (uefi_ports i) m1)"

subsection \<open>Exits\<close>

text \<open>A call of a handler with the bytes of one access.\<close>

fun call_handler :: "handler \<Rightarrow> host_time \<Rightarrow> nat \<Rightarrow> byte list \<Rightarrow> 'v Machine \<Rightarrow> (mach_err + byte list) \<times> 'v Machine" where
  "call_handler funcNone t port bs m = (Inr bs, m)"
| "call_handler funcInAbsent t port bs m = (Inr (replicate (length bs) 0xff), m)"
| "call_handler funcError t port bs m = (Inl (UnexpectedPort port), m)"
| "call_handler funcOutbCF9 t port bs m = (Inl WriteToCF9, m)"
| "call_handler funcInbPS2 t port bs m = (if bs = [] then Inl DevicePanic else Inr (bs[0 := 0x20]), m)"
| "call_handler serialIn t port bs m =
     (case m_serial m of None \<Rightarrow> (Inl DevicePanic, m) | Some s \<Rightarrow>
        (case serial_In port bs s of (Inl e, s1) \<Rightarrow> (Inl (DevErr e), m\<lparr>m_serial := Some s1\<rparr>) | (Inr b, s1) \<Rightarrow> (Inr b, m\<lparr>m_serial := Some s1\<rparr>)))"
| "call_handler serialOut t port bs m =
     (case m_serial m of None \<Rightarrow> (Inl DevicePanic, m) | Some s \<Rightarrow>
        (case serial_Out port bs s of (Inl e, s1) \<Rightarrow> (Inl (DevErr e), m\<lparr>m_serial := Some s1\<rparr>) | (Inr _, s1) \<Rightarrow> (Inr bs, m\<lparr>m_serial := Some s1\<rparr>)))"
| "call_handler pciAddrIn t port bs m = (Inr (PciConfAddrIn bs (m_pci m)), m)"
| "call_handler pciAddrOut t port bs m = (Inr bs, m\<lparr>m_pci := PciConfAddrOut bs (m_pci m)\<rparr>)"
| "call_handler pciDataIn t port bs m = (case PciConfDataIn (of_nat port) bs (m_pci m) of (b, p1) \<Rightarrow> (Inr b, m\<lparr>m_pci := p1\<rparr>))"
| "call_handler pciDataOut t port bs m = (Inr bs, m\<lparr>m_pci := PciConfDataOut (of_nat port) bs (m_pci m)\<rparr>)"
| "call_handler (devRead i) t port bs m =
     (case dev_Read t port bs (m_devices m ! i) (m_world m) of (r, d1, w1) \<Rightarrow>
        (case r of Inl e \<Rightarrow> Inl (DevErr e) | Inr b \<Rightarrow> Inr b, m\<lparr>m_devices := (m_devices m)[i := d1], m_world := w1\<rparr>))"
| "call_handler (devWrite i) t port bs m =
     (case dev_Write port bs (m_devices m ! i) (m_world m) of (r, d1, w1) \<Rightarrow>
        (case r of Inl e \<Rightarrow> Inl (DevErr e) | Inr _ \<Rightarrow> Inr bs, m\<lparr>m_devices := (m_devices m)[i := d1], m_world := w1\<rparr>))"
| "call_handler (pciPort refuse) t port bs m = (if refuse then Inl IONotPermit else Inr bs, m)"
| "call_handler (powerSmi i) t port bs m =
     (case m_devices m ! i of
        PowerDev p \<Rightarrow> (case smi bs (p, sci_line (m_world m)) of (ok, p1, line) \<Rightarrow>
          (if ok then Inr bs else Inl (DevErr InjectError),
           m\<lparr>m_devices := (m_devices m)[i := PowerDev p1], m_world := (m_world m)\<lparr>sci_line := line\<rparr>\<rparr>))
      | _ \<Rightarrow> (Inl DevicePanic, m))"
| "call_handler uefiReset t port bs m = (case bs of [] \<Rightarrow> Inr bs | b # _ \<Rightarrow> if b AND 4 \<noteq> 0 then Inl ErrUEFIReset else Inr bs, m)"

text \<open>A port exit: one call for each element of a string access, up to the first error.\<close>

fun io_calls :: "handler \<Rightarrow> host_time \<Rightarrow> nat \<Rightarrow> nat \<Rightarrow> nat \<Rightarrow> byte list \<Rightarrow> 'v Machine \<Rightarrow> (mach_err + byte list) \<times> 'v Machine" where
  "io_calls h t port size' 0 bs m = (Inr [], m)"
| "io_calls h t port size' (Suc n) bs m =
     (case call_handler h t port (take size' bs) m of (Inl e, m1) \<Rightarrow> (Inl e, m1)
      | (Inr b, m1) \<Rightarrow>
          (case io_calls h t port size' n (drop size' bs) m1 of (Inl e, m2) \<Rightarrow> (Inl e, m2) | (Inr cs, m2) \<Rightarrow> (Inr (b @ cs), m2)))"

definition exit_io :: "host_time \<Rightarrow> bool \<Rightarrow> nat \<Rightarrow> nat \<Rightarrow> nat \<Rightarrow> byte list \<Rightarrow> 'v Machine \<Rightarrow> (mach_err + byte list) \<times> 'v Machine" where
  "exit_io t out size' port count bs m =
     (let f = (if out then snd else fst) (ioportHandlers m port) in io_calls f t port size' count bs m)"

definition uefiMMIO :: "nat \<Rightarrow> byte list \<Rightarrow> bool \<Rightarrow> 'v Machine \<Rightarrow> (mach_err + byte list) option \<times> 'v Machine" where
  "uefiMMIO a bs isWrite m =
     (case uefiVars m of None \<Rightarrow> (None, m)
      | Some f \<Rightarrow>
          (case flash_access a bs isWrite f of
             ((True, r), f1) \<Rightarrow> (Some (case r of Inl e \<Rightarrow> Inl (FlashErr e) | Inr b \<Rightarrow> Inr b), m\<lparr>uefiVars := Some f1\<rparr>)
           | ((False, r), f1) \<Rightarrow> if fst (uefiCode m) \<le> a \<and> a - fst (uefiCode m) < snd (uefiCode m) then (Some (Inr bs), m) else (None, m)))"

definition exit_mmio ::
  "('v \<Rightarrow> nat \<Rightarrow> byte list \<Rightarrow> bool \<Rightarrow> (verr + byte list) \<times> 'v) \<Rightarrow> u64 \<Rightarrow> byte list \<Rightarrow> bool \<Rightarrow> 'v Machine \<Rightarrow> (mach_err + byte list) \<times> 'v Machine" where
  "exit_mmio dev_mmio a bs isWrite m =
     (case uefiMMIO (unat a) bs isWrite m of (Some r, m1) \<Rightarrow> (r, m1)
      | (None, m1) \<Rightarrow>
          (case LookupMMIO a (m_pci m1) of None \<Rightarrow> (Inr bs, m1)
           | Some (d, off) \<Rightarrow>
               (case dev_mmio (virtio m1 ! handle d) (unat off) bs isWrite of
                  (Inl e, v) \<Rightarrow> (Inl DevicePanic, m1\<lparr>virtio := (virtio m1)[handle d := v]\<rparr>)
                | (Inr b, v) \<Rightarrow> (Inr b, m1\<lparr>virtio := (virtio m1)[handle d := v]\<rparr>))))"

subsection \<open>Running\<close>

datatype kvm_exit = EXITHLT | EXITIO bool nat nat nat "byte list" | EXITMMIO u64 "byte list" bool | EXITINTR | EXITDEBUG | EXITOTHER

text \<open>What a run of the vCPU gave, and whether another thread had stopped the machine by then.\<close>

datatype kvm_run = RunInterrupted | RunFailed | RunExit kvm_exit

definition runOnce ::
  "('v \<Rightarrow> nat \<Rightarrow> byte list \<Rightarrow> bool \<Rightarrow> (verr + byte list) \<times> 'v) \<Rightarrow> host_time \<Rightarrow> bool \<Rightarrow> kvm_run \<Rightarrow> 'v Machine \<Rightarrow> (bool \<times> mach_err option) \<times> 'v Machine" where
  "runOnce dev_mmio t stop run m =
     (if stopped (m_world m) then ((False, Some ErrMachineStopped), m)
      else let m1 = m\<lparr>m_world := (m_world m)\<lparr>stopped := stop\<rparr>\<rparr>
      in if stop then ((False, Some ErrMachineStopped), m1)
      else case run of
        RunInterrupted \<Rightarrow> ((True, None), m1)
      | RunFailed \<Rightarrow> ((False, Some ErrRun), m1)
      | RunExit EXITHLT \<Rightarrow> ((False, None), m1)
      | RunExit (EXITIO out size' port count bs) \<Rightarrow>
          (case exit_io t out size' port count bs m1 of (Inl e, m2) \<Rightarrow> ((False, Some e), m2) | (Inr _, m2) \<Rightarrow> ((True, None), m2))
      | RunExit (EXITMMIO a bs isWrite) \<Rightarrow>
          (case exit_mmio dev_mmio a bs isWrite m1 of (Inl e, m2) \<Rightarrow> ((False, Some e), m2) | (Inr _, m2) \<Rightarrow> ((True, None), m2))
      | RunExit EXITINTR \<Rightarrow> ((True, None), m1)
      | RunExit EXITDEBUG \<Rightarrow> ((False, Some ErrDebug), m1)
      | RunExit EXITOTHER \<Rightarrow> ((False, Some UnexpectedExit), m1))"

text \<open>The loop, on an endless supply of what the host does; \<open>None\<close> when the rounds given run out.\<close>

fun runInfiniteLoop ::
  "('v \<Rightarrow> nat \<Rightarrow> byte list \<Rightarrow> bool \<Rightarrow> (verr + byte list) \<times> 'v) \<Rightarrow> (nat \<Rightarrow> host_time \<times> bool \<times> kvm_run) \<Rightarrow> nat \<Rightarrow> nat \<Rightarrow> 'v Machine \<Rightarrow>
   (mach_err option \<times> 'v Machine) option" where
  "runInfiniteLoop dev_mmio host 0 k m = None"
| "runInfiniteLoop dev_mmio host (Suc n) k m =
     (case host k of (t, stop, run) \<Rightarrow>
      (case runOnce dev_mmio t stop run m of ((again, err), m1) \<Rightarrow>
         if err \<noteq> None \<or> \<not> again then Some (err, m1) else runInfiniteLoop dev_mmio host n (Suc k) m1))"

section \<open>Lemmas\<close>

subsection \<open>The table of handlers\<close>

text \<open>The handlers a port ends up with: those of the last range that has it.\<close>

fun last_range :: "nat \<Rightarrow> (nat \<times> nat \<times> handler \<times> handler) list \<Rightarrow> handler \<times> handler \<Rightarrow> handler \<times> handler" where
  "last_range p [] d = d"
| "last_range p ((s, e, i, o') # rs) d = last_range p rs (if s \<le> p \<and> p < e then (i, o') else d)"

lemma last_range_append: "last_range p (xs @ ys) d = last_range p ys (last_range p xs d)"
  by (induction xs arbitrary: d) auto

lemma register_all:
  assumes "register_all rs m = Some m'"
  shows "ioportHandlers m' p = last_range p rs (ioportHandlers m p)" "\<exists>h. m' = m\<lparr>ioportHandlers := h\<rparr>"
  using assms
proof (induction rs arbitrary: m)
  case (Cons r rs)
  obtain s e i o' where r: "r = (s, e, i, o')" by (cases r)
  { case 1
    then show ?case using Cons.IH(1) by (auto simp: r registerIOPortHandler_def split: if_splits)
  next
    case 2
    then show ?case using Cons.IH(2) by (fastforce simp: r registerIOPortHandler_def split: if_splits)
  }
next
  case Nil
  { case 1
    then show ?case by simp
  next
    case 2
    then show ?case by (intro exI [of _ "ioportHandlers m"]) simp
  }
qed

lemma register_all_fits: "(\<forall>(s, e, i, o')\<in>set rs. e \<le> 0x10000) \<Longrightarrow> \<exists>m'. register_all rs m = Some m'"
  by (induction rs arbitrary: m) (auto simp: registerIOPortHandler_def)

definition claims :: "iodevice \<Rightarrow> nat \<Rightarrow> bool" where
  "claims d p \<longleftrightarrow> IOPort d \<le> p \<and> p < IOPort d + dev_Size d"

text \<open>The device a port belongs to: the last one that claims it.\<close>

fun port_owner :: "nat \<Rightarrow> iodevice list \<Rightarrow> nat \<Rightarrow> nat option" where
  "port_owner i [] p = None"
| "port_owner i (d # ds) p = (case port_owner (Suc i) ds p of Some j \<Rightarrow> Some j | None \<Rightarrow> if claims d p then Some i else None)"

lemma port_owner_None: "port_owner i ds p = None \<longleftrightarrow> (\<forall>d\<in>set ds. \<not> claims d p)"
proof (induction ds arbitrary: i)
  case (Cons d ds)
  show ?case using Cons [of "Suc i"] by (cases "port_owner (Suc i) ds p") auto
qed simp

definition device_range :: "nat \<Rightarrow> iodevice \<Rightarrow> nat \<times> nat \<times> handler \<times> handler" where
  "device_range i d = (IOPort d, IOPort d + dev_Size d, devRead i, devWrite i)"

fun device_ranges :: "nat \<Rightarrow> iodevice list \<Rightarrow> (nat \<times> nat \<times> handler \<times> handler) list" where
  "device_ranges i [] = []"
| "device_ranges i (d # ds) = device_range i d # device_ranges (Suc i) ds"

lemma device_ranges: "map (\<lambda>j. device_range (i + j) (ds ! j)) [0..<length ds] = device_ranges i ds"
proof (induction ds arbitrary: i)
  case (Cons d ds)
  have "map (\<lambda>j. device_range (i + j) ((d # ds) ! j)) [0..<length (d # ds)] = device_range i d # map (\<lambda>j. device_range (Suc i + j) (ds ! j)) [0..<length ds]"
    by (subst upt_conv_Cons) (simp_all only: length_Cons zero_less_Suc list.map add_0_right nth_Cons_0 map_Suc_upt [symmetric] map_map,
      simp add: comp_def)
  then show ?case by (simp only: Cons.IH device_ranges.simps)
qed simp

lemma device_ports_ranges: "device_ports ds = device_ranges 0 ds"
  using device_ranges [of 0 ds] by (simp add: device_ports_def device_range_def)

lemma last_range_devices: "last_range p (device_ranges i ds) d = (case port_owner i ds p of None \<Rightarrow> d | Some j \<Rightarrow> (devRead j, devWrite j))"
  by (induction ds arbitrary: i d) (auto simp: device_range_def claims_def split: option.split)

lemma last_range_empty: "(\<forall>(s, e, h)\<in>set rs. e \<le> s) \<Longrightarrow> last_range p rs d = d"
  by (induction rs) auto

text \<open>The ports of the board itself.\<close>

definition board_port :: "bool \<Rightarrow> nat \<Rightarrow> handler \<times> handler" where
  "board_port uart p =
     (if 0xcfc \<le> p \<and> p < 0xd00 then (pciDataIn, pciDataOut)
      else if p = 0xcf8 then (pciAddrIn, pciAddrOut)
      else if 0x3f8 \<le> p \<and> p < 0x400 then (if uart then (serialIn, serialOut) else (funcInAbsent, funcNone))
      else if 0x60 \<le> p \<and> p < 0x70 then (funcInbPS2, funcNone)
      else if p = 0xcf9 then (funcNone, funcOutbCF9)
      else if p < 0x10 \<or> 0xc0 \<le> p \<and> p < 0xe0 \<or> p = 0xed \<or> p = 0x279 \<or> 0x3b4 \<le> p \<and> p < 0x3b6 \<or> 0x3c0 \<le> p \<and> p < 0x3db \<or>
        0xcfa \<le> p \<and> p < 0xcfc \<or> p = 0xa79 \<or> 0xc000 \<le> p \<and> p < 0xd000 then (funcNone, funcNone)
      else if 0x120 \<le> p \<and> p < 0x3f8 then (funcInAbsent, funcNone)
      else (funcError, funcError))"

lemma last_range_board:
  assumes "p < 0x10000" shows "last_range p (fixed_ports @ serial_ports s @ pci_ports) d = board_port (s \<noteq> None) p"
  using assms unfolding last_range_append
  by (simp add: fixed_ports_def serial_ports_def pci_ports_def COM1Addr_def board_port_def)

lemma init_handlers:
  assumes "initIOPortHandlers m = Some m'" "\<forall>d\<in>set (Devices (m_pci m)). io_Size d = 0" "p < 0x10000"
  shows "ioportHandlers m' p = (case port_owner 0 (m_devices m) p of Some i \<Rightarrow> (devRead i, devWrite i) | None \<Rightarrow> board_port (m_serial m \<noteq> None) p)"
proof -
  have "last_range p (pci_device_ports (m_pci m)) d = d" for d using assms(2) by (intro last_range_empty) (auto simp: pci_device_ports_def)
  then show ?thesis using register_all(1) [OF assms(1) [unfolded initIOPortHandlers_def], of p] last_range_board [OF assms(3), of "m_serial m" "ioportHandlers m p"]
    by (simp add: last_range_append device_ports_ranges last_range_devices split: option.split)
qed

subsection \<open>What an exit keeps\<close>

text \<open>The keyboard controller satisfies its invariant, and a port range of a CD-ROM belongs to one of the \<open>n\<close> drives.\<close>

fun dev_ok :: "nat \<Rightarrow> iodevice \<Rightarrow> bool" where
  "dev_ok n (Ps2Dev p) = ps2_ok p"
| "dev_ok n (CdDev k base size') = (k < n)"
| "dev_ok n d = True"

definition mach_ok :: "('v \<Rightarrow> bool) \<Rightarrow> 'v Machine \<Rightarrow> bool" where
  "mach_ok ok m \<longleftrightarrow> pci_ok (m_pci m) \<and> (\<forall>d\<in>set (devices (m_pci m)). mmio d \<longrightarrow> handle (dev d) < length (virtio m)) \<and>
     list_all ok (virtio m) \<and> list_all (dev_ok (length (drives (m_world m)))) (m_devices m)"

lemma config_devices [simp]:
  "devices (snd (PciConfDataIn port bs p)) = devices p" "devices (PciConfDataOut port bs p) = devices p" "devices (PciConfAddrOut bs p) = devices p"
  by (simp_all add: PciConfDataIn_def PciConfDataOut_def PciConfAddrOut_def put_config_def put_bar_def Let_def split: option.split)

lemma config_ok:
  assumes "pci_ok p" shows "pci_ok (snd (PciConfDataIn port bs p))" "pci_ok (PciConfDataOut port bs p)" "pci_ok (PciConfAddrOut bs p)"
  by (auto intro: pci_step_ok [OF _ assms] pci_step.intros)

lemma dev_Read_ok:
  assumes "dev_Read t port bs d w = (r, d', w')" shows "dev_ok n d \<Longrightarrow> dev_ok n d'" "length (drives w') = length (drives w)"
  using assms by (cases d; auto split: prod.splits intro: ps2_ok_step ps2_step.intros)+

lemma dev_Write_ok:
  assumes "dev_Write port bs d w = (r, d', w')" shows "dev_ok n d \<Longrightarrow> dev_ok n d'" "length (drives w') = length (drives w)"
  using assms by (cases d; auto simp: Stop_def Let_def split: prod.splits if_splits intro: ps2_ok_step ps2_step.intros)+

lemma replaced_devices_ok:
  assumes "list_all P ds" "P (ds ! i) \<Longrightarrow> P d'" shows "list_all P (ds[i := d'])"
  using assms by (cases "i < length ds") (auto simp: list_all_length nth_list_update)

lemma call_handler_ok:
  assumes "call_handler h t port bs m = (r, m')" "mach_ok ok m"
  shows "mach_ok ok m' \<and> ioportHandlers m' = ioportHandlers m"
proof (cases h)
  case (devRead i)
  obtain b d' w' where d: "dev_Read t port bs (m_devices m ! i) (m_world m) = (b, d', w')" by (metis prod_cases3)
  then have "m' = m\<lparr>m_devices := (m_devices m)[i := d'], m_world := w'\<rparr>" using assms(1) devRead by auto
  then show ?thesis using assms(2) dev_Read_ok [OF d] by (simp add: mach_ok_def replaced_devices_ok)
next
  case (devWrite i)
  obtain b d' w' where d: "dev_Write port bs (m_devices m ! i) (m_world m) = (b, d', w')" by (metis prod_cases3)
  then have "m' = m\<lparr>m_devices := (m_devices m)[i := d'], m_world := w'\<rparr>" using assms(1) devWrite by auto
  then show ?thesis using assms(2) dev_Write_ok [OF d] by (simp add: mach_ok_def replaced_devices_ok)
next
  case (powerSmi i)
  then have "m' = m \<or> (\<exists>q line. m' = m\<lparr>m_devices := (m_devices m)[i := PowerDev q], m_world := (m_world m)\<lparr>sci_line := line\<rparr>\<rparr>)"
    using assms(1) by (auto split: iodevice.splits prod.splits)
  then show ?thesis using assms(2) by (auto simp: mach_ok_def replaced_devices_ok)
next
  case pciDataIn
  then have "m' = m\<lparr>m_pci := snd (PciConfDataIn (of_nat port) bs (m_pci m))\<rparr>" using assms(1) by (auto split: prod.splits)
  then show ?thesis using assms(2) by (simp add: mach_ok_def config_ok(1))
qed (use assms config_ok in \<open>auto simp: mach_ok_def split: option.splits prod.splits sum.splits list.splits\<close>)

lemma io_calls_ok:
  "io_calls h t port size' n bs m = (r, m') \<Longrightarrow> mach_ok ok m \<Longrightarrow> mach_ok ok m' \<and> ioportHandlers m' = ioportHandlers m"
proof (induction n arbitrary: bs m r m')
  case (Suc n)
  obtain x m1 where c: "call_handler h t port (take size' bs) m = (x, m1)" by fastforce
  note ok = call_handler_ok [OF c Suc.prems(2)]
  show ?case
  proof (cases x)
    case (Inl e)
    then show ?thesis using Suc.prems(1) c ok by simp
  next
    case (Inr b)
    obtain y m2 where n: "io_calls h t port size' n (drop size' bs) m1 = (y, m2)" by fastforce
    then have "m' = m2" using Suc.prems(1) c Inr by (auto split: sum.splits)
    then show ?thesis using Suc.IH [OF n] ok by simp
  qed
qed simp

lemma uefiMMIO_ok: "uefiMMIO a bs isWrite m = (r, m') \<Longrightarrow> mach_ok ok m \<Longrightarrow> mach_ok ok m' \<and> ioportHandlers m' = ioportHandlers m"
  by (auto simp: uefiMMIO_def mach_ok_def split: option.splits prod.splits bool.splits if_splits)

lemma LookupMMIO_device:
  assumes "LookupMMIO a p = Some (d, off)" shows "\<exists>x\<in>set (devices p). mmio x \<and> d = dev x"
proof -
  have "lookup_from a p k xs = Some (d, off) \<Longrightarrow> \<exists>x\<in>set xs. mmio x \<and> d = dev x" for k xs
    by (induction a p k xs rule: lookup_from.induct) (auto simp: Let_def split: if_splits)
  then show ?thesis using assms by (simp add: LookupMMIO_def)
qed

text \<open>What the machine relies on of a device behind PCI memory: an access keeps its invariant.\<close>

locale mmio_device =
  fixes dev_mmio :: "'v \<Rightarrow> nat \<Rightarrow> byte list \<Rightarrow> bool \<Rightarrow> (verr + byte list) \<times> 'v" and ok :: "'v \<Rightarrow> bool"
  assumes mmio_ok: "ok v \<Longrightarrow> dev_mmio v off bs isWrite = (r, v') \<Longrightarrow> ok v'"
begin

lemma exit_mmio_ok:
  assumes "exit_mmio dev_mmio a bs isWrite m = (r, m')" "mach_ok ok m"
  shows "mach_ok ok m' \<and> ioportHandlers m' = ioportHandlers m"
proof -
  obtain u m1 where u: "uefiMMIO (unat a) bs isWrite m = (u, m1)" by fastforce
  note ok1 = uefiMMIO_ok [OF u assms(2)]
  show ?thesis
  proof (cases "u = None \<and> LookupMMIO a (m_pci m1) \<noteq> None")
    case True
    then obtain d off where l: "LookupMMIO a (m_pci m1) = Some (d, off)" by auto
    obtain x v where v: "dev_mmio (virtio m1 ! handle d) (unat off) bs isWrite = (x, v)" by fastforce
    have m': "m' = m1\<lparr>virtio := (virtio m1)[handle d := v]\<rparr>" using assms(1) u True l v by (auto simp: exit_mmio_def split: sum.splits)
    have "handle d < length (virtio m1)" using LookupMMIO_device [OF l] ok1 by (auto simp: mach_ok_def)
    then have "ok (virtio m1 ! handle d)" using ok1 by (simp add: mach_ok_def list_all_length)
    then have "ok v" using mmio_ok v by blast
    then have "list_all ok ((virtio m1)[handle d := v])"
      using ok1 set_update_subset_insert [of "virtio m1" "handle d" v] by (auto simp: mach_ok_def list_all_iff)
    then show ?thesis using ok1 m' by (simp add: mach_ok_def)
  next
    case False
    then have "m' = m1" using assms(1) u by (auto simp: exit_mmio_def split: option.splits)
    then show ?thesis using ok1 by simp
  qed
qed

lemma runOnce_ok:
  assumes "runOnce dev_mmio t stop run m = (r, m')" "mach_ok ok m"
  shows "mach_ok ok m' \<and> ioportHandlers m' = ioportHandlers m"
proof -
  let ?m1 = "m\<lparr>m_world := (m_world m)\<lparr>stopped := stop\<rparr>\<rparr>"
  have ok1: "mach_ok ok ?m1" using assms(2) by (simp add: mach_ok_def)
  have "m' = m \<or> m' = ?m1 \<or> (\<exists>out size' port count bs x. exit_io t out size' port count bs ?m1 = (x, m')) \<or>
      (\<exists>a bs w x. exit_mmio dev_mmio a bs w ?m1 = (x, m'))"
    using assms(1) by (auto simp: runOnce_def Let_def split: if_splits kvm_run.splits kvm_exit.splits prod.splits sum.splits)
  then show ?thesis using assms(2) ok1 io_calls_ok [OF _ ok1] exit_mmio_ok [OF _ ok1] by (auto simp: exit_io_def Let_def)
qed

lemma loop_ok: "runInfiniteLoop dev_mmio host n k m = Some (e, m') \<Longrightarrow> mach_ok ok m \<Longrightarrow> mach_ok ok m' \<and> ioportHandlers m' = ioportHandlers m"
proof (induction n arbitrary: k m)
  case (Suc n)
  obtain t stop run where h: "host k = (t, stop, run)" by (metis prod_cases3)
  obtain again err m1 where o: "runOnce dev_mmio t stop run m = ((again, err), m1)" by (metis prod_cases3 prod.exhaust)
  note ok = runOnce_ok [OF o Suc.prems(2)]
  show ?case
  proof (cases "err \<noteq> None \<or> \<not> again")
    case True
    then have "m' = m1" using Suc.prems(1) h o by auto
    then show ?thesis using ok by simp
  next
    case False
    then show ?thesis using Suc.prems(1) Suc.IH [of "Suc k" m1] h o ok by simp
  qed
qed simp

end

definition blk_mmio :: "blk \<Rightarrow> nat \<Rightarrow> byte list \<Rightarrow> bool \<Rightarrow> (verr + byte list) \<times> blk" where
  "blk_mmio v offset bs isWrite = MMIO blk_device offset bs isWrite v"

interpretation blk_machine: mmio_device blk_mmio blk_ok
  by unfold_locales (auto simp: blk_mmio_def intro: blk_step_ok blk_step.register)

text \<open>A round after the machine was stopped ends the loop, and more rounds change nothing.\<close>

lemma loop_stops:
  assumes "fst (snd (host (k + j)))"
  shows "\<exists>r. \<forall>n > j. runInfiniteLoop dev_mmio host n k m = Some r"
  using assms
proof (induction j arbitrary: k m)
  case 0
  obtain t run where h: "host k = (t, True, run)" using 0 by (cases "host k") auto
  have "\<exists>m1. runOnce dev_mmio t True run m = ((False, Some ErrMachineStopped), m1)" by (simp add: runOnce_def)
  then obtain m1 where o: "runOnce dev_mmio t True run m = ((False, Some ErrMachineStopped), m1)" ..
  have "runInfiniteLoop dev_mmio host n k m = Some (Some ErrMachineStopped, m1)" if "n > 0" for n
    using that h o by (cases n) auto
  then show ?case by blast
next
  case (Suc j)
  obtain t stop run where h: "host k = (t, stop, run)" by (metis prod_cases3)
  obtain again err m1 where o: "runOnce dev_mmio t stop run m = ((again, err), m1)" by (metis prod_cases3 prod.exhaust)
  obtain r where r: "\<forall>n > j. runInfiniteLoop dev_mmio host n (Suc k) m1 = Some r" using Suc.IH [of "Suc k" m1] Suc.prems by auto
  have "runInfiniteLoop dev_mmio host n k m = (if err \<noteq> None \<or> \<not> again then Some (err, m1) else Some r)" if "n > Suc j" for n
    using that h o r by (cases n) auto
  then show ?case by (cases "err \<noteq> None \<or> \<not> again") auto
qed

lemma AddReadOnlyCDROM_ok:
  assumes "mach_ok ok m" shows "mach_ok ok (AddReadOnlyCDROM medium n m)"
proof -
  let ?p = "AddDevices [plain_device 0 ide_header] (m_pci m)"
  have "\<exists>e. devices ?p = devices (m_pci m) @ [e] \<and> \<not> mmio e"
    by (simp add: AddDevices_def registerAt_def set_multifunction_def registerDevice_def plain_device_def Let_def)
  moreover have "list_all (dev_ok (Suc k)) ds" if "list_all (dev_ok k) ds" for k ds
    using that by (induction ds) (auto elim!: dev_ok.elims)
  ultimately show ?thesis using assms AddDevices_ok [of "m_pci m"] by (auto simp: mach_ok_def AddReadOnlyCDROM_def AddDevice_def Let_def)
qed

lemma device_ranges_fit: "\<forall>d\<in>set ds. IOPort d + dev_Size d \<le> 0x10000 \<Longrightarrow> r \<in> set (device_ranges k ds) \<Longrightarrow> fst (snd r) \<le> 0x10000"
  by (induction ds arbitrary: k) (auto simp: device_range_def)

lemma init_total:
  assumes "\<forall>d\<in>set (m_devices m). IOPort d + dev_Size d \<le> 0x10000" "\<forall>d\<in>set (Devices (m_pci m)). io_Size d = 0"
  shows "\<exists>m1. initIOPortHandlers m = Some m1"
  unfolding initIOPortHandlers_def
proof (rule register_all_fits)
  have "fst (snd r) \<le> 0x10000" if "r \<in> set fixed_ports \<union> set (serial_ports (m_serial m)) \<union> set pci_ports" for r
    using that by (auto simp: fixed_ports_def serial_ports_def pci_ports_def COM1Addr_def)
  moreover have "fst (snd r) \<le> 0x10000" if "r \<in> set (device_ports (m_devices m))" for r
    using device_ranges_fit [OF assms(1)] that by (simp add: device_ports_ranges)
  moreover have "fst (snd r) \<le> 0x10000" if "r \<in> set (pci_device_ports (m_pci m))" for r
    using assms(2) that by (auto simp: pci_device_ports_def)
  ultimately show "\<forall>(s, e, i, o')\<in>set (fixed_ports @ serial_ports (m_serial m) @ pci_ports @ device_ports (m_devices m) @ pci_device_ports (m_pci m)). e \<le> 0x10000"
    by fastforce
qed

text \<open>The ports of the firmware boot mode, and \<open>d\<close> for every other one.\<close>

definition firmware_port :: "nat \<Rightarrow> nat \<Rightarrow> handler \<times> handler \<Rightarrow> handler \<times> handler" where
  "firmware_port i p d =
     (if p = 0xcf9 then (funcInAbsent, uefiReset) else if p = 0xb2 then (funcInAbsent, powerSmi i)
       else if p = 0xb3 \<or> 0x80 \<le> p \<and> p < 0xa0 \<or> 0x600 \<le> p \<and> p < 0x608 \<or> 0xaf00 \<le> p \<and> p < 0xaf20 \<or> 0x5658 \<le> p \<and> p < 0x565a
       then (funcInAbsent, funcNone) else d)"

lemma last_range_firmware: "last_range p (uefi_ports i) d = firmware_port i p d"
proof -
  have one: "s \<le> p \<and> p < Suc s \<longleftrightarrow> p = s" for s by auto
  have "p < 0xb4 \<and> 0xb2 \<le> p \<longleftrightarrow> p = 0xb2 \<or> p = 0xb3" by auto
  then show ?thesis using one [of "0xcf9"] one [of "0xb2"] by (simp add: uefi_ports_def firmware_port_def)
qed

lemma config_ports:
  assumes "initIOPortHandlers m0 = Some mi" "\<forall>d\<in>set (Devices (m_pci m0)). io_Size d = 0"
    "\<forall>d\<in>set (m_devices m0). \<not> claims d 0xcf8 \<and> \<not> claims d 0xcfc"
  shows "ioportHandlers mi 0xcf8 = (pciAddrIn, pciAddrOut)" "ioportHandlers mi 0xcfc = (pciDataIn, pciDataOut)"
proof -
  have "port_owner 0 (m_devices m0) 0xcf8 = None" "port_owner 0 (m_devices m0) 0xcfc = None" using assms(3) by (simp_all add: port_owner_None)
  then show "ioportHandlers mi 0xcf8 = (pciAddrIn, pciAddrOut)" "ioportHandlers mi 0xcfc = (pciDataIn, pciDataOut)"
    using init_handlers [OF assms(1,2)] by (simp_all add: board_port_def)
qed

lemma out_once: "length bs = n \<Longrightarrow> call_handler (snd (ioportHandlers m port)) t port bs m = (Inr b, m') \<Longrightarrow> exit_io t True n port 1 bs m = (Inr b, m')"
  by (simp add: exit_io_def)

section \<open>Properties\<close>

text \<open>
  C28. From the configuration ports to the registers of a device. A guest that selects the memory
  BAR of a device through port 0xcf8 and writes a base address to port 0xcfc reaches
  that device and no other with a memory access in the window at the new base: the exit is
  the device's own access at the offset from the base, and changes nothing but the device.
\<close>

theorem guest_reaches_device:
  fixes base :: u32
  assumes "initIOPortHandlers m0 = Some mi" "\<forall>d\<in>set (Devices (m_pci m0)). io_Size d = 0"
    "\<forall>d\<in>set (m_devices m0). \<not> claims d 0xcf8 \<and> \<not> claims d 0xcfc" "ioportHandlers m = ioportHandlers mi"
    "pci_ok (m_pci m)" "i < length (devices (m_pci m))" "rd = devices (m_pci m) ! i" "slot rd < 32" "mmio rd"
    "base AND 0xf = 0" "n < barSizes rd ! mmioBAR rd" "ucast base \<le> (ucast base + n :: u64)"
    "\<forall>j < i. \<not> decodes (m_pci m) j (ucast base + n)" "fst (uefiMMIO (unat (ucast base + n :: u64)) bs isWrite m) = None"
    "dev_mmio (virtio m ! handle (dev rd)) (unat n) bs isWrite = (Inr b, v)"
  shows "\<exists>m1 m2. exit_io t True 4 0xcf8 1 (NumToBytes 4 (ucast (config_address (slot rd) (func_no rd) (16 + mmioBAR rd * 4)))) m =
      (Inr (NumToBytes 4 (ucast (config_address (slot rd) (func_no rd) (16 + mmioBAR rd * 4)))), m1) \<and>
    exit_io t' True 4 0xcfc 1 (NumToBytes 4 (ucast base)) m1 = (Inr (NumToBytes 4 (ucast base)), m2) \<and>
    exit_mmio dev_mmio (ucast base + n) bs isWrite m2 = (Inr b, m2\<lparr>virtio := (virtio m)[handle (dev rd) := v]\<rparr>)"
proof -
  let ?off = "16 + mmioBAR rd * 4" and ?p = "m_pci m"
  let ?sel = "NumToBytes 4 (ucast (config_address (slot rd) (func_no rd) ?off))"
  let ?p1 = "PciConfAddrOut ?sel ?p" and ?p2 = "PciConfDataOut 0xCFC (NumToBytes 4 (ucast base)) (PciConfAddrOut ?sel ?p)"
  let ?m1 = "m\<lparr>m_pci := ?p1\<rparr>" and ?m2 = "m\<lparr>m_pci := ?p2\<rparr>"
  note ports = config_ports [OF assms(1-3), folded assms(4)]
  have bar: "mmioBAR rd < 6" using pci_okD(2) [OF assms(5,6)] assms(7) by simp
  have p1: "devices ?p1 = devices ?p" "barOverride ?p1 = barOverride ?p" by (simp_all add: PciConfAddrOut_def)
  have "selects ?p1 i ?off"
  proof (rule selects_address [OF assms(5,6), folded assms(7)])
    show "?off < 256" "?off mod 4 = 0" using bar by presburger+
  qed (rule assms(8))
  then have p2: "?p2 = ?p1\<lparr>barOverride := (barOverride ?p1)(i := (barOverride ?p1 i)(mmioBAR (devices ?p1 ! i) \<mapsto> base))\<rparr>"
    using bar_moved [of ?p1 i base] assms(7,9,10) bar p1 by simp
  have "decodes ?p1 j a = decodes ?p j a" for j a unfolding decodes_def barBase_def bar_raw_def p1 ..
  then have "\<forall>j < i. \<not> decodes ?p1 j (ucast base + n)" using assms(13) by simp
  then have look: "LookupMMIO (ucast base + n) ?p2 = Some (dev rd, n)"
    using moved_lookup [OF p2, of n] assms(6,7,9-12) p1 by simp
  have u: "uefiMMIO a bs isWrite ?m2 = (None, ?m2)" if "fst (uefiMMIO a bs isWrite m) = None" for a
    using that by (auto simp: uefiMMIO_def split: option.splits prod.splits bool.splits if_splits)
  have "exit_io t True 4 0xcf8 1 ?sel m = (Inr ?sel, ?m1)" by (rule out_once) (simp_all add: ports)
  moreover have "exit_io t' True 4 0xcfc 1 (NumToBytes 4 (ucast base)) ?m1 = (Inr (NumToBytes 4 (ucast base)), ?m2)"
    by (rule out_once) (simp_all add: ports)
  moreover have "exit_mmio dev_mmio (ucast base + n) bs isWrite ?m2 = (Inr b, ?m2\<lparr>virtio := (virtio m)[handle (dev rd) := v]\<rparr>)"
    using u [OF assms(14)] look assms(15) by (simp add: exit_mmio_def)
  ultimately show ?thesis by blast
qed

text \<open>A machine with a raw disk behind the second device of the bus.\<close>

definition sample_disk :: blk where
  "sample_disk = newBlk (Raw \<lparr>rfile = \<lparr>fbytes = (\<lambda>_. 0), fsize = 1024, script = []\<rparr>, rsize = 1024, rreadOnly = False\<rparr>) False (replicate 16 0)"

definition sample_machine :: "blk Machine" where
  "sample_machine = \<lparr>ioportHandlers = (\<lambda>_. (funcNone, funcNone)), m_pci = sample_bus, virtio = [sample_disk, sample_disk],
     m_devices = [Ps2Dev (NewPS2Controller True True), PostDev], m_serial = None, uefiVars = None, uefiCode = (0, 0),
     m_world = \<lparr>printed = [], acpi_log = [], sci_line = new_line [], stopped = False, wake_fails = False, drives = []\<rparr>\<rparr>"

lemma sample_disk_parts: "capacity sample_disk = 2" "VirtQueue sample_disk = None" "length (mem sample_disk) = 16"
  by (simp_all add: sample_disk_def newBlk_def NewModernTransport_def transport.defs SectorSize_def raw_Size_def)

lemma sample_disk_capacity:
  "blk_mmio sample_disk 0x2000 [0, 0, 0, 0, 0, 0, 0, 0] False = (Inr [2, 0, 0, 0, 0, 0, 0, 0], sample_disk)"
proof -
  have "put_le 8 (2 :: nat) = [2, 0, 0, 0, 0, 0, 0, 0]" by (simp add: put_le_numeral)
  then have "blk_ReadDeviceConfig 0 [0, 0, 0, 0, 0, 0, 0, 0] sample_disk = (Inr [2, 0, 0, 0, 0, 0, 0, 0], sample_disk)"
    by (simp add: blk_ReadDeviceConfig_def comp_defs sample_disk_parts copy_at_def slice_def Let_def)
  then show ?thesis by (simp add: blk_mmio_def MMIO_def transport_consts blk_device_def)
qed

lemma sample_sizes: "\<forall>d\<in>set (Devices sample_bus). io_Size d = 0"
  by (simp add: sample_bus_def New_def AddDevices_def new_bus_def registerAt_def registerDevice_def plain_device_def Let_def Devices_def)

lemma sample_bus_handle: "handle (dev (devices sample_bus ! Suc 0)) = 1"
  by (simp add: sample_bus_def New_def AddDevices_def new_bus_def registerAt_def registerDevice_def plain_device_def Let_def)

lemma sample_machine_ok: "mach_ok blk_ok sample_machine"
proof -
  have "devices sample_bus = [devices sample_bus ! 0, devices sample_bus ! 1]" using sample_bus_devices(1) by (auto simp: list_eq_iff_nth_eq less_2_cases_iff)
  then have "\<forall>d\<in>set (devices sample_bus). mmio d \<longrightarrow> handle (dev d) < Suc (Suc 0)" using sample_bus_devices(7) sample_bus_handle
    by (metis One_nat_def empty_iff insert_iff list.set lessI)
  moreover have "blk_ok sample_disk"
    by (simp add: blk_ok_def sample_disk_parts SectorSize_def)
  ultimately show ?thesis by (simp add: mach_ok_def sample_machine_def sample_bus_ok ps2_ok_new)
qed

lemma sample_init: "\<exists>mi. initIOPortHandlers sample_machine = Some mi \<and> virtio mi = virtio sample_machine \<and> m_pci mi = sample_bus \<and> uefiVars mi = None"
proof -
  obtain mi where i: "initIOPortHandlers sample_machine = Some mi"
    using init_total [of sample_machine] sample_sizes by (auto simp: sample_machine_def ps2DataPort_def)
  moreover obtain h where "mi = sample_machine\<lparr>ioportHandlers := h\<rparr>" using register_all(2) i unfolding initIOPortHandlers_def by blast
  ultimately show ?thesis by (simp add: sample_machine_def)
qed

theorem guest_reaches_device_witness:
  "\<exists>mi m1 m2. initIOPortHandlers sample_machine = Some mi \<and>
     exit_io \<lparr>now_ns = 0, wall = noon\<rparr> True 4 0xcf8 1 [16, 8, 0, 128] mi = (Inr [16, 8, 0, 128], m1) \<and>
     exit_io \<lparr>now_ns = 1, wall = noon\<rparr> True 4 0xcfc 1 [0, 0, 0, 0xe0] m1 = (Inr [0, 0, 0, 0xe0], m2) \<and>
     fst (exit_mmio blk_mmio 0xe0002000 [0, 0, 0, 0, 0, 0, 0, 0] False m2) = Inr [2, 0, 0, 0, 0, 0, 0, 0]"
proof -
  obtain mi where mi: "initIOPortHandlers sample_machine = Some mi" "virtio mi = virtio sample_machine" "m_pci mi = sample_bus" "uefiVars mi = None"
    using sample_init by blast
  let ?rd = "devices sample_bus ! 1"
  have bytes: "NumToBytes 4 (ucast (config_address 1 0 16)) = [16, 8, 0, 128]" "NumToBytes 4 (ucast (0xe0000000 :: u32)) = [0, 0, 0, 0xe0]"
    by (simp_all add: NumToBytes_put_le config_address_def put_le_numeral)
  have rd: "slot ?rd = 1" "func_no ?rd = 0" "mmioBAR ?rd = 0" "mmio ?rd" "barSizes ?rd ! mmioBAR ?rd = 0x4000" "handle (dev ?rd) = 1"
    by (simp_all add: sample_bus_devices sample_bus_handle)
  have free: "\<forall>d\<in>set (m_devices sample_machine). \<not> claims d 0xcf8 \<and> \<not> claims d 0xcfc"
    by (simp add: sample_machine_def claims_def ps2DataPort_def)
  have first: "\<forall>j < 1. \<not> decodes (m_pci mi) j (ucast (0xe0000000 :: u32) + 0x2000)" by (simp add: decodes_def mi(3) sample_bus_devices(7))
  have flash: "fst (uefiMMIO a bs isWrite mi) = None" for a bs isWrite by (simp add: uefiMMIO_def mi(4))
  have disk: "blk_mmio (virtio mi ! handle (dev ?rd)) (unat (0x2000 :: u64)) [0, 0, 0, 0, 0, 0, 0, 0] False = (Inr [2, 0, 0, 0, 0, 0, 0, 0], sample_disk)"
    using sample_disk_capacity by (simp add: mi(2) sample_bus_handle sample_machine_def)
  have "\<exists>m1 m2. exit_io \<lparr>now_ns = 0, wall = noon\<rparr> True 4 0xcf8 1 (NumToBytes 4 (ucast (config_address (slot ?rd) (func_no ?rd) (16 + mmioBAR ?rd * 4)))) mi =
      (Inr (NumToBytes 4 (ucast (config_address (slot ?rd) (func_no ?rd) (16 + mmioBAR ?rd * 4)))), m1) \<and>
    exit_io \<lparr>now_ns = 1, wall = noon\<rparr> True 4 0xcfc 1 (NumToBytes 4 (ucast (0xe0000000 :: u32))) m1 = (Inr (NumToBytes 4 (ucast (0xe0000000 :: u32))), m2) \<and>
    exit_mmio blk_mmio (ucast (0xe0000000 :: u32) + 0x2000) [0, 0, 0, 0, 0, 0, 0, 0] False m2 =
      (Inr [2, 0, 0, 0, 0, 0, 0, 0], m2\<lparr>virtio := (virtio mi)[handle (dev ?rd) := sample_disk]\<rparr>)"
    by (rule guest_reaches_device [where m = mi and i = 1 and rd = ?rd and base = "0xe0000000" and n = "0x2000"
      and bs = "[0, 0, 0, 0, 0, 0, 0, 0]" and isWrite = False and dev_mmio = blk_mmio and b = "[2, 0, 0, 0, 0, 0, 0, 0]" and v = sample_disk,
      OF mi(1) _ free refl _ _ _ _ _ _ _ _ first flash disk])
      (simp_all add: mi(3) sample_bus_ok sample_bus_devices sample_sizes sample_machine_def)
  then have "\<exists>m1 m2. exit_io \<lparr>now_ns = 0, wall = noon\<rparr> True 4 0xcf8 1 [16, 8, 0, 128] mi = (Inr [16, 8, 0, 128], m1) \<and>
     exit_io \<lparr>now_ns = 1, wall = noon\<rparr> True 4 0xcfc 1 [0, 0, 0, 0xe0] m1 = (Inr [0, 0, 0, 0xe0], m2) \<and>
     exit_mmio blk_mmio 0xe0002000 [0, 0, 0, 0, 0, 0, 0, 0] False m2 =
      (Inr [2, 0, 0, 0, 0, 0, 0, 0], m2\<lparr>virtio := (virtio mi)[handle (dev ?rd) := sample_disk]\<rparr>)"
    unfolding rd(1-3) by (simp only: mult_zero_left add_0_right bytes) simp
  with mi(1) show ?thesis by (metis fst_conv)
qed

text \<open>
  C30. The table of port handlers is the documented one. Registration never runs past the table when
  every device lies in the port space, and afterwards each port belongs to the last device that
  claims it, or else to the board's own decision table, in which later entries
  of the code take precedence. Firmware boot mode changes exactly its own ports on top.
\<close>

theorem port_dispatch:
  assumes "\<forall>d\<in>set (m_devices m). IOPort d + dev_Size d \<le> 0x10000" "\<forall>d\<in>set (Devices (m_pci m)). io_Size d = 0" "p < 0x10000"
  shows "\<exists>m1 m2. initIOPortHandlers m = Some m1 \<and> uefiPortHandlers i m = Some m2 \<and>
    ioportHandlers m1 p = (case port_owner 0 (m_devices m) p of Some j \<Rightarrow> (devRead j, devWrite j) | None \<Rightarrow> board_port (m_serial m \<noteq> None) p) \<and>
    ioportHandlers m2 p = firmware_port i p (ioportHandlers m1 p)"
proof -
  obtain m1 where m1: "initIOPortHandlers m = Some m1" using init_total [OF assms(1,2)] by blast
  obtain m2 where m2: "register_all (uefi_ports i) m1 = Some m2" using register_all_fits [of "uefi_ports i" m1] by (auto simp: uefi_ports_def)
  have "ioportHandlers m2 p = firmware_port i p (ioportHandlers m1 p)" using register_all(1) [OF m2] by (simp only: last_range_firmware)
  moreover have "uefiPortHandlers i m = Some m2" using m1 m2 by (simp add: uefiPortHandlers_def)
  ultimately show ?thesis using init_handlers [OF m1 assms(2,3)] m1 by blast
qed

text \<open>The machine with a CD-ROM: its ports lie in the range that is absent on the board.\<close>

definition cd_machine :: "blk Machine" where
  "cd_machine = AddReadOnlyCDROM (reader_of [1, 2, 3]) 3 sample_machine"

lemma cd_machine_parts:
  "m_devices cd_machine = [Ps2Dev (NewPS2Controller True True), PostDev, CdDev 0 0x1f0 8, CdDev 0 0x3f6 1]" "\<forall>d\<in>set (Devices (m_pci cd_machine)). io_Size d = 0"
  using sample_sizes by (simp_all add: cd_machine_def AddReadOnlyCDROM_def AddDevice_def sample_machine_def Let_def ata_ports AddDevices_def registerAt_def
    registerDevice_def plain_device_def Devices_def)

theorem port_dispatch_witness:
  "\<exists>m1 m2. initIOPortHandlers cd_machine = Some m1 \<and> uefiPortHandlers 0 cd_machine = Some m2 \<and>
     ioportHandlers m1 0x1f7 = (devRead 2, devWrite 2) \<and> ioportHandlers m2 0x1f7 = (devRead 2, devWrite 2)"
proof -
  have "\<forall>d\<in>set (m_devices cd_machine). IOPort d + dev_Size d \<le> 0x10000" by (simp add: cd_machine_parts ps2DataPort_def)
  moreover have "port_owner 0 (m_devices cd_machine) 0x1f7 = Some 2" by (simp add: cd_machine_parts claims_def ps2DataPort_def)
  ultimately show ?thesis using port_dispatch [of cd_machine "0x1f7" 0] cd_machine_parts(2) by (auto simp: firmware_port_def)
qed

text \<open>
  C29. A stopped machine leaves its run loop. If another thread stops the machine by round \<open>k\<close>, the loop
  ends after at most \<open>k + 1\<close> rounds, with one result however many more are allowed, and in the machine it
  leaves the bus, every disk and the keyboard controller satisfy their invariants and the ports of a CD-ROM still belong to a drive, whatever
  port and memory accesses the guest made on the way.
\<close>

theorem stopped_loop_returns:
  assumes "mach_ok blk_ok m" "fst (snd (host k))"
  shows "\<exists>e m'. (\<forall>n > k. runInfiniteLoop blk_mmio host n 0 m = Some (e, m')) \<and> mach_ok blk_ok m' \<and> ioportHandlers m' = ioportHandlers m"
proof -
  obtain e m' where r: "\<forall>n > k. runInfiniteLoop blk_mmio host n 0 m = Some (e, m')"
    using loop_stops [of host 0 k blk_mmio m] assms(2) by auto
  then have "runInfiniteLoop blk_mmio host (Suc k) 0 m = Some (e, m')" by blast
  then show ?thesis using r blk_machine.loop_ok [OF _ assms(1)] by blast
qed

text \<open>A guest that sends a packet command to the CD-ROM again and again, until the machine is stopped before the third round.\<close>

definition packet_host :: "nat \<Rightarrow> host_time \<times> bool \<times> kvm_run" where
  "packet_host k = (\<lparr>now_ns = 0, wall = noon\<rparr>, k = 2, RunExit (EXITIO True 1 0x1f7 1 [0xa0]))"

theorem stopped_loop_returns_witness:
  "\<exists>mi e m'. initIOPortHandlers cd_machine = Some mi \<and> runInfiniteLoop blk_mmio packet_host 7 0 mi = Some (e, m') \<and> mach_ok blk_ok m'"
proof -
  obtain mi where i: "initIOPortHandlers cd_machine = Some mi"
    using init_total [of cd_machine] cd_machine_parts by (auto simp: ps2DataPort_def)
  then obtain h where "mi = cd_machine\<lparr>ioportHandlers := h\<rparr>" using register_all(2) unfolding initIOPortHandlers_def by blast
  then have "mach_ok blk_ok mi" using AddReadOnlyCDROM_ok [OF sample_machine_ok] by (simp add: cd_machine_def mach_ok_def)
  from stopped_loop_returns [OF this, of packet_host 2] show ?thesis using i by (fastforce simp: packet_host_def)
qed

end
