(* ===== verification/Virtio_Requests.thy ===== *)
theory Virtio_Requests
  imports Virtio_Blk
begin

text \<open>
  What a driver gets from the block device. A request is described as the driver lays it out in
  guest memory, independently of how the device reads it: a chain of descriptors with a
  header in the first, the status byte in the last, and the data buffer of a read or a write
  between them. The lemmas relate the device's snapshot to this layout, and the
  properties state the effect of a batch on the disk, on the buffers and on the used ring.
\<close>

section \<open>Requests of a driver\<close>

record guest_request =
  g_chain :: "nat list"
  g_type :: nat
  g_sector :: nat
  g_buf :: "nat \<times> nat"
  g_status :: nat

fun linked :: "byte list \<Rightarrow> SplitQueue \<Rightarrow> nat list \<Rightarrow> bool" where
  "linked m sq [] \<longleftrightarrow> False"
| "linked m sq [i] \<longleftrightarrow> d_Flags (desc_at m sq i) AND descFNext = 0"
| "linked m sq (i # j # is) \<longleftrightarrow>
     d_Flags (desc_at m sq i) AND descFNext \<noteq> 0 \<and> d_Next (desc_at m sq i) = j \<and> linked m sq (j # is)"

definition desc_valid :: "byte list \<Rightarrow> SplitQueue \<Rightarrow> nat \<Rightarrow> bool" where
  "desc_valid m sq i \<longleftrightarrow> i < batch_size sq \<and> ValidRange m (d_Addr (desc_at m sq i)) (d_Len (desc_at m sq i))"

text \<open>The chain is well formed, and the fields of \<open>g\<close> are what it holds.\<close>

definition posted :: "byte list \<Rightarrow> SplitQueue \<Rightarrow> guest_request \<Rightarrow> bool" where
  "posted m sq g \<longleftrightarrow>
     linked m sq (g_chain g) \<and> distinct (g_chain g) \<and> (\<forall>i\<in>set (g_chain g). desc_valid m sq i) \<and> 2 \<le> length (g_chain g) \<and>
     (let h = desc_at m sq (hd (g_chain g)); s = desc_at m sq (last (g_chain g))
      in 16 \<le> d_Len h \<and> g_type g = load_le 4 m (d_Addr h) \<and> g_sector g = load_le 8 m (d_Addr h + 8) \<and>
         g_status g = d_Addr s \<and> 0 < d_Len s \<and> d_Flags s AND descFWrite \<noteq> 0) \<and>
     (if g_type g \<le> 1
      then length (g_chain g) = 3 \<and> g_buf g = (d_Addr (desc_at m sq (g_chain g ! 1)), d_Len (desc_at m sq (g_chain g ! 1)))
      else g_buf g = (0, 0))"

definition is_flush :: "bool \<Rightarrow> guest_request \<Rightarrow> bool" where
  "is_flush wb g \<longleftrightarrow> g_type g = 4 \<and> wb"

text \<open>The sectors of a read or a write lie on a disk of \<open>cap\<close> sectors of 512 bytes.\<close>

definition on_disk :: "nat \<Rightarrow> guest_request \<Rightarrow> bool" where
  "on_disk cap g \<longleftrightarrow> 512 * g_sector g + snd (g_buf g) \<le> 512 * cap"

text \<open>The status of a request that is answered without access to the disk, and 0 for one that is not.\<close>

definition refusal :: "nat \<Rightarrow> bool \<Rightarrow> guest_request \<Rightarrow> byte" where
  "refusal cap wb g =
     (if g_type g \<le> 1 then (if on_disk cap g then 0 else 1)
      else if is_flush wb g then (if g_sector g \<le> cap then 0 else 1)
      else 2)"

text \<open>The number of bytes reported in the used ring.\<close>

definition used_len :: "byte list \<Rightarrow> SplitQueue \<Rightarrow> bool \<Rightarrow> guest_request \<Rightarrow> u32" where
  "used_len m sq wb g = (if is_flush wb g then 1 else of_nat (sum_list (map (\<lambda>i. d_Len (desc_at m sq i)) (g_chain g))))"

text \<open>
  A batch of requests: the driver has made exactly these chains available, the parts of the requests that the
  device writes lie outside the used ring, and they overlap no other part of a request.
\<close>

definition g_range :: "guest_request \<Rightarrow> nat set" where
  "g_range g = {fst (g_buf g)..<fst (g_buf g) + snd (g_buf g)}"

definition g_apart :: "guest_request \<Rightarrow> guest_request \<Rightarrow> bool" where
  "g_apart g h \<longleftrightarrow> g_status g \<noteq> g_status h \<and> g_status g \<notin> g_range h \<and> g_status h \<notin> g_range g \<and>
     (g_type g = 1 \<and> g_type h = 1 \<or> g_range g \<inter> g_range h = {})"

definition separate :: "SplitQueue \<Rightarrow> guest_request list \<Rightarrow> bool" where
  "separate sq gs \<longleftrightarrow> (\<forall>g\<in>set gs. off_used sq (g_status g) \<and> (\<forall>x\<in>g_range g. off_used sq x) \<and> g_status g \<notin> g_range g) \<and>
     sorted_wrt g_apart gs"

definition posted_batch :: "SplitQueue \<Rightarrow> guest_request list \<Rightarrow> blk \<Rightarrow> bool" where
  "posted_batch sq gs v \<longleftrightarrow> VirtQueue v = Some sq \<and> gs \<noteq> [] \<and> length gs \<le> batch_size sq \<and>
     avail_idx (mem v) sq = LastAvailIdx v + of_nat (length gs) \<and> separate sq gs \<and>
     (\<forall>i < length gs. posted (mem v) sq (gs ! i) \<and>
        hd (g_chain (gs ! i)) = avail_ring (mem v) sq (unat (LastAvailIdx v + of_nat i) mod batch_size sq))"

text \<open>The disk after a request: a write lays its buffer over the sectors it names.\<close>

definition disk_after :: "byte list \<Rightarrow> guest_request \<Rightarrow> (nat \<Rightarrow> byte) \<Rightarrow> nat \<Rightarrow> byte" where
  "disk_after m g D x =
     (if g_type g = 1 \<and> 512 * g_sector g \<le> x \<and> x < 512 * g_sector g + snd (g_buf g)
      then m ! (fst (g_buf g) + (x - 512 * g_sector g)) else D x)"

section \<open>Lemmas\<close>

subsection \<open>The snapshot of a request\<close>

lemma snapshot_step:
  assumes "j < batch_size sq" "desc_valid m sq i" "i \<notin> set seen" "j = 0 \<longrightarrow> 16 \<le> d_Len (desc_at m sq i)" "length m < 2 ^ 63"
    "\<not> chain_last (desc_at m sq i) j (take_fields m (desc_at m sq i) cap wb j c)"
  shows "snapshot_chain m sq (batch_size sq) cap wb j i seen c =
    snapshot_chain m sq (batch_size sq) cap wb (j + 1) (d_Next (desc_at m sq i)) (i # seen) (take_fields m (desc_at m sq i) cap wb j c)"
  using assms chain_round_go [of i "batch_size sq" seen m sq j cap wb c] batch_size_range [of sq]
  by (subst snapshot_chain.simps) (simp add: desc_valid_def chain_end_def)

lemma snapshot_last:
  fixes m sq cap wb j c i defines "c1 \<equiv> take_fields m (desc_at m sq i) cap wb j c"
  assumes "j < batch_size sq" "0 < j" "desc_valid m sq i" "i \<notin> set seen" "length m < 2 ^ 63" "0 < d_Len (desc_at m sq i)"
    "chain_last (desc_at m sq i) j c1" "d_Flags (desc_at m sq i) AND descFWrite \<noteq> 0"
  shows "snapshot_chain m sq (batch_size sq) cap wb j i seen c =
    Inr (c1\<lparr>c_status := Some (d_Addr (desc_at m sq i)), c_length := (if c_flush c1 then 1 else c_length c1)\<rparr>)"
  using assms chain_round_go [of i "batch_size sq" seen m sq j cap wb c] batch_size_range [of sq]
  by (subst snapshot_chain.simps) (simp add: desc_valid_def chain_end_def first_byte_def c1_def)

text \<open>A request without data is followed to the end of its chain.\<close>

lemma snapshot_follow:
  assumes "linked m sq (i # is)" "distinct (i # is)" "set (i # is) \<inter> set seen = {}" "\<forall>k\<in>set (i # is). desc_valid m sq k"
    "length m < 2 ^ 63" "0 < j" "j + length (i # is) \<le> batch_size sq" "open_ended c"
    "0 < d_Len (desc_at m sq (last (i # is)))" "d_Flags (desc_at m sq (last (i # is))) AND descFWrite \<noteq> 0"
  shows "snapshot_chain m sq (batch_size sq) cap wb j i seen c =
    Inr (c\<lparr>c_status := Some (d_Addr (desc_at m sq (last (i # is)))), c_length := (if c_flush c then 1
      else c_length c + of_nat (sum_list (map (\<lambda>k. d_Len (desc_at m sq k)) (i # is))))\<rparr>)"
  using assms
proof (induction "is" arbitrary: i j seen c)
  case Nil
  have t: "take_fields m (desc_at m sq i) cap wb j c = c\<lparr>c_length := c_length c + of_nat (d_Len (desc_at m sq i))\<rparr>"
    using Nil.prems(6,8) by (auto simp: take_fields_def open_ended_def Let_def)
  show ?case using Nil.prems by (subst snapshot_last) (auto simp: t chain_last_def open_ended_def)
next
  case (Cons k ks)
  let ?c = "c\<lparr>c_length := c_length c + of_nat (d_Len (desc_at m sq i))\<rparr>"
  have t: "take_fields m (desc_at m sq i) cap wb j c = ?c"
    using Cons.prems(6,8) by (auto simp: take_fields_def open_ended_def Let_def)
  have "snapshot_chain m sq (batch_size sq) cap wb j i seen c = snapshot_chain m sq (batch_size sq) cap wb (j + 1) k (i # seen) ?c"
    using Cons.prems by (subst snapshot_step) (auto simp: t chain_last_def open_ended_def)
  also have "\<dots> = Inr (?c\<lparr>c_status := Some (d_Addr (desc_at m sq (last (k # ks)))), c_length := (if c_flush ?c then 1
      else c_length ?c + of_nat (sum_list (map (\<lambda>k. d_Len (desc_at m sq k)) (k # ks))))\<rparr>)"
    using Cons.prems by (intro Cons.IH) (auto simp: open_ended_def)
  finally show ?case by (simp add: algebra_simps)
qed

text \<open>What the device keeps of a request of the driver.\<close>

definition represents :: "byte list \<Rightarrow> SplitQueue \<Rightarrow> nat \<Rightarrow> bool \<Rightarrow> guest_request \<Rightarrow> blkPendingRequest \<Rightarrow> bool" where
  "represents m sq cap wb g c \<longleftrightarrow> c_id c = of_nat (hd (g_chain g)) \<and> c_length c = used_len m sq wb g \<and> c_status c = Some (g_status g) \<and>
     c_data c = g_buf g \<and> c_result c = refusal cap wb g \<and> c_write c = (g_type g = 1) \<and> c_flush c = is_flush wb g \<and>
     (g_type g \<le> 1 \<and> on_disk cap g \<longrightarrow> c_offset c = int (512 * g_sector g))"

lemma header_fields:
  fixes m a cap wb c defines "h \<equiv> read_header m a cap wb c"
  assumes "cap * SectorSize < 2 ^ 63"
  shows "c_id h = c_id c" "c_length h = c_length c" "c_status h = c_status c" "c_data h = c_data c"
    "c_write h = (load_le 4 m a = 1)" "c_flush h = (load_le 4 m a = 4 \<and> wb)"
    "c_result h = (if load_le 4 m a \<noteq> 0 \<and> load_le 4 m a \<noteq> 1 \<and> \<not> (load_le 4 m a = 4 \<and> wb) then 2
       else if cap < load_le 8 m (a + 8) then 1 else c_result c)"
    "c_offset h = (if cap < load_le 8 m (a + 8) then c_offset c else int (512 * load_le 8 m (a + 8)))"
proof -
  have "int64_of (mul64 s SectorSize) = int (512 * s)" if "s \<le> cap" for s
    using that assms(2) by (simp add: int64_of_def mul64_def SectorSize_def mult.commute)
  then show "c_offset h = (if cap < load_le 8 m (a + 8) then c_offset c else int (512 * load_le 8 m (a + 8)))"
    by (simp add: h_def read_header_def Let_def)
qed (auto simp: h_def read_header_def Let_def)

lemma last_two: "length xs = 3 \<Longrightarrow> \<exists>a b c. xs = [a, b, c]"
  by (auto simp: numeral_3_eq_3 length_Suc_conv)

lemma posted_length: "posted m sq g \<Longrightarrow> length (g_chain g) \<le> batch_size sq"
proof -
  assume p: "posted m sq g"
  then have "set (g_chain g) \<subseteq> {..<batch_size sq}" by (auto simp: posted_def desc_valid_def)
  then have "card (set (g_chain g)) \<le> batch_size sq" using card_mono [of "{..<batch_size sq}"] by simp
  then show ?thesis using p distinct_card [of "g_chain g"] by (simp add: posted_def)
qed

lemma snapshot_posted:
  assumes p: "posted m sq g" and m: "length m < 2 ^ 63" and cap: "cap * SectorSize < 2 ^ 63"
  shows "\<exists>c. snapshotRequest m sq (batch_size sq) cap wb (hd (g_chain g)) = Inr c \<and> represents m sq cap wb g c"
proof -
  obtain i k ks where ch: "g_chain g = i # k # ks" using p
    by (auto simp: posted_def numeral_2_eq_2 Suc_le_length_iff)
  let ?d = "\<lambda>i. desc_at m sq i" and ?n = "batch_size sq"
  define c0 where "c0 = (no_request i)\<lparr>c_length := of_nat (d_Len (?d i))\<rparr>"
  define h where "h = read_header m (d_Addr (?d i)) cap wb c0"
  have P: "linked m sq (k # ks)" "d_Flags (?d i) AND descFNext \<noteq> 0" "d_Next (?d i) = k" "distinct (i # k # ks)"
    "\<forall>j\<in>set (i # k # ks). desc_valid m sq j" "16 \<le> d_Len (?d i)" "g_type g = load_le 4 m (d_Addr (?d i))"
    "g_sector g = load_le 8 m (d_Addr (?d i) + 8)" "g_status g = d_Addr (?d (last (k # ks)))" "0 < d_Len (?d (last (k # ks)))"
    "d_Flags (?d (last (k # ks))) AND descFWrite \<noteq> 0"
    using p ch by (auto simp: posted_def Let_def)
  have n: "2 + length ks \<le> ?n" using posted_length [OF p] ch by simp
  note H = header_fields [OF cap, of m "d_Addr (?d i)" wb c0, folded h_def]
  have t: "take_fields m (?d i) cap wb 0 (no_request i) = h" by (simp add: take_fields_def h_def c0_def no_request_def)
  have one: "snapshot_chain m sq ?n cap wb 0 i [] (no_request i) = snapshot_chain m sq ?n cap wb 1 k [i] h"
    using P(2,3,5,6) n m by (subst snapshot_step) (auto simp: t chain_last_def)
  show ?thesis
  proof (cases "g_type g \<le> 1")
    case False
    then have oe: "open_ended h" and buf: "g_buf g = (0, 0)" using H(6,7) P(7) p by (auto simp: open_ended_def posted_def)
    define c where "c = h\<lparr>c_status := Some (g_status g), c_length := (if c_flush h then 1
        else c_length h + of_nat (sum_list (map (\<lambda>k. d_Len (?d k)) (k # ks))))\<rparr>"
    have "snapshot_chain m sq ?n cap wb 1 k [i] h = Inr c" unfolding c_def P(9)
      using P n m oe by (intro snapshot_follow) auto
    moreover have z: "c_result c = 0 \<Longrightarrow> c_flush c" using oe by (auto simp: open_ended_def c_def)
    ultimately have "snapshotRequest m sq ?n cap wb (hd (g_chain g)) = Inr c" using one ch
      by (auto simp: snapshotRequest_def c_def)
    moreover have "represents m sq cap wb g c" using False H P(7,8) buf ch
      by (auto simp: represents_def c_def c0_def no_request_def used_len_def is_flush_def refusal_def)
    ultimately show ?thesis by blast
  next
    case True
    then obtain l where ks: "ks = [l]" and buf: "g_buf g = (d_Addr (?d k), d_Len (?d k))" using p ch by (auto simp: posted_def numeral_3_eq_3 length_Suc_conv)
    have ty: "\<not> open_ended h" "\<not> c_flush h" using True H(6,7) P(7) by (auto simp: open_ended_def c0_def no_request_def split: if_splits)
    define c1 where "c1 = h\<lparr>c_length := c_length h + of_nat (d_Len (?d k)), c_data := g_buf g\<rparr>"
    have ty1: "\<not> open_ended c1" "\<not> c_flush c1" using ty by (auto simp: c1_def open_ended_def)
    have t1: "take_fields m (?d k) cap wb (Suc 0) h = c1" using ty buf by (auto simp: take_fields_def c1_def open_ended_def)
    define c where "c = c1\<lparr>c_status := Some (g_status g), c_length := c_length c1 + of_nat (d_Len (?d l))\<rparr>"
    have t2: "take_fields m (?d l) cap wb 2 c1 = c1\<lparr>c_length := c_length c1 + of_nat (d_Len (?d l))\<rparr>" by (simp add: take_fields_def)
    have "snapshot_chain m sq ?n cap wb 1 k [i] h = snapshot_chain m sq ?n cap wb 2 l [k, i] c1"
      using P(1,4,5) ks n m ty by (subst snapshot_step) (auto simp: t1 chain_last_def c1_def open_ended_def simp flip: numeral_2_eq_2)
    also have "\<dots> = Inr c"
      using P(1,4,5,9-11) ks n m ty1 by (subst snapshot_last) (auto simp: t2 chain_last_def open_ended_def c_def)
    finally have s: "snapshot_chain m sq ?n cap wb 0 i [] (no_request i) = Inr c" using one by simp
    have cf: "c_flush c = is_flush wb g" "c_write c = (g_type g = 1)" "c_status c = Some (g_status g)" "c_data c = g_buf g" "c_id c = of_nat i"
      "c_length c = used_len m sq wb g" "c_result c = (if cap < g_sector g then 1 else 0)" "\<not> is_flush wb g"
      "c_offset c = (if cap < g_sector g then 0 else int (512 * g_sector g))"
      using H P(7,8) True ch ks by (auto simp: c_def c1_def is_flush_def c0_def no_request_def used_len_def algebra_simps)
    have cb: "mul64 cap SectorSize = 512 * cap" using cap by (simp add: mul64_def SectorSize_def mult.commute)
    show ?thesis
    proof (cases "on_disk cap g")
      case od: True
      then have "\<not> cap < g_sector g" by (simp add: on_disk_def)
      moreover have "512 * g_sector g < 2 ^ 63" using od cap by (simp add: on_disk_def SectorSize_def)
      ultimately have "snapshotRequest m sq ?n cap wb (hd (g_chain g)) = Inr c" using od s cf ch cb
        by (auto simp: snapshotRequest_def Let_def on_disk_def sub64_def nat_mod_distrib)
      moreover have "represents m sq cap wb g c" using cf od True ch \<open>\<not> cap < g_sector g\<close> by (auto simp: represents_def refusal_def)
      ultimately show ?thesis by blast
    next
      case od: False
      have "snapshotRequest m sq ?n cap wb (hd (g_chain g)) = Inr (c\<lparr>c_result := 1\<rparr>)"
      proof (cases "cap < g_sector g")
        case True
        then have "c\<lparr>c_result := 1\<rparr> = c" using cf(7) by (cases c) simp
        then show ?thesis using s cf ch True by (simp add: snapshotRequest_def)
      next
        case False
        then have "512 * g_sector g < 2 ^ 63" using cap by (simp add: SectorSize_def)
        then show ?thesis using False od s cf ch cb
          by (auto simp: snapshotRequest_def Let_def on_disk_def sub64_def nat_mod_distrib)
      qed
      moreover have "represents m sq cap wb g (c\<lparr>c_result := 1\<rparr>)" using cf od True ch by (auto simp: represents_def refusal_def)
      ultimately show ?thesis by blast
    qed
  qed
qed

subsection \<open>Completing requests\<close>

definition status_of :: "blkPendingRequest \<Rightarrow> nat" where
  "status_of c = the (c_status c)"

lemma ready_status: "ready m c \<Longrightarrow> c_status c = Some (status_of c) \<and> ValidRange m (status_of c) 1 \<and> status_of c < length m"
  using ValidRange_bound by (fastforce simp: ready_def status_of_def)

lemma complete_one_effect:
  assumes "queue_mapped (mem v) sq" "ready (mem v) c" "off_used sq (status_of c)" "complete_one sq (batch_size sq) ui i c v = (r, v')"
  shows "used_idx (mem v') sq = used_idx (mem v) sq"
    "k < 32 \<Longrightarrow> used_elem (mem v') sq k = (if k = used_at sq (ui + of_nat i) then (unat (c_id c), unat (c_length c)) else used_elem (mem v) sq k)"
    "x < length (mem v) \<Longrightarrow> off_used sq x \<Longrightarrow> mem v' ! x = (if x = status_of c then c_result c else mem v ! x)"
proof -
  note S = ready_status [OF assms(2)] and j = used_at_range [of sq "ui + of_nat i"]
  let ?m = "(mem v)[status_of c := c_result c]"
  have m': "mem v' = put_used sq (used_at sq (ui + of_nat i)) (c_id c) (c_length c) ?m"
    using assms(4) S batch_size_mod [of "unat (ui + of_nat i)" sq]
    by (auto simp: complete_one_def used_store_def used_at_def Let_def)
  have c: "confined (mem v) ?m" using confined_update [of "mem v" "status_of c" 1] S by simp
  have q: "queue_mapped ?m sq" using assms(1) confined_mapped [OF c] by simp
  have k: "?m ! x = mem v ! x" if "\<not> off_used sq x" for x using that assms(3) by (cases "x = status_of c") auto
  note U = used_cong [OF assms(1), of ?m, OF _ k]
  show "used_idx (mem v') sq = used_idx (mem v) sq" using used_idx_put [OF q j] U(1) m' by simp
  show "used_elem (mem v') sq k = (if k = used_at sq (ui + of_nat i) then (unat (c_id c), unat (c_length c)) else used_elem (mem v) sq k)" if "k < 32"
    using used_elem_put [OF q j that] U(2) [OF _ _ that] m' by simp
  show "mem v' ! x = (if x = status_of c then c_result c else mem v ! x)" if "x < length (mem v)" "off_used sq x"
    using off_used_put [OF q j that(2)] that(1) m' S by (simp add: nth_list_update)
qed

lemma complete_loop_effect:
  assumes "queue_mapped (mem v) sq" "\<And>i. i \<in> set is \<Longrightarrow> ready (mem v) (cs ! i) \<and> off_used sq (status_of (cs ! i))" "distinct is"
    "inj_on (\<lambda>i. used_at sq (ui + of_nat i)) (set is)" "inj_on (\<lambda>i. status_of (cs ! i)) (set is)"
    "foreach (\<lambda>i. complete_one sq (batch_size sq) ui i (cs ! i)) is v = (r, v')"
  shows "used_idx (mem v') sq = used_idx (mem v) sq \<and>
    (\<forall>i\<in>set is. used_elem (mem v') sq (used_at sq (ui + of_nat i)) = (unat (c_id (cs ! i)), unat (c_length (cs ! i))) \<and>
       mem v' ! status_of (cs ! i) = c_result (cs ! i)) \<and>
    (\<forall>k < 32. k \<notin> (\<lambda>i. used_at sq (ui + of_nat i)) ` set is \<longrightarrow> used_elem (mem v') sq k = used_elem (mem v) sq k) \<and>
    (\<forall>x < length (mem v). off_used sq x \<and> x \<notin> (\<lambda>i. status_of (cs ! i)) ` set is \<longrightarrow> mem v' ! x = mem v ! x)"
  using assms
proof (induction "is" arbitrary: v)
  case (Cons i js)
  let ?body = "\<lambda>i. complete_one sq (batch_size sq) ui i (cs ! i)" and ?at = "\<lambda>i. used_at sq (ui + of_nat i)"
  obtain r1 v1 where r1: "?body i v = (r1, v1)" by fastforce
  have c: "ready (mem v) (cs ! i)" "off_used sq (status_of (cs ! i))" using Cons.prems(2) by simp_all
  have f: "r1 = Inr ()" "confined (mem v) (mem v1)"
    using complete_one_frame [OF Cons.prems(1) _ _ c(1) r1] batch_size_range [of sq] by (simp_all add: frame_def)
  note E = complete_one_effect [OF Cons.prems(1) c r1] and l = confined_length [OF f(2)]
  have rest: "foreach ?body js v1 = (r, v')" using Cons.prems(6) r1 f(1) by (simp add: foreach_def andthen_def)
  have q: "queue_mapped (mem v1) sq" using Cons.prems(1) confined_mapped [OF f(2)] by simp
  have d: "i \<notin> set js" "?at i \<notin> ?at ` set js" "status_of (cs ! i) \<notin> (\<lambda>i. status_of (cs ! i)) ` set js"
    using Cons.prems(3-5) by auto
  note I = Cons.IH [OF q _ _ _ _ rest]
  have "used_idx (mem v') sq = used_idx (mem v1) sq \<and>
    (\<forall>i\<in>set js. used_elem (mem v') sq (?at i) = (unat (c_id (cs ! i)), unat (c_length (cs ! i))) \<and> mem v' ! status_of (cs ! i) = c_result (cs ! i)) \<and>
    (\<forall>k < 32. k \<notin> ?at ` set js \<longrightarrow> used_elem (mem v') sq k = used_elem (mem v1) sq k) \<and>
    (\<forall>x < length (mem v1). off_used sq x \<and> x \<notin> (\<lambda>i. status_of (cs ! i)) ` set js \<longrightarrow> mem v' ! x = mem v1 ! x)"
    by (rule I) (use Cons.prems(2-5) ready_confined [OF f(2)] in auto)
  then show ?case using E d l used_at_range [of sq "ui + of_nat i"] ready_status [OF c(1)] c(2) by auto
qed (simp add: foreach_def ret_def)

text \<open>The requests are reported: the used ring holds an entry for each of them, and each has its status.\<close>

definition reported :: "SplitQueue \<Rightarrow> blkPendingRequest list \<Rightarrow> byte list \<Rightarrow> byte list \<Rightarrow> bool" where
  "reported sq cs m m' \<longleftrightarrow> used_idx m' sq = used_idx m sq + of_nat (length cs) \<and>
     (\<forall>i < length cs. used_elem m' sq (used_at sq (used_idx m sq + of_nat i)) = (unat (c_id (cs ! i)), unat (c_length (cs ! i))) \<and>
        m' ! status_of (cs ! i) = c_result (cs ! i)) \<and>
     (\<forall>k < 32. (\<forall>i < length cs. k \<noteq> used_at sq (used_idx m sq + of_nat i)) \<longrightarrow> used_elem m' sq k = used_elem m sq k)"

lemma complete_effect:
  assumes q: "queue_mapped (mem v) sq" and r: "\<forall>c\<in>set cs. ready (mem v) c \<and> off_used sq (status_of c)"
    and d: "distinct (map status_of cs)" and n: "length cs \<le> batch_size sq"
    and c: "completeRequests sq (batch_size sq) cs v = (r, v')"
  shows "reported sq cs (mem v) (mem v')"
    "\<And>x. x < length (mem v) \<Longrightarrow> off_used sq x \<Longrightarrow> x \<notin> status_of ` set cs \<Longrightarrow> mem v' ! x = mem v ! x"
proof -
  let ?u = "used_idx (mem v) sq" and ?is = "[0..<length cs]" and ?at = "\<lambda>i. used_at sq (used_idx (mem v) sq + of_nat i)"
  obtain r1 v1 where r1: "foreach (\<lambda>i. complete_one sq (batch_size sq) ?u i (cs ! i)) ?is v = (r1, v1)" by fastforce
  have rd: "ready (mem v) (cs ! i) \<and> off_used sq (status_of (cs ! i))" if "i \<in> set ?is" for i using that r by simp
  have at: "inj_on ?at (set ?is)"
  proof (rule inj_onI, rule ccontr)
    fix i j assume h: "i \<in> set ?is" "j \<in> set ?is" "?at i = ?at j" "i \<noteq> j"
    then have "i < j \<or> j < i" by linarith
    then show False using h n used_at_distinct [OF q, of i j ?u] used_at_distinct [OF q, of j i ?u] by auto
  qed
  have st: "inj_on (\<lambda>i. status_of (cs ! i)) (set ?is)" using d unfolding distinct_conv_nth
    by (intro inj_onI) (metis atLeastLessThan_iff length_map nth_map set_upt)
  have f: "r1 = Inr ()" "confined (mem v) (mem v1)"
    using complete_loop_frame [OF q _ _ _ r1] rd batch_size_range [of sq] by (simp_all add: frame_def)
  note L = complete_loop_effect [OF q rd _ at st r1, simplified]
  let ?v2 = "v1\<lparr>mem := add_used_idx sq (of_nat (length cs)) (mem v1), LastAvailIdx := LastAvailIdx v1 + of_nat (length cs)\<rparr>"
  have "Interrupt ?v2 = (r, v')" using c r1 f(1) by (simp add: completeRequests_def comp_defs)
  from Interrupt_frame [OF this] have m': "mem v' = add_used_idx sq (of_nat (length cs)) (mem v1)" by simp
  have q1: "queue_mapped (mem v1) sq" using q confined_mapped [OF f(2)] by simp
  note l = confined_length [OF f(2)]
  have o: "mem v' ! x = mem v1 ! x" if "off_used sq x" "x < length (mem v)" for x using off_used_add [OF q1 that(1)] that(2) l m' by simp
  have e: "used_elem (mem v') sq k = used_elem (mem v1) sq k" if "k < 32" for k using used_elem_add [OF q1 that] m' by simp
  show "mem v' ! x = mem v ! x" if "x < length (mem v)" "off_used sq x" "x \<notin> status_of ` set cs" for x
  proof -
    have "x \<notin> (\<lambda>i. status_of (cs ! i)) ` set ?is" using that(3) by auto
    then show ?thesis using L o [OF that(2,1)] that by simp
  qed
  show "reported sq cs (mem v) (mem v')" unfolding reported_def
  proof (intro conjI allI impI)
    show "used_idx (mem v') sq = ?u + of_nat (length cs)" using used_idx_add [OF q1] L m' by simp
    show "used_elem (mem v') sq (?at i) = (unat (c_id (cs ! i)), unat (c_length (cs ! i)))" if "i < length cs" for i
      using L e [OF used_at_range] that by simp
    show "mem v' ! status_of (cs ! i) = c_result (cs ! i)" if "i < length cs" for i
      using L that r ready_status o [of "status_of (cs ! i)"] by (auto simp: set_conv_nth)
    show "used_elem (mem v') sq k = used_elem (mem v) sq k" if "k < 32" "\<forall>i < length cs. k \<noteq> ?at i" for k
    proof -
      have "k \<notin> ?at ` set ?is" using that(2) by auto
      then show ?thesis using L e [OF that(1)] that(1) by simp
    qed
  qed
qed

subsection \<open>Executing requests\<close>

definition buf_of :: "blkPendingRequest \<Rightarrow> nat set" where
  "buf_of c = {fst (c_data c)..<fst (c_data c) + snd (c_data c)}"

text \<open>The disk after a request that was carried out, on a disk of which \<open>D\<close> are the bytes.\<close>

definition apply_request :: "byte list \<Rightarrow> blkPendingRequest \<Rightarrow> (nat \<Rightarrow> byte) \<Rightarrow> nat \<Rightarrow> byte" where
  "apply_request m c D x =
     (if c_write c \<and> nat (c_offset c) \<le> x \<and> x < nat (c_offset c) + snd (c_data c)
      then m ! (fst (c_data c) + (x - nat (c_offset c))) else D x)"

lemma apply_requests_cong:
  assumes "D x = D' x" "\<And>c k. c \<in> set cs \<Longrightarrow> c_write c \<Longrightarrow> k \<in> buf_of c \<Longrightarrow> m ! k = m' ! k"
  shows "fold (apply_request m) cs D x = fold (apply_request m') cs D' x"
  using assms
proof (induction cs arbitrary: D D')
  case (Cons c cs)
  have "apply_request m c D x = apply_request m' c D' x"
    using Cons.prems(1) Cons.prems(2) [of c "fst (c_data c) + (x - nat (c_offset c))"] by (auto simp: apply_request_def buf_of_def)
  then have "fold (apply_request m) cs (apply_request m c D) x = fold (apply_request m') cs (apply_request m' c D') x"
    by (rule Cons.IH) (rule Cons.prems(2), simp_all)
  then show ?case by simp
qed simp

lemma execute_effect:
  assumes ok: "request_ok (mem v) cap c" and x: "execute c v = (Inr (f, w), v')"
  shows "\<And>k. k < length (mem v) \<Longrightarrow> c_write c \<or> k \<notin> buf_of c \<Longrightarrow> mem v' ! k = mem v ! k"
    "disk_ok (disk v) \<Longrightarrow> cap * SectorSize \<le> image_Size (disk v) \<Longrightarrow> (c_write c \<Longrightarrow> c_result f = 0 \<and> \<not> c_flush c) \<Longrightarrow>
       disk_ok (disk v') \<and> image_Size (disk v') = image_Size (disk v) \<and>
       (\<forall>k < image_Size (disk v). disk_byte (disk v') k = apply_request (mem v) c (disk_byte (disk v)) k)"
    "disk_ok (disk v) \<Longrightarrow> \<not> c_write c \<Longrightarrow> \<not> c_flush c \<Longrightarrow> c_result f = 0 \<Longrightarrow>
       slice (mem v') (fst (c_data c)) (snd (c_data c)) = map (\<lambda>i. disk_byte (disk v) (nat (c_offset c) + i)) [0..<snd (c_data c)]"
proof -
  obtain a n where d: "c_data c = (a, n)" by fastforce
  have vr: "ValidRange (mem v) a n" using ok d by (simp add: request_ok_def)
  note b = ValidRange_bound [OF vr]
  have same: "disk_ok (disk v') \<and> image_Size (disk v') = image_Size (disk v) \<and>
      (\<forall>k < image_Size (disk v). disk_byte (disk v') k = apply_request (mem v) c (disk_byte (disk v)) k)"
    if "same_content (disk v) (disk v')" "\<not> c_write c" using that by (simp add: same_content_def apply_request_def)
  show mem: "mem v' ! k = mem v ! k" if "k < length (mem v)" "c_write c \<or> k \<notin> buf_of c" for k
    using x d
  proof (cases rule: executeE)
    case (Flush e)
    then show ?thesis using syncImage_frame [of v] by auto
  next
    case (Read bs e im)
    then show ?thesis using that img.read_short [OF Read(4)] b d by (auto simp: nth_copy_at buf_of_def)
  qed auto
  show "disk_ok (disk v') \<and> image_Size (disk v') = image_Size (disk v) \<and>
      (\<forall>k < image_Size (disk v). disk_byte (disk v') k = apply_request (mem v) c (disk_byte (disk v)) k)"
    if h: "disk_ok (disk v)" "cap * SectorSize \<le> image_Size (disk v)" "c_write c \<Longrightarrow> c_result f = 0 \<and> \<not> c_flush c"
  proof (cases "c_write c")
    case False
    then show ?thesis using same execute_content [OF h(1) _ x] by blast
  next
    case wr: True
    from x d show ?thesis
    proof (cases rule: executeE)
      case (Write k e im)
      have "e = None" using h(3) [OF wr] Write(7) by (auto simp: failed_if_def split: if_splits)
      have o: "0 \<le> c_offset c" "nat (c_offset c) + n \<le> image_Size (disk v)" using request_range [OF ok Write(1,2)] h(2) d by auto
      have "image_WriteAt (slice (mem v) a n) (int (nat (c_offset c))) (disk v) = ((k, None), im)" using Write(5) o(1) \<open>e = None\<close> by simp
      from img.write_good [OF h(1) _ this] show ?thesis using o(2) b d wr Write(6)
        by (auto simp: apply_request_def length_slice nth_slice)
    qed (use h(3) [OF wr] wr in \<open>auto simp: failed_if_def\<close>)
  qed
  show "slice (mem v') (fst (c_data c)) (snd (c_data c)) = map (\<lambda>i. disk_byte (disk v) (nat (c_offset c) + i)) [0..<snd (c_data c)]"
    if h: "disk_ok (disk v)" "\<not> c_write c" "\<not> c_flush c" "c_result f = 0"
    using x d
  proof (cases rule: executeE)
    case (Read bs e im)
    have "e = None" using h(4) Read(6) by (auto simp: failed_if_def split: if_splits)
    then have bs: "bs = map (\<lambda>i. disk_byte (disk v) (nat (c_offset c) + i)) [0..<n]" using img.read_good [OF h(1) Read(4)] by simp
    have "slice (copy_at (mem v) a bs) a n = bs" using bs b by (intro nth_equalityI) (auto simp: length_slice nth_slice nth_copy_at)
    then show ?thesis using bs Read(5) d by simp
  qed (use h in \<open>auto simp: failed_if_def\<close>)
qed

subsection \<open>Executing a batch\<close>

text \<open>
  Requests that do not disturb each other or the used ring: status bytes are distinct and lie in no
  buffer, and the buffer of a read overlaps no other buffer.
\<close>

definition own_parts :: "SplitQueue \<Rightarrow> blkPendingRequest \<Rightarrow> bool" where
  "own_parts sq c \<longleftrightarrow> off_used sq (status_of c) \<and> (\<forall>x\<in>buf_of c. off_used sq x) \<and> status_of c \<notin> buf_of c"

definition no_clash :: "blkPendingRequest \<Rightarrow> blkPendingRequest \<Rightarrow> bool" where
  "no_clash c d \<longleftrightarrow> status_of c \<noteq> status_of d \<and> status_of c \<notin> buf_of d \<and> status_of d \<notin> buf_of c \<and>
     (c_write c \<and> c_write d \<or> buf_of c \<inter> buf_of d = {})"

definition apart :: "SplitQueue \<Rightarrow> blkPendingRequest list \<Rightarrow> bool" where
  "apart sq cs \<longleftrightarrow> (\<forall>c\<in>set cs. own_parts sq c \<and> \<not> (c_write c \<and> c_flush c)) \<and> sorted_wrt no_clash cs"

text \<open>The bytes a batch may change: the buffers of reads and, when it completes its requests, their status.\<close>

definition touched :: "bool \<Rightarrow> blkPendingRequest list \<Rightarrow> nat set" where
  "touched wb cs = (\<Union>c\<in>set cs. (if c_write c then {} else buf_of c) \<union> (if wb then {status_of c} else {}))"

definition all_written :: "blkPendingRequest list \<Rightarrow> blkPendingRequest list \<Rightarrow> bool" where
  "all_written cs fs \<longleftrightarrow> (\<forall>i < length cs. c_write (cs ! i) \<longrightarrow> c_result (fs ! i) = 0)"

definition disk_follows :: "nat \<Rightarrow> byte list \<Rightarrow> blkPendingRequest list \<Rightarrow> blkPendingRequest list \<Rightarrow> image \<Rightarrow> image \<Rightarrow> bool" where
  "disk_follows cap m cs fs d d' \<longleftrightarrow> (disk_ok d \<and> cap * SectorSize \<le> image_Size d \<and> all_written cs fs \<longrightarrow>
     disk_ok d' \<and> image_Size d' = image_Size d \<and> (\<forall>x < image_Size d. disk_byte d' x = fold (apply_request m) cs (disk_byte d) x))"

definition delivered :: "nat \<Rightarrow> byte list \<Rightarrow> blkPendingRequest list \<Rightarrow> blkPendingRequest list \<Rightarrow> image \<Rightarrow> byte list \<Rightarrow> bool" where
  "delivered cap m cs fs d m' \<longleftrightarrow> (disk_ok d \<and> cap * SectorSize \<le> image_Size d \<longrightarrow>
     (\<forall>i < length cs. \<not> c_write (cs ! i) \<and> \<not> c_flush (cs ! i) \<and> c_result (fs ! i) = 0 \<and> all_written (take i cs) fs \<longrightarrow>
        slice m' (fst (c_data (cs ! i))) (snd (c_data (cs ! i))) =
          map (\<lambda>k. fold (apply_request m) (take i cs) (disk_byte d) (nat (c_offset (cs ! i)) + k)) [0..<snd (c_data (cs ! i))]))"

lemma all_written_Cons: "all_written (c # cs) (f # fs) \<longleftrightarrow> (c_write c \<longrightarrow> c_result f = 0) \<and> all_written cs fs"
  unfolding all_written_def by (auto simp: less_Suc_eq_0_disj nth_Cons split: nat.splits)

lemma all_less_Suc: "(\<forall>i < Suc n. P i) \<longleftrightarrow> P 0 \<and> (\<forall>i < n. P (Suc i))"
  by (auto simp: less_Suc_eq_0_disj)

lemma slice_eq:
  assumes "length m' = length m" "a + n \<le> length m" "\<And>x. a \<le> x \<Longrightarrow> x < a + n \<Longrightarrow> m' ! x = m ! x" shows "slice m' a n = slice m a n"
  using assms by (intro nth_equalityI) (auto simp: length_slice nth_slice)

text \<open>The effect of a part of a batch: on memory, on the used ring, on the disk, and on the buffers of reads.\<close>

definition effect :: "bool \<Rightarrow> SplitQueue \<Rightarrow> nat \<Rightarrow> blkPendingRequest list \<Rightarrow> blkPendingRequest list \<Rightarrow> blk \<Rightarrow> blk \<Rightarrow> bool" where
  "effect wb sq cap cs fs v v' \<longleftrightarrow> frame v v' \<and>
     (\<forall>x < length (mem v). off_used sq x \<and> x \<notin> touched wb cs \<longrightarrow> mem v' ! x = mem v ! x) \<and>
     (if wb then reported sq fs (mem v) (mem v') else \<forall>x < length (mem v). \<not> off_used sq x \<longrightarrow> mem v' ! x = mem v ! x) \<and>
     disk_follows cap (mem v) cs fs (disk v) (disk v') \<and> delivered cap (mem v) cs fs (disk v) (mem v')"

lemma status_failed_if [simp]: "status_of (failed_if b c) = status_of c"
  by (simp add: status_of_def)

lemma execute_single:
  assumes "request_ok (mem v) cap c" "own_parts sq c" "\<not> (c_write c \<and> c_flush c)" "execute c v = (Inr (failed_if b c, w), v')"
  shows "effect False sq cap [c] [failed_if b c] v v'"
proof -
  note E = execute_effect [OF assms(1,4)]
  have "frame v v'" using execute_frame [OF assms(1,4)] by blast
  moreover have "mem v' ! x = mem v ! x" if "x < length (mem v)" "off_used sq x \<and> x \<notin> touched False [c] \<or> \<not> off_used sq x" for x
    using E(1) [OF that(1)] that(2) assms(2) by (cases "c_write c") (auto simp: touched_def own_parts_def)
  moreover have "disk_follows cap (mem v) [c] [failed_if b c] (disk v) (disk v')"
    using E(2) assms(3) by (auto simp: disk_follows_def all_written_def)
  moreover have "delivered cap (mem v) [c] [failed_if b c] (disk v) (mem v')"
    using E(3) by (simp add: delivered_def)
  ultimately show ?thesis by (simp add: effect_def)
qed

lemma apart_distinct: "sorted_wrt no_clash cs \<Longrightarrow> distinct (map status_of cs)"
  by (induction cs) (auto simp: no_clash_def)

lemma apart_status:
  assumes "apart sq cs" "c \<in> set cs" "d \<in> set cs" shows "status_of c \<notin> buf_of d"
proof -
  obtain i j where ij: "i < length cs" "j < length cs" "c = cs ! i" "d = cs ! j" using assms(2,3) by (metis in_set_conv_nth)
  consider "i = j" | "i < j" | "j < i" by linarith
  then show ?thesis using assms ij by cases (auto simp: apart_def own_parts_def sorted_wrt_iff_nth_less no_clash_def)
qed

lemma request_buffer: "request_ok m cap c \<Longrightarrow> fst (c_data c) + snd (c_data c) \<le> length m"
  using ValidRange_bound by (auto simp: request_ok_def)

text \<open>Completing the requests after they were executed.\<close>

lemma effect_complete:
  assumes e: "effect False sq cap cs fs v v1" and q: "queue_mapped (mem v) sq" and n: "length cs \<le> batch_size sq"
    and l: "list_all2 (\<lambda>c f. c_status f = c_status c \<and> c_write f = c_write c) cs fs" and a: "apart sq cs" and r: "\<forall>c\<in>set cs. request_ok (mem v) cap c"
    and c: "completeRequests sq (batch_size sq) fs v1 = (r, v')"
  shows "effect True sq cap cs fs v v'"
proof -
  have cf: "confined (mem v) (mem v1)" using e by (simp add: effect_def frame_def)
  have q1: "queue_mapped (mem v1) sq" using q confined_mapped [OF cf] by simp
  have st: "map status_of fs = map status_of cs" using l by (induction rule: list_all2_induct) (auto simp: status_of_def)
  have rd: "\<forall>f\<in>set fs. ready (mem v1) f \<and> off_used sq (status_of f)"
  proof
    fix f assume "f \<in> set fs"
    then obtain i where i: "i < length fs" "f = fs ! i" by (metis in_set_conv_nth)
    define c where "c = cs ! i"
    have "c \<in> set cs" "c_status f = c_status c" using list_all2_nthD2 [OF l i(1)] list_all2_lengthD [OF l] i by (simp_all add: c_def)
    then show "ready (mem v1) f \<and> off_used sq (status_of f)" using r a ready_confined [OF cf, of f] request_ready [of "mem v" cap c]
      by (auto simp: ready_def apart_def own_parts_def status_of_def)
  qed
  have d: "distinct (map status_of fs)" unfolding st using a apart_distinct by (simp add: apart_def)
  note C = complete_effect [OF q1 rd d _ c] and len = list_all2_lengthD [OF l]
  have f: "frame v1 v'" "disk v' = disk v1" using completeRequests_frame [OF q1 _ _ _ c] rd batch_size_range [of sq] by auto
  have ss: "status_of ` set fs = status_of ` set cs" using st by (metis list.set_map)
  have k: "mem v' ! x = mem v1 ! x" if "x < length (mem v)" "off_used sq x" "x \<notin> status_of ` set cs" for x
    using C(2) n len that ss confined_length [OF cf] by simp
  have u: "used_idx (mem v1) sq = used_idx (mem v) sq" "\<And>j. j < 32 \<Longrightarrow> used_elem (mem v1) sq j = used_elem (mem v) sq j"
    using used_cong [OF q confined_length [OF cf]] e by (auto simp: effect_def)
  have "delivered cap (mem v) cs fs (disk v) (mem v')" unfolding delivered_def
  proof (intro impI allI)
    fix i assume h: "disk_ok (disk v) \<and> cap * SectorSize \<le> image_Size (disk v)" "i < length cs"
      "\<not> c_write (cs ! i) \<and> \<not> c_flush (cs ! i) \<and> c_result (fs ! i) = 0 \<and> all_written (take i cs) fs"
    let ?c = "cs ! i"
    have i: "?c \<in> set cs" using h(2) by simp
    have "slice (mem v') (fst (c_data ?c)) (snd (c_data ?c)) = slice (mem v1) (fst (c_data ?c)) (snd (c_data ?c))"
    proof (rule slice_eq)
      show "length (mem v') = length (mem v1)" using f(1) by (simp add: frame_def confined_def)
      show "fst (c_data ?c) + snd (c_data ?c) \<le> length (mem v1)" using request_buffer [of "mem v" cap ?c] r i confined_length [OF cf] by simp
      fix x assume x: "fst (c_data ?c) \<le> x" "x < fst (c_data ?c) + snd (c_data ?c)"
      then have "x \<in> buf_of ?c" by (simp add: buf_of_def)
      moreover have "x < length (mem v)" using x request_buffer [of "mem v" cap ?c] r i by auto
      ultimately show "mem v' ! x = mem v1 ! x" using k a i apart_status [OF a _ i] by (auto simp: apart_def own_parts_def)
    qed
    then show "slice (mem v') (fst (c_data ?c)) (snd (c_data ?c)) =
        map (\<lambda>k. fold (apply_request (mem v)) (take i cs) (disk_byte (disk v)) (nat (c_offset ?c) + k)) [0..<snd (c_data ?c)]"
      using e h by (simp add: effect_def delivered_def)
  qed
  moreover have "reported sq fs (mem v) (mem v')" using C(1) n len u by (simp add: reported_def)
  moreover have "mem v' ! x = mem v ! x" if "x < length (mem v)" "off_used sq x" "x \<notin> touched True cs" for x
  proof -
    have t: "x \<notin> touched False cs" "x \<notin> status_of ` set cs" using that(3) by (auto simp: touched_def)
    show ?thesis using k [OF that(1,2) t(2)] e that t(1) by (simp add: effect_def)
  qed
  moreover have "frame v v'" using frame_trans [OF _ f(1)] e by (simp add: effect_def)
  ultimately show ?thesis using e f(2) by (simp add: effect_def)
qed

text \<open>The effect of a request followed by that of the requests after it.\<close>

lemma untouched_by_first:
  assumes a: "apart sq (c # cs)" and d: "d \<in> set cs" and e: "effect wb sq cap [c] [f] v v1" and x: "x < length (mem v)"
    and i: "x = status_of d \<or> x \<in> buf_of d \<and> (c_write d \<or> \<not> c_write c)"
  shows "mem v1 ! x = mem v ! x"
proof -
  have "no_clash c d" "own_parts sq d" using a d by (auto simp: apart_def)
  then have "off_used sq x" "x \<notin> touched wb [c]" using i by (auto simp: own_parts_def no_clash_def touched_def)
  then show ?thesis using e x by (simp add: effect_def)
qed

lemma untouched_by_rest:
  assumes a: "apart sq (c # cs)" and e: "effect wb sq cap cs fs v1 v'" and x: "x < length (mem v1)"
    and i: "x = status_of c \<or> x \<in> buf_of c \<and> \<not> c_write c"
  shows "mem v' ! x = mem v1 ! x"
proof -
  have "off_used sq x" using a i by (auto simp: apart_def own_parts_def)
  moreover have "x \<notin> touched wb cs" using a i by (auto simp: apart_def no_clash_def touched_def split: if_splits)
  ultimately show ?thesis using e x by (simp add: effect_def)
qed

lemma reported_Cons:
  assumes q: "queue_mapped m sq" and r: "reported sq [f] m m1" "reported sq fs m1 m'" and s: "m' ! status_of f = m1 ! status_of f"
    and n: "length (f # fs) \<le> batch_size sq"
  shows "reported sq (f # fs) m m'"
proof -
  let ?u = "used_idx m sq" and ?at = "\<lambda>i. used_at sq (used_idx m sq + of_nat i)"
  have u: "used_idx m1 sq = ?u + 1" using r(1) by (simp add: reported_def)
  have sh: "used_at sq (used_idx m1 sq + of_nat i) = ?at (Suc i)" for i by (simp add: u add.assoc)
  have ne: "?at 0 \<noteq> ?at (Suc i)" if "i < length fs" for i using used_at_distinct [OF q, of 0 "Suc i" ?u] that n by simp
  have R: "used_idx m' sq = ?u + of_nat (length (f # fs))"
    "\<forall>i < length fs. used_elem m' sq (?at (Suc i)) = (unat (c_id (fs ! i)), unat (c_length (fs ! i))) \<and> m' ! status_of (fs ! i) = c_result (fs ! i)"
    "\<forall>k < 32. (\<forall>i < length fs. k \<noteq> ?at (Suc i)) \<longrightarrow> used_elem m' sq k = used_elem m1 sq k"
    using r(2) unfolding reported_def sh by (simp_all add: u)
  have F: "used_elem m1 sq (?at 0) = (unat (c_id f), unat (c_length f))" "m1 ! status_of f = c_result f"
    "\<forall>k < 32. k \<noteq> ?at 0 \<longrightarrow> used_elem m1 sq k = used_elem m sq k"
    using r(1) by (simp_all add: reported_def)
  have "used_elem m' sq (?at 0) = (unat (c_id f), unat (c_length f))" using R(3) F(1) ne used_at_range [of sq "?u + of_nat 0"] by auto
  then show ?thesis unfolding reported_def length_Cons all_less_Suc using R F(2,3) s by simp
qed

lemma disk_follows_Cons:
  assumes "disk_follows cap m [c] [f] d d1" "disk_follows cap m1 cs fs d1 d'"
    and "\<And>x b. b \<in> set cs \<Longrightarrow> c_write b \<Longrightarrow> x \<in> buf_of b \<Longrightarrow> m1 ! x = m ! x"
  shows "disk_follows cap m (c # cs) (f # fs) d d'"
  unfolding disk_follows_def all_written_Cons
proof (intro impI)
  assume h: "disk_ok d \<and> cap * SectorSize \<le> image_Size d \<and> (c_write c \<longrightarrow> c_result f = 0) \<and> all_written cs fs"
  then have "all_written [c] [f]" by (simp add: all_written_def)
  then have 1: "disk_ok d1" "image_Size d1 = image_Size d" "\<forall>x < image_Size d. disk_byte d1 x = apply_request m c (disk_byte d) x"
    using assms(1) h by (simp_all add: disk_follows_def)
  then have 2: "disk_ok d'" "image_Size d' = image_Size d" "\<forall>x < image_Size d. disk_byte d' x = fold (apply_request m1) cs (disk_byte d1) x"
    using assms(2) h by (simp_all add: disk_follows_def)
  have "fold (apply_request m1) cs (disk_byte d1) x = fold (apply_request m) cs (apply_request m c (disk_byte d)) x" if "x < image_Size d" for x
    using 1(3) that assms(3) by (intro apply_requests_cong) simp_all
  then show "disk_ok d' \<and> image_Size d' = image_Size d \<and>
      (\<forall>x < image_Size d. disk_byte d' x = fold (apply_request m) (c # cs) (disk_byte d) x)" using 2 by simp
qed

lemma delivered_Cons:
  assumes D: "delivered cap m [c] [f] d m1" "delivered cap m1 cs fs d1 m'" and F: "disk_follows cap m [c] [f] d d1"
    and w: "\<And>x b. b \<in> set cs \<Longrightarrow> c_write b \<Longrightarrow> x \<in> buf_of b \<Longrightarrow> m1 ! x = m ! x"
    and s: "\<not> c_write c \<Longrightarrow> slice m' (fst (c_data c)) (snd (c_data c)) = slice m1 (fst (c_data c)) (snd (c_data c))"
    and o: "\<And>b g. b \<in> set cs \<Longrightarrow> \<not> c_write b \<Longrightarrow> \<not> c_flush b \<Longrightarrow> c_result b = 0 \<Longrightarrow> nat (c_offset b) + snd (c_data b) \<le> cap * SectorSize"
    and r: "list_all2 (\<lambda>c f. c_result f = 0 \<longrightarrow> c_result c = 0) cs fs"
  shows "delivered cap m (c # cs) (f # fs) d m'"
  unfolding delivered_def length_Cons all_less_Suc
proof (intro impI conjI allI)
  assume h: "disk_ok d \<and> cap * SectorSize \<le> image_Size d"
  show "slice m' (fst (c_data ((c # cs) ! 0))) (snd (c_data ((c # cs) ! 0))) =
      map (\<lambda>k. fold (apply_request m) (take 0 (c # cs)) (disk_byte d) (nat (c_offset ((c # cs) ! 0)) + k)) [0..<snd (c_data ((c # cs) ! 0))]"
    if "\<not> c_write ((c # cs) ! 0) \<and> \<not> c_flush ((c # cs) ! 0) \<and> c_result ((f # fs) ! 0) = 0 \<and> all_written (take 0 (c # cs)) (f # fs)"
    using D(1) h s that by (simp add: delivered_def all_written_def)
  fix i assume i: "i < length cs" and g: "\<not> c_write ((c # cs) ! Suc i) \<and> \<not> c_flush ((c # cs) ! Suc i) \<and> c_result ((f # fs) ! Suc i) = 0 \<and>
      all_written (take (Suc i) (c # cs)) (f # fs)"
  let ?b = "cs ! i"
  have a: "c_write c \<longrightarrow> c_result f = 0" "all_written (take i cs) fs" using g by (simp_all add: all_written_Cons)
  then have 1: "disk_ok d1" "image_Size d1 = image_Size d" "\<forall>x < image_Size d. disk_byte d1 x = apply_request m c (disk_byte d) x"
    using F h by (simp_all add: disk_follows_def all_written_def)
  have "slice m' (fst (c_data ?b)) (snd (c_data ?b)) =
      map (\<lambda>k. fold (apply_request m1) (take i cs) (disk_byte d1) (nat (c_offset ?b) + k)) [0..<snd (c_data ?b)]"
    using D(2) 1 h i g a by (simp add: delivered_def)
  also have "\<dots> = map (\<lambda>k. fold (apply_request m) (take i cs) (apply_request m c (disk_byte d)) (nat (c_offset ?b) + k)) [0..<snd (c_data ?b)]"
  proof (rule map_cong [OF refl])
    fix k assume k: "k \<in> set [0..<snd (c_data ?b)]"
    have "nat (c_offset ?b) + snd (c_data ?b) \<le> cap * SectorSize" using o [of ?b] i g list_all2_nthD [OF r i] by simp
    then have "nat (c_offset ?b) + k < image_Size d" using k h by simp
    then show "fold (apply_request m1) (take i cs) (disk_byte d1) (nat (c_offset ?b) + k) =
        fold (apply_request m) (take i cs) (apply_request m c (disk_byte d)) (nat (c_offset ?b) + k)"
      using 1(3) w by (intro apply_requests_cong) (auto dest: in_set_takeD)
  qed
  finally show "slice m' (fst (c_data ((c # cs) ! Suc i))) (snd (c_data ((c # cs) ! Suc i))) =
      map (\<lambda>k. fold (apply_request m) (take (Suc i) (c # cs)) (disk_byte d) (nat (c_offset ((c # cs) ! Suc i)) + k))
        [0..<snd (c_data ((c # cs) ! Suc i))]" by simp
qed

lemma effect_Cons:
  assumes e: "effect wb sq cap [c] [f] v v1" "effect wb sq cap cs fs v1 v'" and a: "apart sq (c # cs)"
    and q: "queue_mapped (mem v) sq" and ok: "\<forall>b\<in>set (c # cs). request_ok (mem v) cap b"
    and n: "length (c # cs) \<le> batch_size sq" and st: "status_of f = status_of c"
    and r: "list_all2 (\<lambda>c f. c_result f = 0 \<longrightarrow> c_result c = 0) cs fs"
  shows "effect wb sq cap (c # cs) (f # fs) v v'"
proof -
  have fr: "frame v v1" "frame v1 v'" using e by (simp_all add: effect_def)
  then have len: "length (mem v1) = length (mem v)" "length (mem v') = length (mem v)" by (simp_all add: frame_def confined_def)
  have b: "x < length (mem v)" if "d \<in> set (c # cs)" "x \<in> buf_of d" for d x
    using that request_buffer [of "mem v" cap d] ok by (auto simp: buf_of_def)
  have w: "mem v1 ! x = mem v ! x" if "d \<in> set cs" "c_write d" "x \<in> buf_of d" for d x
    using untouched_by_first [OF a that(1) e(1)] b that by auto
  have t: "touched wb (c # cs) = touched wb [c] \<union> touched wb cs" by (auto simp: touched_def)
  have "mem v' ! x = mem v ! x" if "x < length (mem v)" "off_used sq x" "x \<notin> touched wb (c # cs)" for x
    using that e len unfolding effect_def t by simp
  moreover have "if wb then reported sq (f # fs) (mem v) (mem v') else \<forall>x < length (mem v). \<not> off_used sq x \<longrightarrow> mem v' ! x = mem v ! x"
  proof (cases wb)
    case True
    have "status_of c < length (mem v1)" using ready_status [OF request_ready] ok len by fastforce
    then have "mem v' ! status_of f = mem v1 ! status_of f" using untouched_by_rest [OF a e(2)] st by simp
    moreover have "length (f # fs) \<le> batch_size sq" using n list_all2_lengthD [OF r] by simp
    ultimately show ?thesis using reported_Cons [OF q, of f "mem v1" fs "mem v'"] e True by (simp add: effect_def)
  qed (use e len in \<open>simp add: effect_def\<close>)
  moreover have "disk_follows cap (mem v) (c # cs) (f # fs) (disk v) (disk v')"
    by (rule disk_follows_Cons [where ?m1.0 = "mem v1" and ?d1.0 = "disk v1"]) (use e w in \<open>simp_all add: effect_def\<close>)
  moreover have "delivered cap (mem v) (c # cs) (f # fs) (disk v) (mem v')"
  proof (rule delivered_Cons [where ?m1.0 = "mem v1" and ?d1.0 = "disk v1", OF _ _ _ _ _ _ r])
    show "mem v1 ! x = mem v ! x" if "d \<in> set cs" "c_write d" "x \<in> buf_of d" for d x by (rule w [OF that])
    show "slice (mem v') (fst (c_data c)) (snd (c_data c)) = slice (mem v1) (fst (c_data c)) (snd (c_data c))" if "\<not> c_write c"
      using that untouched_by_rest [OF a e(2)] len request_buffer [of "mem v" cap c] ok by (intro slice_eq) (auto simp: buf_of_def)
    show "nat (c_offset d) + snd (c_data d) \<le> cap * SectorSize" if "d \<in> set cs" "\<not> c_flush d" "c_result d = 0" for d
      using request_range [of "mem v" cap d] ok that by simp
  qed (use e in \<open>simp_all add: effect_def\<close>)
  ultimately show ?thesis using frame_trans [OF fr] by (simp add: effect_def)
qed

lemma failed_if_list:
  assumes "list_all2 (\<lambda>c f. \<exists>b. f = failed_if b c) cs fs"
  shows "list_all2 (\<lambda>c f. c_result f = 0 \<longrightarrow> c_result c = 0) cs fs" "list_all2 (\<lambda>c f. c_status f = c_status c \<and> c_write f = c_write c) cs fs"
  using assms by (auto elim!: list_all2_mono simp: failed_if_def split: if_splits)

lemma effect_Nil: "effect wb sq cap [] [] v v"
  by (simp add: effect_def touched_def reported_def disk_follows_def delivered_def)

lemma batch_effect:
  assumes "queue_mapped (mem v) sq" "\<forall>c\<in>set cs. request_ok (mem v) cap c" "apart sq cs" "length cs \<le> batch_size sq" "e0 \<noteq> Some VPanic"
    "foldC (batch_body sq (batch_size sq) wb) cs (fin, ns, e0) v = (r, v')"
  shows "\<exists>fs ns' e. r = Inr (fin @ fs, ns', e) \<and> e \<noteq> Some VPanic \<and> list_all2 (\<lambda>c f. \<exists>b. f = failed_if b c) cs fs \<and> effect wb sq cap cs fs v v'"
  using assms
proof (induction cs arbitrary: v fin ns e0)
  case (Cons c cs)
  let ?n = "batch_size sq"
  have n: "0 < ?n" "?n \<le> 32" using batch_size_range [of sq] by simp_all
  obtain r1 v1 where x: "batch_body sq ?n wb c (fin, ns, e0) v = (r1, v1)" by fastforce
  have rc: "request_ok (mem v) cap c" using Cons.prems(2) by simp
  have own: "own_parts sq c" "\<not> (c_write c \<and> c_flush c)" "apart sq [c]" "apart sq cs" using Cons.prems(3) by (auto simp: apart_def)
  from Cons.prems(1) n rc Cons.prems(5) x show ?case
  proof (cases rule: batch_bodyE)
    case (1 b w e v2)
    have e1: "effect wb sq cap [c] [failed_if b c] v v1"
    proof (cases wb)
      case True
      then obtain u where u: "completeRequests sq ?n [failed_if b c] v2 = (u, v1)" using 1(10) by blast
      show ?thesis using effect_complete [OF execute_single [OF rc own(1,2) 1(1)] Cons.prems(1) _ _ own(3) _ u] rc n True by simp
    next
      case False
      then show ?thesis using execute_single [OF rc own(1,2) 1(1)] 1(8) by simp
    qed
    then have cf: "confined (mem v) (mem v1)" by (simp add: effect_def frame_def)
    have rest: "foldC (batch_body sq ?n wb) cs (fin @ [failed_if b c], ns \<or> w, e) v1 = (r, v')"
      using Cons.prems(6) x 1(2) by (simp add: andthen_def)
    have "\<exists>fs ns' e'. r = Inr ((fin @ [failed_if b c]) @ fs, ns', e') \<and> e' \<noteq> Some VPanic \<and>
        list_all2 (\<lambda>c f. \<exists>b. f = failed_if b c) cs fs \<and> effect wb sq cap cs fs v1 v'"
      by (rule Cons.IH [OF _ _ own(4) _ 1(3) rest])
        (use Cons.prems(1,2,4) confined_mapped [OF cf] request_ok_confined [OF cf] in simp_all)
    then obtain fs ns' e' where g: "r = Inr (fin @ (failed_if b c # fs), ns', e')" "e' \<noteq> Some VPanic"
      "list_all2 (\<lambda>c f. \<exists>b. f = failed_if b c) cs fs" "effect wb sq cap cs fs v1 v'" by auto
    have "effect wb sq cap (c # cs) (failed_if b c # fs) v v'"
      by (rule effect_Cons [OF e1 g(4) Cons.prems(3,1,2,4) _ failed_if_list(1) [OF g(3)]]) simp
    moreover have "list_all2 (\<lambda>c f. \<exists>b. f = failed_if b c) (c # cs) (failed_if b c # fs)" using g(3) by auto
    ultimately show ?thesis using g(1,2) by blast
  qed
qed (auto simp: ret_def intro: effect_Nil)

text \<open>The sync at the end of a batch can turn the status of writes into an error.\<close>

definition downgraded :: "blkPendingRequest \<Rightarrow> blkPendingRequest \<Rightarrow> bool" where
  "downgraded f g \<longleftrightarrow> g = f \<or> c_write f \<and> g = f\<lparr>c_result := 1\<rparr>"

lemma settle_effect:
  assumes e: "effect False sq cap cs fs v v1" and s: "settle ns fs v1 = (r, v2)" and l: "length fs = length cs"
    "\<forall>i < length cs. c_write (fs ! i) = c_write (cs ! i)"
  shows "\<exists>gs. r = Inr gs \<and> list_all2 downgraded fs gs \<and> effect False sq cap cs gs v v2"
proof -
  obtain gs where gs: "r = Inr gs" "list_all2 downgraded fs gs"
  proof -
    obtain u w where "syncImage v1 = (Inr u, w)" using syncImage_frame by (metis surj_pair)
    then obtain u w where u: "(if ns then syncImage else ret None) v1 = (Inr u, w)" by (cases ns) (auto simp: ret_def)
    show ?thesis
      by (rule that [of "if u = None then fs else map (\<lambda>c. if c_write c then c\<lparr>c_result := 1\<rparr> else c) fs"])
        (use s u in \<open>auto simp: settle_def andthen_def ret_def downgraded_def list_all2_conv_all_nth\<close>)
  qed
  note F = settle_frame [OF s] and L = list_all2_lengthD [OF gs(2)]
  have m: "mem v2 = mem v1" "frame v v2" using F frame_trans [of v v1 v2] e by (auto simp: effect_def)
  have z: "c_result (fs ! i) = 0" if "i < length cs" "c_result (gs ! i) = 0" for i
    using list_all2_nthD [OF gs(2), of i] that l(1) by (auto simp: downgraded_def)
  have aw: "all_written (take i cs) gs \<Longrightarrow> all_written (take i cs) fs" "all_written cs gs \<Longrightarrow> all_written cs fs" for i
    using z by (simp_all add: all_written_def)
  have rd: "c_result (fs ! i) = c_result (gs ! i)" if "i < length cs" "\<not> c_write (cs ! i)" for i
    using list_all2_nthD [OF gs(2), of i] that l by (auto simp: downgraded_def)
  have "disk_follows cap (mem v) cs gs (disk v) (disk v2)" unfolding disk_follows_def
  proof (intro impI)
    assume h: "disk_ok (disk v) \<and> cap * SectorSize \<le> image_Size (disk v) \<and> all_written cs gs"
    then have d: "disk_ok (disk v1) \<and> image_Size (disk v1) = image_Size (disk v) \<and>
        (\<forall>x < image_Size (disk v). disk_byte (disk v1) x = fold (apply_request (mem v)) cs (disk_byte (disk v)) x)"
      using e aw(2) by (simp add: effect_def disk_follows_def)
    then show "disk_ok (disk v2) \<and> image_Size (disk v2) = image_Size (disk v) \<and>
        (\<forall>x < image_Size (disk v). disk_byte (disk v2) x = fold (apply_request (mem v)) cs (disk_byte (disk v)) x)"
      using settle_content [OF _ s] by (simp add: same_content_def)
  qed
  moreover have "delivered cap (mem v) cs gs (disk v) (mem v2)" using e aw(1) rd m(1) by (simp add: effect_def delivered_def)
  ultimately have "effect False sq cap cs gs v v2" using e m by (simp add: effect_def)
  then show ?thesis using gs by blast
qed

text \<open>A batch as a whole: \<open>gs\<close> are its requests with the results they end with.\<close>

lemma IO_effect:
  assumes ok: "blk_ok v" and v: "VirtQueue v = Some sq" "\<not> closed v" "available sq v \<noteq> 0" "available sq v \<le> batch_size sq"
    and s: "snapshot_all (mem v) sq (batch_size sq) (capacity v) (writeback v) (LastAvailIdx v) [0..<available sq v] = Inr cs"
    and a: "apart sq cs" and io: "IO v = (r, v')"
  shows "\<exists>fs gs. list_all2 (\<lambda>c f. \<exists>b. f = failed_if b c) cs fs \<and> list_all2 downgraded fs gs \<and> effect True sq (capacity v) cs gs v v'"
proof -
  have q: "queue_mapped (mem v) sq" using ok v(1) by (simp add: blk_ok_def)
  have "\<forall>i\<in>set [0..<available sq v]. i < QueueSize" using v(4) batch_size_range [of sq] by (auto simp: QueueSize_def)
  from snapshot_all_ok [OF s this] have len: "length cs = available sq v" and rq: "\<forall>c\<in>set cs. request_ok (mem v) (capacity v) c"
    using ok by (simp_all add: blk_ok_def)
  then have n: "length cs \<le> batch_size sq" using v(4) by simp
  let ?n = "batch_size sq" and ?wb = "writeback v"
  have run: "andthen (run_batch sq ?n ?wb cs) (finish_batch sq ?n ?wb) v = (r, v')" using io v s by (simp add: IO_def)
  obtain rb v1 where rb: "run_batch sq ?n ?wb cs v = (rb, v1)" by fastforce
  then have fb: "foldC (batch_body sq ?n ?wb) cs ([], False, None) v = (rb, v1)" by (simp add: run_batch_def)
  obtain fs ns e where f: "rb = Inr (fs, ns, e)" "list_all2 (\<lambda>c f. \<exists>b. f = failed_if b c) cs fs" "effect ?wb sq (capacity v) cs fs v v1"
    using batch_effect [OF q rq a n _ fb] by auto
  note L = list_all2_lengthD [OF f(2)]
  have fin: "finish_batch sq ?n ?wb (fs, ns, e) v1 = (r, v')" using run rb f(1) by (simp add: andthen_def)
  show ?thesis
  proof (cases ?wb)
    case True
    then have "v' = v1" using fin by (auto simp: finish_batch_def comp_defs split: option.splits)
    moreover have "list_all2 downgraded fs fs" by (simp add: list_all2_refl downgraded_def)
    ultimately show ?thesis using f True by auto
  next
    case False
    obtain r2 v2 where st: "settle ns fs v1 = (r2, v2)" by fastforce
    have wr: "\<forall>i < length cs. c_write (fs ! i) = c_write (cs ! i)" using list_all2_nthD [OF failed_if_list(2) [OF f(2)]] by simp
    have e1: "effect False sq (capacity v) cs fs v v1" using f(3) False by simp
    obtain gs where g: "r2 = Inr gs" "list_all2 downgraded fs gs" "effect False sq (capacity v) cs gs v v2"
      using settle_effect [OF e1 st L [symmetric] wr] by blast
    have c: "completeRequests sq ?n gs v2 = (r, v')" using fin st g(1) False by (simp add: finish_batch_def andthen_def)
    have "list_all2 (\<lambda>c f. c_status f = c_status c \<and> c_write f = c_write c) cs gs"
    proof (rule list_all2_all_nthI)
      show "length cs = length gs" using L list_all2_lengthD [OF g(2)] by simp
      fix i assume i: "i < length cs"
      have "downgraded (fs ! i) (gs ! i)" using list_all2_nthD [OF g(2)] i L by simp
      then show "c_status (gs ! i) = c_status (cs ! i) \<and> c_write (gs ! i) = c_write (cs ! i)"
        using list_all2_nthD [OF failed_if_list(2) [OF f(2)] i] by (auto simp: downgraded_def)
    qed
    from effect_complete [OF g(3) q n this a rq c] show ?thesis using f(2) g(2) by blast
  qed
qed

subsection \<open>The requests of the driver\<close>

lemma snapshot_all_posted:
  assumes "length m < 2 ^ 63" "cap * SectorSize < 2 ^ 63"
    "\<forall>i\<in>set is. i < QueueSize \<and> posted m sq (gs ! i) \<and> hd (g_chain (gs ! i)) = avail_ring m sq (unat (taken + of_nat i) mod batch_size sq)"
  shows "\<exists>cs. snapshot_all m sq (batch_size sq) cap wb taken is = Inr cs \<and> list_all2 (\<lambda>i. represents m sq cap wb (gs ! i)) is cs"
  using assms(3)
proof (induction "is")
  case (Cons i js)
  then obtain cs where cs: "snapshot_all m sq (batch_size sq) cap wb taken js = Inr cs" "list_all2 (\<lambda>i. represents m sq cap wb (gs ! i)) js cs" by auto
  obtain c where c: "snapshotRequest m sq (batch_size sq) cap wb (hd (g_chain (gs ! i))) = Inr c" "represents m sq cap wb (gs ! i) c"
    using snapshot_posted [OF _ assms(1,2)] Cons.prems by (metis list.set_intros(1))
  then have "snapshot_all m sq (batch_size sq) cap wb taken (i # js) = Inr (c # cs)"
    using Cons.prems cs(1) batch_size_mod [of "unat (taken + of_nat i)" sq] by (simp add: avail_index_def)
  then show ?case using c(2) cs(2) by auto
qed simp

lemma posted_batch_snapshot:
  assumes b: "posted_batch sq gs v" and ok: "blk_ok v"
  obtains cs where "available sq v = length gs"
    "snapshot_all (mem v) sq (batch_size sq) (capacity v) (writeback v) (LastAvailIdx v) [0..<available sq v] = Inr cs"
    "list_all2 (represents (mem v) sq (capacity v) (writeback v)) gs cs"
proof -
  have n: "length gs \<le> 32" using b batch_size_range [of sq] by (simp add: posted_batch_def)
  then have av: "available sq v = length gs" using b by (simp add: posted_batch_def available_def unat_of_nat)
  have "\<exists>cs. snapshot_all (mem v) sq (batch_size sq) (capacity v) (writeback v) (LastAvailIdx v) [0..<length gs] = Inr cs \<and>
      list_all2 (\<lambda>i. represents (mem v) sq (capacity v) (writeback v) (gs ! i)) [0..<length gs] cs"
    by (rule snapshot_all_posted) (use b ok n in \<open>auto simp: posted_batch_def blk_ok_def QueueSize_def\<close>)
  then show ?thesis using that av by (auto simp: list_all2_conv_all_nth)
qed

lemma represents_apart:
  assumes r: "list_all2 (represents m sq cap wb) gs cs" and s: "separate sq gs" shows "apart sq cs"
proof -
  note n = list_all2_lengthD [OF r] and R = list_all2_nthD [OF r]
  have e: "status_of (cs ! i) = g_status (gs ! i)" "buf_of (cs ! i) = g_range (gs ! i)" "c_write (cs ! i) = (g_type (gs ! i) = 1)"
    "\<not> (c_write (cs ! i) \<and> c_flush (cs ! i))" if "i < length gs" for i
    using R [OF that] by (auto simp: represents_def status_of_def buf_of_def g_range_def is_flush_def)
  have "own_parts sq (cs ! i) \<and> \<not> (c_write (cs ! i) \<and> c_flush (cs ! i))" if "i < length cs" for i
  proof -
    have "gs ! i \<in> set gs" using that n by simp
    then show ?thesis using e [of i] that n s unfolding separate_def own_parts_def by auto
  qed
  moreover have "no_clash (cs ! i) (cs ! j)" if "i < j" "j < length cs" for i j
    using e [of i] e [of j] that n s sorted_wrt_nth_less [of g_apart gs i j] by (simp add: separate_def no_clash_def g_apart_def)
  ultimately show ?thesis by (auto simp: apart_def sorted_wrt_iff_nth_less in_set_conv_nth)
qed

lemma apply_requests_guest:
  assumes "list_all2 (\<lambda>g c. represents m sq cap wb g c \<and> (c_write c \<longrightarrow> c_result c = 0)) gs cs"
  shows "fold (apply_request m) cs D = fold (disk_after m) gs D"
  using assms
proof (induction arbitrary: D rule: list_all2_induct)
  case (Cons g gs c cs)
  have "apply_request m c D = disk_after m g D"
  proof -
    have w: "c_write c = (g_type g = 1)" "c_data c = g_buf g" using Cons(1) by (simp_all add: represents_def)
    have "nat (c_offset c) = 512 * g_sector g" if "c_write c"
      using Cons(1) that by (auto simp: represents_def refusal_def nat_mult_distrib split: if_splits)
    then show ?thesis using w by (intro ext) (auto simp: apply_request_def disk_after_def)
  qed
  then show ?case using Cons.IH by simp
qed simp

text \<open>What a batch of posted requests does, for the requests with the results they end with.\<close>

lemma posted_batch_effect:
  assumes b: "posted_batch sq gs v" and ok: "blk_ok v" and c: "\<not> closed v" and io: "IO v = (r, v')"
  obtains cs rs where "list_all2 (represents (mem v) sq (capacity v) (writeback v)) gs cs" "effect True sq (capacity v) cs rs v v'"
    "length rs = length gs" "\<And>i. i < length gs \<Longrightarrow> c_id (rs ! i) = c_id (cs ! i) \<and> c_length (rs ! i) = c_length (cs ! i) \<and>
      status_of (rs ! i) = g_status (gs ! i) \<and> (c_result (rs ! i) = c_result (cs ! i) \<or> c_result (cs ! i) \<noteq> 2 \<and> c_result (rs ! i) = 1) \<and>
      (c_result (rs ! i) = 0 \<longrightarrow> c_result (cs ! i) = 0)"
proof -
  obtain cs where cs: "available sq v = length gs"
    "snapshot_all (mem v) sq (batch_size sq) (capacity v) (writeback v) (LastAvailIdx v) [0..<available sq v] = Inr cs"
    "list_all2 (represents (mem v) sq (capacity v) (writeback v)) gs cs" using posted_batch_snapshot [OF b ok] .
  have B: "VirtQueue v = Some sq" "available sq v \<noteq> 0" "available sq v \<le> batch_size sq" "separate sq gs"
    using b cs(1) by (auto simp: posted_batch_def)
  obtain fs rs where f: "list_all2 (\<lambda>c f. \<exists>b. f = failed_if b c) cs fs" "list_all2 downgraded fs rs" "effect True sq (capacity v) cs rs v v'"
    using IO_effect [OF ok B(1) c B(2,3) cs(2) represents_apart [OF cs(3) B(4)] io] by blast
  show ?thesis
  proof (rule that [OF cs(3) f(3)])
    show n: "length rs = length gs" using list_all2_lengthD [OF cs(3)] list_all2_lengthD [OF f(1)] list_all2_lengthD [OF f(2)] by simp
    fix i assume i: "i < length gs"
    then obtain bo where F: "fs ! i = failed_if bo (cs ! i)" "downgraded (fs ! i) (rs ! i)"
      using list_all2_nthD [OF f(1), of i] list_all2_nthD2 [OF f(2), of i] list_all2_lengthD [OF cs(3)] n by auto
    have R: "c_status (cs ! i) = Some (g_status (gs ! i))" "c_write (cs ! i) \<longrightarrow> c_result (cs ! i) \<noteq> 2"
      using list_all2_nthD [OF cs(3) i] by (auto simp: represents_def refusal_def)
    show "c_id (rs ! i) = c_id (cs ! i) \<and> c_length (rs ! i) = c_length (cs ! i) \<and>
      status_of (rs ! i) = g_status (gs ! i) \<and> (c_result (rs ! i) = c_result (cs ! i) \<or> c_result (cs ! i) \<noteq> 2 \<and> c_result (rs ! i) = 1) \<and>
      (c_result (rs ! i) = 0 \<longrightarrow> c_result (cs ! i) = 0)"
      using F R by (auto simp: downgraded_def failed_if_def status_of_def split: if_splits)
  qed
qed

subsection \<open>One request\<close>

lemma posted_one:
  assumes b: "posted_batch sq [g] v" and ok: "blk_ok v" and cl: "\<not> closed v" and io: "IO v = (r, v')"
  obtains c f w v1 h v2 where "represents (mem v) sq (capacity v) (writeback v) g c" "execute c v = (Inr (f, w), v1)"
    "if writeback v then h = f \<and> v2 = v1 else settle w [f] v1 = (Inr [h], v2)"
    "mem v' ! g_status g = c_result h" "dirty v' = dirty v2"
proof -
  note out = that
  let ?n = "batch_size sq"
  obtain cs where cs: "available sq v = length [g]"
    "snapshot_all (mem v) sq ?n (capacity v) (writeback v) (LastAvailIdx v) [0..<available sq v] = Inr cs"
    "list_all2 (represents (mem v) sq (capacity v) (writeback v)) [g] cs" using posted_batch_snapshot [OF b ok] .
  then obtain c where c: "cs = [c]" "represents (mem v) sq (capacity v) (writeback v) g c" by (auto simp: list_all2_Cons1)
  have q: "queue_mapped (mem v) sq" "VirtQueue v = Some sq" "off_used sq (g_status g)"
    using b ok by (simp_all add: posted_batch_def blk_ok_def separate_def)
  have rc: "request_ok (mem v) (capacity v) c" using snapshot_all_ok [OF cs(2)] cs(1) c(1) ok by (simp add: blk_ok_def QueueSize_def)
  have run: "andthen (run_batch sq ?n (writeback v) [c]) (finish_batch sq ?n (writeback v)) v = (r, v')"
    using io cl q(2) cs(1,2) c(1) batch_size_range [of sq] by (simp add: IO_def)
  obtain r1 v1 where x1: "execute c v = (r1, v1)" by fastforce
  obtain bo w where x: "execute c v = (Inr (failed_if bo c, w), v1)" "frame v v1" using execute_frame [OF rc x1] x1 by auto
  let ?f = "failed_if bo c"
  have st: "c_status c = Some (g_status g)" using c(2) by (simp add: represents_def)
  have fin: thesis if h: "if writeback v then h = ?f \<and> v2 = v1 else settle w [?f] v1 = (Inr [h], v2)" "c_status h = c_status c" "frame v v2"
    and co: "completeRequests sq ?n [h] v2 = (u, v')" for h v2 u
  proof (rule out [OF c(2) x(1) h(1)])
    have cf: "confined (mem v) (mem v2)" using h(3) by (simp add: frame_def)
    have q2: "queue_mapped (mem v2) sq" using q(1) confined_mapped [OF cf] by simp
    have vs: "ValidRange (mem v2) (g_status g) 1" using rc st confined_valid [OF cf] by (auto simp: request_ok_def)
    have hs: "c_status h = Some (g_status g)" using h(2) st by simp
    note C = complete_single [OF q2 _ _ hs vs co]
    show "mem v' ! g_status g = c_result h" "dirty v' = dirty v2"
      using C batch_size_range [of sq] q(3) ValidRange_bound [OF vs] by auto
  qed
  show thesis
  proof (cases "writeback v")
    case True
    obtain u v2 where co: "completeRequests sq ?n [?f] v1 = (u, v2)" by fastforce
    have cf: "confined (mem v) (mem v1)" using x(2) by (simp add: frame_def)
    have "u \<noteq> Inl VPanic" using completeRequests_frame [OF _ _ _ _ co] q(1) confined_mapped [OF cf] batch_size_range [of sq]
        request_ready [OF rc] ready_confined [OF cf] by simp
    obtain r3 v3 where n: "note_error None (completeRequests sq ?n [?f]) v1 = (r3, v3)" by fastforce
    obtain e where e: "v3 = v2" "r3 = Inr e" using note_error_frame [OF n co \<open>u \<noteq> Inl VPanic\<close>] by auto
    have "v' = v2" using run x(1) n e True
      by (auto simp: run_batch_def batch_body_def finish_batch_def comp_defs split: option.splits)
    then show ?thesis using fin [of ?f v1 u] co x(2) True by simp
  next
    case False
    obtain r2 v2 where s: "settle w [?f] v1 = (r2, v2)" by fastforce
    obtain h where h: "r2 = Inr [h]" "c_status h = c_status ?f"
    proof -
      obtain u w' where "syncImage v1 = (Inr u, w')" using syncImage_frame by (metis surj_pair)
      then show ?thesis using s that by (cases w; cases u) (auto simp: settle_def andthen_def ret_def split: if_splits)
    qed
    have "completeRequests sq ?n [h] v2 = (r, v')" using run x(1) s h(1) False
      by (simp add: run_batch_def batch_body_def finish_batch_def comp_defs)
    then show ?thesis using fin [of h v2 r] s h False settle_frame [OF s] frame_trans [OF x(2), of v2] by simp
  qed
qed

text \<open>The sync at the end of a batch of one request.\<close>

lemma settle_one:
  assumes "settle w [f] v = (Inr [h], v')"
  shows "h = (if w \<and> fst (image_Sync (disk v)) \<noteq> None \<and> c_write f then f\<lparr>c_result := 1\<rparr> else f)"
    "w \<and> fst (image_Sync (disk v)) = None \<Longrightarrow> \<not> dirty v'"
  using assms by (cases w; auto simp: settle_def andthen_def ret_def syncImage_def split: prod.splits option.splits if_splits)+

subsection \<open>Sample requests\<close>

text \<open>The request of the sample device, as its driver sees it.\<close>

definition sample_guest :: "nat \<Rightarrow> guest_request" where
  "sample_guest ty = \<lparr>g_chain = [0, 1, 2], g_type = ty, g_sector = 1, g_buf = (1040, 512), g_status = 1600\<rparr>"

lemma sample_posted:
  assumes "ty = 0 \<or> ty = 1" shows "posted_batch sample_queue [sample_guest (unat ty)] (sample_blk ty)"
proof -
  have v: "\<forall>i\<in>{0, 1, 2}. desc_valid (sample_memory ty) sample_queue i"
    by (simp add: desc_valid_def sample_size sample_desc sample_valid)
  have "posted (sample_memory ty) sample_queue (sample_guest (unat ty))" using assms v
    by (elim disjE) (simp_all add: posted_def sample_guest_def sample_desc sample_header Let_def descFNext_def descFWrite_def)
  moreover have "separate sample_queue [sample_guest (unat ty)]"
    by (simp add: separate_def sample_guest_def g_range_def off_used_def sample_queue_def)
  ultimately show ?thesis by (simp add: posted_batch_def sample_parts sample_avail sample_size) (simp add: sample_guest_def)
qed

text \<open>A second request in the same batch: a read of the sector that the first one writes, into another buffer.\<close>

definition pair_byte :: "nat \<Rightarrow> byte" where
  "pair_byte a =
     (if a = 48 then 0x50 else if a = 49 then 6 else if a = 56 then 16 else if a = 60 then 1 else if a = 62 then 4
      else if a = 64 then 0xa4 else if a = 65 then 6 else if a = 73 then 2 else if a = 76 then 3 else if a = 78 then 5
      else if a = 80 then 0x41 else if a = 81 then 6 else if a = 88 then 1 else if a = 92 then 2
      else if a = 514 then 2 else if a = 518 then 3 else if a = 1624 then 1 else guest_byte_at 1 a)"

definition pair_memory :: "byte list" where
  "pair_memory = map pair_byte [0..<2300]"

definition pair_blk :: blk where
  "pair_blk = (sample_blk 1)\<lparr>mem := pair_memory\<rparr>"

definition second_guest :: guest_request where
  "second_guest = \<lparr>g_chain = [3, 4, 5], g_type = 0, g_sector = 1, g_buf = (1700, 512), g_status = 1601\<rparr>"

lemma load_pair: "a + n \<le> 2300 \<Longrightarrow> load_le n pair_memory a = le_nat (map pair_byte [a..<a + n])"
  by (simp add: load_le_def pair_memory_def slice_def take_map drop_map)

lemma pair_valid: "a + n \<le> 2300 \<Longrightarrow> ValidRange pair_memory a n"
  by (auto simp: ValidRange_def pair_memory_def MMIOStart_def)

lemma pair_desc:
  "desc_at pair_memory sample_queue 0 = \<lparr>d_Addr = 1024, d_Len = 16, d_Flags = 1, d_Next = 1\<rparr>"
  "desc_at pair_memory sample_queue (Suc 0) = \<lparr>d_Addr = 1040, d_Len = 512, d_Flags = 1, d_Next = 2\<rparr>"
  "desc_at pair_memory sample_queue 2 = \<lparr>d_Addr = 1600, d_Len = 1, d_Flags = 2, d_Next = 0\<rparr>"
  "desc_at pair_memory sample_queue 3 = \<lparr>d_Addr = 1616, d_Len = 16, d_Flags = 1, d_Next = 4\<rparr>"
  "desc_at pair_memory sample_queue 4 = \<lparr>d_Addr = 1700, d_Len = 512, d_Flags = 3, d_Next = 5\<rparr>"
  "desc_at pair_memory sample_queue 5 = \<lparr>d_Addr = 1601, d_Len = 1, d_Flags = 2, d_Next = 0\<rparr>"
  by (simp_all add: desc_at_def sample_queue_def load_pair upt_steps pair_byte_def guest_byte_at_def Let_def)

lemma pair_header:
  "load_le 4 pair_memory 1024 = 1" "load_le 8 pair_memory 1032 = 1" "load_le 4 pair_memory 1616 = 0" "load_le 8 pair_memory 1624 = 1"
  "avail_idx pair_memory sample_queue = 2" "avail_ring pair_memory sample_queue 0 = 0" "avail_ring pair_memory sample_queue (Suc 0) = 3"
  by (simp_all add: avail_idx_def avail_ring_def sample_queue_def load_pair upt_steps pair_byte_def guest_byte_at_def)

lemma pair_posted: "posted_batch sample_queue [sample_guest 1, second_guest] pair_blk" "blk_ok pair_blk"
proof -
  have v: "\<forall>i\<in>{0, 1, 2, 3, 4, 5}. desc_valid pair_memory sample_queue i"
    by (simp add: desc_valid_def sample_size pair_desc pair_valid)
  have "posted pair_memory sample_queue (sample_guest 1)" "posted pair_memory sample_queue second_guest" using v
    by (simp_all add: posted_def sample_guest_def second_guest_def pair_desc pair_header Let_def descFNext_def descFWrite_def)
  moreover have "separate sample_queue [sample_guest 1, second_guest]"
    by (simp add: separate_def sample_guest_def second_guest_def g_range_def off_used_def sample_queue_def g_apart_def)
  moreover have "hd (g_chain (sample_guest 1)) = 0" "hd (g_chain second_guest) = 3" by (simp_all add: sample_guest_def second_guest_def)
  ultimately show "posted_batch sample_queue [sample_guest 1, second_guest] pair_blk"
    by (simp add: posted_batch_def pair_blk_def sample_parts pair_header sample_size all_less_Suc)
  show "blk_ok pair_blk" using pair_valid
    by (auto simp: blk_ok_def pair_blk_def sample_parts queue_mapped_def sample_queue_def SectorSize_def pair_memory_def intro!: exI [of _ 3])
qed

lemma sample_disk: "disk_ok (Raw sample_raw)" "image_Size (Raw sample_raw) = 1024"
  by (simp_all add: raw_ok_def sample_raw_def raw_Size_def)

section \<open>Properties\<close>

text \<open>
  C12. A write. For a batch of one write request, as the driver laid it out: the status byte is 0 exactly when the
  device is writable, the sectors lie on the disk, the image took the bytes of the buffer at 512 times the sector, and, if the driver did not
  take over the flushing of the disk, the image was synced; otherwise it is 1. With status 0 the disk is the
  old one with the buffer laid over those sectors, and nothing is left unsynced unless the driver does the flushing.
\<close>

theorem blk_write_done:
  assumes "posted_batch sq [g] v" "blk_ok v" "\<not> closed v" "disk_ok (disk v)" "capacity v * SectorSize \<le> image_Size (disk v)"
    "g_type g = 1" "g_buf g = (a, n)" "image_WriteAt (slice (mem v) a n) (int (512 * g_sector g)) (disk v) = ((k, e), im)" "IO v = (r, v')"
  shows "mem v' ! g_status g =
      (if \<not> readOnly v \<and> on_disk (capacity v) g \<and> e = None \<and> (writeback v \<or> fst (image_Sync im) = None) then 0 else 1) \<and>
    (mem v' ! g_status g = 0 \<longrightarrow> disk_ok (disk v') \<and> (writeback v \<or> \<not> dirty v') \<and>
      (\<forall>x < image_Size (disk v). disk_byte (disk v') x =
        (if 512 * g_sector g \<le> x \<and> x < 512 * g_sector g + n then mem v ! (a + (x - 512 * g_sector g)) else disk_byte (disk v) x)))"
  using assms(1-3,9)
proof (cases rule: posted_one)
  case (1 c f w v1 h v2)
  have c: "c_write c" "\<not> c_flush c" "c_data c = (a, n)" "c_result c = (if on_disk (capacity v) g then 0 else 1)"
    "on_disk (capacity v) g \<Longrightarrow> c_offset c = int (512 * g_sector g)"
    using 1(1) assms(6,7) by (auto simp: represents_def refusal_def is_flush_def)
  have ex: "c_result f = (if \<not> readOnly v \<and> on_disk (capacity v) g \<and> e = None then 0 else 1) \<and>
      (\<not> readOnly v \<and> on_disk (capacity v) g \<longrightarrow> w \<and> disk v1 = im) \<and> (\<not> (\<not> readOnly v \<and> on_disk (capacity v) g) \<longrightarrow> \<not> w) \<and> c_write f"
    using 1(2) c(3)
  proof (cases rule: executeE)
    case (Write k' e' im')
    then have "on_disk (capacity v) g" using c(4) by (auto split: if_splits)
    then show ?thesis using Write c assms(8) by (auto simp: failed_if_def)
  qed (use c in \<open>auto simp: failed_if_def split: if_splits\<close>)
  have st: "mem v' ! g_status g =
      (if \<not> readOnly v \<and> on_disk (capacity v) g \<and> e = None \<and> (writeback v \<or> fst (image_Sync im) = None) then 0 else 1)"
    using 1(3,4) ex settle_one(1) [of w f v1 h v2] by (cases "writeback v") auto
  have dirty: "writeback v \<or> \<not> dirty v'" if "mem v' ! g_status g = 0"
    using that st ex 1(3,5) settle_one(2) [of w f v1 h v2] by (auto split: if_splits)
  have content: "disk_ok (disk v') \<and> (\<forall>x < image_Size (disk v). disk_byte (disk v') x = disk_after (mem v) g (disk_byte (disk v)) x)"
    if z: "mem v' ! g_status g = 0"
    using assms(1-3,9)
  proof (cases rule: posted_batch_effect)
    case (1 cs rs)
    then obtain d where d: "cs = [d]" "represents (mem v) sq (capacity v) (writeback v) g d" by (auto simp: list_all2_Cons1)
    have "c_result (rs ! 0) = 0" "c_result d = 0" using 1(2-4) z d(1) by (auto simp: effect_def reported_def)
    then show ?thesis using 1(2) d assms(4,5) apply_requests_guest [of "mem v" sq "capacity v" "writeback v" "[g]" "[d]"]
      by (simp add: effect_def disk_follows_def all_written_def)
  qed
  show ?thesis using st dirty content assms(6,7) by (auto simp: disk_after_def)
qed

theorem blk_write_done_witness:
  "\<exists>r v'. IO (sample_blk 1) = (r, v') \<and> mem v' ! 1600 = 0 \<and> \<not> dirty v' \<and>
    (\<forall>x < 1024. disk_byte (disk v') x = (if 512 \<le> x then 7 else 0))"
proof -
  obtain r v' where io: "IO (sample_blk 1) = (r, v')" by fastforce
  have p: "posted_batch sample_queue [sample_guest 1] (sample_blk 1)" "blk_ok (sample_blk 1)"
    using sample_posted [of 1] sample_batch(1) [of 1] by simp_all
  have "length (slice (sample_memory 1) 1040 512) = 512" by (simp add: length_slice length_sample)
  then obtain q where q: "image_WriteAt (slice (sample_memory 1) 1040 512) 512 (Raw sample_raw) = ((512, None), Raw q)" "script (rfile q) = []"
    using sample_write by blast
  have s: "fst (image_Sync (Raw q)) = None" using sample_sync [OF q(2)] by auto
  have od: "on_disk 2 (sample_guest 1)" by (simp add: on_disk_def sample_guest_def)
  have "sample_memory 1 ! (1040 + (x - 512)) = 7" if "512 \<le> x" "x < 1024" for x
    using that by (simp add: sample_memory_def guest_byte_at_def)
  moreover have "disk_byte (Raw sample_raw) x = 0" for x by (simp add: sample_raw_def raw_byte_def)
  ultimately show ?thesis
    using blk_write_done [OF p _ _ _ _ _ _ io, of 1040 512 512 None "Raw q"] q(1) s od io sample_disk
    by (simp add: sample_parts sample_guest_def SectorSize_def)
qed

text \<open>
  C13. A read. For a batch of one read request, as the driver laid it out: the status byte is 0 exactly when the sectors lie
  on the disk and the image could be read at 512 times the sector, and 1 otherwise. With status 0 the buffer holds the
  bytes of the disk from there on, and a read never changes the disk.
\<close>

theorem blk_read_done:
  assumes "posted_batch sq [g] v" "blk_ok v" "\<not> closed v" "disk_ok (disk v)" "capacity v * SectorSize \<le> image_Size (disk v)"
    "g_type g = 0" "g_buf g = (a, n)" "image_ReadAt n (int (512 * g_sector g)) (disk v) = ((bs, e), im)" "IO v = (r, v')"
  shows "mem v' ! g_status g = (if on_disk (capacity v) g \<and> e = None then 0 else 1) \<and>
    (mem v' ! g_status g = 0 \<longrightarrow> slice (mem v') a n = map (\<lambda>i. disk_byte (disk v) (512 * g_sector g + i)) [0..<n]) \<and>
    disk_ok (disk v') \<and> (\<forall>x < image_Size (disk v). disk_byte (disk v') x = disk_byte (disk v) x)"
proof -
  have "mem v' ! g_status g = (if on_disk (capacity v) g \<and> e = None then 0 else 1)"
    using assms(1-3,9)
  proof (cases rule: posted_one)
    case (1 c f w v1 h v2)
    have c: "\<not> c_write c" "\<not> c_flush c" "c_data c = (a, n)" "c_result c = (if on_disk (capacity v) g then 0 else 1)"
      "on_disk (capacity v) g \<Longrightarrow> c_offset c = int (512 * g_sector g)"
      using 1(1) assms(6,7) by (auto simp: represents_def refusal_def is_flush_def)
    have "c_result f = (if on_disk (capacity v) g \<and> e = None then 0 else 1) \<and> \<not> c_write f"
      using 1(2) c(3)
    proof (cases rule: executeE)
      case (Read bs' e' im')
      then have "on_disk (capacity v) g" using c(4) by (auto split: if_splits)
      then show ?thesis using Read c assms(8) by (auto simp: failed_if_def)
    qed (use c in \<open>auto simp: failed_if_def split: if_splits\<close>)
    then show ?thesis using 1(3,4) settle_one(1) [of w f v1 h v2] by (cases "writeback v") auto
  qed
  moreover have "(mem v' ! g_status g = 0 \<longrightarrow> slice (mem v') a n = map (\<lambda>i. disk_byte (disk v) (512 * g_sector g + i)) [0..<n]) \<and>
      disk_ok (disk v') \<and> (\<forall>x < image_Size (disk v). disk_byte (disk v') x = disk_byte (disk v) x)"
    using assms(1-3,9)
  proof (cases rule: posted_batch_effect)
    case (1 cs rs)
    then obtain d where d: "cs = [d]" "represents (mem v) sq (capacity v) (writeback v) g d" by (auto simp: list_all2_Cons1)
    have p: "\<not> c_write d" "\<not> c_flush d" "c_data d = (a, n)" using d(2) assms(6,7) by (auto simp: represents_def is_flush_def)
    have F: "disk_follows (capacity v) (mem v) [d] rs (disk v) (disk v')" "delivered (capacity v) (mem v) [d] rs (disk v) (mem v')"
      "mem v' ! g_status g = c_result (rs ! 0)"
      using 1(2-4) d(1) by (auto simp: effect_def reported_def)
    have o: "nat (c_offset d) = 512 * g_sector g" if "c_result (rs ! 0) = 0"
      using that 1(4) [of 0] d assms(6) by (auto simp: represents_def refusal_def nat_mult_distrib split: if_splits)
    have "all_written [d] rs" "all_written [] rs" using p(1) by (simp_all add: all_written_def)
    then have "disk_ok (disk v') \<and> (\<forall>x < image_Size (disk v). disk_byte (disk v') x = disk_byte (disk v) x)"
      "c_result (rs ! 0) = 0 \<longrightarrow> slice (mem v') a n = map (\<lambda>i. disk_byte (disk v) (nat (c_offset d) + i)) [0..<n]"
      using F(1,2) p assms(4,5) by (simp_all add: disk_follows_def delivered_def apply_request_def)
    then show ?thesis using o F(3) by auto
  qed
  ultimately show ?thesis by blast
qed

theorem blk_read_done_witness:
  "\<exists>r v'. IO (sample_blk 0) = (r, v') \<and> mem v' ! 1600 = 0 \<and> slice (mem v') 1040 512 = replicate 512 0"
proof -
  obtain r v' where io: "IO (sample_blk 0) = (r, v')" by fastforce
  have p: "posted_batch sample_queue [sample_guest 0] (sample_blk 0)" "blk_ok (sample_blk 0)"
    using sample_posted [of 0] sample_batch(1) [of 0] by simp_all
  obtain bs q where q: "image_ReadAt 512 512 (Raw sample_raw) = ((bs, None), Raw q)" using sample_read by blast
  have od: "on_disk 2 (sample_guest 0)" by (simp add: on_disk_def sample_guest_def)
  have z: "map (\<lambda>i. disk_byte (Raw sample_raw) (512 + i)) [0..<512] = replicate 512 0"
    by (intro nth_equalityI) (simp_all add: sample_raw_def raw_byte_def)
  show ?thesis
    using blk_read_done [OF p _ _ _ _ _ _ io, of 1040 512 bs None "Raw q"] q od io sample_disk z
    by (simp add: sample_parts sample_guest_def SectorSize_def)
qed

text \<open>
  C15. The block device serves a batch as a disk would serve its requests one after the other. For every batch
  a driver can post, whatever the disk does, with or without write-back: each request gets an entry in the
  used ring with the number of its chain, in order, the two ring positions advance by the batch, and each
  status byte is 0 or 1, or 2 for a command that is not supported; a request outside the disk gets 1. A read with status 0 finds in its buffer
  the sectors it names, on the disk that results from the writes before it, as long as those have status 0; and when all
  writes have status 0, the disk at the end is the disk at the beginning with the writes laid over it in order.
\<close>

theorem blk_batch_served:
  assumes "posted_batch sq gs v" "blk_ok v" "\<not> closed v" "disk_ok (disk v)" "capacity v * SectorSize \<le> image_Size (disk v)" "IO v = (r, v')"
  shows "LastAvailIdx v' = avail_idx (mem v) sq \<and> used_idx (mem v') sq = used_idx (mem v) sq + of_nat (length gs) \<and>
    (\<forall>i < length gs. used_elem (mem v') sq (unat (used_idx (mem v) sq + of_nat i) mod batch_size sq) =
        (hd (g_chain (gs ! i)), unat (used_len (mem v) sq (writeback v) (gs ! i))) \<and>
      (if refusal (capacity v) (writeback v) (gs ! i) = 0 then mem v' ! g_status (gs ! i) \<in> {0, 1}
       else mem v' ! g_status (gs ! i) = refusal (capacity v) (writeback v) (gs ! i)) \<and>
      (g_type (gs ! i) = 0 \<and> mem v' ! g_status (gs ! i) = 0 \<and> (\<forall>j < i. g_type (gs ! j) = 1 \<longrightarrow> mem v' ! g_status (gs ! j) = 0) \<longrightarrow>
        slice (mem v') (fst (g_buf (gs ! i))) (snd (g_buf (gs ! i))) =
          map (\<lambda>k. fold (disk_after (mem v)) (take i gs) (disk_byte (disk v)) (512 * g_sector (gs ! i) + k)) [0..<snd (g_buf (gs ! i))])) \<and>
    ((\<forall>j < length gs. g_type (gs ! j) = 1 \<longrightarrow> mem v' ! g_status (gs ! j) = 0) \<longrightarrow>
      disk_ok (disk v') \<and> (\<forall>x < image_Size (disk v). disk_byte (disk v') x = fold (disk_after (mem v)) gs (disk_byte (disk v)) x))"
  using assms(1-3,6)
proof (cases rule: posted_batch_effect)
  case (1 cs rs)
  note R = list_all2_nthD [OF 1(1)] and n = list_all2_lengthD [OF 1(1)]
  have E: "reported sq rs (mem v) (mem v')" "disk_follows (capacity v) (mem v) cs rs (disk v) (disk v')"
    "delivered (capacity v) (mem v) cs rs (disk v) (mem v')" using 1(2) by (simp_all add: effect_def)
  have st: "mem v' ! g_status (gs ! i) = c_result (rs ! i)" if "i < length gs" for i
    using E(1) 1(3,4) that by (metis reported_def)
  have wr: "list_all2 (\<lambda>g c. represents (mem v) sq (capacity v) (writeback v) g c \<and> (c_write c \<longrightarrow> c_result c = 0)) (take k gs) (take k cs) \<and>
      all_written (take k cs) rs" if "\<forall>j < min k (length gs). g_type (gs ! j) = 1 \<longrightarrow> mem v' ! g_status (gs ! j) = 0" for k
    using that R 1(4) n st by (auto simp: list_all2_conv_all_nth all_written_def represents_def)
  show ?thesis
  proof (intro conjI allI impI)
    show "LastAvailIdx v' = avail_idx (mem v) sq"
    proof -
      have "0 < length gs" "length gs \<le> 32" using assms(1) batch_size_range [of sq] by (auto simp: posted_batch_def)
      then have "unat (of_nat (length gs) :: u16) \<noteq> 0" by (simp add: unat_of_nat)
      then have "(of_nat (length gs) :: u16) \<noteq> 0" by (metis unat_0)
      moreover have "used_idx (mem v') sq = used_idx (mem v) sq + of_nat (length gs)" using E(1) 1(3) by (simp add: reported_def)
      ultimately have "v' \<noteq> v" by auto
      then show ?thesis using IO_frame [OF assms(2,6)] assms(1) by (auto simp: posted_batch_def)
    qed
    show "used_idx (mem v') sq = used_idx (mem v) sq + of_nat (length gs)" using E(1) 1(3) by (simp add: reported_def)
    fix i assume i: "i < length gs"
    have h: "hd (g_chain (gs ! i)) < 2 ^ 32"
    proof -
      have "posted (mem v) sq (gs ! i)" using assms(1) i by (simp add: posted_batch_def)
      then have "hd (g_chain (gs ! i)) < batch_size sq" by (cases "g_chain (gs ! i)") (auto simp: posted_def desc_valid_def)
      then show ?thesis using batch_size_range [of sq] by simp
    qed
    show "used_elem (mem v') sq (unat (used_idx (mem v) sq + of_nat i) mod batch_size sq) =
        (hd (g_chain (gs ! i)), unat (used_len (mem v) sq (writeback v) (gs ! i)))"
      using E(1) 1(3) 1(4) [OF i] R [OF i] i h by (simp add: reported_def represents_def used_at_def unat_of_nat)
    show "if refusal (capacity v) (writeback v) (gs ! i) = 0 then mem v' ! g_status (gs ! i) \<in> {0, 1}
       else mem v' ! g_status (gs ! i) = refusal (capacity v) (writeback v) (gs ! i)"
      using st [OF i] 1(4) [OF i] R [OF i] by (auto simp: represents_def refusal_def split: if_splits)
    assume g: "g_type (gs ! i) = 0 \<and> mem v' ! g_status (gs ! i) = 0 \<and> (\<forall>j < i. g_type (gs ! j) = 1 \<longrightarrow> mem v' ! g_status (gs ! j) = 0)"
    then have c: "\<not> c_write (cs ! i)" "\<not> c_flush (cs ! i)" "c_result (rs ! i) = 0" "c_data (cs ! i) = g_buf (gs ! i)"
      "nat (c_offset (cs ! i)) = 512 * g_sector (gs ! i)"
      using R [OF i] 1(4) [OF i] st [OF i] by (auto simp: represents_def is_flush_def refusal_def nat_mult_distrib split: if_splits)
    have w: "\<forall>j < min i (length gs). g_type (gs ! j) = 1 \<longrightarrow> mem v' ! g_status (gs ! j) = 0" using g by simp
    show "slice (mem v') (fst (g_buf (gs ! i))) (snd (g_buf (gs ! i))) =
        map (\<lambda>k. fold (disk_after (mem v)) (take i gs) (disk_byte (disk v)) (512 * g_sector (gs ! i) + k)) [0..<snd (g_buf (gs ! i))]"
    proof -
      have fo: "fold (apply_request (mem v)) (take i cs) (disk_byte (disk v)) = fold (disk_after (mem v)) (take i gs) (disk_byte (disk v))"
        using apply_requests_guest [of "mem v" sq "capacity v" "writeback v" "take i gs" "take i cs"] wr [OF w] by blast
      have "slice (mem v') (fst (c_data (cs ! i))) (snd (c_data (cs ! i))) =
          map (\<lambda>k. fold (apply_request (mem v)) (take i cs) (disk_byte (disk v)) (nat (c_offset (cs ! i)) + k)) [0..<snd (c_data (cs ! i))]"
        using E(3) assms(4,5) i n c(1-3) conjunct2 [OF wr [OF w]] unfolding delivered_def by simp
      then show ?thesis unfolding c(4,5) fo .
    qed
  next
    assume w: "\<forall>j < length gs. g_type (gs ! j) = 1 \<longrightarrow> mem v' ! g_status (gs ! j) = 0"
    then have w': "\<forall>j < min (length gs) (length gs). g_type (gs ! j) = 1 \<longrightarrow> mem v' ! g_status (gs ! j) = 0" by simp
    have D: "disk_ok (disk v') \<and> (\<forall>x < image_Size (disk v). disk_byte (disk v') x = fold (apply_request (mem v)) cs (disk_byte (disk v)) x)"
      using E(2) assms(4,5) wr [OF w'] n by (simp add: disk_follows_def)
    have "fold (apply_request (mem v)) cs = fold (disk_after (mem v)) gs"
      using apply_requests_guest [of "mem v" sq "capacity v" "writeback v" gs cs] wr [OF w'] n by auto
    then show "disk_ok (disk v')" "\<And>x. x < image_Size (disk v) \<Longrightarrow> disk_byte (disk v') x = fold (disk_after (mem v)) gs (disk_byte (disk v)) x"
      using D by simp_all
  qed
qed

theorem blk_batch_served_witness:
  "\<exists>r v'. IO pair_blk = (r, v') \<and> LastAvailIdx v' = 2 \<and> used_idx (mem v') sample_queue = 2 \<and>
    used_elem (mem v') sample_queue 0 = (0, 529) \<and> used_elem (mem v') sample_queue 1 = (3, 529) \<and>
    (mem v' ! 1600 = 0 \<and> mem v' ! 1601 = 0 \<longrightarrow> slice (mem v') 1700 512 = replicate 512 7)"
proof -
  obtain r v' where io: "IO pair_blk = (r, v')" by fastforce
  let ?gs = "[sample_guest 1, second_guest]"
  have "\<not> closed pair_blk" "disk_ok (disk pair_blk)" "capacity pair_blk * SectorSize \<le> image_Size (disk pair_blk)"
    using sample_disk by (simp_all add: pair_blk_def sample_parts SectorSize_def)
  note S = blk_batch_served [OF pair_posted this io]
  have u: "used_idx pair_memory sample_queue = 0" "mem pair_blk = pair_memory" "disk pair_blk = Raw sample_raw"
    by (simp_all add: used_idx_def sample_queue_def load_pair upt_steps pair_byte_def guest_byte_at_def pair_blk_def sample_parts)
  have "writeback pair_blk = writeback (sample_blk 1)" by (simp add: pair_blk_def writeback_def negotiatedFeatures_def)
  then have wb: "writeback pair_blk = False" by (simp add: sample_parts)
  have l: "used_len pair_memory sample_queue False (sample_guest 1) = 529" "used_len pair_memory sample_queue False second_guest = 529"
    by (simp_all add: used_len_def is_flush_def sample_guest_def second_guest_def pair_desc)
  have d: "fold (disk_after pair_memory) (take 1 ?gs) (disk_byte (Raw sample_raw)) (512 + k) = 7" if "k < 512" for k
    using that by (simp add: disk_after_def sample_guest_def pair_memory_def pair_byte_def guest_byte_at_def)
  have "slice (mem v') 1700 512 = replicate 512 7" if "mem v' ! 1600 = 0" "mem v' ! 1601 = 0"
  proof -
    have "slice (mem v') 1700 512 = map (\<lambda>k. fold (disk_after pair_memory) (take 1 ?gs) (disk_byte (Raw sample_raw)) (512 + k)) [0..<512]"
      using S that u by (simp add: all_less_Suc numeral_2_eq_2 sample_guest_def second_guest_def)
    also have "\<dots> = replicate 512 7" using d by (intro nth_equalityI) simp_all
    finally show ?thesis .
  qed
  moreover have "LastAvailIdx v' = 2" "used_idx (mem v') sample_queue = 2" using S u by (simp_all add: pair_header)
  moreover have "used_elem (mem v') sample_queue (unat (of_nat i :: u16) mod 8) =
      (hd (g_chain (?gs ! i)), unat (used_len pair_memory sample_queue False (?gs ! i)))" if "i < 2" for i
    using S u wb that by (simp add: sample_size)
  from this [of 0] this [of 1] have "used_elem (mem v') sample_queue 0 = (0, 529)" "used_elem (mem v') sample_queue 1 = (3, 529)"
    using l by (simp_all add: sample_guest_def second_guest_def)
  ultimately show ?thesis using io by blast
qed

end
