(* ===== verification/H264_Bits.thy ===== *)
theory H264_Bits
  imports Prelude
begin

text \<open>
  The bit streams of the H.264 codec: the writer of the encoder (\<^verbatim>\<open>common/golomb_common_h.go\<close>,
  \<^verbatim>\<open>encoder/svc_enc_golomb_h.go\<close>), which collects 32 bits at a time, and the reader of the decoder
  (\<^verbatim>\<open>decoder/bit_stream.go\<close>, \<^verbatim>\<open>decoder/dec_golomb_h.go\<close>), which keeps a cache of at least 16 bits. Both are
  related to the sequence of bits they stand for, and the property is their round trip on whole sequences of
  syntax elements.
\<close>

unbundle bit_operations_syntax

section \<open>The bit string\<close>

text \<open>Go's shifts of a \<^verbatim>\<open>uint32\<close> by \<^verbatim>\<open>uint32(n)\<close>, where a negative \<open>n\<close> becomes a large one.\<close>

definition shl32 :: "u32 \<Rightarrow> int \<Rightarrow> u32" where
  "shl32 w n = (if n < 0 then 0 else push_bit (nat n) w)"

definition shr32 :: "u32 \<Rightarrow> int \<Rightarrow> u32" where
  "shr32 w n = (if n < 0 then 0 else drop_bit (nat n) w)"

text \<open>A value of Go's type \<^verbatim>\<open>int32\<close>, as arithmetic of this type and conversions to it leave it.\<close>

definition int32 :: "int \<Rightarrow> int" where
  "int32 x = signed_take_bit 31 x"

text \<open>The end of the buffer is computed from sizes the caller gives and may be any number; the other offsets are positions.\<close>

record SBitStringAux =
  PBuf :: "byte list"
  PStartBuf :: nat
  PEndBuf :: int
  IBits :: int
  PCurBuf :: nat
  UiCurBits :: u32
  ILeftBits :: int

subsection \<open>Writing\<close>

text \<open>An access behind the end of the buffer panics: \<open>None\<close>.\<close>

definition WRITE_BE_32 :: "byte list \<Rightarrow> nat \<Rightarrow> u32 \<Rightarrow> byte list option" where
  "WRITE_BE_32 ptr off val = (if off + 4 \<le> length ptr then Some (copy_at ptr off (put_be 4 (unat val))) else None)"

text \<open>A writer; \<^verbatim>\<open>IBits\<close>, which writing does not use, is set to 0.\<close>

definition InitBits :: "byte list \<Rightarrow> nat \<Rightarrow> int \<Rightarrow> SBitStringAux" where
  "InitBits buf off n = \<lparr>PBuf = buf, PStartBuf = off, PEndBuf = int off + n, IBits = 0, PCurBuf = off, UiCurBits = 0, ILeftBits = 32\<rparr>"

definition BsWriteBits :: "int \<Rightarrow> u32 \<Rightarrow> SBitStringAux \<Rightarrow> SBitStringAux option" where
  "BsWriteBits iLen v s =
     (if iLen < ILeftBits s then Some (s\<lparr>UiCurBits := shl32 (UiCurBits s) iLen OR v, ILeftBits := ILeftBits s - iLen\<rparr>)
      else let n = iLen - ILeftBits s; cur = shl32 (UiCurBits s) (ILeftBits s) OR shr32 v n
           in case WRITE_BE_32 (PBuf s) (PCurBuf s) cur of None \<Rightarrow> None
              | Some buf \<Rightarrow> Some (s\<lparr>PBuf := buf, PCurBuf := PCurBuf s + 4, UiCurBits := v AND (shl32 1 n - 1), ILeftBits := 32 - n\<rparr>))"

definition BsWriteOneBit :: "u32 \<Rightarrow> SBitStringAux \<Rightarrow> SBitStringAux option" where
  "BsWriteOneBit v s = BsWriteBits 1 v s"

definition BsFlush :: "SBitStringAux \<Rightarrow> SBitStringAux option" where
  "BsFlush s =
     (if ILeftBits s < 32 then
        (case WRITE_BE_32 (PBuf s) (PCurBuf s) (shl32 (UiCurBits s) (ILeftBits s)) of None \<Rightarrow> None
         | Some buf \<Rightarrow> Some (s\<lparr>PBuf := buf, PCurBuf := PCurBuf s + nat (4 - ILeftBits s div 8), ILeftBits := 32, UiCurBits := 0\<rparr>))
      else Some s)"

definition G_kuiGolombUELength :: "nat list" where
  "G_kuiGolombUELength =
     [1, 3, 3, 5, 5, 5, 5, 7, 7, 7, 7, 7, 7, 7, 7, 9, 9, 9, 9, 9, 9, 9, 9, 9, 9, 9, 9, 9, 9, 9, 9, 11,
      11, 11, 11, 11, 11, 11, 11, 11, 11, 11, 11, 11, 11, 11, 11, 11, 11, 11, 11, 11, 11, 11, 11, 11, 11, 11, 11, 11, 11, 11, 11, 13,
      13, 13, 13, 13, 13, 13, 13, 13, 13, 13, 13, 13, 13, 13, 13, 13, 13, 13, 13, 13, 13, 13, 13, 13, 13, 13, 13, 13, 13, 13, 13, 13,
      13, 13, 13, 13, 13, 13, 13, 13, 13, 13, 13, 13, 13, 13, 13, 13, 13, 13, 13, 13, 13, 13, 13, 13, 13, 13, 13, 13, 13, 13, 13, 15,
      15, 15, 15, 15, 15, 15, 15, 15, 15, 15, 15, 15, 15, 15, 15, 15, 15, 15, 15, 15, 15, 15, 15, 15, 15, 15, 15, 15, 15, 15, 15, 15,
      15, 15, 15, 15, 15, 15, 15, 15, 15, 15, 15, 15, 15, 15, 15, 15, 15, 15, 15, 15, 15, 15, 15, 15, 15, 15, 15, 15, 15, 15, 15, 15,
      15, 15, 15, 15, 15, 15, 15, 15, 15, 15, 15, 15, 15, 15, 15, 15, 15, 15, 15, 15, 15, 15, 15, 15, 15, 15, 15, 15, 15, 15, 15, 15,
      15, 15, 15, 15, 15, 15, 15, 15, 15, 15, 15, 15, 15, 15, 15, 15, 15, 15, 15, 15, 15, 15, 15, 15, 15, 15, 15, 15, 15, 15, 15, 17]"

text \<open>The length of an unsigned code; the table access may panic.\<close>

definition ue_length :: "u32 \<Rightarrow> nat option" where
  "ue_length v =
     (if v < 256 then Some (G_kuiGolombUELength ! unat v)
      else let t = v + 1;
               (t1, n1) = (if t AND 0xffff0000 \<noteq> 0 then (drop_bit 16 t, 16) else (t, 0));
               (t2, n2) = (if t1 AND 0xff00 \<noteq> 0 then (drop_bit 8 t1, n1 + 8) else (t1, n1));
               i = unat (t2 - 1)
           in if i < 256 then Some (2 * (n2 + G_kuiGolombUELength ! i div 2) + 1) else None)"

definition BsWriteUE :: "u32 \<Rightarrow> SBitStringAux \<Rightarrow> SBitStringAux option" where
  "BsWriteUE v s = (case ue_length v of None \<Rightarrow> None | Some n \<Rightarrow> BsWriteBits (int n) (v + 1) s)"

definition BsWriteSE :: "int \<Rightarrow> SBitStringAux \<Rightarrow> SBitStringAux option" where
  "BsWriteSE v s =
     (if v = 0 then BsWriteOneBit 1 s
      else if 0 < v then BsWriteUE (word_of_int (2 * v - 1)) s
      else BsWriteUE (word_of_int (2 * (- v))) s)"

definition BsWriteTE :: "int \<Rightarrow> u32 \<Rightarrow> SBitStringAux \<Rightarrow> SBitStringAux option" where
  "BsWriteTE x v s = (if x = 1 then BsWriteOneBit (if v = 0 then 1 else 0) s else BsWriteUE v s)"

definition BsRbspTrailingBits :: "SBitStringAux \<Rightarrow> SBitStringAux option" where
  "BsRbspTrailingBits s = (case BsWriteOneBit 1 s of None \<Rightarrow> None | Some s1 \<Rightarrow> BsFlush s1)"

definition BsSizeUE :: "u32 \<Rightarrow> nat option" where
  "BsSizeUE v = ue_length v"

definition BsSizeSE :: "int \<Rightarrow> nat option" where
  "BsSizeSE v = (if v = 0 then Some 1 else if 0 < v then BsSizeUE (word_of_int (2 * v - 1)) else BsSizeUE (word_of_int (2 * (- v))))"

definition BsAlign :: "SBitStringAux \<Rightarrow> SBitStringAux option" where
  "BsAlign s =
     (let k = ILeftBits s mod 8
      in BsFlush (if k \<noteq> 0 then s\<lparr>UiCurBits := shl32 (UiCurBits s) k OR (shl32 1 k - 1), ILeftBits := ILeftBits s - k\<rparr> else s))"

definition BsGetBitsPos :: "SBitStringAux \<Rightarrow> int" where
  "BsGetBitsPos s = int32 ((int (PCurBuf s) - int (PStartBuf s)) * 8 + 32 - ILeftBits s)"

subsection \<open>Reading\<close>

datatype rd_err = ReadOverflow | ReadLeadingZero | InvalidAccess | ReadPanic

type_synonym 'a rcomp = "(SBitStringAux, rd_err, 'a) comp"

definition GetValue4BytesSafe :: "byte list \<Rightarrow> nat \<Rightarrow> u32" where
  "GetValue4BytesSafe d avail = foldl (\<lambda>v i. push_bit 8 v OR (if i < avail then ucast (d ! i) else 0)) 0 [0, 1, 2, 3]"

definition InitReadBits :: "int \<Rightarrow> unit rcomp" where
  "InitReadBits endOffset s =
     (let remain = PEndBuf s - int (PStartBuf s) - endOffset - (int (PCurBuf s) - int (PStartBuf s))
      in if remain \<le> 0 then (Inl InvalidAccess, s)
         else let seed = (if remain > 4 then 4 else nat remain)
              in if length (drop (PCurBuf s) (PBuf s)) < seed then (Inl ReadPanic, s)
                 else (Inr (), s\<lparr>UiCurBits := GetValue4BytesSafe (drop (PCurBuf s) (PBuf s)) seed, PCurBuf := PCurBuf s + 4, ILeftBits := -16\<rparr>))"

text \<open>The size, an \<^verbatim>\<open>int32\<close>, is in bits and rounded up to bytes. The buffer is not \<^verbatim>\<open>nil\<close>, which is an error of its own in the code.\<close>

definition DecInitBits :: "byte list \<Rightarrow> nat \<Rightarrow> int \<Rightarrow> SBitStringAux \<Rightarrow> (rd_err + unit) \<times> SBitStringAux" where
  "DecInitBits buf off size' s =
     InitReadBits 0 (s\<lparr>PBuf := buf, PStartBuf := off, PEndBuf := int off + int32 (size' + 7) div 8, IBits := size', PCurBuf := off\<rparr>)"

definition GET_WORD :: "int \<Rightarrow> int \<Rightarrow> unit rcomp" where
  "GET_WORD allowed rb s =
     (if rb > allowed + 1 then (Inl ReadOverflow, s)
      else if rb < allowed \<and> PCurBuf s \<ge> length (PBuf s) \<or> rb + 1 < allowed \<and> PCurBuf s + 1 \<ge> length (PBuf s) then (Inl ReadPanic, s)
      else let w1 = (if rb < allowed then push_bit 8 (ucast (PBuf s ! PCurBuf s)) else 0 :: u32);
               w = (if rb + 1 < allowed then w1 OR ucast (PBuf s ! (PCurBuf s + 1)) else w1)
           in (Inr (), s\<lparr>UiCurBits := UiCurBits s OR shl32 w (ILeftBits s), ILeftBits := ILeftBits s - 16, PCurBuf := PCurBuf s + 2\<rparr>))"

definition NEED_BITS :: "int \<Rightarrow> int \<Rightarrow> unit rcomp" where
  "NEED_BITS allowed rb s = (if ILeftBits s > 0 then GET_WORD allowed rb s else (Inr (), s))"

definition UBITS :: "u32 \<Rightarrow> int \<Rightarrow> u32" where
  "UBITS cur n = shr32 cur (32 - n)"

definition DUMP_BITS :: "int \<Rightarrow> int \<Rightarrow> int \<Rightarrow> unit rcomp" where
  "DUMP_BITS n allowed rb s = NEED_BITS allowed rb (s\<lparr>UiCurBits := shl32 (UiCurBits s) n, ILeftBits := ILeftBits s + n\<rparr>)"

text \<open>Drop bits with the byte counts of the current position.\<close>

definition allowed_bytes :: "SBitStringAux \<Rightarrow> int" where
  "allowed_bytes s = PEndBuf s - int (PStartBuf s)"

definition dump :: "int \<Rightarrow> unit rcomp" where
  "dump n s = DUMP_BITS n (allowed_bytes s) (int (PCurBuf s) - int (PStartBuf s)) s"

definition BsGetBits :: "int \<Rightarrow> u32 rcomp" where
  "BsGetBits n = andthen (gets (\<lambda>s. UBITS (UiCurBits s) n)) (\<lambda>rc. andthen (dump n) (\<lambda>_. ret rc))"

definition BsGetOneBit :: "u32 rcomp" where
  "BsGetOneBit = BsGetBits 1"

definition g_kuiLeadingZeroTable :: "nat list" where
  "g_kuiLeadingZeroTable =
     [8, 7, 6, 6, 5, 5, 5, 5, 4, 4, 4, 4, 4, 4, 4, 4, 3, 3, 3, 3, 3, 3, 3, 3, 3, 3, 3, 3, 3, 3, 3, 3,
      2, 2, 2, 2, 2, 2, 2, 2, 2, 2, 2, 2, 2, 2, 2, 2, 2, 2, 2, 2, 2, 2, 2, 2, 2, 2, 2, 2, 2, 2, 2, 2,
      1, 1, 1, 1, 1, 1, 1, 1, 1, 1, 1, 1, 1, 1, 1, 1, 1, 1, 1, 1, 1, 1, 1, 1, 1, 1, 1, 1, 1, 1, 1, 1,
      1, 1, 1, 1, 1, 1, 1, 1, 1, 1, 1, 1, 1, 1, 1, 1, 1, 1, 1, 1, 1, 1, 1, 1, 1, 1, 1, 1, 1, 1, 1, 1,
      0, 0, 0, 0, 0, 0, 0, 0, 0, 0, 0, 0, 0, 0, 0, 0, 0, 0, 0, 0, 0, 0, 0, 0, 0, 0, 0, 0, 0, 0, 0, 0,
      0, 0, 0, 0, 0, 0, 0, 0, 0, 0, 0, 0, 0, 0, 0, 0, 0, 0, 0, 0, 0, 0, 0, 0, 0, 0, 0, 0, 0, 0, 0, 0,
      0, 0, 0, 0, 0, 0, 0, 0, 0, 0, 0, 0, 0, 0, 0, 0, 0, 0, 0, 0, 0, 0, 0, 0, 0, 0, 0, 0, 0, 0, 0, 0,
      0, 0, 0, 0, 0, 0, 0, 0, 0, 0, 0, 0, 0, 0, 0, 0, 0, 0, 0, 0, 0, 0, 0, 0, 0, 0, 0, 0, 0, 0, 0, 0]"

definition GetLeadingZeroBits :: "u32 \<Rightarrow> int" where
  "GetLeadingZeroBits cur =
     (if UBITS cur 8 \<noteq> 0 then int (g_kuiLeadingZeroTable ! unat (UBITS cur 8))
      else if UBITS cur 16 \<noteq> 0 then int (g_kuiLeadingZeroTable ! unat (UBITS cur 16)) + 8
      else if UBITS cur 24 \<noteq> 0 then int (g_kuiLeadingZeroTable ! unat (UBITS cur 24)) + 16
      else if cur \<noteq> 0 then int (g_kuiLeadingZeroTable ! unat cur) + 24
      else -1)"

definition BsGetUe :: "u32 rcomp" where
  "BsGetUe =
     andthen (gets (\<lambda>s. GetLeadingZeroBits (UiCurBits s))) (\<lambda>lz.
       if lz = -1 then fail ReadLeadingZero
       else andthen (if lz > 16 then andthen (dump 16) (\<lambda>_. dump (lz + 1 - 16)) else dump (lz + 1)) (\<lambda>_.
         andthen (if lz \<noteq> 0 then andthen (gets (\<lambda>s. UBITS (UiCurBits s) lz)) (\<lambda>v. andthen (dump lz) (\<lambda>_. ret v)) else ret 0) (\<lambda>v.
           ret (shl32 1 lz - 1 + v))))"

definition BsGetSe :: "int rcomp" where
  "BsGetSe = andthen BsGetUe (\<lambda>code.
     ret (if code AND 0x01 \<noteq> 0 then sint (drop_bit 1 (code + 1)) else sint (1 + NOT (drop_bit 1 code))))"

definition BsGetTe0 :: "int \<Rightarrow> u32 rcomp" where
  "BsGetTe0 range' =
     (if range' = 1 then ret 0 else if range' = 2 then andthen BsGetOneBit (\<lambda>c. ret (c XOR 1)) else BsGetUe)"

text \<open>The number of bits behind the last one that is set.\<close>

fun trailing_from :: "u32 \<Rightarrow> nat \<Rightarrow> nat \<Rightarrow> nat" where
  "trailing_from v n 0 = 0"
| "trailing_from v n (Suc k) = (if v AND 1 \<noteq> 0 then n else trailing_from (drop_bit 1 v) (n + 1) k)"

definition BsGetTrailingBits :: "byte \<Rightarrow> nat" where
  "BsGetTrailingBits b = trailing_from (ucast b) 0 9"

definition CheckMoreRBSPData :: "SBitStringAux \<Rightarrow> bool" where
  "CheckMoreRBSPData s \<longleftrightarrow> IBits s - (int (PCurBuf s) - int (PStartBuf s) - 2) * 8 - ILeftBits s > 1"

section \<open>Lemmas\<close>

subsection \<open>Bits\<close>

text \<open>The low \<open>n\<close> bits of a word, and the bits of bytes, most significant first.\<close>

definition wbits :: "nat \<Rightarrow> u32 \<Rightarrow> bool list" where
  "wbits n w = map (\<lambda>i. bit w (n - 1 - i)) [0..<n]"

definition byte_bits :: "byte \<Rightarrow> bool list" where
  "byte_bits b = map (\<lambda>i. bit b (7 - i)) [0..<8]"

definition buf_bits :: "byte list \<Rightarrow> bool list" where
  "buf_bits bs = concat (map byte_bits bs)"

lemma length_bits [simp]: "length (wbits n w) = n" "length (byte_bits b) = 8" "length (buf_bits bs) = 8 * length bs"
  by (simp_all add: wbits_def byte_bits_def buf_bits_def length_concat sum_list_triv comp_def)

lemma buf_bits_simps [simp]: "buf_bits [] = []" "buf_bits (b # bs) = byte_bits b @ buf_bits bs" "buf_bits (xs @ ys) = buf_bits xs @ buf_bits ys"
  by (simp_all add: buf_bits_def)

lemma nth_wbits: "i < n \<Longrightarrow> wbits n w ! i = bit w (n - 1 - i)"
  by (simp add: wbits_def)

lemma nth_buf_bits: "i < 8 * length bs \<Longrightarrow> buf_bits bs ! i = bit (bs ! (i div 8)) (7 - i mod 8)"
proof (induction bs arbitrary: i)
  case (Cons b bs)
  show ?case
  proof (cases "i < 8")
    case True
    then show ?thesis by (simp add: nth_append byte_bits_def)
  next
    case False
    then have "i div 8 = Suc ((i - 8) div 8)" "i mod 8 = (i - 8) mod 8" by (simp_all add: div_if mod_if)
    then show ?thesis using False Cons.IH [of "i - 8"] Cons.prems by (simp add: nth_append)
  qed
qed simp

lemma buf_bits_take: "buf_bits (take n bs) = take (8 * n) (buf_bits bs)"
proof (induction bs arbitrary: n)
  case (Cons b bs)
  then show ?case by (cases n) simp_all
qed simp

text \<open>A word has no bits from \<open>n\<close> on.\<close>

definition fits :: "nat \<Rightarrow> u32 \<Rightarrow> bool" where
  "fits n w \<longleftrightarrow> (\<forall>i. bit w i \<longrightarrow> i < n)"

lemma bit_unat: "bit (unat w) i = bit (w :: 'a :: len word) i"
  by (simp add: bit_unsigned_iff)

lemma fits_less: "unat w < 2 ^ n \<Longrightarrow> fits n w"
  unfolding fits_def bit_unat [symmetric] bit_iff_odd
  by (metis div_less even_zero less_le_trans not_le one_le_numeral power_increasing)

lemma wbits_append:
  assumes "fits n v" "n \<le> m" "m \<le> 32"
  shows "wbits m (push_bit n a OR v) = wbits (m - n) a @ wbits n v"
proof (rule nth_equalityI)
  fix i assume "i < length (wbits m (push_bit n a OR v))"
  then have i: "i < m" by simp
  show "wbits m (push_bit n a OR v) ! i = (wbits (m - n) a @ wbits n v) ! i"
  proof (cases "i < m - n")
    case True
    then have "\<not> bit v (m - 1 - i)" using assms(1) by (auto simp: fits_def)
    then show ?thesis using True i assms(2,3) by (auto simp: add.commute nth_append nth_wbits bit_or_iff bit_push_bit_iff)
  next
    case False
    then have "m - 1 - i < n" "n - 1 - (i - (m - n)) = m - 1 - i" using i assms(2) by auto
    then show ?thesis using False i by (auto simp: nth_append nth_wbits bit_or_iff bit_push_bit_iff)
  qed
qed (use assms in simp)

lemma put_be_4: "put_be 4 (unat w) = [ucast (drop_bit 24 w), ucast (drop_bit 16 w), ucast (drop_bit 8 w), ucast (w :: u32)]"
proof -
  have b: "word_of_nat (unat w div 2 ^ k) = (ucast (drop_bit k w) :: byte)" for k
    by (rule bit_word_eqI) (simp add: bit_simps bit_unat flip: drop_bit_eq_div)
  show ?thesis using b [of 24] b [of 16] b [of 8] b [of 0] by (simp add: put_be_def put_le_numeral div_mult2_eq [symmetric])
qed

lemma word_bytes: "buf_bits (put_be 4 (unat w)) = wbits 32 (w :: u32)"
  unfolding put_be_4 by (simp add: wbits_def byte_bits_def upt_rec bit_simps)

subsection \<open>The writer\<close>

definition wr_ok :: "SBitStringAux \<Rightarrow> bool" where
  "wr_ok s \<longleftrightarrow> 1 \<le> ILeftBits s \<and> ILeftBits s \<le> 32 \<and> fits (nat (32 - ILeftBits s)) (UiCurBits s) \<and> PStartBuf s \<le> PCurBuf s \<and> PCurBuf s \<le> length (PBuf s)"

definition wr_bits :: "SBitStringAux \<Rightarrow> bool list" where
  "wr_bits s = buf_bits (slice (PBuf s) (PStartBuf s) (PCurBuf s - PStartBuf s)) @ wbits (nat (32 - ILeftBits s)) (UiCurBits s)"

lemma slice_written:
  assumes "a \<le> c" "c + length xs \<le> length buf" "n \<le> length xs"
  shows "slice (copy_at buf c xs) a (c + n - a) = slice buf a (c - a) @ take n xs"
proof -
  have "copy_at buf c xs = take c buf @ xs @ drop (c + length xs) buf" using assms(2) by (simp add: copy_at_def)
  moreover have "length (take (c - a) (drop a buf)) = c - a" using assms(2) by simp
  moreover have "c + n - a = (c - a) + n" using assms(1) by simp
  moreover have "min (length buf) c = c" using assms(2) by simp
  ultimately show ?thesis using assms(1,3) by (simp add: slice_def drop_take)
qed

lemma BsWriteBits_bits:
  assumes "wr_ok s" "n \<le> 32" "fits n v" "PCurBuf s + 4 \<le> length (PBuf s)"
  shows "\<exists>s'. BsWriteBits (int n) v s = Some s' \<and> wr_ok s' \<and> wr_bits s' = wr_bits s @ wbits n v \<and>
    PStartBuf s' = PStartBuf s \<and> length (PBuf s') = length (PBuf s) \<and> PCurBuf s' \<le> PCurBuf s + 4"
proof -
  define l where "l = nat (ILeftBits s)"
  then have l: "ILeftBits s = int l" "1 \<le> l" "l \<le> 32" using assms(1) by (auto simp: wr_ok_def)
  have k: "nat (32 - int l) = 32 - l" "fits (32 - l) (UiCurBits s)" using assms(1) l by (simp_all add: wr_ok_def nat_diff_distrib)
  show ?thesis
  proof (cases "n < l")
    case True
    let ?s = "s\<lparr>UiCurBits := push_bit n (UiCurBits s) OR v, ILeftBits := int (l - n)\<rparr>"
    have "BsWriteBits (int n) v s = Some ?s" using True l by (simp add: BsWriteBits_def shl32_def of_nat_diff)
    moreover have "fits (32 - (l - n)) (push_bit n (UiCurBits s) OR v)"
      using k(2) assms(3) True l(3) unfolding fits_def by (fastforce simp: bit_or_iff bit_push_bit_iff)
    then have "wr_ok ?s" using assms(1) True l by (simp add: wr_ok_def nat_diff_distrib)
    moreover have "wbits (32 - (l - n)) (push_bit n (UiCurBits s) OR v) = wbits (32 - l) (UiCurBits s) @ wbits n v"
    proof -
      have "32 - (l - n) - n = 32 - l" "n \<le> 32 - (l - n)" using True l by linarith+
      then show ?thesis using wbits_append [OF assms(3), of "32 - (l - n)" "UiCurBits s"] by simp
    qed
    then have "wr_bits ?s = wr_bits s @ wbits n v" using k(1) l True by (simp add: wr_bits_def nat_diff_distrib)
    ultimately show ?thesis by (intro exI [of _ ?s]) simp
  next
    case False
    let ?w = "push_bit l (UiCurBits s) OR drop_bit (n - l) v"
    let ?buf = "copy_at (PBuf s) (PCurBuf s) (put_be 4 (unat ?w))"
    let ?s = "s\<lparr>PBuf := ?buf, PCurBuf := PCurBuf s + 4, UiCurBits := v AND (push_bit (n - l) 1 - 1), ILeftBits := int (32 - (n - l))\<rparr>"
    have "BsWriteBits (int n) v s = Some ?s" using False l assms(2,4)
      by (simp add: BsWriteBits_def shl32_def shr32_def WRITE_BE_32_def Let_def of_nat_diff nat_diff_distrib)
    have m: "v AND (push_bit (n - l) 1 - 1) = take_bit (n - l) v"
      by (simp add: take_bit_eq_mask mask_eq_exp_minus_1 push_bit_eq_mult)
    have "fits (n - l) (take_bit (n - l) v)" by (simp add: fits_def bit_take_bit_iff)
    moreover have nd: "nat (int n - int l) = n - l" by simp
    ultimately have "wr_ok ?s" using assms(1,2,4) False l m by (auto simp: wr_ok_def copy_at_def)
    have "fits l (drop_bit (n - l) v)" using assms(3) by (auto simp: fits_def bit_drop_bit_eq)
    then have "wbits 32 ?w = wbits (32 - l) (UiCurBits s) @ wbits l (drop_bit (n - l) v)" using l by (intro wbits_append) auto
    moreover have "wbits l (drop_bit (n - l) v) @ wbits (n - l) (take_bit (n - l) v) = wbits n v"
      using False by (intro nth_equalityI) (auto simp: nth_append nth_wbits bit_drop_bit_eq bit_take_bit_iff)
    moreover have "slice ?buf (PStartBuf s) (PCurBuf s + 4 - PStartBuf s) =
        slice (PBuf s) (PStartBuf s) (PCurBuf s - PStartBuf s) @ take 4 (put_be 4 (unat ?w))"
      using assms(1,4) by (intro slice_written) (auto simp: wr_ok_def)
    ultimately have "wr_bits ?s = wr_bits s @ wbits n v" using k(1) l False assms(2) m nd word_bytes [of ?w] by (simp add: wr_bits_def)
    then show ?thesis using \<open>BsWriteBits (int n) v s = Some ?s\<close> \<open>wr_ok ?s\<close> assms(4) by (intro exI [of _ ?s]) (simp add: copy_at_def)
  qed
qed

lemma BsFlush_bits:
  assumes "wr_ok s" "PCurBuf s + 4 \<le> length (PBuf s)"
  shows "\<exists>s' pad. BsFlush s = Some s' \<and> pad < 8 \<and> PStartBuf s' = PStartBuf s \<and> length (PBuf s') = length (PBuf s) \<and> PCurBuf s' \<le> length (PBuf s') \<and>
    PStartBuf s' \<le> PCurBuf s' \<and> buf_bits (slice (PBuf s') (PStartBuf s') (PCurBuf s' - PStartBuf s')) = wr_bits s @ replicate pad False"
proof -
  define l where "l = nat (ILeftBits s)"
  then have l: "ILeftBits s = int l" "1 \<le> l" "l \<le> 32" "PStartBuf s \<le> PCurBuf s" using assms(1) by (auto simp: wr_ok_def)
  show ?thesis
  proof (cases "l = 32")
    case True
    then show ?thesis using l assms by (intro exI [of _ s] exI [of _ 0]) (simp add: BsFlush_def wr_bits_def wbits_def)
  next
    case False
    let ?w = "push_bit l (UiCurBits s)" and ?k = "4 - l div 8"
    let ?buf = "copy_at (PBuf s) (PCurBuf s) (put_be 4 (unat ?w))"
    let ?s = "s\<lparr>PBuf := ?buf, PCurBuf := PCurBuf s + ?k, ILeftBits := 32, UiCurBits := 0\<rparr>"
    have k: "?k \<le> 4" "8 * ?k = (32 - l) + l mod 8" using mult_div_mod_eq [of 8 l] l(3) by linarith+
    have n: "nat (4 - int l div 8) = ?k" by (simp add: nat_diff_distrib flip: zdiv_int)
    have "BsFlush s = Some ?s" using False l assms(2) n by (simp add: BsFlush_def WRITE_BE_32_def shl32_def)
    moreover have "slice ?buf (PStartBuf s) (PCurBuf s + ?k - PStartBuf s) =
        slice (PBuf s) (PStartBuf s) (PCurBuf s - PStartBuf s) @ take ?k (put_be 4 (unat ?w))"
      using l assms(2) by (intro slice_written) auto
    moreover have "buf_bits (take ?k (put_be 4 (unat ?w))) = wbits (32 - l) (UiCurBits s) @ replicate (l mod 8) False"
    proof -
      have "buf_bits (take ?k (put_be 4 (unat ?w))) = take (8 * ?k) (wbits 32 ?w)"
        unfolding word_bytes [symmetric] using k(1) by (simp add: buf_bits_take)
      also have "wbits 32 ?w = wbits (32 - l) (UiCurBits s) @ wbits l 0"
        using wbits_append [of l 0 32 "UiCurBits s"] l(3) by (simp add: fits_def)
      also have "take (8 * ?k) \<dots> = wbits (32 - l) (UiCurBits s) @ replicate (l mod 8) False"
        unfolding k(2) by (auto simp: wbits_def map_replicate_const take_map simp flip: replicate_append_same)
      finally show ?thesis .
    qed
    moreover have "l div 8 \<le> 4" using l(3) by presburger
    then have "PCurBuf s + ?k \<le> length (PBuf s)" "PStartBuf s \<le> PCurBuf s + ?k" using l assms(2) by simp_all
    ultimately show ?thesis using l assms(2) by (intro exI [of _ ?s] exI [of _ "l mod 8"]) (simp add: wr_bits_def nat_diff_distrib copy_at_def)
  qed
qed

subsection \<open>Lengths of codes\<close>

text \<open>A predicate on the index and the entry holds for a whole table.\<close>

fun table_all :: "(int \<Rightarrow> nat \<Rightarrow> bool) \<Rightarrow> int \<Rightarrow> nat list \<Rightarrow> bool" where
  "table_all P i [] \<longleftrightarrow> True"
| "table_all P i (x # xs) \<longleftrightarrow> P i x \<and> table_all P (i + 1) xs"

lemma table_all: "table_all P i xs \<Longrightarrow> j < length xs \<Longrightarrow> P (i + int j) (xs ! j)"
proof (induction xs arbitrary: i j)
  case (Cons x xs)
  then show ?case using Cons.IH [of "i + 1" "j - 1"] by (cases j) (auto simp: add.assoc)
qed simp

lemma ue_table:
  assumes "i < 256"
  shows "let k = G_kuiGolombUELength ! i div 2 in G_kuiGolombUELength ! i = 2 * k + 1 \<and> 2 ^ k \<le> i + 1 \<and> i + 1 < 2 ^ (k + 1)"
proof -
  have t: "table_all (\<lambda>i x. let k = x div 2 in x = 2 * k + 1 \<and> 2 ^ k \<le> i + 1 \<and> i + 1 < 2 ^ (k + 1)) 0 G_kuiGolombUELength"
    by (simp add: G_kuiGolombUELength_def)
  have "length G_kuiGolombUELength = 256" by (simp add: G_kuiGolombUELength_def)
  then have l: "i < length G_kuiGolombUELength" using assms by simp
  have c: "(2 :: int) ^ k \<le> int i + 1 \<longleftrightarrow> 2 ^ k \<le> i + 1" "int i + 1 < (2 :: int) ^ k \<longleftrightarrow> i + 1 < 2 ^ k" for k
    by (simp_all add: add.commute flip: of_nat_le_iff [where 'a = int] of_nat_less_iff [where 'a = int])
  show ?thesis using table_all [OF t l] by (simp only: add_0_left c Let_def)
qed

lemma unat_drop: "unat (drop_bit m (w :: u32)) = unat w div 2 ^ m"
  unfolding drop_bit_eq_div [symmetric] by (rule bit_eqI) (simp add: bit_unat bit_drop_bit_eq del: drop_bit_eq_div)

lemma unat_take: "unat (take_bit m (w :: u32)) = unat w mod 2 ^ m"
  unfolding take_bit_eq_mod [symmetric] by (rule bit_eqI) (simp add: bit_unat bit_take_bit_iff)

lemma and_field: "(w :: u32) AND push_bit m (mask n) = push_bit m (take_bit n (drop_bit m w))"
  by (rule bit_word_eqI) (auto simp: bit_simps)

lemma field_zero: "(w :: u32) AND push_bit m (mask n) = 0 \<longleftrightarrow> unat w div 2 ^ m mod 2 ^ n = 0" if "m + n \<le> 32"
proof -
  have "push_bit m (take_bit n (drop_bit m w)) = 0 \<longleftrightarrow> take_bit n (drop_bit m w) = 0"
  proof
    assume a: "push_bit m (take_bit n (drop_bit m w)) = 0"
    show "take_bit n (drop_bit m w) = 0"
    proof (rule bit_word_eqI)
      fix i assume "i < LENGTH(32)"
      have "\<not> bit (push_bit m (take_bit n (drop_bit m w))) (m + i)" using a by simp
      then show "bit (take_bit n (drop_bit m w)) i = bit 0 i" using that by (auto simp: bit_simps)
    qed
  qed simp
  also have "\<dots> \<longleftrightarrow> unat (take_bit n (drop_bit m w)) = 0" by (simp add: unat_eq_0)
  also have "unat (take_bit n (drop_bit m w)) = unat w div 2 ^ m mod 2 ^ n"
    by (simp only: unat_take unat_drop)
  finally show ?thesis by (simp add: and_field)
qed

lemma ue_length_small:
  assumes "unat v < 65535"
  shows "\<exists>k. ue_length v = Some (2 * k + 1) \<and> k < 16 \<and> 2 ^ k \<le> unat v + 1 \<and> unat v + 1 < 2 ^ (k + 1)"
proof (cases "unat v < 256")
  case True
  let ?k = "G_kuiGolombUELength ! unat v div 2"
  note T = ue_table [OF True, unfolded Let_def]
  have "(2 :: nat) ^ ?k < 2 ^ 16" using T True by simp
  then have "?k < 16" by (simp only: power_strict_increasing_iff)
  then show ?thesis using T True by (intro exI [of _ ?k]) (simp add: ue_length_def word_less_nat_alt)
next
  case False
  let ?t = "v + 1"
  have t: "unat ?t = unat v + 1" using assms by (simp add: unat_word_ariths)
  have "?t AND 0xffff0000 = 0" using field_zero [of 16 16 ?t] assms t by (simp add: mask_eq_exp_minus_1)
  have "?t AND 0xff00 \<noteq> 0" using field_zero [of 8 8 ?t] assms False t by (simp add: mask_eq_exp_minus_1)
  have d: "unat (drop_bit 8 ?t) = unat ?t div 256" by (simp only: unat_drop) simp
  have i: "unat (drop_bit 8 ?t - 1) = unat ?t div 256 - 1" using d False t by (subst unat_sub) (simp_all add: word_le_nat_alt)
  let ?i = "unat ?t div 256 - 1" and ?k = "8 + G_kuiGolombUELength ! (unat ?t div 256 - 1) div 2"
  have "?i < 256" "?i + 1 = unat ?t div 256" using assms t False by simp_all
  note T = ue_table [OF this(1), unfolded Let_def this(2)]
  have "2 ^ ?k \<le> unat ?t" using T by (simp add: power_add less_eq_div_iff_mult_less_eq)
  moreover have "unat ?t < 2 ^ (?k + 1)" using T by (simp add: power_add div_less_iff_less_mult)
  moreover have "?k < 16"
  proof -
    have "(2 :: nat) ^ ?k < 2 ^ 16" using \<open>2 ^ ?k \<le> unat ?t\<close> assms t by simp
    then show ?thesis by (simp only: power_strict_increasing_iff)
  qed
  moreover have "ue_length v = Some (2 * ?k + 1)"
    using \<open>?t AND 0xffff0000 = 0\<close> \<open>?t AND 0xff00 \<noteq> 0\<close> i \<open>?i < 256\<close> False by (simp add: ue_length_def word_less_nat_alt)
  ultimately show ?thesis unfolding t [symmetric] by blast
qed

subsection \<open>The reader\<close>

text \<open>Bit \<open>i\<close> of a buffer, with zeros behind its end.\<close>

definition sbit :: "byte list \<Rightarrow> nat \<Rightarrow> bool" where
  "sbit bs i \<longleftrightarrow> i < 8 * length bs \<and> buf_bits bs ! i"

text \<open>The reader stands at bit \<open>pos\<close> of the buffer, and its cache holds the bits from there on.\<close>

definition rd_at :: "byte list \<Rightarrow> nat \<Rightarrow> SBitStringAux \<Rightarrow> bool" where
  "rd_at bs pos s \<longleftrightarrow>
     int (PStartBuf s) \<le> PEndBuf s \<and> PEndBuf s \<le> int (length (PBuf s)) \<and> bs = slice (PBuf s) (PStartBuf s) (nat (PEndBuf s) - PStartBuf s) \<and>
     -16 \<le> ILeftBits s \<and> ILeftBits s \<le> 0 \<and> PStartBuf s \<le> PCurBuf s \<and> int ((PCurBuf s - PStartBuf s) * 8) = int pos + 16 - ILeftBits s \<and>
     (\<forall>i < 32. bit (UiCurBits s) (31 - i) \<longleftrightarrow> int i < 16 - ILeftBits s \<and> sbit bs (pos + i))"

lemma rd_at_bit: "rd_at bs pos s \<Longrightarrow> i < 16 \<Longrightarrow> bit (UiCurBits s) (31 - i) = sbit bs (pos + i)"
  by (auto simp: rd_at_def)

text \<open>The next two bytes of the buffer, as a refill of the cache takes them.\<close>

definition next_word :: "SBitStringAux \<Rightarrow> u32" where
  "next_word s =
     (let rb = int (PCurBuf s) - int (PStartBuf s); w = (if rb < allowed_bytes s then push_bit 8 (ucast (PBuf s ! PCurBuf s)) else 0)
      in if rb + 1 < allowed_bytes s then w OR ucast (PBuf s ! (PCurBuf s + 1)) else w)"

lemma next_word_fits: "fits 16 (next_word s)"
proof -
  have "\<not> bit (push_bit 8 (ucast b) :: u32) i" "\<not> bit (ucast b :: u32) i" if "16 \<le> i" for b :: byte and i
    using that bit_imp_le_length [of b i] bit_imp_le_length [of b "i - 8"] by (auto simp: bit_push_bit_iff bit_ucast_iff)
  then show ?thesis by (auto simp: fits_def next_word_def Let_def bit_or_iff not_le [symmetric] split: if_splits)
qed

lemma rd_word:
  assumes "rd_at bs pos s" "rb = PCurBuf s - PStartBuf s" "k < 16"
  shows "bit (next_word s) (15 - k) = sbit bs (8 * rb + k)"
proof -
  have len: "length bs = nat (PEndBuf s) - PStartBuf s" "int (length bs) = allowed_bytes s" and start: "PStartBuf s \<le> PCurBuf s"
    using assms(1) by (auto simp: rd_at_def slice_def allowed_bytes_def)
  have rb: "int (PCurBuf s) - int (PStartBuf s) = int rb" using start assms(2) by simp
  have nth: "PBuf s ! (PCurBuf s + j) = bs ! (rb + j)" if "rb + j < length bs" for j
    using assms(1,2) start that len(1) by (auto simp: rd_at_def slice_def)
  show ?thesis
  proof (cases "k < 8")
    case True
    then have "(8 * rb + k) div 8 = rb" "(8 * rb + k) mod 8 = k" by simp_all
    then have "sbit bs (8 * rb + k) \<longleftrightarrow> rb < length bs \<and> bit (bs ! rb) (7 - k)"
      using nth_buf_bits [of "8 * rb + k" bs] True by (auto simp: sbit_def)
    moreover have "\<not> bit (ucast (b :: byte) :: u32) (15 - k)" for b using True bit_imp_le_length [of b "15 - k"] by (auto simp: bit_ucast_iff)
    moreover have "bit (push_bit 8 (ucast b) :: u32) (15 - k) = bit b (7 - k)" for b :: byte
    proof -
      have "8 \<le> 15 - k" "15 - k - 8 = 7 - k" "15 - k < 32" "7 - k < 32" using True by linarith+
      then show ?thesis by (simp add: bit_push_bit_iff bit_ucast_iff)
    qed
    ultimately show ?thesis using nth [of 0] len(2) by (auto simp: next_word_def rb Let_def bit_or_iff)
  next
    case False
    then obtain j where j: "k = 8 + j" "j < 8" using assms(3) by (metis le_Suc_ex nat_add_left_cancel_less not_le numeral_Bit0 add.assoc)
    then have "8 * rb + k = j + (rb + 1) * 8" by simp
    then have "(8 * rb + k) div 8 = rb + 1" "(8 * rb + k) mod 8 = j" using j(2) by simp_all
    then have "(8 * rb + k) div 8 = rb + 1" "7 - (8 * rb + k) mod 8 = 15 - k" using j(1) by simp_all
    then have "sbit bs (8 * rb + k) \<longleftrightarrow> rb + 1 < length bs \<and> bit (bs ! (rb + 1)) (15 - k)"
      using nth_buf_bits [of "8 * rb + k" bs] j by (auto simp: sbit_def)
    moreover have d: "\<not> 8 \<le> 15 - k" "15 - k < 32" using False by linarith+
    moreover have "\<not> bit (push_bit 8 w :: u32) (15 - k)" for w using d(1) by (simp add: bit_push_bit_iff)
    moreover have "bit (ucast b :: u32) (15 - k) = bit b (15 - k)" for b :: byte using d(2) by (simp add: bit_ucast_iff)
    ultimately show ?thesis using nth [of 1] len(2) by (auto simp: next_word_def rb Let_def bit_or_iff)
  qed
qed

text \<open>What the cache holds: \<open>k\<close> bits of the stream at its upper end, zeros below.\<close>

definition cached :: "(nat \<Rightarrow> bool) \<Rightarrow> int \<Rightarrow> u32 \<Rightarrow> bool" where
  "cached f k w \<longleftrightarrow> (\<forall>i < 32. bit w (31 - i) \<longleftrightarrow> int i < k \<and> f i)"

lemma cached_shift:
  assumes "cached f k w" "k \<le> 32" shows "cached (\<lambda>i. f (n + i)) (k - int n) (push_bit n w)"
  unfolding cached_def
proof (intro allI impI)
  fix i :: nat assume i: "i < 32"
  show "bit (push_bit n w) (31 - i) \<longleftrightarrow> int i < k - int n \<and> f (n + i)"
  proof (cases "n + i < 32")
    case True
    then have "31 - i - n = 31 - (n + i)" "n \<le> 31 - i" "31 - i < 32" by simp_all
    then show ?thesis using assms(1) True by (auto simp: cached_def bit_push_bit_iff)
  next
    case False
    then have "\<not> n \<le> 31 - i" "\<not> int i < k - int n" using i assms(2) by simp_all
    then show ?thesis by (simp add: bit_push_bit_iff)
  qed
qed

lemma cached_refill:
  assumes "cached f (16 - int l) c" "l \<le> 16" "fits 16 w" "\<And>j. j < 16 \<Longrightarrow> bit w (15 - j) = f (16 - l + j)"
  shows "cached f (32 - int l) (c OR push_bit l w)"
  unfolding cached_def
proof (intro allI impI)
  fix i :: nat assume i: "i < 32"
  have c: "bit c (31 - i) \<longleftrightarrow> int i < 16 - int l \<and> f i" using assms(1) i by (simp add: cached_def)
  obtain m where m: "16 = l + m" using assms(2) le_Suc_ex by blast
  consider "i < m" | "m \<le> i" "i < 16 + m" | "16 + m \<le> i" by linarith
  then show "bit (c OR push_bit l w) (31 - i) \<longleftrightarrow> int i < 32 - int l \<and> f i"
  proof cases
    case 1
    then have "\<not> bit w (31 - i - l)" using assms(3) m by (fastforce simp: fits_def)
    then show ?thesis using 1 c m by (auto simp: bit_or_iff bit_push_bit_iff)
  next
    case 2
    then obtain j where j: "i = m + j" using le_Suc_ex by blast
    then have k: "31 - i - l = 15 - j" "j < 16" "16 - l + j = i" "l \<le> 31 - i" "31 - i < 32" using 2 m by simp_all
    then have "bit w (31 - i - l) = f i" using assms(4) [OF k(2)] by simp
    moreover have "\<not> int i < 16 - int l" "int i < 32 - int l" using 2 m by simp_all
    ultimately show ?thesis using k c by (auto simp: bit_or_iff bit_push_bit_iff)
  next
    case 3
    then have "\<not> l \<le> 31 - i" "\<not> int i < 32 - int l" using m i by simp_all
    then show ?thesis using c by (auto simp: bit_or_iff bit_push_bit_iff)
  qed
qed

lemma rd_atD:
  assumes "rd_at bs pos s"
  shows "int (PStartBuf s) \<le> PEndBuf s" "PEndBuf s \<le> int (length (PBuf s))" "bs = slice (PBuf s) (PStartBuf s) (nat (PEndBuf s) - PStartBuf s)" "-16 \<le> ILeftBits s" "ILeftBits s \<le> 0"
    "PStartBuf s \<le> PCurBuf s" "int ((PCurBuf s - PStartBuf s) * 8) = int pos + 16 - ILeftBits s"
    "cached (\<lambda>i. sbit bs (pos + i)) (16 - ILeftBits s) (UiCurBits s)"
  using assms unfolding rd_at_def cached_def by blast+

lemma rd_atI:
  assumes "rd_at bs pos s" "s' = s\<lparr>UiCurBits := c, ILeftBits := l, PCurBuf := q\<rparr>" "-16 \<le> l" "l \<le> 0" "PStartBuf s \<le> q"
    "int ((q - PStartBuf s) * 8) = int pos' + 16 - l" "cached (\<lambda>i. sbit bs (pos' + i)) (16 - l) c"
  shows "rd_at bs pos' s'"
  using rd_atD(1-3) [OF assms(1)] assms(2-7) by (simp add: rd_at_def cached_def)

lemma refill_at:
  assumes "rd_at bs pos s" "0 < ILeftBits s + int n" "n \<le> 16" "pos + n \<le> 8 * length bs"
  shows "dump (int n) s = (Inr (), s\<lparr>UiCurBits := push_bit n (UiCurBits s) OR push_bit (nat (ILeftBits s + int n)) (next_word s),
    ILeftBits := ILeftBits s + int n - 16, PCurBuf := PCurBuf s + 2\<rparr>)"
proof -
  note R = rd_atD [OF assms(1)]
  let ?rb = "PCurBuf s - PStartBuf s"
  have rb: "int (PCurBuf s) - int (PStartBuf s) = int ?rb" using R(6) by simp
  have len: "length bs = nat (PEndBuf s) - PStartBuf s" "allowed_bytes s = int (length bs)" using R(1-3) by (auto simp: slice_def allowed_bytes_def)
  have "int ?rb * 8 \<le> int (length bs) * 8 + 15" using R(7) assms(2,4) by simp
  then have "\<not> int ?rb > int (length bs) + 1" by linarith
  moreover have "\<not> (int ?rb < int (length bs) \<and> PCurBuf s \<ge> length (PBuf s))" "\<not> (int ?rb + 1 < int (length bs) \<and> PCurBuf s + 1 \<ge> length (PBuf s))"
    using len(1) R(2,6) by linarith+
  ultimately show ?thesis using assms(2)
    by (simp only: dump_def DUMP_BITS_def NEED_BITS_def GET_WORD_def next_word_def rb len(2) shl32_def Let_def) simp
qed

lemma dump_at:
  assumes "rd_at bs pos s" "n \<le> 16" "pos + n \<le> 8 * length bs"
  shows "\<exists>s'. dump (int n) s = (Inr (), s') \<and> rd_at bs (pos + n) s' \<and> IBits s' = IBits s"
proof -
  note R = rd_atD [OF assms(1)]
  have c: "cached (\<lambda>i. sbit bs (pos + n + i)) (16 - (ILeftBits s + int n)) (push_bit n (UiCurBits s))"
    using cached_shift [OF R(8), of n] R(4) by (simp add: add.assoc diff_diff_eq)
  show ?thesis
  proof (cases "ILeftBits s + int n \<le> 0")
    case True
    let ?s = "s\<lparr>UiCurBits := push_bit n (UiCurBits s), ILeftBits := ILeftBits s + int n, PCurBuf := PCurBuf s\<rparr>"
    have "dump (int n) s = (Inr (), ?s)" using True by (simp add: dump_def DUMP_BITS_def NEED_BITS_def shl32_def)
    moreover have "rd_at bs (pos + n) ?s" by (rule rd_atI [OF assms(1) refl]) (use R(4-7) True c in simp_all)
    ultimately show ?thesis by simp
  next
    case False
    define l where "l = nat (ILeftBits s + int n)"
    then have l: "ILeftBits s + int n = int l" "1 \<le> l" "l \<le> 16" using False R(5) assms(2) by auto
    have e: "8 * (PCurBuf s - PStartBuf s) + j = pos + n + (16 - l + j)" for j using R(7) l by linarith
    have w: "bit (next_word s) (15 - j) = sbit bs (pos + n + (16 - l + j))" if "j < 16" for j
      using rd_word [OF assms(1) refl that] e by simp
    let ?s = "s\<lparr>UiCurBits := push_bit n (UiCurBits s) OR push_bit l (next_word s), ILeftBits := int l - 16, PCurBuf := PCurBuf s + 2\<rparr>"
    have "rd_at bs (pos + n) ?s"
    proof (rule rd_atI [OF assms(1) refl])
      show "int ((PCurBuf s + 2 - PStartBuf s) * 8) = int (pos + n) + 16 - (int l - 16)" using R(6,7) l by simp
      show "cached (\<lambda>i. sbit bs (pos + n + i)) (16 - (int l - 16)) (push_bit n (UiCurBits s) OR push_bit l (next_word s))"
        using cached_refill [OF c [unfolded l(1)] l(3) next_word_fits w] by simp
    qed (use l R(6) in simp_all)
    moreover have "dump (int n) s = (Inr (), ?s)" using refill_at [OF assms(1) _ assms(2,3)] l by simp
    ultimately show ?thesis by simp
  qed
qed

subsection \<open>Reading what was written\<close>

text \<open>The stream continues with the bits \<open>l\<close> at \<open>pos\<close>.\<close>

definition follows :: "byte list \<Rightarrow> nat \<Rightarrow> bool list \<Rightarrow> bool" where
  "follows bs pos l \<longleftrightarrow> pos + length l \<le> 8 * length bs \<and> (\<forall>i < length l. sbit bs (pos + i) = l ! i)"

lemma follows_append: "follows bs pos (xs @ ys) \<longleftrightarrow> follows bs pos xs \<and> follows bs (pos + length xs) ys"
proof -
  have "(\<forall>i < length xs + length ys. P i) \<longleftrightarrow> (\<forall>i < length xs. P i) \<and> (\<forall>i < length ys. P (length xs + i))" for P
  proof (intro iffI allI impI)
    fix i assume a: "(\<forall>i < length xs. P i) \<and> (\<forall>i < length ys. P (length xs + i))" "i < length xs + length ys"
    then show "P i" using conjunct2 [OF a(1), rule_format, of "i - length xs"] by (cases "i < length xs") simp_all
  qed simp
  from this [of "\<lambda>i. sbit bs (pos + i) = (xs @ ys) ! i"] show ?thesis by (auto simp: follows_def nth_append add.assoc)
qed

lemma UBITS_at:
  assumes "rd_at bs pos s" "n \<le> 16" "fits n v" "follows bs pos (wbits n v)"
  shows "UBITS (UiCurBits s) (int n) = v"
proof (rule bit_word_eqI)
  fix j assume "j < LENGTH(32)"
  have u: "UBITS (UiCurBits s) (int n) = drop_bit (32 - n) (UiCurBits s)" using assms(2) by (simp add: UBITS_def shr32_def nat_diff_distrib)
  show "bit (UBITS (UiCurBits s) (int n)) j = bit v j"
  proof (cases "j < n")
    case True
    then have i: "n - 1 - j < n" "32 - n + j = 31 - (n - 1 - j)" "n - 1 - (n - 1 - j) = j" using assms(2) by linarith+
    have "bit (UiCurBits s) (31 - (n - 1 - j)) = sbit bs (pos + (n - 1 - j))" using i(1) assms(2) by (intro rd_at_bit [OF assms(1)]) linarith
    also have "\<dots> = wbits n v ! (n - 1 - j)" using assms(4) i(1) by (simp only: follows_def length_bits)
    also have "\<dots> = bit v j" using i by (simp only: nth_wbits)
    finally show ?thesis using i(2) by (simp add: u bit_drop_bit_eq)
  next
    case False
    then have "\<not> bit v j" using assms(3) by (auto simp: fits_def)
    moreover have "\<not> 32 - n + j < 32" using False assms(2) by linarith
    then have "\<not> bit (UiCurBits s) (32 - n + j)" using bit_imp_le_length [of "UiCurBits s" "32 - n + j"] by auto
    ultimately show ?thesis by (simp add: u bit_drop_bit_eq)
  qed
qed

lemma follows_dump:
  assumes "rd_at bs pos s" "follows bs pos (wbits n v)" "n \<le> 16"
  shows "\<exists>s'. dump (int n) s = (Inr (), s') \<and> rd_at bs (pos + n) s' \<and> IBits s' = IBits s"
  using dump_at [OF assms(1,3)] assms(2) by (simp add: follows_def)

lemma BsGetBits_at:
  assumes "rd_at bs pos s" "n \<le> 16" "fits n v" "follows bs pos (wbits n v)"
  shows "\<exists>s'. BsGetBits (int n) s = (Inr v, s') \<and> rd_at bs (pos + n) s' \<and> IBits s' = IBits s"
  using follows_dump [OF assms(1,4,2)] UBITS_at [OF assms] by (auto simp: BsGetBits_def andthen_def gets_def ret_def)

lemma fits_unat:
  assumes "fits n w" "n \<le> 32" shows "unat w < 2 ^ n"
proof -
  have "take_bit n w = w" using assms(1) by (intro bit_word_eqI) (auto simp: bit_take_bit_iff fits_def)
  then have "unat w = unat w mod 2 ^ n" by (metis unat_take)
  then show ?thesis by (metis mod_less_divisor zero_less_numeral zero_less_power)
qed

lemma lz_table:
  assumes "0 < v" "v < 256" "2 ^ (7 - j) \<le> v" "v < 2 ^ (8 - j)" "j \<le> 7"
  shows "g_kuiLeadingZeroTable ! v = j"
proof -
  have t: "table_all (\<lambda>i x. i \<noteq> 0 \<longrightarrow> x \<le> 7 \<and> 2 ^ (7 - x) \<le> i \<and> i < 2 ^ (8 - x)) 0 g_kuiLeadingZeroTable"
    by (simp add: g_kuiLeadingZeroTable_def)
  have "length g_kuiLeadingZeroTable = 256" by (simp add: g_kuiLeadingZeroTable_def)
  then have "v < length g_kuiLeadingZeroTable" using assms(2) by simp
  note T = table_all [OF t this]
  have c: "(2 :: int) ^ k \<le> int v \<longleftrightarrow> 2 ^ k \<le> v" "int v < (2 :: int) ^ k \<longleftrightarrow> v < 2 ^ k" for k
    by (metis of_nat_le_iff of_nat_numeral of_nat_power) (metis of_nat_less_iff of_nat_numeral of_nat_power)
  let ?x = "g_kuiLeadingZeroTable ! v"
  have x: "?x \<le> 7" "2 ^ (7 - ?x) \<le> v" "v < 2 ^ (8 - ?x)" using T assms(1) unfolding add_0_left c by auto
  have "(2 :: nat) ^ (7 - j) < 2 ^ (8 - ?x)" "(2 :: nat) ^ (7 - ?x) < 2 ^ (8 - j)" using x assms(3,4) by linarith+
  then have "7 - j < 8 - ?x" "7 - ?x < 8 - j" by (simp_all only: power_strict_increasing_iff one_less_numeral_iff semiring_norm)
  then show ?thesis using x(1) assms(5) by linarith
qed

lemma leading_zeros:
  assumes "2 ^ (31 - k) \<le> unat c" "unat c < 2 ^ (32 - k)" "k < 16"
  shows "GetLeadingZeroBits c = int k"
proof -
  have u: "unat (UBITS c 8) = unat c div 2 ^ 24" "unat (UBITS c 16) = unat c div 2 ^ 16"
    by (simp_all only: UBITS_def shr32_def) (simp_all add: unat_drop)
  show ?thesis
  proof (cases "k < 8")
    case True
    let ?v = "unat c div 2 ^ 24"
    have p: "2 ^ (31 - k) = 2 ^ (7 - k) * (2 :: nat) ^ 24" "2 ^ (32 - k) = 2 ^ (8 - k) * (2 :: nat) ^ 24" using True by (simp_all only: power_add [symmetric]) simp_all
    have v: "2 ^ (7 - k) \<le> ?v" "?v < 2 ^ (8 - k)" using assms(1,2) unfolding p by (simp_all add: less_eq_div_iff_mult_less_eq div_less_iff_less_mult)
    have "(1 :: nat) \<le> 2 ^ (7 - k)" "(2 :: nat) ^ (8 - k) \<le> 256" using power_increasing [of "8 - k" 8 "2 :: nat"] by simp_all
    then have r: "0 < ?v" "?v < 256" using v by linarith+
    then have "g_kuiLeadingZeroTable ! ?v = k" using v True by (intro lz_table) simp_all
    moreover have "UBITS c 8 \<noteq> 0" using r(1) u(1) by (metis less_irrefl unat_0)
    ultimately show ?thesis using u(1) by (simp only: GetLeadingZeroBits_def if_True not_False_eq_True simp_thms)
  next
    case False
    let ?v = "unat c div 2 ^ 16"
    have p: "2 ^ (31 - k) = 2 ^ (7 - (k - 8)) * (2 :: nat) ^ 16" "2 ^ (32 - k) = 2 ^ (8 - (k - 8)) * (2 :: nat) ^ 16" using False assms(3) by (simp_all only: power_add [symmetric]) simp_all
    have v: "2 ^ (7 - (k - 8)) \<le> ?v" "?v < 2 ^ (8 - (k - 8))" using assms(1,2) unfolding p by (simp_all add: less_eq_div_iff_mult_less_eq div_less_iff_less_mult)
    have "(1 :: nat) \<le> 2 ^ (7 - (k - 8))" "(2 :: nat) ^ (8 - (k - 8)) \<le> 256" using power_increasing [of "8 - (k - 8)" 8 "2 :: nat"] by simp_all
    then have r: "0 < ?v" "?v < 256" using v by linarith+
    then have "g_kuiLeadingZeroTable ! ?v = k - 8" using v assms(3) by (intro lz_table) simp_all
    moreover have "UBITS c 16 \<noteq> 0" using r(1) u(2) by (metis less_irrefl unat_0)
    moreover have "(2 :: nat) ^ (32 - k) \<le> 2 ^ 24" using False by (intro power_increasing) simp_all
    then have "unat (UBITS c 8) = 0" using u(1) assms(2) by simp
    then have "UBITS c 8 = 0" by (simp add: unat_eq_0)
    ultimately show ?thesis using u(2) False by (simp add: GetLeadingZeroBits_def)
  qed
qed

text \<open>The leading zeros of a code that the stream continues with.\<close>

lemma zeros_at:
  assumes "rd_at bs pos s" "k < 16" "\<And>i. i < k \<Longrightarrow> \<not> sbit bs (pos + i)" "sbit bs (pos + k)"
  shows "GetLeadingZeroBits (UiCurBits s) = int k"
proof (rule leading_zeros)
  let ?c = "UiCurBits s"
  have z: "\<not> bit ?c j" if "32 - k \<le> j" for j
  proof
    assume b: "bit ?c j"
    then have "j < 32" using bit_imp_le_length [of ?c j] by simp
    then have j: "31 - j < k" "31 - (31 - j) = j" using that assms(2) by linarith+
    have "31 - j < 16" using j(1) assms(2) by simp
    from rd_at_bit [OF assms(1) this] show False using b assms(3) [OF j(1)] unfolding j(2) by simp
  qed
  then have "fits (32 - k) ?c" unfolding fits_def by (meson not_less)
  then show "unat ?c < 2 ^ (32 - k)" by (rule fits_unat) simp
  have "bit ?c (31 - k)" using rd_at_bit [OF assms(1,2)] assms(4) by simp
  then have "odd (unat ?c div 2 ^ (31 - k))" by (metis bit_iff_odd bit_unat)
  then have "unat ?c div 2 ^ (31 - k) \<noteq> 0" by (metis even_zero)
  then show "2 ^ (31 - k) \<le> unat ?c" by (simp add: div_eq_0_iff)
qed (rule assms(2))

lemma BsGetUe_at:
  assumes "rd_at bs pos s" "2 ^ k \<le> unat v + 1" "unat v + 1 < 2 ^ (k + 1)" "k < 16" "follows bs pos (wbits (2 * k + 1) (v + 1))"
  shows "\<exists>s'. BsGetUe s = (Inr v, s') \<and> rd_at bs (pos + 2 * k + 1) s' \<and> IBits s' = IBits s"
proof -
  have "(2 :: nat) ^ (k + 1) \<le> 2 ^ 16" using assms(4) by (intro power_increasing) simp_all
  then have u: "unat (v + 1) = unat v + 1" using assms(3) by (simp add: unat_word_ariths)
  have fol: "pos + 2 * k + 1 \<le> 8 * length bs" "\<And>i. i < 2 * k + 1 \<Longrightarrow> sbit bs (pos + i) = bit (v + 1) (2 * k - i)"
    using assms(5) by (simp_all add: follows_def nth_wbits)
  have hi: "\<not> bit (v + 1) j" if "k + 1 \<le> j" for j
  proof -
    have "(2 :: nat) ^ (k + 1) \<le> 2 ^ j" using that by (intro power_increasing) simp_all
    then have "(unat v + 1) div 2 ^ j = 0" using assms(3) by simp
    then show ?thesis using u bit_unat [of "v + 1" j] by (simp add: bit_iff_odd)
  qed
  have "(unat v + 1) div 2 ^ k = 1" using assms(2,3) by (intro div_nat_eqI) simp_all
  then have top: "bit (v + 1) k" using u bit_unat [of "v + 1" k] by (simp add: bit_iff_odd)
  have lz: "GetLeadingZeroBits (UiCurBits s) = int k"
  proof (rule zeros_at [OF assms(1,4)])
    show "\<not> sbit bs (pos + i)" if "i < k" for i using that fol(2) [of i] hi [of "2 * k - i"] by simp
    show "sbit bs (pos + k)" using fol(2) [of k] top by simp
  qed
  obtain s1 where s1: "dump (int (k + 1)) s = (Inr (), s1)" "rd_at bs (pos + (k + 1)) s1" "IBits s1 = IBits s"
    using dump_at [OF assms(1), of "k + 1"] assms(4) fol(1) by auto
  let ?t = "take_bit k (v + 1)"
  have "follows bs (pos + (k + 1)) (wbits k ?t)" unfolding follows_def
  proof (intro conjI allI impI)
    show "pos + (k + 1) + length (wbits k ?t) \<le> 8 * length bs" using fol(1) by simp
    fix i assume "i < length (wbits k ?t)"
    then have i: "i < k" by simp
    then have "2 * k - (k + 1 + i) = k - 1 - i" by simp
    then show "sbit bs (pos + (k + 1) + i) = wbits k ?t ! i"
      using fol(2) [of "k + 1 + i"] i by (simp add: add.assoc nth_wbits bit_take_bit_iff)
  qed
  moreover have "fits k ?t" by (simp add: fits_def bit_take_bit_iff)
  ultimately have t: "UBITS (UiCurBits s1) (int k) = ?t" using UBITS_at [OF s1(2)] assms(4) by simp
  obtain s2 where s2: "dump (int k) s1 = (Inr (), s2)" "rd_at bs (pos + (k + 1) + k) s2" "IBits s2 = IBits s1"
    using dump_at [OF s1(2), of k] assms(4) fol(1) by auto
  have val: "shl32 1 (int k) - 1 + ?t = v"
  proof -
    have p: "(push_bit k 1 :: u32) = word_of_nat (2 ^ k)" by (simp add: push_bit_eq_mult)
    have "?t = word_of_nat ((unat v + 1) mod 2 ^ k)" unfolding u [symmetric] unat_take [symmetric] by simp
    moreover have "2 ^ k + (unat v + 1) mod 2 ^ k = unat v + 1" using \<open>(unat v + 1) div 2 ^ k = 1\<close> mult_div_mod_eq [of "2 ^ k" "unat v + 1"] by simp
    ultimately have "push_bit k 1 + ?t = word_of_nat (unat v + 1)" unfolding p by (metis of_nat_add)
    then show ?thesis by (simp add: shl32_def algebra_simps)
  qed
  have "\<not> int k > 16" using assms(4) by simp
  then have "BsGetUe s = (Inr v, if k = 0 then s1 else s2)"
    using s1(1) s2(1) t val lz by (cases "k = 0") (simp_all add: BsGetUe_def andthen_def gets_def ret_def fail_def add.commute)
  moreover have e: "pos + (k + 1) + k = pos + 2 * k + 1" by simp
  ultimately show ?thesis using s1(2,3) s2(3) s2(2) [unfolded e] by (cases "k = 0") simp_all
qed

lemma BsGetSe_value:
  assumes "\<bar>v\<bar> \<le> 32767" "code = (if 0 < v then word_of_int (2 * v - 1) else word_of_int (2 * (- v)) :: u32)"
  shows "(if code AND 0x01 \<noteq> 0 then sint (drop_bit 1 (code + 1)) else sint (1 + NOT (drop_bit 1 code))) = v"
proof -
  define m where "m = nat (if 0 < v then 2 * v - 1 else 2 * (- v))"
  have c: "code = word_of_nat m" "m < 65535" "int m = (if 0 < v then 2 * v - 1 else 2 * (- v))" using assms by (auto simp: m_def)
  then have u: "unat code = m" by (simp add: unat_of_nat)
  have o: "code AND 0x01 \<noteq> 0 \<longleftrightarrow> 0 < v"
  proof -
    have "code AND 0x01 \<noteq> 0 \<longleftrightarrow> bit code 0" by (simp add: and_one_eq bit_0 mod2_eq_if)
    moreover have "bit code 0 \<longleftrightarrow> odd m" using bit_unat [of code 0] u by (simp add: bit_0)
    moreover have "odd m \<longleftrightarrow> 0 < v" using c(3) by presburger
    ultimately show ?thesis by simp
  qed
  have s: "sint (word_of_int x :: u32) = x" if "- 65536 < x" "x < 65536" for x
    using that by (simp add: signed_of_int signed_take_bit_int_eq_self)
  have w: "b = (word_of_int x :: u32)" if "unat b = nat x" "0 \<le> x" for b x
  proof -
    have "b = word_of_nat (unat b)" by simp
    also have "\<dots> = word_of_int x" unfolding that(1) using that(2) by simp
    finally show ?thesis .
  qed
  show ?thesis
  proof (cases "0 < v")
    case True
    have "unat (code + 1) = m + 1" using u c(2) by (simp add: unat_word_ariths)
    then have "unat (drop_bit 1 (code + 1)) = nat v" using c(3) True by (simp add: unat_drop)
    then have "drop_bit 1 (code + 1) = (word_of_int v :: u32)" using True by (intro w) simp_all
    then show ?thesis using o True s [of v] assms(1) by simp
  next
    case False
    have "unat (drop_bit 1 code) = nat (- v)" using c(3) False u by (simp add: unat_drop)
    then have "drop_bit 1 code = (word_of_int (- v) :: u32)" using False by (intro w) simp_all
    then have "1 + NOT (drop_bit 1 code) = (word_of_int v :: u32)" by (simp add: not_eq_complement)
    then show ?thesis using o False s [of v] assms(1) by simp
  qed
qed

subsection \<open>Opening a reader\<close>

lemma bit_join:
  assumes "fits 8 y" "j < 8" "8 * k + j < 32"
  shows "bit (push_bit 8 x OR y :: u32) (8 * k + j) = (case k of 0 \<Rightarrow> bit y j | Suc k1 \<Rightarrow> bit x (8 * k1 + j))"
  using assms by (cases k) (auto simp: bit_or_iff bit_push_bit_iff fits_def)

lemma first_word:
  assumes "i < 32" "seed = min 4 (length bs)" "\<And>j. j < seed \<Longrightarrow> d ! j = bs ! j"
  shows "bit (GetValue4BytesSafe d seed) (31 - i) = sbit bs i"
proof -
  define q r where "q = i div 8" and "r = i mod 8"
  have i: "i = 8 * q + r" "r < 8" "q < 4" using assms(1) by (simp_all add: q_def r_def less_mult_imp_div_less)
  define b where "b j = (if j < seed then ucast (d ! j) else 0 :: u32)" for j
  have b: "fits 8 (b j)" for j using bit_imp_le_length [of "d ! j"] by (auto simp: fits_def b_def bit_ucast_iff)
  have e: "GetValue4BytesSafe d seed = push_bit 8 (push_bit 8 (push_bit 8 (push_bit 8 0 OR b 0) OR b 1) OR b 2) OR b 3"
    by (simp add: GetValue4BytesSafe_def b_def)
  have low: "bit (push_bit 8 x OR b m) (8 * 0 + (7 - r)) = bit (b m) (7 - r)" for x m
    using bit_join [OF b, of "7 - r" 0 x m] by simp
  have up: "bit (push_bit 8 x OR b m) (8 * Suc k + (7 - r)) = bit x (8 * k + (7 - r))" if "k < 3" for x m k
    using bit_join [OF b, of "7 - r" "Suc k" x m] that by simp
  have k3: "Suc (Suc 0) < 3" "Suc 0 < 3" "0 < (3 :: nat)" by simp_all
  have "q = 0 \<or> q = 1 \<or> q = 2 \<or> q = 3" using i(3) by linarith
  then have "bit (GetValue4BytesSafe d seed) (8 * (3 - q) + (7 - r)) = bit (b q) (7 - r)"
  proof (elim disjE)
    assume q: "q = 0" then have k: "3 - q = Suc (Suc (Suc 0))" by simp
    show ?thesis unfolding e k using q by (simp only: up [OF k3(1)] up [OF k3(2)] up [OF k3(3)] low)
  next
    assume q: "q = 1" then have k: "3 - q = Suc (Suc 0)" by simp
    show ?thesis unfolding e k using q by (simp only: up [OF k3(1)] up [OF k3(2)] up [OF k3(3)] low)
  next
    assume q: "q = 2" then have k: "3 - q = Suc 0" by simp
    show ?thesis unfolding e k using q by (simp only: up [OF k3(1)] up [OF k3(2)] up [OF k3(3)] low)
  next
    assume q: "q = 3" then have k: "3 - q = 0" by simp
    show ?thesis unfolding e k using q by (simp only: low)
  qed
  moreover have "31 - i = 8 * (3 - q) + (7 - r)" using i by linarith
  moreover have "bit (b q) (7 - r) \<longleftrightarrow> q < length bs \<and> bit (bs ! q) (7 - r)"
    using assms(2) assms(3) [of q] i(3) by (auto simp: b_def bit_ucast_iff)
  moreover have "sbit bs i \<longleftrightarrow> q < length bs \<and> bit (bs ! q) (7 - r)"
    using i nth_buf_bits [of i bs] by (auto simp: sbit_def q_def r_def)
  ultimately show ?thesis by simp
qed

lemma int32_small: "0 \<le> x \<Longrightarrow> x < 2 ^ 31 \<Longrightarrow> int32 x = x"
  unfolding int32_def by (rule signed_take_bit_int_eq_self) simp_all

lemma DecInitBits_at:
  assumes "off + (bits + 7) div 8 \<le> length buf" "0 < bits" "bits + 7 < 2 ^ 31"
  shows "\<exists>s'. DecInitBits buf off (int bits) s = (Inr (), s') \<and> rd_at (slice buf off ((bits + 7) div 8)) 0 s' \<and> IBits s' = int bits"
proof -
  let ?n = "(bits + 7) div 8" and ?bs = "slice buf off ((bits + 7) div 8)"
  let ?seed = "min 4 ?n" and ?d = "drop off buf"
  have n: "0 < ?n" "length ?bs = ?n" using assms by (simp_all add: slice_def)
  have c: "bit (GetValue4BytesSafe ?d ?seed) (31 - i) = sbit ?bs i" if "i < 32" for i
    using n(2) by (intro first_word [OF that]) (simp_all add: slice_def)
  have seed: "(if int ?n > 4 then 4 else nat (int ?n)) = ?seed" by simp
  let ?s = "s\<lparr>PBuf := buf, PStartBuf := off, PEndBuf := int (off + ?n), IBits := int bits, UiCurBits := GetValue4BytesSafe ?d ?seed, PCurBuf := off + 4, ILeftBits := -16\<rparr>"
  have "\<not> length buf - off < ?seed" using assms(1) by linarith
  moreover have "int32 (int bits + 7) div 8 = int ?n" using int32_small [of "int bits + 7"] assms(3) by (simp add: zdiv_int)
  ultimately have "DecInitBits buf off (int bits) s = (Inr (), ?s)"
    using n(1) assms(1) seed by (simp add: DecInitBits_def InitReadBits_def Let_def)
  moreover have "rd_at ?bs 0 ?s" using assms(1) c by (simp add: rd_at_def flip: of_nat_add)
  ultimately show ?thesis by simp
qed

section \<open>Syntax elements\<close>

text \<open>
  What the encoder writes and the decoder reads: a field of fixed width, unsigned and signed Exp-Golomb codes,
  and a truncated code with the number of values it can take. The ranges are those of the 16-bit reader.
\<close>

datatype element = Bits nat nat | Ue nat | Se int | Te nat nat

definition elem_ok :: "element \<Rightarrow> bool" where
  "elem_ok e = (case e of Bits n v \<Rightarrow> 1 \<le> n \<and> n \<le> 16 \<and> v < 2 ^ n | Ue v \<Rightarrow> v < 65535 | Se v \<Rightarrow> \<bar>v\<bar> \<le> 32767
     | Te r v \<Rightarrow> 2 \<le> r \<and> v < r \<and> v < 65535)"

definition se_code :: "int \<Rightarrow> u32" where
  "se_code v = (if 0 < v then word_of_int (2 * v - 1) else word_of_int (2 * (- v)))"

definition ue_bits :: "u32 \<Rightarrow> bool list" where
  "ue_bits v = wbits (the (ue_length v)) (v + 1)"

definition elem_bits :: "element \<Rightarrow> bool list" where
  "elem_bits e = (case e of Bits n v \<Rightarrow> wbits n (of_nat v) | Ue v \<Rightarrow> ue_bits (of_nat v) | Se v \<Rightarrow> ue_bits (se_code v)
     | Te r v \<Rightarrow> if r = 2 then wbits 1 (if v = 0 then 1 else 0) else ue_bits (of_nat v))"

definition write_elem :: "element \<Rightarrow> SBitStringAux \<Rightarrow> SBitStringAux option" where
  "write_elem e = (case e of Bits n v \<Rightarrow> BsWriteBits (int n) (of_nat v) | Ue v \<Rightarrow> BsWriteUE (of_nat v) | Se v \<Rightarrow> BsWriteSE v
     | Te r v \<Rightarrow> BsWriteTE (int r - 1) (of_nat v))"

definition read_elem :: "element \<Rightarrow> element rcomp" where
  "read_elem e = (case e of Bits n v \<Rightarrow> andthen (BsGetBits (int n)) (\<lambda>x. ret (Bits n (unat x)))
     | Ue v \<Rightarrow> andthen BsGetUe (\<lambda>x. ret (Ue (unat x))) | Se v \<Rightarrow> andthen BsGetSe (\<lambda>x. ret (Se x))
     | Te r v \<Rightarrow> andthen (BsGetTe0 (int r)) (\<lambda>x. ret (Te r (unat x))))"

fun write_all :: "element list \<Rightarrow> SBitStringAux \<Rightarrow> SBitStringAux option" where
  "write_all [] s = Some s"
| "write_all (e # es) s = (case write_elem e s of None \<Rightarrow> None | Some s1 \<Rightarrow> write_all es s1)"

text \<open>A reader that knows the kinds of the elements, and asks before each one whether there is more data.\<close>

fun read_all :: "element list \<Rightarrow> (bool \<times> element) list rcomp" where
  "read_all [] = ret []"
| "read_all (e # es) = andthen (gets CheckMoreRBSPData) (\<lambda>m. andthen (read_elem e) (\<lambda>x. andthen (read_all es) (\<lambda>xs. ret ((m, x) # xs))))"

lemma se_code_small:
  assumes "\<bar>v\<bar> \<le> 32767" shows "unat (se_code v) < 65535"
proof -
  define m where "m = nat (if 0 < v then 2 * v - 1 else 2 * (- v))"
  have "se_code v = word_of_nat m" "m < 65535" using assms by (auto simp: se_code_def m_def)
  then show ?thesis by (simp add: unat_of_nat)
qed

lemma ue_bits_code:
  assumes "unat v < 65535"
  obtains k where "ue_length v = Some (2 * k + 1)" "ue_bits v = wbits (2 * k + 1) (v + 1)" "k < 16" "2 ^ k \<le> unat v + 1" "unat v + 1 < 2 ^ (k + 1)"
  using ue_length_small [OF assms] by (auto simp: ue_bits_def)

lemma fits_value:
  assumes "unat v < 2 ^ n" shows "fits n (v :: u32)"
  unfolding fits_def
proof (intro allI impI)
  fix i assume b: "bit v i"
  show "i < n"
  proof (rule ccontr)
    assume "\<not> i < n"
    then have "(2 :: nat) ^ n \<le> 2 ^ i" by (intro power_increasing) simp_all
    then have "unat v < 2 ^ i" using assms by linarith
    then have "unat v div 2 ^ i = 0" by simp
    then show False using b bit_unat [of v i] by (simp add: bit_iff_odd)
  qed
qed

lemma elem_bits_nonempty:
  assumes "elem_ok e" shows "0 < length (elem_bits e)"
proof -
  have u: "0 < length (ue_bits v)" if "unat v < 65535" for v using ue_length_small [OF that] by (auto simp: ue_bits_def)
  show ?thesis using assms u [of "se_code v" for v] se_code_small u [of "of_nat v" for v]
    by (cases e) (simp_all add: elem_ok_def elem_bits_def unat_of_nat del: length_greater_0_conv)
qed

lemma write_ue:
  assumes "wr_ok s" "unat v < 65535" "PCurBuf s + 4 \<le> length (PBuf s)"
  shows "\<exists>s'. BsWriteUE v s = Some s' \<and> wr_ok s' \<and> wr_bits s' = wr_bits s @ ue_bits v \<and> PStartBuf s' = PStartBuf s \<and> length (PBuf s') = length (PBuf s)"
proof -
  obtain k where k: "ue_length v = Some (2 * k + 1)" "ue_bits v = wbits (2 * k + 1) (v + 1)" "k < 16" "2 ^ k \<le> unat v + 1" "unat v + 1 < 2 ^ (k + 1)"
    using ue_bits_code [OF assms(2)] .
  have "unat (v + 1) = unat v + 1" using assms(2) by (simp add: unat_word_ariths)
  moreover have "(2 :: nat) ^ (k + 1) \<le> 2 ^ (2 * k + 1)" by (intro power_increasing) simp_all
  ultimately have "fits (2 * k + 1) (v + 1)" using k(5) by (intro fits_value) linarith
  from BsWriteBits_bits [OF assms(1) _ this assms(3)] show ?thesis using k by (auto simp: BsWriteUE_def)
qed

lemma write_elem:
  assumes "wr_ok s" "elem_ok e" "PCurBuf s + 4 \<le> length (PBuf s)"
  shows "\<exists>s'. write_elem e s = Some s' \<and> wr_ok s' \<and> wr_bits s' = wr_bits s @ elem_bits e \<and> PStartBuf s' = PStartBuf s \<and> length (PBuf s') = length (PBuf s)"
proof -
  have bit: "\<exists>s'. BsWriteOneBit b s = Some s' \<and> wr_ok s' \<and> wr_bits s' = wr_bits s @ wbits 1 b \<and> PStartBuf s' = PStartBuf s \<and> length (PBuf s') = length (PBuf s)"
    if "unat b < 2" for b using BsWriteBits_bits [OF assms(1) _ fits_value [of b 1] assms(3)] that by (auto simp: BsWriteOneBit_def)
  note ue = write_ue [OF assms(1) _ assms(3)]
  show ?thesis
  proof (cases e)
    case (Bits n v)
    then have n: "n \<le> 16" "v < 2 ^ n" using assms(2) by (simp_all add: elem_ok_def)
    then have "fits n (of_nat v)" by (intro fits_value) (simp add: unat_of_nat le_less_trans [OF mod_less_eq_dividend])
    from BsWriteBits_bits [OF assms(1) _ this assms(3)] show ?thesis using n Bits by (auto simp: write_elem_def elem_bits_def)
  next
    case (Ue v)
    then show ?thesis using ue [of "of_nat v"] assms(2) by (simp add: write_elem_def elem_bits_def elem_ok_def unat_of_nat)
  next
    case (Se v)
    have "BsWriteUE 0 s = BsWriteOneBit 1 s" by (simp add: BsWriteUE_def ue_length_def BsWriteOneBit_def G_kuiGolombUELength_def)
    then have "BsWriteSE v s = BsWriteUE (se_code v) s" by (simp add: BsWriteSE_def se_code_def)
    then show ?thesis using Se ue [of "se_code v"] assms(2) se_code_small [of v] by (simp add: write_elem_def elem_bits_def elem_ok_def)
  next
    case (Te r v)
    then have "v = 1" if "r = 2" "v \<noteq> 0" using that assms(2) by (simp add: elem_ok_def)
    then show ?thesis using Te ue [of "of_nat v"] bit [of 0] bit [of 1] assms(2)
      by (cases "r = 2"; cases "v = 0") (auto simp: write_elem_def elem_bits_def elem_ok_def BsWriteTE_def unat_of_nat)
  qed
qed

lemma read_ue:
  assumes "rd_at bs pos s" "unat v < 65535" "follows bs pos (ue_bits v)"
  shows "\<exists>s'. BsGetUe s = (Inr v, s') \<and> rd_at bs (pos + length (ue_bits v)) s' \<and> IBits s' = IBits s"
proof -
  obtain k where k: "ue_bits v = wbits (2 * k + 1) (v + 1)" "k < 16" "2 ^ k \<le> unat v + 1" "unat v + 1 < 2 ^ (k + 1)"
    using ue_bits_code [OF assms(2)] .
  from BsGetUe_at [OF assms(1) k(3,4,2)] assms(3) show ?thesis by (simp add: k(1))
qed

lemma read_elem:
  assumes "rd_at bs pos s" "elem_ok e" "follows bs pos (elem_bits e)"
  shows "\<exists>s'. read_elem e s = (Inr e, s') \<and> rd_at bs (pos + length (elem_bits e)) s' \<and> IBits s' = IBits s"
proof (cases e)
  case (Bits n v)
  then have n: "n \<le> 16" "v < 2 ^ n" using assms(2) by (simp_all add: elem_ok_def)
  have "(2 :: nat) ^ n \<le> 2 ^ 16" using n(1) by (intro power_increasing) simp_all
  then have u: "unat (of_nat v :: u32) = v" using n(2) by (simp add: unat_of_nat)
  then have "fits n (of_nat v)" using n(2) by (intro fits_value) simp
  from BsGetBits_at [OF assms(1) n(1) this] show ?thesis
    using assms(3) Bits u by (auto simp: read_elem_def elem_bits_def andthen_def ret_def)
next
  case (Ue v)
  then show ?thesis using read_ue [OF assms(1), of "of_nat v"] assms(2,3)
    by (auto simp: read_elem_def elem_bits_def elem_ok_def andthen_def ret_def unat_of_nat)
next
  case (Se v)
  then have v: "\<bar>v\<bar> \<le> 32767" using assms(2) by (simp add: elem_ok_def)
  show ?thesis using read_ue [OF assms(1) se_code_small [OF v]] Se assms(3) BsGetSe_value [OF v se_code_def]
    by (auto simp: read_elem_def elem_bits_def andthen_def ret_def BsGetSe_def)
next
  case (Te r v)
  let ?b = "if v = 0 then 1 else 0 :: u32"
  have b: "fits 1 ?b" by (rule fits_value) simp
  show ?thesis
  proof (cases "r = 2")
    case True
    then have "follows bs pos (wbits 1 ?b)" "v < 2" using Te assms(2,3) by (simp_all add: elem_bits_def elem_ok_def)
    then show ?thesis using Te True BsGetBits_at [OF assms(1) _ b]
      by (cases v) (auto simp: read_elem_def elem_bits_def andthen_def ret_def BsGetTe0_def BsGetOneBit_def)
  next
    case False
    then show ?thesis using Te read_ue [OF assms(1), of "of_nat v"] assms(2,3)
      by (auto simp: read_elem_def elem_bits_def elem_ok_def andthen_def ret_def unat_of_nat BsGetTe0_def)
  qed
qed

lemma wr_bits_length:
  assumes "wr_ok s" shows "8 * (PCurBuf s - PStartBuf s) \<le> length (wr_bits s)" "BsGetBitsPos s = int32 (int (length (wr_bits s)))"
proof -
  have "length (slice (PBuf s) (PStartBuf s) (PCurBuf s - PStartBuf s)) = PCurBuf s - PStartBuf s" using assms by (auto simp: wr_ok_def slice_def)
  then have "length (wr_bits s) = 8 * (PCurBuf s - PStartBuf s) + nat (32 - ILeftBits s)" by (simp add: wr_bits_def)
  then show "8 * (PCurBuf s - PStartBuf s) \<le> length (wr_bits s)" "BsGetBitsPos s = int32 (int (length (wr_bits s)))"
    using assms by (simp_all add: BsGetBitsPos_def wr_ok_def of_nat_diff algebra_simps)
qed

lemma room_left:
  assumes "wr_ok s" "length (wr_bits s) \<le> k" "PStartBuf s + k div 8 + 4 \<le> length (PBuf s)"
  shows "PCurBuf s + 4 \<le> length (PBuf s)"
proof -
  have "(PCurBuf s - PStartBuf s) \<le> k div 8" using wr_bits_length(1) [OF assms(1)] assms(2) by linarith
  then show ?thesis using assms(3) by linarith
qed

lemma write_all:
  assumes "wr_ok s" "\<forall>e\<in>set es. elem_ok e" "PStartBuf s + (length (wr_bits s) + length (concat (map elem_bits es))) div 8 + 4 \<le> length (PBuf s)"
  shows "\<exists>s'. write_all es s = Some s' \<and> wr_ok s' \<and> wr_bits s' = wr_bits s @ concat (map elem_bits es) \<and> PStartBuf s' = PStartBuf s \<and> length (PBuf s') = length (PBuf s)"
  using assms
proof (induction es arbitrary: s)
  case (Cons e es)
  have "PCurBuf s + 4 \<le> length (PBuf s)" by (rule room_left [OF Cons.prems(1) _ Cons.prems(3)]) simp
  then obtain s1 where s1: "write_elem e s = Some s1" "wr_ok s1" "wr_bits s1 = wr_bits s @ elem_bits e" "PStartBuf s1 = PStartBuf s" "length (PBuf s1) = length (PBuf s)"
    using write_elem [OF Cons.prems(1), of e] Cons.prems(2) by auto
  then show ?case using Cons.IH [OF s1(2)] Cons.prems(2,3) by (auto simp: add.assoc)
qed simp

lemma read_all:
  assumes "rd_at bs pos s" "\<forall>e\<in>set es. elem_ok e" "follows bs pos (concat (map elem_bits es))" "IBits s = int (pos + length (concat (map elem_bits es)) + 1)"
  shows "\<exists>s'. read_all es s = (Inr (map (Pair True) es), s') \<and> \<not> CheckMoreRBSPData s'"
  using assms
proof (induction es arbitrary: s pos)
  case Nil
  then have "\<not> CheckMoreRBSPData s" using rd_atD(6,7) [OF Nil(1)] by (simp add: CheckMoreRBSPData_def of_nat_diff algebra_simps)
  then show ?case by (simp add: ret_def)
next
  case (Cons e es)
  have f: "follows bs pos (elem_bits e)" "follows bs (pos + length (elem_bits e)) (concat (map elem_bits es))" using Cons.prems(3) by (simp_all add: follows_append)
  obtain s1 where s1: "read_elem e s = (Inr e, s1)" "rd_at bs (pos + length (elem_bits e)) s1" "IBits s1 = IBits s"
    using read_elem [OF Cons.prems(1) _ f(1)] Cons.prems(2) by auto
  obtain s2 where s2: "read_all es s1 = (Inr (map (Pair True) es), s2)" "\<not> CheckMoreRBSPData s2"
    using Cons.IH [OF s1(2) _ f(2)] Cons.prems(2,4) s1(3) by auto
  have "0 < length (elem_bits e)" using Cons.prems(2) by (intro elem_bits_nonempty) simp
  then have "CheckMoreRBSPData s" using rd_atD(6,7) [OF Cons.prems(1)] Cons.prems(4) by (simp add: CheckMoreRBSPData_def of_nat_diff algebra_simps add_pos_nonneg del: length_greater_0_conv)
  then show ?case using s1(1) s2 by (simp add: andthen_def gets_def ret_def)
qed

lemma trailing_from: "i < k \<Longrightarrow> (\<And>j. j < i \<Longrightarrow> \<not> bit v j) \<Longrightarrow> bit v i \<Longrightarrow> trailing_from v n k = n + i"
proof (induction k arbitrary: v n i)
  case (Suc k)
  have o: "v AND 1 \<noteq> 0 \<longleftrightarrow> bit v 0" by (simp add: and_one_eq bit_0 mod2_eq_if)
  show ?case
  proof (cases i)
    case 0
    then show ?thesis using Suc.prems o by simp
  next
    case (Suc m)
    have "trailing_from (drop_bit 1 v) (n + 1) k = n + 1 + m"
      using Suc Suc.prems by (intro Suc.IH) (simp_all add: bit_drop_bit_eq)
    then show ?thesis using Suc Suc.prems(2) [of 0] o by simp
  qed
qed simp

text \<open>The last byte of a stream ends with the stop bit and the padding, which is recovered from it.\<close>

lemma stop_bit:
  assumes "buf_bits bs = xs @ True # replicate pad False" "pad < 8"
  shows "bs \<noteq> []" "j < pad \<Longrightarrow> \<not> bit (last bs) j" "bit (last bs) pad"
proof -
  have n: "8 * length bs = length xs + 1 + pad" using arg_cong [OF assms(1), of length] by simp
  then show ne: "bs \<noteq> []" by auto
  have b: "bit (last bs) j \<longleftrightarrow> buf_bits bs ! (8 * length bs - 1 - j)" if "j < 8" for j
  proof -
    define m k where "m = length bs - 1" and "k = 7 - j"
    then have e: "8 * length bs - 1 - j = 8 * m + k" "k < 8" "7 - k = j" "8 * m + k < 8 * length bs" using n that by linarith+
    have "(8 * m + k) div 8 = m" "(8 * m + k) mod 8 = k" using e(2) by simp_all
    then have "buf_bits bs ! (8 * m + k) = bit (bs ! m) j" using nth_buf_bits [OF e(4)] e(3) by simp
    then show ?thesis unfolding e(1) using ne by (simp add: last_conv_nth m_def)
  qed
  show "\<not> bit (last bs) j" if "j < pad"
  proof -
    define m where "m = pad - 1 - j"
    then have m: "8 * length bs - 1 - j = length xs + Suc m" "m < pad" "j < 8" using n that assms(2) by linarith+
    have "buf_bits bs ! (length xs + Suc m) = (True # replicate pad False) ! Suc m" unfolding assms(1) by (rule nth_append_length_plus)
    then show ?thesis using b [OF m(3)] m(1,2) by simp
  qed
  have "8 * length bs - 1 - pad = length xs" using n by linarith
  then show "bit (last bs) pad" using b [OF assms(2)] assms(1) by simp
qed

lemma trailing_pad:
  assumes "buf_bits bs = xs @ True # replicate pad False" "pad < 8"
  shows "BsGetTrailingBits (last bs) = pad"
  unfolding BsGetTrailingBits_def using stop_bit [OF assms] assms(2) trailing_from [of pad 9 "ucast (last bs)" 0]
  by (simp add: bit_ucast_iff)

lemma follows_prefix: "buf_bits bs = xs @ ys \<Longrightarrow> follows bs 0 xs"
  using length_bits(3) [of bs] by (auto simp: follows_def sbit_def nth_append simp del: length_bits)

text \<open>A writer between two units: nothing is cached.\<close>

definition aligned :: "SBitStringAux \<Rightarrow> bool" where
  "aligned s \<longleftrightarrow> ILeftBits s = 32 \<and> UiCurBits s = 0 \<and> PStartBuf s \<le> PCurBuf s"

lemma BsFlush_aligned: "wr_ok s \<Longrightarrow> BsFlush s = Some s' \<Longrightarrow> PStartBuf s' \<le> PCurBuf s' \<Longrightarrow> aligned s'"
  by (auto simp: BsFlush_def wr_ok_def aligned_def fits_def intro!: bit_word_eqI split: if_splits option.splits)

lemma rbsp_written:
  assumes "\<forall>e\<in>set es. elem_ok e" "T = length (concat (map elem_bits es))" "aligned s" "PStartBuf s = off" "PCurBuf s = off" "off + T div 8 + 5 \<le> length (PBuf s)"
  shows "\<exists>s1 s2 pad. write_all es s = Some s1 \<and> BsGetBitsPos s1 = int32 (int T) \<and> BsRbspTrailingBits s1 = Some s2 \<and> pad < 8 \<and> aligned s2 \<and> PStartBuf s2 = off \<and>
    length (PBuf s2) = length (PBuf s) \<and> PCurBuf s2 \<le> length (PBuf s2) \<and> buf_bits (slice (PBuf s2) off (PCurBuf s2 - off)) = concat (map elem_bits es) @ True # replicate pad False"
proof -
  have i: "wr_ok s" "wr_bits s = []"
    using assms(3-6) by (simp_all add: aligned_def wr_ok_def wr_bits_def fits_def slice_def wbits_def buf_bits_def)
  obtain s1 where s1: "write_all es s = Some s1" "wr_ok s1" "wr_bits s1 = concat (map elem_bits es)" "PStartBuf s1 = off" "length (PBuf s1) = length (PBuf s)"
    using write_all [OF i(1) assms(1)] assms(2,4,6) i by auto
  have r: "PCurBuf s1 + 4 \<le> length (PBuf s1)" using s1 assms(2,6) by (intro room_left [OF s1(2), of T]) simp_all
  have "fits 1 1" by (rule fits_value) simp
  from BsWriteBits_bits [OF s1(2) _ this r] obtain s2 where s2: "BsWriteOneBit 1 s1 = Some s2" "wr_ok s2" "wr_bits s2 = wr_bits s1 @ [True]" "PStartBuf s2 = off" "length (PBuf s2) = length (PBuf s)"
    using s1(4,5) by (auto simp: BsWriteOneBit_def wbits_def)
  have "PCurBuf s2 + 4 \<le> length (PBuf s2)"
  proof (rule room_left [OF s2(2), of "T + 1"])
    have "(T + 1) div 8 \<le> T div 8 + 1" by linarith
    then show "PStartBuf s2 + (T + 1) div 8 + 4 \<le> length (PBuf s2)" using s2(4,5) assms(6) by linarith
  qed (use s1(3) s2(3) assms(2) in simp)
  from BsFlush_bits [OF s2(2) this] obtain s3 pad where s3: "BsFlush s2 = Some s3" "pad < 8" "PStartBuf s3 = off" "length (PBuf s3) = length (PBuf s)"
      "PCurBuf s3 \<le> length (PBuf s3)" "PStartBuf s3 \<le> PCurBuf s3" "buf_bits (slice (PBuf s3) off (PCurBuf s3 - off)) = wr_bits s2 @ replicate pad False"
    using s2(4,5) by auto
  have "aligned s3" by (rule BsFlush_aligned [OF s2(2) s3(1,6)])
  moreover have "BsRbspTrailingBits s1 = Some s3" using s2(1) s3(1) by (simp add: BsRbspTrailingBits_def)
  moreover have "BsGetBitsPos s1 = int32 (int T)" using wr_bits_length(2) [OF s1(2)] s1(3) assms(2) by simp
  ultimately show ?thesis using s1(1,3) s2(3) s3 by auto
qed

text \<open>A reader opened on the bytes reads the elements.\<close>

lemma rbsp_read:
  assumes "\<forall>e\<in>set es. elem_ok e" "bs = slice buf off n" "off + n \<le> length buf" "buf_bits bs = concat (map elem_bits es) @ True # replicate pad False" "pad < 8"
    "length (concat (map elem_bits es)) + 8 < 2 ^ 31"
  shows "\<exists>r1 r2. DecInitBits buf off (8 * int n - int (BsGetTrailingBits (last bs))) r = (Inr (), r1) \<and>
    read_all es r1 = (Inr (map (Pair True) es), r2) \<and> \<not> CheckMoreRBSPData r2"
proof -
  let ?d = "concat (map elem_bits es)"
  have len: "length bs = n" using assms(2,3) by (simp add: slice_def)
  have n: "8 * n = length ?d + 1 + pad" using arg_cong [OF assms(4), of length] len by simp
  then have size: "8 * int n - int (BsGetTrailingBits (last bs)) = int (length ?d + 1)" using trailing_pad [OF assms(4,5)] by simp
  have bytes: "(length ?d + 1 + 7) div 8 = n" using n assms(5) by linarith
  obtain r1 where r1: "DecInitBits buf off (int (length ?d + 1)) r = (Inr (), r1)" "rd_at bs 0 r1" "IBits r1 = int (length ?d + 1)"
    using DecInitBits_at [of off "length ?d + 1" buf r] assms(2,3,6) unfolding bytes by auto
  obtain r2 where "read_all es r1 = (Inr (map (Pair True) es), r2)" "\<not> CheckMoreRBSPData r2"
    using read_all [OF r1(2) assms(1) follows_prefix [OF assms(4)]] r1(3) by auto
  then show ?thesis using r1(1) unfolding size by blast
qed

text \<open>
  Codes with sixteen or more leading zeros are outside the range: where the cache holds only sixteen bits, the reader
  takes them for an error.
\<close>

lemma long_code_refused:
  assumes "rd_at bs pos s" "ILeftBits s = 0" "\<And>i. i < 16 \<Longrightarrow> \<not> sbit bs (pos + i)"
  shows "BsGetUe s = (Inl ReadLeadingZero, s)"
proof -
  have "\<not> bit (UiCurBits s) j" for j
  proof
    assume b: "bit (UiCurBits s) j"
    then have "j < 32" using bit_imp_le_length [of "UiCurBits s" j] by simp
    moreover from this have "31 - (31 - j) = j" "31 - j < 32" by linarith+
    ultimately have "int (31 - j) < 16 - ILeftBits s \<and> sbit bs (pos + (31 - j))" using rd_atD(8) [OF assms(1)] b unfolding cached_def by metis
    then show False using assms(2) assms(3) [of "31 - j"] by simp
  qed
  then have "UiCurBits s = 0" by (intro bit_word_eqI) simp
  then show ?thesis by (simp add: BsGetUe_def GetLeadingZeroBits_def UBITS_def shr32_def andthen_def gets_def fail_def)
qed

section \<open>Properties\<close>

text \<open>
  C35. The decoder reads back what the encoder wrote. Any sequence of syntax elements of fewer than 2^31 - 8 bits, the range of
  the 32-bit counters of both sides, is written without an access behind the buffer when there is room for its bits, and the position the encoder reports is the number of these bits. With the
  stop bit and the padding appended, a reader opened on the bytes as the decoder opens it, with the size
  found from the last byte, yields the same elements. The check for more data holds before each element and
  fails at the end.
\<close>

theorem bitstream_roundtrip:
  assumes "\<forall>e\<in>set es. elem_ok e" "off + length (concat (map elem_bits es)) div 8 + 5 \<le> length buf"
    "length (concat (map elem_bits es)) + 8 < 2 ^ 31"
  shows "\<exists>s1 s2 r1 r2. write_all es (InitBits buf off n) = Some s1 \<and> BsGetBitsPos s1 = int (length (concat (map elem_bits es))) \<and>
    BsRbspTrailingBits s1 = Some s2 \<and>
    DecInitBits (PBuf s2) off (8 * (int (PCurBuf s2) - int off) - int (BsGetTrailingBits (PBuf s2 ! (PCurBuf s2 - 1)))) r = (Inr (), r1) \<and>
    read_all es r1 = (Inr (map (Pair True) es), r2) \<and> \<not> CheckMoreRBSPData r2"
proof -
  let ?s = "InitBits buf off n"
  have s: "aligned ?s" "PStartBuf ?s = off" "PCurBuf ?s = off" "PBuf ?s = buf" by (simp_all add: aligned_def InitBits_def)
  obtain s1 s2 pad where w: "write_all es ?s = Some s1" "BsGetBitsPos s1 = int (length (concat (map elem_bits es)))" "BsRbspTrailingBits s1 = Some s2" "pad < 8" "aligned s2"
      "PStartBuf s2 = off" "PCurBuf s2 \<le> length (PBuf s2)" "buf_bits (slice (PBuf s2) off (PCurBuf s2 - off)) = concat (map elem_bits es) @ True # replicate pad False"
    using rbsp_written [OF assms(1) refl s(1-3)] assms(2) s(4) int32_small [OF of_nat_0_le_iff, of "length (concat (map elem_bits es))"] assms(3) by auto
  have "off \<le> PCurBuf s2" using w(5,6) by (simp add: aligned_def)
  moreover have "slice (PBuf s2) off (PCurBuf s2 - off) \<noteq> []" by (rule stop_bit(1) [OF w(8,4)])
  then have "off < PCurBuf s2" by (auto simp: slice_def)
  moreover from this have "off + (PCurBuf s2 - Suc off) = PCurBuf s2 - 1" by simp
  ultimately have "last (slice (PBuf s2) off (PCurBuf s2 - off)) = PBuf s2 ! (PCurBuf s2 - 1)" using w(7) by (simp add: slice_def last_conv_nth)
  then show ?thesis using w(1-3) rbsp_read [OF assms(1) refl _ w(8,4) assms(3), of r] w(7) \<open>off \<le> PCurBuf s2\<close> by (simp add: of_nat_diff)
qed

theorem bitstream_roundtrip_witness:
  "\<exists>s1 s2 r1 r2. write_all [Ue 5, Se (-3), Bits 4 9, Te 2 1, Te 3 2] (InitBits (replicate 9 0) 1 8) = Some s1 \<and> BsGetBitsPos s1 = 18 \<and>
    BsRbspTrailingBits s1 = Some s2 \<and>
    DecInitBits (PBuf s2) 1 (8 * (int (PCurBuf s2) - 1) - int (BsGetTrailingBits (PBuf s2 ! (PCurBuf s2 - 1)))) (InitBits [] 0 0) = (Inr (), r1) \<and>
    read_all [Ue 5, Se (-3), Bits 4 9, Te 2 1, Te 3 2] r1 = (Inr [(True, Ue 5), (True, Se (-3)), (True, Bits 4 9), (True, Te 2 1), (True, Te 3 2)], r2) \<and> \<not> CheckMoreRBSPData r2"
proof -
  let ?es = "[Ue 5, Se (-3), Bits 4 9, Te 2 1, Te 3 2]"
  have "length (elem_bits (Ue 5)) = 5" "length (elem_bits (Se (-3))) = 5" "length (elem_bits (Bits 4 9)) = 4" "length (elem_bits (Te 2 1)) = 1" "length (elem_bits (Te 3 2)) = 3"
    by (simp_all add: elem_bits_def ue_bits_def ue_length_def se_code_def G_kuiGolombUELength_def)
  then have l: "length (concat (map elem_bits ?es)) = 18" by simp
  have ok: "\<forall>e\<in>set ?es. elem_ok e" by (simp add: elem_ok_def)
  have room: "1 + length (concat (map elem_bits ?es)) div 8 + 5 \<le> length (replicate 9 0)" unfolding l by simp
  have short: "length (concat (map elem_bits ?es)) + 8 < 2 ^ 31" unfolding l by simp
  have m: "map (Pair True) ?es = [(True, Ue 5), (True, Se (-3)), (True, Bits 4 9), (True, Te 2 1), (True, Te 3 2)]" "int 18 = 18" "int 1 = 1" by simp_all
  show ?thesis using bitstream_roundtrip [OF ok room short, of 8 "InitBits [] 0 0"] unfolding l m .
qed

end
