(* ===== verification/H264_Nal.thy ===== *)
theory H264_Nal
  imports H264_Bits
begin

text \<open>
  Units of an H.264 stream. The encoder (\<^verbatim>\<open>encoder/nal_encap.go\<close>) puts a start code and a header before the bytes
  of a unit and escapes the payload; the decoder (\<^verbatim>\<open>decoder/decoder.go\<close>, \<^verbatim>\<open>WelsDecodeBs\<close>) finds the start codes in a stream
  and copies the unescaped units into its raw data buffer. What the decoder does with a unit is an
  argument, and so are the positions of the bit readers it keeps. One property shows that no input makes the
  decoder leave its buffer, the other one that it recovers what the encoder wrote.
\<close>

unbundle bit_operations_syntax

section \<open>Encoding units\<close>

definition NAL_HEADER_SIZE :: int where "NAL_HEADER_SIZE = 4"
definition NAL_UNIT_PREFIX :: nat where "NAL_UNIT_PREFIX = 14"
definition NAL_UNIT_CODED_SLICE_EXT :: nat where "NAL_UNIT_CODED_SLICE_EXT = 20"

text \<open>A unit under construction. Its data is a part of the buffer of the writer and given by its start.\<close>

record SWelsNalRaw =
  ENalUnitType :: nat
  UiNalRefIdc :: byte
  iStartPos :: int
  iPayloadSize :: int

record SNalUnitHeaderExt =
  BIdrFlag :: bool
  UiDependencyId :: byte
  UiTemporalId :: byte
  BDiscardableFlag :: bool

record SWelsEncoderOutput =
  sBsWrite :: SBitStringAux
  sNalList :: "SWelsNalRaw list"
  iNalIndex :: nat

definition pRawData :: "SWelsEncoderOutput \<Rightarrow> SWelsNalRaw \<Rightarrow> byte list" where
  "pRawData w nal = drop (PStartBuf (sBsWrite w) + nat (iStartPos nal)) (PBuf (sBsWrite w))"

definition WelsLoadNal :: "nat \<Rightarrow> byte \<Rightarrow> SWelsEncoderOutput \<Rightarrow> SWelsEncoderOutput option" where
  "WelsLoadNal kiType kiNalRefIdc w =
     (let kiStartPos = BsGetBitsPos (sBsWrite w) div 8
      in if iNalIndex w < length (sNalList w) \<and> 0 \<le> kiStartPos \<and> kiStartPos \<le> int (length (PBuf (sBsWrite w))) - int (PStartBuf (sBsWrite w))
         then Some (w\<lparr>sNalList := (sNalList w)[iNalIndex w :=
           \<lparr>ENalUnitType = kiType, UiNalRefIdc = kiNalRefIdc, iStartPos = kiStartPos, iPayloadSize = 0\<rparr>]\<rparr>)
         else None)"

definition WelsUnloadNal :: "SWelsEncoderOutput \<Rightarrow> SWelsEncoderOutput option" where
  "WelsUnloadNal w =
     (if iNalIndex w < length (sNalList w) then
        let kiEndPos = BsGetBitsPos (sBsWrite w) div 8; nal = sNalList w ! iNalIndex w
        in Some (w\<lparr>sNalList := (sNalList w)[iNalIndex w := nal\<lparr>iPayloadSize := kiEndPos - iStartPos nal\<rparr>], iNalIndex := iNalIndex w + 1\<rparr>)
      else None)"

definition kuiStartCodePrefix :: "byte list" where
  "kuiStartCodePrefix = [0, 0, 0, 1]"

definition nalB2U8 :: "bool \<Rightarrow> byte" where
  "nalB2U8 b = (if b then 1 else 0)"

text \<open>A write of bytes to a buffer; behind its end it panics.\<close>

definition put_at :: "byte list \<Rightarrow> nat \<Rightarrow> byte list \<Rightarrow> byte list option" where
  "put_at d i bs = (if i + length bs \<le> length d then Some (copy_at d i bs) else None)"

text \<open>The loop that copies a payload with escapes, with the number of zeros before the current byte.\<close>

fun escape_into :: "byte list \<Rightarrow> nat \<Rightarrow> byte list \<Rightarrow> nat \<Rightarrow> (byte list \<times> nat) option" where
  "escape_into [] iZeroCount d iDst = Some (d, iDst)"
| "escape_into (b # bs) iZeroCount d iDst =
     (case (if iZeroCount = 2 \<and> b \<le> 3 then (case put_at d iDst [3] of None \<Rightarrow> None | Some d1 \<Rightarrow> Some (d1, iDst + 1, 0)) else Some (d, iDst, iZeroCount)) of
        None \<Rightarrow> None
      | Some (d1, i1, z1) \<Rightarrow> (case put_at d1 i1 [b] of None \<Rightarrow> None | Some d2 \<Rightarrow> escape_into bs (if b = 0 then z1 + 1 else 0) d2 (i1 + 1)))"

definition RBSP2EBSP :: "byte list \<Rightarrow> byte list \<Rightarrow> nat \<Rightarrow> byte list option" where
  "RBSP2EBSP d src kiSize = (if kiSize \<le> length src then map_option fst (escape_into (take kiSize src) 0 d 0) else None)"

datatype enc_return = ENC_RETURN_SUCCESS | ENC_RETURN_UNEXPECTED | ENC_RETURN_MEMALLOCERR

definition kbNALExt :: "SWelsNalRaw \<Rightarrow> bool" where
  "kbNALExt nal \<longleftrightarrow> ENalUnitType nal = NAL_UNIT_PREFIX \<or> ENalUnitType nal = NAL_UNIT_CODED_SLICE_EXT"

definition nal_header :: "SWelsNalRaw \<Rightarrow> byte" where
  "nal_header nal = push_bit 5 (UiNalRefIdc nal) OR (of_nat (ENalUnitType nal) AND 0x1f)"

definition nal_ext :: "SNalUnitHeaderExt \<Rightarrow> byte list" where
  "nal_ext e = [0x80 OR push_bit 6 (nalB2U8 (BIdrFlag e)), 0x80 OR push_bit 4 (UiDependencyId e),
     push_bit 5 (UiTemporalId e) OR push_bit 3 (nalB2U8 (BDiscardableFlag e)) OR 0x07]"

text \<open>The result is the returned code, the buffer and the length written; \<open>None\<close> is a panic.\<close>

definition WelsEncodeNal :: "SWelsNalRaw \<Rightarrow> byte list \<Rightarrow> SNalUnitHeaderExt option \<Rightarrow> int \<Rightarrow> byte list \<Rightarrow> (enc_return \<times> byte list \<times> nat) option" where
  "WelsEncodeNal nal raw ext kiDstBufferLen d =
     (let iExt = (if kbNALExt nal then 3 else 0);
          need = int32 (NAL_HEADER_SIZE + iExt + iPayloadSize nal + 1)
      in if need \<le> 0 then Some (ENC_RETURN_UNEXPECTED, d, 0)
         else if kiDstBufferLen < int32 (need + need div 2) then Some (ENC_RETURN_MEMALLOCERR, d, 0)
         else if iPayloadSize nal < 0 \<or> iPayloadSize nal > int (length raw) \<or> kbNALExt nal \<and> ext = None then None
         else case put_at d 0 (kuiStartCodePrefix @ [nal_header nal] @ (if kbNALExt nal then nal_ext (the ext) else [])) of None \<Rightarrow> None
              | Some d1 \<Rightarrow> (case escape_into (take (nat (iPayloadSize nal)) raw) 0 d1 (5 + nat iExt) of None \<Rightarrow> None
                 | Some (d2, n) \<Rightarrow> Some (ENC_RETURN_SUCCESS, d2, n)))"

definition WelsWriteSVCPrefixNal :: "int \<Rightarrow> SBitStringAux \<Rightarrow> SBitStringAux option" where
  "WelsWriteSVCPrefixNal kiNalRefIdc s =
     (if 0 < kiNalRefIdc then
        (case BsWriteOneBit 0 s of None \<Rightarrow> None | Some s1 \<Rightarrow> case BsWriteOneBit 0 s1 of None \<Rightarrow> None | Some s2 \<Rightarrow> BsRbspTrailingBits s2)
      else Some s)"

section \<open>Decoding a stream\<close>

definition MIN_ACCESS_UNIT_CAPACITY :: nat where "MIN_ACCESS_UNIT_CAPACITY = 1048576"
definition MAX_BUFFERED_NUM :: nat where "MAX_BUFFERED_NUM = 3"
definition MAX_ACCESS_UNIT_CAPACITY :: nat where "MAX_ACCESS_UNIT_CAPACITY = 7077888"

text \<open>The raw data buffer of the decoder and the size it was allocated with.\<close>

record SDataBuffer =
  pHead :: "byte list"
  pEnd :: nat
  pCurPos :: nat
  iMaxBsBufferSizeInByte :: nat

definition InitBsBuffer :: SDataBuffer where
  "InitBsBuffer = (let n = MIN_ACCESS_UNIT_CAPACITY * MAX_BUFFERED_NUM
     in \<lparr>pHead = replicate n 0, pEnd = n, pCurPos = 0, iMaxBsBufferSizeInByte = n\<rparr>)"

definition ExpandBsBuffer :: "nat \<Rightarrow> SDataBuffer \<Rightarrow> SDataBuffer" where
  "ExpandBsBuffer kiSrcLen raw =
     (let n = max (kiSrcLen * MAX_BUFFERED_NUM) (iMaxBsBufferSizeInByte raw * 2)
      in raw\<lparr>pHead := copy_at (replicate n 0) 0 (take (iMaxBsBufferSizeInByte raw) (pHead raw)), pEnd := n, iMaxBsBufferSizeInByte := n\<rparr>)"

text \<open>The error code of a stream that is too long is \<open>None\<close>.\<close>

definition CheckBsBuffer :: "nat \<Rightarrow> SDataBuffer \<Rightarrow> SDataBuffer option" where
  "CheckBsBuffer kiSrcLen raw =
     (if kiSrcLen > MAX_ACCESS_UNIT_CAPACITY then None
      else if kiSrcLen > iMaxBsBufferSizeInByte raw div MAX_BUFFERED_NUM then Some (ExpandBsBuffer kiSrcLen raw)
      else Some raw)"

text \<open>The queued bit readers are given by their start positions in the buffer.\<close>

definition RawDataWrapIsClean :: "nat list \<Rightarrow> nat \<Rightarrow> bool" where
  "RawDataWrapIsClean starts iNewBytes \<longleftrightarrow> list_all (\<lambda>p. \<not> p < iNewBytes) starts"

text \<open>The number of zeros in the current round and the position are arguments of the loop.\<close>

fun detect :: "byte list \<Rightarrow> nat \<Rightarrow> nat \<Rightarrow> nat option" where
  "detect [] iIdx pBits = None"
| "detect (b # bs) iIdx pBits =
     (if b = 0 then detect bs (iIdx + 1) (pBits + 1)
      else if iIdx + 1 \<ge> 3 \<and> b = 1 then Some (pBits + 1)
      else detect bs 0 (pBits + 1))"

definition DetectStartCodePrefix :: "byte list \<Rightarrow> nat option" where
  "DetectStartCodePrefix bs = detect bs 0 0"

datatype scan_end = Finished | Stopped | BadStream | OutOfMemory | ScanPanic

text \<open>
  A finished unit: four zero bytes behind it, and the rest of the decoder, which may stop decoding. The arguments
  of the scan are what the decoder does with a unit, the start positions of the readers it keeps, and the rest
  of the input, which begins at the position that the code computes from \<^verbatim>\<open>pSrcNal\<close> and \<^verbatim>\<open>iSrcIdx\<close>.
\<close>

definition end_unit :: "(byte list \<Rightarrow> 'c \<Rightarrow> 'c \<times> bool) \<Rightarrow> nat \<Rightarrow> nat \<Rightarrow> SDataBuffer \<Rightarrow> 'c \<Rightarrow> (SDataBuffer \<times> 'c \<times> bool) option" where
  "end_unit unit_of pDstNal iDstIdx raw c =
     (case put_at (pHead raw) (pDstNal + iDstIdx) [0, 0, 0, 0] of None \<Rightarrow> None
      | Some h \<Rightarrow> (case unit_of (slice h pDstNal iDstIdx) c of (c1, stop) \<Rightarrow> Some (raw\<lparr>pHead := h\<rparr>, c1, stop)))"

function scan :: "('c \<Rightarrow> nat list) \<Rightarrow> (byte list \<Rightarrow> 'c \<Rightarrow> 'c \<times> bool) \<Rightarrow> byte list \<Rightarrow> bool \<Rightarrow> nat \<Rightarrow> nat \<Rightarrow> SDataBuffer \<Rightarrow> 'c \<Rightarrow> scan_end \<times> SDataBuffer \<times> 'c" where
  "scan starts unit_of bs bNalStartBytes iDstIdx pDstNal raw c =
     (if bs = [] then
        (case end_unit unit_of pDstNal iDstIdx raw c of None \<Rightarrow> (ScanPanic, raw, c)
         | Some (raw1, c1, stop) \<Rightarrow> (if stop then Stopped else Finished, raw1\<lparr>pCurPos := pDstNal + iDstIdx + 4\<rparr>, c1))
      else if 2 < length bs \<and> bs ! 0 = 0 \<and> bs ! 1 = 0 \<and> bs ! 2 \<le> 3 then
        (let b2 = bs ! 2
         in if bNalStartBytes \<and> b2 \<noteq> 0 \<and> b2 \<noteq> 1 then (BadStream, raw, c)
            else if b2 = 2 then (BadStream, raw, c)
            else if b2 = 0 then
              (case put_at (pHead raw) (pDstNal + iDstIdx) [bs ! 0] of None \<Rightarrow> (ScanPanic, raw, c)
               | Some h \<Rightarrow> scan starts unit_of (drop 1 bs) True (iDstIdx + 1) pDstNal (raw\<lparr>pHead := h\<rparr>) c)
            else if b2 = 3 then
              (if 3 < length bs \<and> bs ! 3 > 3 then scan starts unit_of (drop 3 bs) bNalStartBytes iDstIdx pDstNal raw c
               else case put_at (pHead raw) (pDstNal + iDstIdx) [0, 0] of None \<Rightarrow> (ScanPanic, raw, c)
               | Some h \<Rightarrow> scan starts unit_of (drop 3 bs) bNalStartBytes (iDstIdx + 2) pDstNal (raw\<lparr>pHead := h\<rparr>) c)
            else (case end_unit unit_of pDstNal iDstIdx raw c of None \<Rightarrow> (ScanPanic, raw, c)
               | Some (raw1, c1, stop) \<Rightarrow>
                   if stop then (Stopped, raw1, c1)
                   else let p = pDstNal + iDstIdx + 4
                        in if int (length bs) + 4 > int (pEnd raw1) - int p then
                             (if RawDataWrapIsClean (starts c1) (length bs + 4)
                              then scan starts unit_of (drop 3 bs) False 0 0 (raw1\<lparr>pCurPos := 0\<rparr>) c1
                              else (OutOfMemory, raw1, c1))
                           else scan starts unit_of (drop 3 bs) False 0 p (raw1\<lparr>pCurPos := p\<rparr>) c1))
      else (case put_at (pHead raw) (pDstNal + iDstIdx) [bs ! 0] of None \<Rightarrow> (ScanPanic, raw, c)
            | Some h \<Rightarrow> scan starts unit_of (drop 1 bs) bNalStartBytes (iDstIdx + 1) pDstNal (raw\<lparr>pHead := h\<rparr>) c))"
  by pat_completeness auto
termination
  by (relation "measure (\<lambda>(starts, unit_of, bs, x). length bs)") auto

declare scan.simps [simp del]

definition WelsDecodeBs :: "('c \<Rightarrow> nat list) \<Rightarrow> (byte list \<Rightarrow> 'c \<Rightarrow> 'c \<times> bool) \<Rightarrow> byte list \<Rightarrow> SDataBuffer \<Rightarrow> 'c \<Rightarrow> scan_end \<times> SDataBuffer \<times> 'c" where
  "WelsDecodeBs starts unit_of kpBsBuf raw c =
     (case DetectStartCodePrefix kpBsBuf of None \<Rightarrow> (BadStream, raw, c)
      | Some iOffset \<Rightarrow>
          (if int (length kpBsBuf) + 4 > int (pEnd raw) - int (pCurPos raw) then
             (if RawDataWrapIsClean (starts c) (length kpBsBuf + 4)
              then scan starts unit_of (drop iOffset kpBsBuf) False 0 0 (raw\<lparr>pCurPos := 0\<rparr>) c
              else (OutOfMemory, raw, c))
           else scan starts unit_of (drop iOffset kpBsBuf) False 0 (pCurPos raw) raw c))"

text \<open>The begin of \<^verbatim>\<open>ParseNalHeader\<close>: zeros at the end are dropped, and the header byte is taken apart.\<close>

definition nal_size :: "byte list \<Rightarrow> nat" where
  "nal_size u = length (dropWhile (\<lambda>b. b = 0) (rev u))"

definition parse_nal_header :: "byte list \<Rightarrow> (byte \<times> byte \<times> byte list) option" where
  "parse_nal_header u =
     (let h = (u @ [0]) ! 0
      in if drop_bit 7 h \<noteq> 0 then None else Some (drop_bit 5 h, h AND 0x1f, take (nal_size u - 1) (drop 1 u)))"

section \<open>The decoder stays in its buffer\<close>

definition raw_ok :: "SDataBuffer \<Rightarrow> bool" where
  "raw_ok raw \<longleftrightarrow> pEnd raw = length (pHead raw) \<and> iMaxBsBufferSizeInByte raw = pEnd raw \<and> pCurPos raw \<le> pEnd raw \<and>
     MIN_ACCESS_UNIT_CAPACITY * MAX_BUFFERED_NUM \<le> pEnd raw"

lemma put_at_in: "i + length bs \<le> length d \<Longrightarrow> put_at d i bs = Some (copy_at d i bs)"
  by (simp add: put_at_def)

lemma length_copy_in: "i + length bs \<le> length d \<Longrightarrow> length (copy_at d i bs) = length d"
  by (simp add: copy_at_def)

lemma raw_ok_put:
  assumes "raw_ok raw" "i + length bs \<le> pEnd raw"
  shows "put_at (pHead raw) i bs = Some (copy_at (pHead raw) i bs)" "raw_ok (raw\<lparr>pHead := copy_at (pHead raw) i bs\<rparr>)"
  using assms by (simp_all add: raw_ok_def put_at_in length_copy_in)

lemma end_unit_ok:
  assumes "raw_ok raw" "d + i + 4 \<le> pEnd raw"
  shows "end_unit f d i raw c = (case f (slice (pHead raw) d i) c of (c1, stop) \<Rightarrow> Some (raw\<lparr>pHead := copy_at (pHead raw) (d + i) [0, 0, 0, 0]\<rparr>, c1, stop))"
proof -
  have "slice (copy_at (pHead raw) (d + i) [0, 0, 0, 0]) d i = slice (pHead raw) d i" using assms by (simp add: raw_ok_def slice_def copy_at_def take_drop)
  then show ?thesis using raw_ok_put(1) [OF assms(1), of "d + i" "[0, 0, 0, 0]"] assms(2) by (simp add: end_unit_def)
qed

lemma raw_ok_pos: "raw_ok raw \<Longrightarrow> p \<le> pEnd raw \<Longrightarrow> raw_ok (raw\<lparr>pCurPos := p\<rparr>)"
  by (simp add: raw_ok_def)

text \<open>One round of the scan in a buffer with room.\<close>

abbreviation room :: "nat \<Rightarrow> byte list \<Rightarrow> SDataBuffer \<Rightarrow> bool" where
  "room p bs raw \<equiv> raw_ok raw \<and> p + length bs + 4 \<le> pEnd raw"

definition special :: "byte list \<Rightarrow> bool" where
  "special bs \<longleftrightarrow> 2 < length bs \<and> bs ! 0 = 0 \<and> bs ! 1 = 0 \<and> bs ! 2 \<le> 3"

lemma scan_last:
  assumes "room (d + i) [] raw"
  shows "scan starts f [] n i d raw c = (case f (slice (pHead raw) d i) c of (c1, stop) \<Rightarrow>
    (if stop then Stopped else Finished, raw\<lparr>pHead := copy_at (pHead raw) (d + i) [0, 0, 0, 0], pCurPos := d + i + 4\<rparr>, c1))"
  using assms by (subst scan.simps) (simp add: end_unit_ok split: prod.split)

lemma scan_copy:
  assumes "\<not> special (b # bs)" "room (d + i) (b # bs) raw"
  shows "scan starts f (b # bs) n i d raw c = scan starts f bs n (i + 1) d (raw\<lparr>pHead := copy_at (pHead raw) (d + i) [b]\<rparr>) c"
  using assms raw_ok_put(1) [of raw "d + i" "[b]"] by (subst scan.simps) (simp only: special_def [symmetric] if_False list.distinct, simp)

lemma scan_zero:
  assumes "bs = 0 # 0 # rest" "room (d + i) (0 # bs) raw"
  shows "scan starts f (0 # bs) n i d raw c = scan starts f bs True (i + 1) d (raw\<lparr>pHead := copy_at (pHead raw) (d + i) [0]\<rparr>) c"
  using assms raw_ok_put(1) [of raw "d + i" "[0]"] by (subst scan.simps) simp

lemma scan_escaped:
  assumes "room (d + i) (0 # 0 # 3 # rest) raw"
  shows "scan starts f (0 # 0 # 3 # rest) False i d raw c =
    (if rest \<noteq> [] \<and> hd rest > 3 then scan starts f rest False i d raw c
     else scan starts f rest False (i + 2) d (raw\<lparr>pHead := copy_at (pHead raw) (d + i) [0, 0]\<rparr>) c)"
  using assms raw_ok_put(1) [of raw "d + i" "[0, 0]"] by (subst scan.simps) (cases rest, simp_all)

lemma scan_refused: "b = 2 \<or> n \<and> b = 3 \<Longrightarrow> scan starts f (0 # 0 # b # rest) n i d raw c = (BadStream, raw, c)"
  by (subst scan.simps) auto

lemma scan_start:
  assumes "room (d + i) (0 # 0 # 1 # rest) raw"
  shows "scan starts f (0 # 0 # 1 # rest) n i d raw c =
    (case f (slice (pHead raw) d i) c of (c1, stop) \<Rightarrow>
       let raw1 = raw\<lparr>pHead := copy_at (pHead raw) (d + i) [0, 0, 0, 0]\<rparr>
       in if stop then (Stopped, raw1, c1)
          else if length rest + 7 > pEnd raw - (d + i + 4) then
            (if RawDataWrapIsClean (starts c1) (length rest + 7) then scan starts f rest False 0 0 (raw1\<lparr>pCurPos := 0\<rparr>) c1 else (OutOfMemory, raw1, c1))
          else scan starts f rest False 0 (d + i + 4) (raw1\<lparr>pCurPos := d + i + 4\<rparr>) c1)"
proof -
  obtain c1 stop where f: "f (slice (pHead raw) d i) c = (c1, stop)" by fastforce
  have "int (length (0 # 0 # 1 # rest)) + 4 > int (pEnd raw) - int (d + i + 4) \<longleftrightarrow> length rest + 7 > pEnd raw - (d + i + 4)" using assms by auto
  moreover have "end_unit f d i raw c = Some (raw\<lparr>pHead := copy_at (pHead raw) (d + i) [0, 0, 0, 0]\<rparr>, c1, stop)" using assms f by (simp add: end_unit_ok)
  moreover have "length (0 # 0 # 1 # rest) + 4 = length rest + 7" by simp
  ultimately show ?thesis unfolding f
    by (subst scan.simps) (simp only: Let_def nth_Cons_0 nth_Cons_numeral list.distinct if_False option.case prod.case SDataBuffer.select_convs SDataBuffer.update_convs, simp)
qed

lemma byte_le_3: "(b :: byte) \<le> 3 \<Longrightarrow> b = 0 \<or> b = 1 \<or> b = 2 \<or> b = 3"
proof -
  assume "b \<le> 3"
  then have "unat b \<le> 3" by (simp add: word_le_nat_alt)
  then have "unat b = 0 \<or> unat b = 1 \<or> unat b = 2 \<or> unat b = 3" by linarith
  then show ?thesis by (simp add: word_unat_eq_iff)
qed

lemma specialE:
  assumes "special bs"
  obtains b rest where "bs = 0 # 0 # b # rest" "b = 0 \<or> b = 1 \<or> b = 2 \<or> b = 3"
proof -
  obtain x y b rest where "bs = x # y # b # rest" using assms unfolding special_def by (cases bs; cases "tl bs"; cases "tl (tl bs)") auto
  moreover from this have "x = 0" "y = 0" "b \<le> 3" using assms by (simp_all add: special_def)
  ultimately show ?thesis using that byte_le_3 [of b] by blast
qed

lemma room_put:
  assumes "raw_ok raw" "p + length xs \<le> pEnd raw" "q + length bs + 4 \<le> pEnd raw"
  shows "room q bs (raw\<lparr>pHead := copy_at (pHead raw) p xs\<rparr>)"
  using raw_ok_put(2) [OF assms(1,2)] assms(3) by simp

lemma scan_safe:
  assumes "room (d + i) bs raw"
  shows "case scan starts f bs n i d raw c of (e, raw1, c1) \<Rightarrow> e \<noteq> ScanPanic \<and> raw_ok raw1 \<and> pEnd raw1 = pEnd raw"
  using assms
proof (induction "length bs" arbitrary: bs n i d raw c rule: less_induct)
  case less
  note R = less.prems
  show ?case
  proof (cases "special bs")
    case True
    then obtain b rest where bs: "bs = 0 # 0 # b # rest" "b = 0 \<or> b = 1 \<or> b = 2 \<or> b = 3" by (rule specialE)
    from bs(2) show ?thesis
    proof (elim disjE)
      assume b: "b = 0"
      have "room (d + (i + 1)) (0 # 0 # rest) (raw\<lparr>pHead := copy_at (pHead raw) (d + i) [0]\<rparr>)" using R bs b by (intro room_put) simp_all
      from less.hyps [OF _ this, of True c] show ?thesis using R scan_zero [OF refl R [unfolded bs(1) b], of starts f n c] bs b by simp
    next
      assume b: "b = 1"
      obtain c1 stop where f: "f (slice (pHead raw) d i) c = (c1, stop)" by fastforce
      let ?raw = "raw\<lparr>pHead := copy_at (pHead raw) (d + i) [0, 0, 0, 0]\<rparr>"
      have ok: "raw_ok ?raw" using R bs b raw_ok_put(2) [of raw "d + i" "[0, 0, 0, 0]"] by simp
      have 1: "room (0 + 0) rest (?raw\<lparr>pCurPos := 0\<rparr>)" using raw_ok_pos [OF ok, of 0] R bs by simp
      have 2: "room (d + i + 4 + 0) rest (?raw\<lparr>pCurPos := d + i + 4\<rparr>)" if "\<not> length rest + 7 > pEnd raw - (d + i + 4)"
        using raw_ok_pos [OF ok, of "d + i + 4"] R bs that by simp
      show ?thesis using less.hyps [OF _ 1, of False c1] less.hyps [OF _ 2, of False c1] ok R scan_start [OF R [unfolded bs(1) b], of starts f n c] f bs b
        by (auto simp: Let_def)
    next
      assume "b = 2"
      then show ?thesis using R bs scan_refused [of b n starts f rest i d raw c] by simp
    next
      assume b: "b = 3"
      show ?thesis
      proof (cases n)
        case True
        then show ?thesis using R bs b scan_refused [of b n starts f rest i d raw c] by simp
      next
        case False
        have 1: "room (d + (i + 2)) rest (raw\<lparr>pHead := copy_at (pHead raw) (d + i) [0, 0]\<rparr>)" using R bs b by (intro room_put) simp_all
        have 2: "room (d + i) rest raw" using R bs b by simp
        show ?thesis using less.hyps [OF _ 1, of False c] less.hyps [OF _ 2, of False c] R scan_escaped [OF R [unfolded bs(1) b], of starts f c] bs b False by simp
      qed
    qed
  next
    case ns: False
    show ?thesis
    proof (cases bs)
      case Nil
      then show ?thesis using R scan_last [OF R [unfolded Nil], of starts f n c] raw_ok_pos [OF raw_ok_put(2), of raw "d + i" "[0, 0, 0, 0]" "d + i + 4"]
        by (auto split: prod.split)
    next
      case (Cons b rest)
      have "room (d + (i + 1)) rest (raw\<lparr>pHead := copy_at (pHead raw) (d + i) [b]\<rparr>)" using R Cons by (intro room_put) simp_all
      from less.hyps [OF _ this, of n c] show ?thesis using R Cons ns scan_copy [OF ns [unfolded Cons] R [unfolded Cons], of starts f n c] by simp
    qed
  qed
qed

text \<open>The check of the buffer before decoding gives the room the scan needs.\<close>

lemma CheckBsBuffer_room:
  assumes "raw_ok raw" "CheckBsBuffer n raw = Some raw1"
  shows "raw_ok raw1" "n + 4 \<le> pEnd raw1" "pEnd raw \<le> pEnd raw1"
  using assms by (auto simp: CheckBsBuffer_def ExpandBsBuffer_def raw_ok_def MAX_BUFFERED_NUM_def MIN_ACCESS_UNIT_CAPACITY_def Let_def length_copy_in
      split: if_splits)

lemma detect_le: "detect bs z p = Some k \<Longrightarrow> k \<le> p + length bs"
  by (induction bs z p rule: detect.induct) (auto split: if_splits)

section \<open>Escaped units are recovered\<close>

subsection \<open>The encoder\<close>

fun escape :: "nat \<Rightarrow> byte list \<Rightarrow> byte list" where
  "escape z [] = []"
| "escape z (b # bs) = (if z = 2 \<and> b \<le> 3 then 3 # b # escape (if b = 0 then 1 else 0) bs else b # escape (if b = 0 then z + 1 else 0) bs)"

lemma copy_at_two:
  fixes d :: "'a list"
  assumes "i + length xs + length ys \<le> length d"
  shows "copy_at (copy_at d i xs) (i + length xs) ys = copy_at d i (xs @ ys)"
proof -
  have c: "copy_at e j zs = take j e @ zs @ drop (j + length zs) e" if "j + length zs \<le> length e" for e zs :: "'a list" and j
    using that by (simp add: copy_at_def)
  show ?thesis using assms by (simp add: c ac_simps)
qed

lemma escape_into:
  assumes "i + length (escape z bs) \<le> length d"
  shows "escape_into bs z d i = Some (copy_at d i (escape z bs), i + length (escape z bs))"
  using assms
proof (induction bs z d i rule: escape_into.induct)
  case (1 z d i)
  then show ?case by (simp add: copy_at_def)
next
  case (2 b bs z d i)
  show ?case
  proof (cases "z = 2 \<and> b \<le> 3")
    case True
    let ?e = "escape (if b = 0 then 1 else 0) bs"
    have l: "i + 2 + length ?e \<le> length d" using 2(2) True by simp
    have c: "copy_at (copy_at d i [3]) (i + 1) [b] = copy_at d i [3, b]" using copy_at_two [of i "[3]" "[b]" d] l by simp
    have "put_at d i [3] = Some (copy_at d i [3])" "put_at (copy_at d i [3]) (i + 1) [b] = Some (copy_at d i [3, b])"
      using l c by (simp_all add: put_at_def length_copy_in)
    moreover have "escape_into bs (if b = 0 then 1 else 0) (copy_at d i [3, b]) (i + 2) = Some (copy_at (copy_at d i [3, b]) (i + 2) ?e, i + 2 + length ?e)"
      using 2(1) [of "(copy_at d i [3], i + 1, 0)" "copy_at d i [3]" "(i + 1, 0)" "i + 1" 0 "copy_at d i [3, b]"] True calculation l by (cases "b = 0") (simp_all add: length_copy_in)
    ultimately show ?thesis using True l copy_at_two [of i "[3, b]" ?e d] by (cases "b = 0") simp_all
  next
    case False
    let ?e = "escape (if b = 0 then z + 1 else 0) bs"
    have l: "i + 1 + length ?e \<le> length d" using 2(2) False by simp
    have "put_at d i [b] = Some (copy_at d i [b])" using l by (simp add: put_at_def)
    moreover have "escape_into bs (if b = 0 then z + 1 else 0) (copy_at d i [b]) (i + 1) = Some (copy_at (copy_at d i [b]) (i + 1) ?e, i + 1 + length ?e)"
      using 2(1) [of "(d, i, z)" d "(i, z)" i z "copy_at d i [b]"] False calculation l by (cases "b = 0") (simp_all add: length_copy_in)
    ultimately show ?thesis using False l copy_at_two [of i "[b]" ?e d] by (cases "b = 0") auto
  qed
qed

lemma escape_length: "z \<le> 2 \<Longrightarrow> 2 * length (escape z bs) \<le> 3 * length bs + z"
proof (induction z bs rule: escape.induct)
  case (2 z b bs)
  show ?case
  proof (cases "z = 2 \<and> b \<le> 3")
    case True
    then show ?thesis using 2(1) [OF True] by (cases "b = 0") simp_all
  next
    case False
    then have "b = 0 \<Longrightarrow> z < 2" using 2(3) by auto
    then show ?thesis using 2(2) [OF False] False by (cases "b = 0") auto
  qed
qed simp

lemma escape_longer: "length bs \<le> length (escape z bs)"
  by (induction z bs rule: escape.induct) auto

text \<open>The unit before escaping: the header and the payload.\<close>

definition nal_unit :: "SWelsNalRaw \<Rightarrow> byte list \<Rightarrow> SNalUnitHeaderExt option \<Rightarrow> byte list" where
  "nal_unit nal raw ext = nal_header nal # (if kbNALExt nal then nal_ext (the ext) else []) @ take (nat (iPayloadSize nal)) raw"

lemma escape_nonzero: "0 \<notin> set xs \<Longrightarrow> z < 2 \<Longrightarrow> escape z (xs @ ys) = xs @ escape (if xs = [] then z else 0) ys"
  by (induction xs arbitrary: z) auto

lemma nal_ext_nonzero: "0 \<notin> set (nal_ext e)"
  by (auto simp: nal_ext_def or_eq_0_iff)

lemma int32_id: "0 \<le> x \<Longrightarrow> x < 2 ^ 31 \<Longrightarrow> int32 x = x"
  by (simp add: int32_def signed_take_bit_int_eq_self)

text \<open>The buffer the encoder asks for is enough for every payload.\<close>

lemma WelsEncodeNal_unit:
  assumes "0 \<le> iPayloadSize nal" "iPayloadSize nal \<le> int (length raw)" "iPayloadSize nal < 2 ^ 30" "nal_header nal \<noteq> 0" "kbNALExt nal \<longrightarrow> ext \<noteq> None"
    "need = length (nal_unit nal raw ext) + 4" "need + need div 2 \<le> length d"
  shows "WelsEncodeNal nal raw ext (int (length d)) d =
    Some (ENC_RETURN_SUCCESS, copy_at d 0 (kuiStartCodePrefix @ escape 0 (nal_unit nal raw ext)), length (kuiStartCodePrefix @ escape 0 (nal_unit nal raw ext)))"
proof -
  let ?h = "nal_header nal # (if kbNALExt nal then nal_ext (the ext) else [])" and ?p = "take (nat (iPayloadSize nal)) raw"
  let ?x = "if kbNALExt nal then 3 else 0 :: int"
  have hl: "length ?h = 1 + nat ?x" by (simp add: nal_ext_def)
  have pl: "length ?p = nat (iPayloadSize nal)" using assms(1,2) by simp
  have need: "int need = NAL_HEADER_SIZE + ?x + iPayloadSize nal + 1" using assms(1) pl hl unfolding assms(6) by (simp add: nal_unit_def NAL_HEADER_SIZE_def)
  have x: "?x \<le> 3" by simp
  have n: "int32 (NAL_HEADER_SIZE + ?x + iPayloadSize nal + 1) = int need" using assms(3) x need by (subst need [symmetric]) (rule int32_id, simp_all add: NAL_HEADER_SIZE_def)
  have n2: "int32 (int need + int need div 2) = int (need + need div 2)"
    using assms(3) x need by (subst int32_id) (simp_all add: NAL_HEADER_SIZE_def zdiv_int)
  have e: "escape 0 (nal_unit nal raw ext) = ?h @ escape 0 ?p"
    using escape_nonzero [of ?h 0 ?p] assms(4) nal_ext_nonzero by (simp add: nal_unit_def)
  have el: "2 * length (escape 0 ?p) \<le> 3 * length ?p" using escape_length [of 0 ?p] by simp
  have nl: "need = 4 + length ?h + length ?p" unfolding assms(6) by (simp add: nal_unit_def)
  have "length (kuiStartCodePrefix @ ?h) = 4 + length ?h" by (simp add: kuiStartCodePrefix_def)
  then have fit: "length (kuiStartCodePrefix @ ?h) + length (escape 0 ?p) \<le> length d" using el nl assms(7) by linarith
  have put: "put_at d 0 (kuiStartCodePrefix @ [nal_header nal] @ (if kbNALExt nal then nal_ext (the ext) else [])) = Some (copy_at d 0 (kuiStartCodePrefix @ ?h))"
    using fit by (simp add: put_at_def)
  have pos: "5 + nat ?x = 0 + length (kuiStartCodePrefix @ ?h)" using hl by (simp add: kuiStartCodePrefix_def)
  have esc: "escape_into ?p 0 (copy_at d 0 (kuiStartCodePrefix @ ?h)) (5 + nat ?x) =
      Some (copy_at d 0 ((kuiStartCodePrefix @ ?h) @ escape 0 ?p), length (kuiStartCodePrefix @ ?h) + length (escape 0 ?p))"
    unfolding pos using fit copy_at_two [of 0 "kuiStartCodePrefix @ ?h" "escape 0 ?p" d]
    by (subst escape_into) (simp_all add: length_copy_in)
  have g: "\<not> int need \<le> 0" "\<not> int (length d) < int (need + need div 2)" "\<not> (iPayloadSize nal < 0 \<or> iPayloadSize nal > int (length raw) \<or> kbNALExt nal \<and> ext = None)"
    using nl hl assms by auto
  show ?thesis unfolding WelsEncodeNal_def Let_def n n2 put option.case esc prod.case e using g by (simp only: if_False append_assoc length_append add.assoc)
qed

subsection \<open>The decoder\<close>

text \<open>A scan of an escaped unit copies the unit.\<close>

primrec plain :: "byte list \<Rightarrow> byte list \<Rightarrow> bool" where
  "plain [] tail \<longleftrightarrow> True"
| "plain (x # xs) tail \<longleftrightarrow> \<not> special (x # xs @ tail) \<and> plain xs tail"

lemma scan_plain:
  assumes "plain xs tail" "room (d + i) (xs @ tail) raw"
  shows "scan starts f (xs @ tail) n i d raw c = scan starts f tail n (i + length xs) d (raw\<lparr>pHead := copy_at (pHead raw) (d + i) xs\<rparr>) c"
  using assms
proof (induction xs arbitrary: i raw)
  case Nil
  then show ?case by (simp add: copy_at_def)
next
  case (Cons x xs)
  let ?raw = "raw\<lparr>pHead := copy_at (pHead raw) (d + i) [x]\<rparr>"
  have ns: "\<not> special (x # xs @ tail)" "plain xs tail" using Cons.prems(1) by simp_all
  have R: "room (d + i) (x # xs @ tail) raw" using Cons.prems(2) by simp
  have "room (d + (i + 1)) (xs @ tail) ?raw" using R by (intro room_put) simp_all
  note IH = Cons.IH [OF ns(2) this]
  have "copy_at (pHead ?raw) (d + (i + 1)) xs = copy_at (pHead raw) (d + i) (x # xs)"
    using copy_at_two [of "d + i" "[x]" xs "pHead raw"] Cons.prems(2) by (simp add: raw_ok_def)
  then show ?case using scan_copy [OF ns(1) R, of starts f n c] IH by simp
qed

lemma scan_unit:
  assumes "u = [] \<or> last u \<noteq> 0" "room (d + i) (escape 0 u @ tail) raw"
  shows "scan starts f (escape 0 u @ tail) False i d raw c = scan starts f tail False (i + length u) d (raw\<lparr>pHead := copy_at (pHead raw) (d + i) u\<rparr>) c"
  using assms
proof (induction "length u" arbitrary: u i raw rule: less_induct)
  case less
  note R = less.prems(2)
  have step: ?case if "u = xs @ v" "xs \<noteq> []" "escape 0 u = ys @ escape 0 v" "length xs \<le> length ys"
    "scan starts f (ys @ escape 0 v @ tail) False i d raw c = scan starts f (escape 0 v @ tail) False (i + length xs) d (raw\<lparr>pHead := copy_at (pHead raw) (d + i) xs\<rparr>) c"
    for xs v ys
  proof -
    let ?raw = "raw\<lparr>pHead := copy_at (pHead raw) (d + i) xs\<rparr>"
    have "room (d + (i + length xs)) (escape 0 v @ tail) ?raw" using R that(3,4) by (intro room_put) simp_all
    moreover have "length v < length u" "v = [] \<or> last v \<noteq> 0" using that(1,2) less.prems(1) by auto
    ultimately have "scan starts f (escape 0 v @ tail) False (i + length xs) d ?raw c =
        scan starts f tail False (i + length xs + length v) d (?raw\<lparr>pHead := copy_at (pHead ?raw) (d + (i + length xs)) v\<rparr>) c"
      by (intro less.hyps) simp_all
    moreover have "length v \<le> length (escape 0 v)" by (rule escape_longer)
    then have "copy_at (pHead ?raw) (d + (i + length xs)) v = copy_at (pHead raw) (d + i) u"
      using copy_at_two [of "d + i" xs v "pHead raw"] R that by (simp add: raw_ok_def add.assoc)
    ultimately show ?thesis using that by (simp add: add.assoc)
  qed
  show ?case
  proof (cases u)
    case Nil
    then show ?thesis by (simp add: copy_at_def)
  next
    case (Cons x v)
    show ?thesis
    proof (cases "x = 0")
      case False
      show ?thesis
        by (rule step [of "[x]" v "[x]"]) (use Cons False R scan_plain [of "[x]" "escape 0 v @ tail" raw d i starts f False c] in \<open>simp_all add: special_def\<close>)
    next
      case x: True
      then obtain y w where v: "v = y # w" using less.prems(1) Cons by (cases v) auto
      show ?thesis
      proof (cases "y = 0")
        case False
        show ?thesis
          by (rule step [of "[0, y]" w "[0, y]"])
            (use Cons x v False R scan_plain [of "[0, y]" "escape 0 w @ tail" raw d i starts f False c] in \<open>simp_all add: special_def\<close>)
      next
        case y: True
        then obtain z w' where w: "w = z # w'" using less.prems(1) Cons v by (cases w) auto
        show ?thesis
        proof (cases "z \<le> 3")
          case True
          have e: "escape 0 u = [0, 0, 3] @ escape 0 w" using Cons x y v w True by simp
          then have "room (d + i) (0 # 0 # 3 # escape 0 w @ tail) raw" using R by simp
          from scan_escaped [OF this, of starts f c] leD [OF True] w
          have s: "scan starts f ([0, 0, 3] @ escape 0 w @ tail) False i d raw c =
              scan starts f (escape 0 w @ tail) False (i + length [0 :: byte, 0]) d (raw\<lparr>pHead := copy_at (pHead raw) (d + i) [0, 0]\<rparr>) c" by simp
          show ?thesis by (rule step [OF _ _ e _ s]) (use Cons x y v in simp_all)
        next
          case False
          then have "z \<noteq> 0" by auto
          then show ?thesis
            by (intro step [of "[0, 0, z]" w' "[0, 0, z]"])
              (use Cons x y v w False R scan_plain [of "[0, 0, z]" "escape 0 w' @ tail" raw d i starts f False c] in \<open>simp_all add: special_def\<close>)
        qed
      qed
    qed
  qed
qed

text \<open>A stream of units.\<close>

definition stream_of :: "byte list list \<Rightarrow> byte list" where
  "stream_of us = concat (map (\<lambda>u. kuiStartCodePrefix @ escape 0 u) us)"

lemma slice_copied: "d + length u \<le> length h \<Longrightarrow> slice (copy_at h d u) d (length u) = u"
  by (simp add: slice_def copy_at_def)

lemma RawDataWrapIsClean_less: "RawDataWrapIsClean ps n \<Longrightarrow> m \<le> n \<Longrightarrow> RawDataWrapIsClean ps m"
  by (auto simp: RawDataWrapIsClean_def list_all_iff)

lemma scan_units:
  assumes "\<forall>v\<in>set (u # us). v \<noteq> [] \<and> last v \<noteq> 0" "room d (escape 0 u @ stream_of us) raw"
    "\<And>c. RawDataWrapIsClean (starts c) n" "length (escape 0 u @ stream_of us) + 4 \<le> n" "\<And>v c. f v c = (c @ [g v], False)" "\<And>v. v \<noteq> [] \<Longrightarrow> g (v @ [0]) = g v"
  shows "\<exists>raw1. scan starts f (escape 0 u @ stream_of us) False 0 d raw c = (Finished, raw1, c @ map g (u # us))"
  using assms(1,2,4)
proof (induction us arbitrary: u d raw c)
  case Nil
  let ?raw = "raw\<lparr>pHead := copy_at (pHead raw) (d + 0) u\<rparr>"
  have l: "length u \<le> length (escape 0 u)" by (rule escape_longer)
  have s: "scan starts f (escape 0 u @ []) False 0 d raw c = scan starts f [] False (0 + length u) d ?raw c"
    using Nil.prems by (intro scan_unit) (simp_all add: stream_of_def)
  have "room (d + (0 + length u)) [] ?raw" using Nil.prems(2) l by (intro room_put) (simp_all add: stream_of_def)
  from scan_last [OF this, of starts f False c] show ?case
    using s slice_copied [of d u "pHead raw"] Nil.prems(2) l assms(5) [of u c] by (simp add: stream_of_def raw_ok_def)
next
  case (Cons v us)
  let ?rest = "escape 0 v @ stream_of us"
  let ?raw = "raw\<lparr>pHead := copy_at (pHead raw) (d + 0) u\<rparr>" and ?h = "copy_at (pHead raw) d (u @ [0])"
  have e: "stream_of (v # us) = 0 # 0 # 0 # 1 # ?rest" by (simp add: stream_of_def kuiStartCodePrefix_def)
  have l: "length u \<le> length (escape 0 u)" by (rule escape_longer)
  have R: "raw_ok raw" "d + length u + 4 + length ?rest + 4 \<le> pEnd raw" using Cons.prems(2) l e by simp_all
  have s1: "scan starts f (escape 0 u @ 0 # 0 # 0 # 1 # ?rest) False 0 d raw c = scan starts f (0 # 0 # 0 # 1 # ?rest) False (0 + length u) d ?raw c"
    using Cons.prems(1,2) e by (intro scan_unit) simp_all
  have r1: "room (d + length u) (0 # 0 # 0 # 1 # ?rest) ?raw" using R by (intro room_put) simp_all
  have c: "copy_at (copy_at (pHead raw) d u) (d + length u) [0] = ?h" using copy_at_two [of d u "[0]" "pHead raw"] R by (simp add: raw_ok_def)
  have s2: "scan starts f (0 # 0 # 0 # 1 # ?rest) False (length u) d ?raw c = scan starts f (0 # 0 # 1 # ?rest) True (length u + 1) d (raw\<lparr>pHead := ?h\<rparr>) c"
    using scan_zero [OF refl r1, of starts f False c] c by simp
  have r2: "room (d + (length u + 1)) (0 # 0 # 1 # ?rest) (raw\<lparr>pHead := ?h\<rparr>)" using R by (intro room_put) simp_all
  have sl: "slice ?h d (length u + 1) = u @ [0]" using slice_copied [of d "u @ [0]" "pHead raw"] R by (simp add: raw_ok_def)
  have g: "f (u @ [0]) c = (c @ [g u], False)" using assms(5) [of "u @ [0]" c] assms(6) [of u] Cons.prems(1) by simp
  let ?raw3 = "raw\<lparr>pHead := copy_at ?h (d + (length u + 1)) [0, 0, 0, 0]\<rparr>"
  have ok3: "raw_ok ?raw3" using raw_ok_put(2) [of "raw\<lparr>pHead := ?h\<rparr>" "d + (length u + 1)" "[0, 0, 0, 0]"] r2 by simp
  have us: "\<forall>w\<in>set (v # us). w \<noteq> [] \<and> last w \<noteq> 0" and n: "length ?rest + 4 \<le> n" "length ?rest + 7 \<le> n" using Cons.prems(1,3) e by simp_all
  have IH: "\<exists>raw1. scan starts f ?rest False 0 p (?raw3\<lparr>pCurPos := p\<rparr>) (c @ [g u]) = (Finished, raw1, (c @ [g u]) @ map g (v # us))"
    if "p + length ?rest + 4 \<le> pEnd raw" for p
    by (rule Cons.IH [OF us _ n(1)]) (use raw_ok_pos [OF ok3, of p] that in simp)
  show ?case
  proof (cases "length ?rest + 7 > pEnd raw - (d + (length u + 1) + 4)")
    case True
    then have "scan starts f (0 # 0 # 1 # ?rest) True (length u + 1) d (raw\<lparr>pHead := ?h\<rparr>) c = scan starts f ?rest False 0 0 (?raw3\<lparr>pCurPos := 0\<rparr>) (c @ [g u])"
      using scan_start [OF r2, of starts f True c] sl g RawDataWrapIsClean_less [OF assms(3) n(2)] by (simp add: Let_def)
    then show ?thesis using IH [of 0] R s1 s2 e by simp
  next
    case False
    then have "scan starts f (0 # 0 # 1 # ?rest) True (length u + 1) d (raw\<lparr>pHead := ?h\<rparr>) c =
        scan starts f ?rest False 0 (d + (length u + 1) + 4) (?raw3\<lparr>pCurPos := d + (length u + 1) + 4\<rparr>) (c @ [g u])"
      using scan_start [OF r2, of starts f True c] sl g by (simp add: Let_def)
    then show ?thesis using IH [of "d + (length u + 1) + 4"] False R s1 s2 e by simp
  qed
qed

lemma WelsDecodeBs_units:
  assumes "\<forall>v\<in>set us. v \<noteq> [] \<and> last v \<noteq> 0" "us \<noteq> []" "raw_ok raw" "length (stream_of us) + 4 \<le> pEnd raw" "\<And>c. RawDataWrapIsClean (starts c) (length (stream_of us) + 4)"
    "\<And>v c. f v c = (c @ [g v], False)" "\<And>v. v \<noteq> [] \<Longrightarrow> g (v @ [0]) = g v"
  shows "\<exists>raw1. WelsDecodeBs starts f (stream_of us) raw c = (Finished, raw1, c @ map g us)"
proof -
  obtain u vs where us: "us = u # vs" using assms(2) by (cases us) auto
  let ?rest = "escape 0 u @ stream_of vs"
  have e: "stream_of us = 0 # 0 # 0 # 1 # ?rest" by (simp add: stream_of_def kuiStartCodePrefix_def us)
  have d: "DetectStartCodePrefix (stream_of us) = Some 4" by (simp add: DetectStartCodePrefix_def e)
  have r: "\<exists>raw1. scan starts f ?rest False 0 p (raw\<lparr>pCurPos := p\<rparr>) c = (Finished, raw1, c @ map g (u # vs))" if "p + length ?rest + 4 \<le> pEnd raw" for p
    using assms e us that raw_ok_pos [OF assms(3), of p] by (intro scan_units [where n = "length (stream_of us) + 4"]) auto
  show ?thesis using r [of 0] r [of "pCurPos raw"] assms(3-5) d e us by (simp add: WelsDecodeBs_def)
qed

section \<open>From syntax elements to a stream and back\<close>

subsection \<open>Writing units one after the other\<close>

text \<open>The position a writer was opened at plays no role for writing.\<close>

lemma shift_bits: "BsWriteBits n v (s\<lparr>PStartBuf := p\<rparr>) = map_option (\<lambda>x. x\<lparr>PStartBuf := p\<rparr>) (BsWriteBits n v s)"
  by (simp add: BsWriteBits_def Let_def split: option.split)

lemma shift_elem: "write_elem e (s\<lparr>PStartBuf := p\<rparr>) = map_option (\<lambda>x. x\<lparr>PStartBuf := p\<rparr>) (write_elem e s)"
  by (simp add: write_elem_def BsWriteUE_def BsWriteSE_def BsWriteTE_def BsWriteOneBit_def shift_bits split: element.split option.split)

lemma shift_all: "write_all es (s\<lparr>PStartBuf := p\<rparr>) = map_option (\<lambda>x. x\<lparr>PStartBuf := p\<rparr>) (write_all es s)"
  by (induction es arbitrary: s) (auto simp: shift_elem split: option.split)

lemma shift_trailing: "BsRbspTrailingBits (s\<lparr>PStartBuf := p\<rparr>) = map_option (\<lambda>x. x\<lparr>PStartBuf := p\<rparr>) (BsRbspTrailingBits s)"
  by (simp add: BsRbspTrailingBits_def BsWriteOneBit_def shift_bits BsFlush_def split: option.split)

definition rbsp_size :: "element list \<Rightarrow> nat" where
  "rbsp_size es = (length (concat (map elem_bits es)) + 8) div 8"

text \<open>The payload of a unit holds the elements.\<close>

definition holds :: "element list \<Rightarrow> byte list \<Rightarrow> bool" where
  "holds es p \<longleftrightarrow> (\<exists>pad < 8. buf_bits p = concat (map elem_bits es) @ True # replicate pad False)"

lemma unit_written:
  assumes "\<forall>e\<in>set es. elem_ok e" "aligned s" "PCurBuf s + rbsp_size es + 5 \<le> length (PBuf s)"
  shows "\<exists>s1 s2. write_all es s = Some s1 \<and> BsRbspTrailingBits s1 = Some s2 \<and> aligned s2 \<and> PStartBuf s2 = PStartBuf s \<and> length (PBuf s2) = length (PBuf s) \<and>
    PCurBuf s2 = PCurBuf s + rbsp_size es \<and> holds es (slice (PBuf s2) (PCurBuf s) (rbsp_size es))"
proof -
  let ?s = "s\<lparr>PStartBuf := PCurBuf s\<rparr>" and ?T = "length (concat (map elem_bits es))" and ?o = "PCurBuf s"
  have "?T div 8 \<le> rbsp_size es" by (simp add: rbsp_size_def)
  then have "PCurBuf s + ?T div 8 + 5 \<le> length (PBuf ?s)" using assms(3) by simp
  then obtain s1 s2 pad where w: "write_all es ?s = Some s1" "BsRbspTrailingBits s1 = Some s2" "pad < 8" "aligned s2" "PStartBuf s2 = ?o" "length (PBuf s2) = length (PBuf s)"
      "PCurBuf s2 \<le> length (PBuf s2)" "buf_bits (slice (PBuf s2) ?o (PCurBuf s2 - ?o)) = concat (map elem_bits es) @ True # replicate pad False"
    using rbsp_written [where s = ?s and off = ?o, OF assms(1) refl] assms(2) by (auto simp: aligned_def)
  have le: "?o \<le> PCurBuf s2" using w(4,5) by (simp add: aligned_def)
  have "length (slice (PBuf s2) ?o (PCurBuf s2 - ?o)) = PCurBuf s2 - ?o" using w(7) le by (auto simp: slice_def)
  then have "8 * (PCurBuf s2 - ?o) = ?T + 1 + pad" using arg_cong [OF w(8), of length] by simp
  then have n: "PCurBuf s2 - ?o = rbsp_size es" using w(3) unfolding rbsp_size_def by linarith
  have "write_all es s = Some (s1\<lparr>PStartBuf := PStartBuf s\<rparr>)" using shift_all [where es = es and s = ?s and p = "PStartBuf s"] w(1) by simp
  moreover have "BsRbspTrailingBits (s1\<lparr>PStartBuf := PStartBuf s\<rparr>) = Some (s2\<lparr>PStartBuf := PStartBuf s\<rparr>)" using shift_trailing [where s = s1 and p = "PStartBuf s"] w(2) by simp
  moreover have "aligned (s2\<lparr>PStartBuf := PStartBuf s\<rparr>)" using w(4) le assms(2) by (simp add: aligned_def)
  moreover have "holds es (slice (PBuf s2) ?o (rbsp_size es))" using w(3,8) n by (auto simp: holds_def)
  moreover have "PCurBuf s2 = ?o + rbsp_size es" using n le by simp
  ultimately show ?thesis using w(6) by (intro exI [of _ "s1\<lparr>PStartBuf := PStartBuf s\<rparr>"] exI [of _ "s2\<lparr>PStartBuf := PStartBuf s\<rparr>"]) simp
qed

text \<open>The encoder writes a unit like this for a parameter set: it loads a unit, writes the syntax elements, unloads the unit and encodes it behind the
  previous ones.\<close>

fun write_units :: "(nat \<times> byte \<times> element list) list \<Rightarrow> SWelsEncoderOutput \<Rightarrow> byte list \<Rightarrow> byte list option" where
  "write_units [] w frame = Some []"
| "write_units ((kiType, ref, es) # xs) w frame =
     (case WelsLoadNal kiType ref w of None \<Rightarrow> None
      | Some w1 \<Rightarrow> (case write_all es (sBsWrite w1) of None \<Rightarrow> None
      | Some s1 \<Rightarrow> (case BsRbspTrailingBits s1 of None \<Rightarrow> None
      | Some s2 \<Rightarrow> (case WelsUnloadNal (w1\<lparr>sBsWrite := s2\<rparr>) of None \<Rightarrow> None
      | Some w2 \<Rightarrow> (let nal = sNalList w2 ! (iNalIndex w2 - 1)
          in case WelsEncodeNal nal (pRawData w2 nal) None (int (length frame)) frame of
               Some (ENC_RETURN_SUCCESS, frame1, n) \<Rightarrow> map_option ((@) (take n frame1)) (write_units xs w2 (drop n frame1))
             | _ \<Rightarrow> None)))))"

definition item_ok :: "nat \<times> byte \<times> element list \<Rightarrow> bool" where
  "item_ok x = (case x of (kiType, ref, es) \<Rightarrow> 0 < kiType \<and> kiType < 32 \<and> kiType \<noteq> NAL_UNIT_PREFIX \<and> kiType \<noteq> NAL_UNIT_CODED_SLICE_EXT \<and> ref < 4 \<and>
     (\<forall>e\<in>set es. elem_ok e))"

definition item_head :: "nat \<Rightarrow> byte \<Rightarrow> byte" where
  "item_head kiType ref = push_bit 5 ref OR (of_nat kiType AND 0x1f)"

lemma item_head_fields:
  assumes "kiType < 32" "ref < 4"
  shows "drop_bit 7 (item_head kiType ref) = 0" "drop_bit 5 (item_head kiType ref) = ref" "item_head kiType ref AND 0x1f = of_nat kiType"
proof -
  have r: "\<not> bit ref j" if "2 \<le> j" for j
  proof -
    have "unat ref < 4" using assms(2) by (simp add: word_less_nat_alt)
    moreover have "(2 :: nat) ^ 2 \<le> 2 ^ j" using that by (intro power_increasing) simp_all
    ultimately have "unat ref div 2 ^ j = 0" by simp
    then show ?thesis using bit_unat [of ref j] by (simp add: bit_iff_odd)
  qed
  have r3: "n < 3" if "bit ref n" for n using that r [of n] by (cases "n < 3") auto
  have t: "\<not> bit (of_nat kiType :: byte) j" if "5 \<le> j" for j
  proof -
    have "unat (of_nat kiType :: byte) < 32" using assms(1) by (simp add: unat_of_nat)
    moreover have "(2 :: nat) ^ 5 \<le> 2 ^ j" using that by (intro power_increasing) simp_all
    ultimately have "unat (of_nat kiType :: byte) div 2 ^ j = 0" by simp
    then show ?thesis using bit_unat [of "of_nat kiType :: byte" j] by (simp add: bit_iff_odd)
  qed
  have t5: "n < 5" if "bit (of_nat kiType :: byte) n" for n using that t [of n] by (cases "n < 5") auto
  have m: "bit (0x1f :: byte) j \<longleftrightarrow> j < 5" for j using bit_mask_iff [where 'a = "8 word", of 5 j] by (auto simp: mask_eq_exp_minus_1)
  have b: "bit (item_head kiType ref) j \<longleftrightarrow> j < 8 \<and> (5 \<le> j \<and> bit ref (j - 5) \<or> bit (of_nat kiType :: byte) j)" for j
    using t [of j] bit_imp_le_length [of "of_nat kiType :: byte" j] unfolding item_head_def bit_or_iff bit_and_iff bit_push_bit_iff m by auto
  show "drop_bit 7 (item_head kiType ref) = 0" using r t by (intro bit_word_eqI) (simp add: bit_drop_bit_eq b)
  show "drop_bit 5 (item_head kiType ref) = ref" using r3 t by (intro bit_word_eqI) (auto simp: bit_drop_bit_eq b)
  show "item_head kiType ref AND 0x1f = of_nat kiType" using t5 by (intro bit_word_eqI) (simp only: bit_and_iff b m, auto)
qed

lemma item_head_nonzero: "0 < kiType \<Longrightarrow> kiType < 32 \<Longrightarrow> ref < 4 \<Longrightarrow> item_head kiType ref \<noteq> 0"
  using item_head_fields(3) [of kiType ref] word_of_nat_eq_0_iff [where 'a = 8, of kiType] by (auto dest: dvd_imp_le)

lemma load_write_unload:
  assumes "\<forall>e\<in>set es. elem_ok e" "aligned (sBsWrite w)" "PCurBuf (sBsWrite w) + rbsp_size es + 5 \<le> length (PBuf (sBsWrite w))" "iNalIndex w < length (sNalList w)" "length (PBuf (sBsWrite w)) < 2 ^ 28"
  shows "\<exists>w1 s1 s2 w2 nal. WelsLoadNal kiType ref w = Some w1 \<and> write_all es (sBsWrite w1) = Some s1 \<and> BsRbspTrailingBits s1 = Some s2 \<and>
    WelsUnloadNal (w1\<lparr>sBsWrite := s2\<rparr>) = Some w2 \<and> sNalList w2 ! (iNalIndex w2 - 1) = nal \<and> ENalUnitType nal = kiType \<and> UiNalRefIdc nal = ref \<and>
    iPayloadSize nal = int (rbsp_size es) \<and> rbsp_size es \<le> length (pRawData w2 nal) \<and> holds es (take (rbsp_size es) (pRawData w2 nal)) \<and>
    aligned (sBsWrite w2) \<and> PCurBuf (sBsWrite w2) = PCurBuf (sBsWrite w) + rbsp_size es \<and> length (PBuf (sBsWrite w2)) = length (PBuf (sBsWrite w)) \<and>
    iNalIndex w2 = iNalIndex w + 1 \<and> length (sNalList w2) = length (sNalList w)"
proof -
  let ?s = "sBsWrite w" and ?k = "iNalIndex w"
  let ?start = "int (PCurBuf ?s) - int (PStartBuf ?s)"
  have pos: "BsGetBitsPos s div 8 = int (PCurBuf s) - int (PStartBuf s)" if "aligned s" "PCurBuf s < 2 ^ 28" for s
    using that int32_small [of "(int (PCurBuf s) - int (PStartBuf s)) * 8"] by (simp add: BsGetBitsPos_def aligned_def)
  obtain s1 s2 where s: "write_all es ?s = Some s1" "BsRbspTrailingBits s1 = Some s2" "aligned s2" "PStartBuf s2 = PStartBuf ?s" "length (PBuf s2) = length (PBuf ?s)"
      "PCurBuf s2 = PCurBuf ?s + rbsp_size es" "holds es (slice (PBuf s2) (PCurBuf ?s) (rbsp_size es))"
    using unit_written [OF assms(1-3)] by blast
  have le: "PStartBuf ?s \<le> PCurBuf ?s" using assms(2) by (simp add: aligned_def)
  let ?nal = "\<lparr>ENalUnitType = kiType, UiNalRefIdc = ref, iStartPos = ?start, iPayloadSize = int (rbsp_size es)\<rparr>"
  let ?w1 = "w\<lparr>sNalList := (sNalList w)[?k := \<lparr>ENalUnitType = kiType, UiNalRefIdc = ref, iStartPos = ?start, iPayloadSize = 0\<rparr>]\<rparr>"
  let ?w2 = "w\<lparr>sBsWrite := s2, sNalList := (sNalList w)[?k := ?nal], iNalIndex := ?k + 1\<rparr>"
  have "WelsLoadNal kiType ref w = Some ?w1" using pos [OF assms(2)] le assms(3-5) by (simp add: WelsLoadNal_def Let_def)
  moreover have "WelsUnloadNal (?w1\<lparr>sBsWrite := s2\<rparr>) = Some ?w2" using pos [OF s(3)] s(4,6) assms(3-5) by (simp add: WelsUnloadNal_def Let_def)
  moreover have "pRawData ?w2 ?nal = drop (PCurBuf ?s) (PBuf s2)" using le s(4) by (simp add: pRawData_def nat_diff_distrib)
  ultimately show ?thesis using s assms(3,4) by (intro exI [of _ ?w1] exI [of _ s1] exI [of _ s2] exI [of _ ?w2] exI [of _ ?nal]) (simp add: slice_def)
qed

lemma holds_last: "holds es p \<Longrightarrow> p \<noteq> [] \<and> last p \<noteq> 0"
  using stop_bit [of p "concat (map elem_bits es)"] by (auto simp: holds_def)

definition frame_need :: "element list \<Rightarrow> nat" where
  "frame_need es = (let n = rbsp_size es + 5 in n + n div 2)"

lemma write_units:
  assumes "\<forall>x\<in>set xs. item_ok x" "aligned (sBsWrite w)" "PCurBuf (sBsWrite w) + (\<Sum>(kiType, ref, es)\<leftarrow>xs. rbsp_size es) + 5 \<le> length (PBuf (sBsWrite w))"
    "length (PBuf (sBsWrite w)) < 2 ^ 28" "iNalIndex w + length xs \<le> length (sNalList w)" "(\<Sum>(kiType, ref, es)\<leftarrow>xs. frame_need es) \<le> length frame"
  shows "\<exists>us. write_units xs w frame = Some (stream_of us) \<and> length (stream_of us) \<le> length frame \<and> (\<forall>u\<in>set us. u \<noteq> [] \<and> last u \<noteq> 0) \<and>
    list_all2 (\<lambda>(kiType, ref, es) u. \<exists>p. u = item_head kiType ref # p \<and> holds es p) xs us"
  using assms
proof (induction xs arbitrary: w frame)
  case Nil
  then show ?case by (intro exI [of _ "[]"]) (simp add: stream_of_def)
next
  case (Cons x xs)
  obtain kiType ref es where x: "x = (kiType, ref, es)" by (cases x)
  have ok: "0 < kiType" "kiType < 32" "kiType \<noteq> NAL_UNIT_PREFIX" "kiType \<noteq> NAL_UNIT_CODED_SLICE_EXT" "ref < 4" "\<forall>e\<in>set es. elem_ok e"
    using Cons.prems(1) by (simp_all add: x item_ok_def)
  have r: "PCurBuf (sBsWrite w) + rbsp_size es + 5 \<le> length (PBuf (sBsWrite w))" "iNalIndex w < length (sNalList w)" using Cons.prems(3,5) by (simp_all add: x)
  obtain w1 s1 s2 w2 nal where L: "WelsLoadNal kiType ref w = Some w1" "write_all es (sBsWrite w1) = Some s1" "BsRbspTrailingBits s1 = Some s2"
      "WelsUnloadNal (w1\<lparr>sBsWrite := s2\<rparr>) = Some w2" "sNalList w2 ! (iNalIndex w2 - 1) = nal" "ENalUnitType nal = kiType" "UiNalRefIdc nal = ref"
      "iPayloadSize nal = int (rbsp_size es)" "rbsp_size es \<le> length (pRawData w2 nal)" "holds es (take (rbsp_size es) (pRawData w2 nal))"
      "aligned (sBsWrite w2)" "PCurBuf (sBsWrite w2) = PCurBuf (sBsWrite w) + rbsp_size es" "length (PBuf (sBsWrite w2)) = length (PBuf (sBsWrite w))"
      "iNalIndex w2 = iNalIndex w + 1" "length (sNalList w2) = length (sNalList w)"
    using load_write_unload [OF ok(6) Cons.prems(2) r Cons.prems(4), of kiType ref] by blast
  let ?u = "item_head kiType ref # take (rbsp_size es) (pRawData w2 nal)" and ?need = "rbsp_size es + 5"
  have h: "nal_header nal = item_head kiType ref" "\<not> kbNALExt nal" using L(6,7) ok(3,4) by (simp_all add: nal_header_def item_head_def kbNALExt_def)
  then have u: "nal_unit nal (pRawData w2 nal) None = ?u" using L(8) by (simp add: nal_unit_def)
  have size: "rbsp_size es < 2 ^ 28" using r(1) Cons.prems(4) by linarith
  have fn: "?need + ?need div 2 \<le> length frame" using Cons.prems(6) by (simp add: x frame_need_def Let_def)
  define b where "b = kuiStartCodePrefix @ escape 0 ?u"
  have enc: "WelsEncodeNal nal (pRawData w2 nal) None (int (length frame)) frame = Some (ENC_RETURN_SUCCESS, copy_at frame 0 b, length b)"
    using WelsEncodeNal_unit [of nal "pRawData w2 nal" None "length ?u + 4" frame, unfolded u] L(8,9) size h item_head_nonzero [OF ok(1,2,5)] fn by (simp add: b_def)
  have bl: "length b \<le> frame_need es" using escape_length [of 0 ?u] L(9) by (simp add: b_def kuiStartCodePrefix_def frame_need_def Let_def)
  have "frame_need es \<le> length frame" using fn by (simp add: frame_need_def Let_def)
  with bl have bf: "length b \<le> length frame" by (rule le_trans)
  have fr: "take (length b) (copy_at frame 0 b) = b" "length (drop (length b) (copy_at frame 0 b)) = length frame - length b"
    using bf by (simp_all add: copy_at_def)
  have room: "(\<Sum>(kiType, ref, es)\<leftarrow>xs. frame_need es) \<le> length frame - length b" using Cons.prems(6) bl by (simp add: x)
  obtain us where us: "write_units xs w2 (drop (length b) (copy_at frame 0 b)) = Some (stream_of us)" "length (stream_of us) \<le> length frame - length b"
      "\<forall>u\<in>set us. u \<noteq> [] \<and> last u \<noteq> 0" "list_all2 (\<lambda>(kiType, ref, es) u. \<exists>p. u = item_head kiType ref # p \<and> holds es p) xs us"
    using Cons.IH [of w2 "drop (length b) (copy_at frame 0 b)"] Cons.prems L(11-15) fr(2) room x by auto
  have "write_units (x # xs) w frame = Some (stream_of (?u # us))"
    using L(1-5) enc us(1) fr(1) by (simp add: x stream_of_def b_def [symmetric] del: escape.simps)
  moreover have "length (stream_of (?u # us)) \<le> length frame" using us(2) bf by (simp add: stream_of_def b_def [symmetric] del: escape.simps)
  ultimately show ?case using us(3,4) L(10) holds_last [OF L(10)] by (intro exI [of _ "?u # us"]) (simp add: x)
qed

subsection \<open>Headers\<close>

lemma nal_size_last: "u \<noteq> [] \<Longrightarrow> last u \<noteq> 0 \<Longrightarrow> nal_size u = length u"
  by (cases u rule: rev_cases) (simp_all add: nal_size_def)

lemma nal_size_le: "nal_size u \<le> length u"
  unfolding nal_size_def by (metis length_dropWhile_le length_rev)

lemma parse_zero:
  assumes "u \<noteq> []" shows "parse_nal_header (u @ [0]) = parse_nal_header u"
proof -
  have s: "nal_size (u @ [0]) = nal_size u" by (simp add: nal_size_def)
  have h: "((u @ [0]) @ [0]) ! 0 = (u @ [0]) ! 0" using assms by (cases u) auto
  have d: "take (nal_size u - 1) (drop 1 (u @ [0])) = take (nal_size u - 1) (drop 1 u)" using nal_size_le [of u] assms by (cases u) auto
  show ?thesis unfolding parse_nal_header_def Let_def h s d ..
qed

lemma parse_item:
  assumes "kiType < 32" "ref < 4" "u = item_head kiType ref # p" "last u \<noteq> 0"
  shows "parse_nal_header u = Some (ref, of_nat kiType, p)"
  using item_head_fields [OF assms(1,2)] nal_size_last [OF _ assms(4)] assms(3) by (simp add: parse_nal_header_def)

text \<open>
  The check before a wrap covers the rest of the input and four bytes. Each unit writes four zeros behind itself for three
  bytes of start code in the input, so five or more short units run over the checked part, here over the first byte of a reader at 28.
\<close>

definition crowded :: SDataBuffer where
  "crowded = \<lparr>pHead = replicate 64 9, pEnd = 64, pCurPos = 32, iMaxBsBufferSizeInByte = 64\<rparr>"

lemma wrap_overwrites_reader:
  "case scan (\<lambda>c. [28]) (\<lambda>u c. (c, False)) (1 # concat (replicate 6 [0, 0, 1, 1])) False 0 32 crowded () of (e, raw, c) \<Rightarrow>
     e = Finished \<and> pHead crowded ! 28 = 9 \<and> pHead raw ! 28 = 0"
  by code_simp

section \<open>Properties\<close>

lemma raw_ok_init: "raw_ok InitBsBuffer"
  unfolding raw_ok_def InitBsBuffer_def Let_def by (simp only: SDataBuffer.select_convs length_replicate, simp)

text \<open>
  C34. No input makes the decoder leave its raw data buffer. The buffer starts well-formed, and whatever bytes a stream
  has, whatever the rest of the decoder does with the units and which readers it keeps: after the check of the
  buffer, which may enlarge it, no write of the scan is outside the buffer, and the buffer is well-formed for the next stream.
\<close>

theorem decode_never_overruns:
  assumes "raw_ok raw" "CheckBsBuffer (length kpBsBuf) raw = Some raw1"
  shows "raw_ok InitBsBuffer \<and> (case WelsDecodeBs starts unit_of kpBsBuf raw1 c of (e, raw2, c2) \<Rightarrow> e \<noteq> ScanPanic \<and> raw_ok raw2 \<and> pEnd raw2 = pEnd raw1)"
proof -
  note R = CheckBsBuffer_room [OF assms]
  have s: "case scan starts unit_of (drop k kpBsBuf) False 0 p raw3 c of (e, raw2, c2) \<Rightarrow> e \<noteq> ScanPanic \<and> raw_ok raw2 \<and> pEnd raw2 = pEnd raw3"
    if "raw_ok raw3" "p + length kpBsBuf + 4 \<le> pEnd raw3" for k p raw3 using that by (intro scan_safe) simp
  show ?thesis using raw_ok_init R s [of "raw1\<lparr>pCurPos := 0\<rparr>" 0] s [of raw1 "pCurPos raw1"] raw_ok_pos [OF R(1), of 0]
    by (simp add: WelsDecodeBs_def split: option.split)
qed

theorem decode_never_overruns_witness:
  "case WelsDecodeBs (\<lambda>c. [c]) (\<lambda>u c. (c + length u, False)) [0, 0, 1, 0x65, 0, 0, 3, 1, 0, 0, 1] InitBsBuffer (7 :: nat) of (e, raw2, c2) \<Rightarrow> e \<noteq> ScanPanic \<and> raw_ok raw2"
proof -
  have "CheckBsBuffer (length [0, 0, 1, 0x65, 0, 0, 3, 1, 0, 0, 1 :: byte]) InitBsBuffer = Some InitBsBuffer"
    by (simp add: CheckBsBuffer_def InitBsBuffer_def Let_def MAX_ACCESS_UNIT_CAPACITY_def MIN_ACCESS_UNIT_CAPACITY_def MAX_BUFFERED_NUM_def)
  from decode_never_overruns [OF raw_ok_init this, of "\<lambda>c. [c]" "\<lambda>u c. (c + length u, False)" 7] show ?thesis by auto
qed

text \<open>
  C33. The decoder recovers what the encoder wrote, from syntax elements to a stream and back. When the buffers of the encoder
  have room, and its bit buffer less than 2^28 bytes, so that the 32-bit position in bits does not wrap around, writing a sequence of units one after the other, each from a list of syntax elements, succeeds and yields a
  stream. The decoder checks its buffer, finds exactly these units in the stream, with their types and reference values, and a reader
  opened on the payload of each unit yields its syntax elements and then reports the end of the data.
\<close>

theorem stream_roundtrip:
  assumes "xs \<noteq> []" "\<forall>x\<in>set xs. item_ok x" "aligned (sBsWrite w)" "PCurBuf (sBsWrite w) + (\<Sum>(kiType, ref, es)\<leftarrow>xs. rbsp_size es) + 5 \<le> length (PBuf (sBsWrite w))"
    "length (PBuf (sBsWrite w)) < 2 ^ 28" "iNalIndex w + length xs \<le> length (sNalList w)" "(\<Sum>(kiType, ref, es)\<leftarrow>xs. frame_need es) \<le> length frame"
    "length frame \<le> MAX_ACCESS_UNIT_CAPACITY" "raw_ok raw"
  shows "\<exists>bs raw1 raw2 hs. write_units xs w frame = Some bs \<and> CheckBsBuffer (length bs) raw = Some raw1 \<and>
    WelsDecodeBs (\<lambda>c. []) (\<lambda>u c. (c @ [parse_nal_header u], False)) bs raw1 [] = (Finished, raw2, hs) \<and>
    list_all2 (\<lambda>(kiType, ref, es) h. \<exists>p r1 r2. h = Some (ref, of_nat kiType, p) \<and> DecInitBits p 0 (8 * int (length p) - int (BsGetTrailingBits (last p))) r = (Inr (), r1) \<and>
      read_all es r1 = (Inr (map (Pair True) es), r2) \<and> \<not> CheckMoreRBSPData r2) xs hs"
proof -
  obtain us where us: "write_units xs w frame = Some (stream_of us)" "length (stream_of us) \<le> length frame" "\<forall>u\<in>set us. u \<noteq> [] \<and> last u \<noteq> 0"
      "list_all2 (\<lambda>(kiType, ref, es) u. \<exists>p. u = item_head kiType ref # p \<and> holds es p) xs us"
    using write_units [OF assms(2-7)] by blast
  obtain raw1 where raw1: "CheckBsBuffer (length (stream_of us)) raw = Some raw1" using us(2) assms(8) by (cases "CheckBsBuffer (length (stream_of us)) raw") (auto simp: CheckBsBuffer_def split: if_splits)
  note R = CheckBsBuffer_room [OF assms(9) raw1]
  have "us \<noteq> []" using us(4) assms(1) by auto
  then obtain raw2 where d: "WelsDecodeBs (\<lambda>c. []) (\<lambda>u c. (c @ [parse_nal_header u], False)) (stream_of us) raw1 [] = (Finished, raw2, map parse_nal_header us)"
    using WelsDecodeBs_units [OF us(3) _ R(1,2), of "\<lambda>c. []" "\<lambda>u c. (c @ [parse_nal_header u], False)" parse_nal_header "[]"] parse_zero
    by (auto simp: RawDataWrapIsClean_def)
  have "list_all2 (\<lambda>(kiType, ref, es) h. \<exists>p r1 r2. h = Some (ref, of_nat kiType, p) \<and> DecInitBits p 0 (8 * int (length p) - int (BsGetTrailingBits (last p))) r = (Inr (), r1) \<and>
      read_all es r1 = (Inr (map (Pair True) es), r2) \<and> \<not> CheckMoreRBSPData r2) xs (map parse_nal_header us)"
    unfolding list.rel_map
  proof (rule list.rel_mono_strong [OF us(4)], clarify)
    fix kiType ref es u p assume m: "(kiType, ref, es) \<in> set xs" "item_head kiType ref # p \<in> set us" and h: "holds es p"
    have ok: "kiType < 32" "ref < 4" "\<forall>e\<in>set es. elem_ok e" using assms(2) m(1) by (auto simp: item_ok_def)
    have "rbsp_size es \<le> (\<Sum>(kiType, ref, es)\<leftarrow>xs. rbsp_size es)" using m(1) by (intro member_le_sum_list) force+
    then have "rbsp_size es < 2 ^ 28" using assms(4,5) by linarith
    then have short: "length (concat (map elem_bits es)) + 8 < 2 ^ 31" unfolding rbsp_size_def by (simp add: div_less_iff_less_mult)
    have "parse_nal_header (item_head kiType ref # p) = Some (ref, of_nat kiType, p)" using us(3) m(2) by (intro parse_item [OF ok(1,2) refl]) blast
    moreover obtain pad where "buf_bits p = concat (map elem_bits es) @ True # replicate pad False" "pad < 8" using h by (auto simp: holds_def)
    from rbsp_read [OF ok(3) _ _ this short, of p 0 "length p" r]
    have "\<exists>r1 r2. DecInitBits p 0 (8 * int (length p) - int (BsGetTrailingBits (last p))) r = (Inr (), r1) \<and> read_all es r1 = (Inr (map (Pair True) es), r2) \<and> \<not> CheckMoreRBSPData r2"
      by (simp add: slice_def)
    ultimately show "\<exists>p' r1 r2. parse_nal_header (item_head kiType ref # p) = Some (ref, of_nat kiType, p') \<and>
        DecInitBits p' 0 (8 * int (length p') - int (BsGetTrailingBits (last p'))) r = (Inr (), r1) \<and> read_all es r1 = (Inr (map (Pair True) es), r2) \<and> \<not> CheckMoreRBSPData r2"
      by blast
  qed
  then show ?thesis using us(1) raw1 d by blast
qed

definition sample_output :: SWelsEncoderOutput where
  "sample_output = \<lparr>sBsWrite = InitBits (replicate 16 0) 0 16,
     sNalList = replicate 2 \<lparr>ENalUnitType = 0, UiNalRefIdc = 0, iStartPos = 0, iPayloadSize = 0\<rparr>, iNalIndex = 0\<rparr>"

theorem stream_roundtrip_witness:
  "\<exists>bs raw1 raw2 p1 p2. write_units [(7, 3, [Ue 5, Se (-3)]), (8, 3, [Bits 16 0])] sample_output (replicate 32 0) = Some bs \<and> CheckBsBuffer (length bs) InitBsBuffer = Some raw1 \<and>
    WelsDecodeBs (\<lambda>c. []) (\<lambda>u c. (c @ [parse_nal_header u], False)) bs raw1 [] = (Finished, raw2, [Some (3, 7, p1), Some (3, 8, p2)])"
proof -
  let ?xs = "[(7, 3, [Ue 5, Se (-3)]), (8, 3, [Bits 16 0])]"
  have ok: "\<forall>x\<in>set ?xs. item_ok x" by (simp add: item_ok_def elem_ok_def NAL_UNIT_PREFIX_def NAL_UNIT_CODED_SLICE_EXT_def)
  have l: "length (elem_bits (Ue 5)) = 5" "length (elem_bits (Se (-3))) = 5" "length (elem_bits (Bits 16 0)) = 16"
    by (simp_all add: elem_bits_def ue_bits_def ue_length_def se_code_def G_kuiGolombUELength_def)
  have n: "rbsp_size [Ue 5, Se (-3)] = 2" "rbsp_size [Bits 16 0] = 3" "frame_need [Ue 5, Se (-3)] = 10" "frame_need [Bits 16 0] = 12"
    using l by (simp_all add: rbsp_size_def frame_need_def Let_def)
  have w: "aligned (sBsWrite sample_output)" "PCurBuf (sBsWrite sample_output) = 0" "length (PBuf (sBsWrite sample_output)) = 16" "iNalIndex sample_output = 0" "length (sNalList sample_output) = 2"
    by (simp_all add: sample_output_def aligned_def InitBits_def)
  have f: "length (replicate 32 (0 :: byte)) \<le> MAX_ACCESS_UNIT_CAPACITY" by (simp add: MAX_ACCESS_UNIT_CAPACITY_def)
  have r: "PCurBuf (sBsWrite sample_output) + (\<Sum>(kiType, ref, es)\<leftarrow>?xs. rbsp_size es) + 5 \<le> length (PBuf (sBsWrite sample_output))"
    "length (PBuf (sBsWrite sample_output)) < 2 ^ 28" "iNalIndex sample_output + length ?xs \<le> length (sNalList sample_output)"
    "(\<Sum>(kiType, ref, es)\<leftarrow>?xs. frame_need es) \<le> length (replicate 32 (0 :: byte))"
    using w n by simp_all
  from stream_roundtrip [OF _ ok w(1) r f raw_ok_init, of "InitBits [] 0 0"] show ?thesis by (auto simp: list_all2_Cons1)
qed

end
