(* ===== verification/Alist_Maps.thy ===== *)
theory Alist_Maps
  imports Prelude "HOL-Library.AList"
begin

text \<open>
  Association lists as Go maps: updates of new and of known keys, deletion, and filters, in the form in which the gateway
  theories use them.
\<close>

lemma update_fresh: "k \<notin> fst ` set al \<Longrightarrow> AList.update k v al = al @ [(k, v)]"
  by (induction al) auto

lemma update_mem: "(a, x) \<in> set (AList.update k y al) \<Longrightarrow> a = k \<or> (a, x) \<in> set al"
  by (induction al) (auto split: if_splits)

lemma length_update: "length (AList.update k v al) = (if k \<in> fst ` set al then length al else Suc (length al))"
  by (induction al) auto

lemma map_of_filter: "distinct (map fst al) \<Longrightarrow> map_of (filter (\<lambda>(k, v). P v) al) k = (case map_of al k of Some v \<Rightarrow> if P v then Some v else None | None \<Rightarrow> None)"
  by (induction al) (auto split: option.split simp: map_of_eq_None_iff)

lemma alist_split:
  assumes "distinct (map fst al)" "map_of al k = Some v"
  obtains xs ys where "al = xs @ (k, v) # ys" "\<And>w. AList.update k w al = xs @ (k, w) # ys" "AList.delete k al = xs @ ys"
proof -
  have "(k, v) \<in> set al" using map_of_SomeD [OF assms(2)] .
  then obtain xs ys where al: "al = xs @ (k, v) # ys" by (auto dest: split_list)
  then have k: "k \<notin> fst ` set xs" "k \<notin> fst ` set ys" using assms(1) by auto
  have "AList.update k w (xs @ (k, v) # ys) = xs @ (k, w) # ys" for w using k(1) by (induction xs) auto
  moreover have "AList.delete k zs = zs" if "k \<notin> fst ` set zs" for zs :: "('a \<times> 'b) list" using that by (induction zs) auto
  then have "AList.delete k (xs @ (k, v) # ys) = xs @ ys" using k by (simp add: AList.delete_eq)
  ultimately show ?thesis using that [of xs ys] al by simp
qed

end
