(* ===== verification/Gateway_Session.thy ===== *)
theory Gateway_Session
  imports Alist_Maps
begin

text \<open>
  The session store of the gateway, \<^verbatim>\<open>internal/gateway/session.go\<close>: browser sessions, the one-time
  grants that let an RDP client in, and the login throttle. The other places that change the store are steps as well: the
  upload of an image (\<^verbatim>\<open>uploadContext\<close> of \<^verbatim>\<open>admin.go\<close>) and the periodic pruning (\<^verbatim>\<open>server.go\<close>); the shutdown revokes one session after the other. The Go maps are association lists with
  distinct keys. SHA-256 is a parameter \<open>sha\<close> with no assumption on it; the random tokens and the
  times the operations read are arguments. Times are in nanoseconds. A connection lease is a
  number, and \<open>cancelled\<close> holds the leases whose context has been cancelled. The mutex of the store makes
  each operation one step.
\<close>

section \<open>State\<close>

record browserSession =
  owner :: string
  login :: string
  clientIP :: string
  csrf :: string
  passwordHash :: string
  IsAdmin :: bool
  expires :: int
  connections :: "nat list"

record 'k connectGrant =
  g_session :: 'k
  g_vm :: string
  g_expires :: int

record loginWindow =
  w_start :: int
  w_count :: int

record 'k sessionStore =
  sessions :: "('k \<times> browserSession) list"
  grants :: "('k \<times> 'k connectGrant) list"
  attempts :: "(string \<times> loginWindow) list"
  cancelled :: "nat list"
  next_lease :: nat

datatype gw_err = ErrConflict | ErrInvalid | ErrAuthentication | ErrRandom

definition connectWindow :: int where "connectWindow = 120000000000"
definition minute :: int where "minute = 60000000000"

definition newSessionStore :: "'k sessionStore" where
  "newSessionStore = \<lparr>sessions = [], grants = [], attempts = [], cancelled = [], next_lease = 0\<rparr>"

section \<open>Tokens\<close>

definition hex_digit :: "char \<Rightarrow> bool" where
  "hex_digit c \<longleftrightarrow> \<not> ((of_char c < (0x30 :: nat) \<or> of_char c > (0x39 :: nat)) \<and> (of_char c < (0x61 :: nat) \<or> of_char c > (0x66 :: nat)))"

text \<open>A token is the hexadecimal text of 32 random bytes; the random source may fail.\<close>

definition nibble :: "nat \<Rightarrow> char" where
  "nibble n = char_of (if n < 10 then 0x30 + n else 0x57 + n)"

definition hex_encode :: "byte list \<Rightarrow> string" where
  "hex_encode bs = concat (map (\<lambda>b. [nibble (unat b div 16), nibble (unat b mod 16)]) bs)"

definition randomToken :: "byte list option \<Rightarrow> string option" where
  "randomToken random = (case random of None \<Rightarrow> None | Some b \<Rightarrow> Some (hex_encode b))"

definition tokenKey :: "(string \<Rightarrow> 'k) \<Rightarrow> string \<Rightarrow> 'k option" where
  "tokenKey sha raw = (if length raw \<noteq> 64 then None else if \<exists>c\<in>set raw. \<not> hex_digit c then None else Some (sha raw))"

definition minTime :: "int \<Rightarrow> int \<Rightarrow> int" where
  "minTime a b = (if a < b then a else b)"

section \<open>Operations\<close>

definition revokeLocked :: "'k \<Rightarrow> 'k sessionStore \<Rightarrow> 'k sessionStore" where
  "revokeLocked key s =
     (let s1 = (case map_of (sessions s) key of
          Some sess \<Rightarrow> s\<lparr>cancelled := cancelled s @ connections sess, sessions := AList.delete key (sessions s)\<rparr>
        | None \<Rightarrow> s)
      in s1\<lparr>grants := filter (\<lambda>(verifier, grant). g_session grant \<noteq> key) (grants s1)\<rparr>)"

definition revoke :: "'k \<Rightarrow> 'k sessionStore \<Rightarrow> 'k sessionStore" where
  "revoke key s = revokeLocked key s"

definition pruneLocked :: "int \<Rightarrow> 'k sessionStore \<Rightarrow> 'k sessionStore" where
  "pruneLocked now s =
     (let s1 = fold revokeLocked (map fst (filter (\<lambda>(key, sess). \<not> now < expires sess) (sessions s))) s
      in s1\<lparr>grants := filter (\<lambda>(key, grant). now < g_expires grant) (grants s1),
            attempts := filter (\<lambda>(ip, window). now - w_start window < minute) (attempts s1)\<rparr>)"

text \<open>A session starts with two random tokens; its key exists because a random token is hexadecimal (see \<open>token_has_key\<close> below).\<close>

definition newLoginSession ::
  "(string \<Rightarrow> 'k) \<Rightarrow> nat \<Rightarrow> int \<Rightarrow> byte list option \<Rightarrow> byte list option \<Rightarrow> int \<Rightarrow> int \<Rightarrow> string \<times> bool \<Rightarrow> string \<Rightarrow> string \<Rightarrow> string \<Rightarrow>
   'k sessionStore \<Rightarrow> (gw_err + string) \<times> 'k sessionStore" where
  "newLoginSession sha MaxSessions SessionTTL rand1 rand2 now now' identity login_name ip hash s =
     (if login_name = [] \<or> length login_name > 128 \<or> (\<exists>c\<in>set login_name. c \<in> set [CHR 0x0d, CHR 0x0a, CHR 0x00]) then (Inl ErrInvalid, s)
      else case randomToken rand1 of None \<Rightarrow> (Inl ErrRandom, s) | Some raw \<Rightarrow>
      (case randomToken rand2 of None \<Rightarrow> (Inl ErrRandom, s) | Some csrf_token \<Rightarrow>
      (case tokenKey sha raw of None \<Rightarrow> (Inl ErrRandom, s) | Some key \<Rightarrow>
         let s1 = pruneLocked now s
         in if length (sessions s1) \<ge> MaxSessions then (Inl ErrConflict, s1)
            else (Inr raw, s1\<lparr>sessions := AList.update key
              \<lparr>owner = fst identity, login = login_name, clientIP = ip, csrf = csrf_token, passwordHash = hash, IsAdmin = snd identity,
               expires = now' + SessionTTL, connections = []\<rparr> (sessions s1)\<rparr>))))"

definition newIdentitySession ::
  "(string \<Rightarrow> 'k) \<Rightarrow> nat \<Rightarrow> int \<Rightarrow> byte list option \<Rightarrow> byte list option \<Rightarrow> int \<Rightarrow> int \<Rightarrow> string \<times> bool \<Rightarrow> string \<Rightarrow> string \<Rightarrow>
   'k sessionStore \<Rightarrow> (gw_err + string) \<times> 'k sessionStore" where
  "newIdentitySession sha MaxSessions SessionTTL rand1 rand2 now now' identity ip hash s =
     newLoginSession sha MaxSessions SessionTTL rand1 rand2 now now' identity (fst identity) ip hash s"

definition newSession ::
  "(string \<Rightarrow> 'k) \<Rightarrow> nat \<Rightarrow> int \<Rightarrow> byte list option \<Rightarrow> byte list option \<Rightarrow> int \<Rightarrow> int \<Rightarrow> string \<Rightarrow> string \<Rightarrow> string \<Rightarrow>
   'k sessionStore \<Rightarrow> (gw_err + string) \<times> 'k sessionStore" where
  "newSession sha MaxSessions SessionTTL rand1 rand2 now now' owner_name ip hash s =
     newIdentitySession sha MaxSessions SessionTTL rand1 rand2 now now' (owner_name, False) ip hash s"

definition session :: "(string \<Rightarrow> 'k) \<Rightarrow> int \<Rightarrow> string \<Rightarrow> string \<Rightarrow> 'k sessionStore \<Rightarrow> ('k \<times> browserSession) option \<times> 'k sessionStore" where
  "session sha now raw ip s =
     (case tokenKey sha raw of None \<Rightarrow> (None, s) | Some key \<Rightarrow>
        if ip = [] then (None, s)
        else case map_of (sessions s) key of None \<Rightarrow> (None, s) | Some sess \<Rightarrow>
          if clientIP sess \<noteq> ip then (None, s)
          else if \<not> now < expires sess then (None, revokeLocked key s)
          else (Some (key, sess\<lparr>connections := []\<rparr>), s))"

definition allowLogin :: "int \<Rightarrow> string \<Rightarrow> 'k sessionStore \<Rightarrow> bool \<times> 'k sessionStore" where
  "allowLogin now ip s =
     (let s1 = pruneLocked now s; window = map_of (attempts s1) ip
      in if ip = [] \<or> window = None \<and> length (attempts s1) \<ge> 4096 then (False, s1)
         else let w = (case window of Some w \<Rightarrow> w | None \<Rightarrow> \<lparr>w_start = now, w_count = 0\<rparr>);
                  w1 = w\<lparr>w_count := w_count w + 1\<rparr>
              in (w_count w1 \<le> 10, s1\<lparr>attempts := AList.update ip w1 (attempts s1)\<rparr>))"

definition grant :: "(string \<Rightarrow> 'k) \<Rightarrow> byte list option \<Rightarrow> int \<Rightarrow> 'k \<Rightarrow> string \<Rightarrow> 'k sessionStore \<Rightarrow> (gw_err + string) \<times> 'k sessionStore" where
  "grant sha rand now key vm s =
     (case randomToken rand of None \<Rightarrow> (Inl ErrRandom, s) | Some raw \<Rightarrow>
     (case tokenKey sha raw of None \<Rightarrow> (Inl ErrRandom, s) | Some verifier \<Rightarrow>
        let s1 = pruneLocked now s
        in case map_of (sessions s1) key of None \<Rightarrow> (Inl ErrAuthentication, s1) | Some sess \<Rightarrow>
             let s2 = s1\<lparr>grants := filter (\<lambda>(v, g). \<not> (g_session g = key \<and> g_vm g = vm)) (grants s1)\<rparr>;
                 count = length (filter (\<lambda>(v, g). g_session g = key \<and> g_vm g \<noteq> vm) (grants s1))
             in if count \<ge> 32 then (Inl ErrConflict, s2)
                else (Inr raw, s2\<lparr>grants := AList.update verifier
                  \<lparr>g_session = key, g_vm = vm, g_expires = minTime (now + connectWindow) (expires sess)\<rparr> (grants s2)\<rparr>)))"

text \<open>The session a live grant belongs to, for a client at the address of that session.\<close>

definition grant_session :: "'k \<Rightarrow> string \<Rightarrow> 'k sessionStore \<Rightarrow> ('k connectGrant \<times> browserSession) option" where
  "grant_session verifier ip s =
     (case map_of (grants s) verifier of None \<Rightarrow> None | Some g \<Rightarrow>
        case map_of (sessions s) (g_session g) of None \<Rightarrow> None | Some sess \<Rightarrow> if clientIP sess \<noteq> ip then None else Some (g, sess))"

definition pendingGrant :: "(string \<Rightarrow> 'k) \<Rightarrow> int \<Rightarrow> string \<Rightarrow> string \<Rightarrow> 'k sessionStore \<Rightarrow> (nat \<times> string \<times> string) option \<times> 'k sessionStore" where
  "pendingGrant sha now raw ip s =
     (case tokenKey sha raw of None \<Rightarrow> (None, s) | Some verifier \<Rightarrow>
        if ip = [] then (None, s)
        else let s1 = pruneLocked now s
             in case grant_session verifier ip s1 of None \<Rightarrow> (None, s1) | Some (g, sess) \<Rightarrow>
                  let lease = next_lease s1
                  in (Some (lease, owner sess, g_vm g),
                      s1\<lparr>sessions := AList.update (g_session g) (sess\<lparr>connections := connections sess @ [lease]\<rparr>) (sessions s1),
                         next_lease := Suc lease\<rparr>))"

text \<open>The function a pending connection, or an upload, releases its lease with.\<close>

definition release :: "nat \<Rightarrow> 'k sessionStore \<Rightarrow> 'k sessionStore" where
  "release lease s =
     s\<lparr>cancelled := cancelled s @ [lease],
       sessions := map (\<lambda>(key, sess). (key, sess\<lparr>connections := filter (\<lambda>l. l \<noteq> lease) (connections sess)\<rparr>)) (sessions s)\<rparr>"

definition claimGrant :: "(string \<Rightarrow> 'k) \<Rightarrow> int \<Rightarrow> string \<Rightarrow> string \<Rightarrow> 'k sessionStore \<Rightarrow> bool \<times> 'k sessionStore" where
  "claimGrant sha now raw ip s =
     (case tokenKey sha raw of None \<Rightarrow> (False, s) | Some verifier \<Rightarrow>
        if ip = [] then (False, s)
        else let s1 = pruneLocked now s
             in case grant_session verifier ip s1 of None \<Rightarrow> (False, s1)
                | Some _ \<Rightarrow> (True, s1\<lparr>grants := AList.delete verifier (grants s1)\<rparr>))"

text \<open>The upload of an image registers a lease with the session of its administrator.\<close>

definition uploadContext :: "int \<Rightarrow> 'k \<Rightarrow> 'k sessionStore \<Rightarrow> nat option \<times> 'k sessionStore" where
  "uploadContext now key s =
     (let s1 = pruneLocked now s
      in case map_of (sessions s1) key of None \<Rightarrow> (None, s1) | Some sess \<Rightarrow>
           if \<not> IsAdmin sess then (None, s1)
           else let lease = next_lease s1
                in (Some lease,
                    s1\<lparr>sessions := AList.update key (sess\<lparr>connections := connections sess @ [lease]\<rparr>) (sessions s1), next_lease := Suc lease\<rparr>))"

section \<open>Steps\<close>

text \<open>
  Everything that happens to the store, with the random tokens it draws: the tokens are fresh, in that no session
  or grant of the store has the key of a new token.
\<close>

definition fresh_token :: "(string \<Rightarrow> 'k) \<Rightarrow> byte list \<Rightarrow> 'k sessionStore \<Rightarrow> bool" where
  "fresh_token sha b s \<longleftrightarrow> length b = 32 \<and> sha (hex_encode b) \<notin> fst ` set (sessions s) \<and> sha (hex_encode b) \<notin> fst ` set (grants s)"

inductive store_step :: "(string \<Rightarrow> 'k) \<Rightarrow> nat \<Rightarrow> byte list list \<Rightarrow> 'k sessionStore \<Rightarrow> 'k sessionStore \<Rightarrow> bool"
  for sha :: "string \<Rightarrow> 'k" and MaxSessions :: nat where
  login: "newLoginSession sha MaxSessions ttl (Some b) rand2 now now' identity login_name ip hash s = (r, s') \<Longrightarrow> fresh_token sha b s \<Longrightarrow>
     store_step sha MaxSessions [b] s s'"
| session: "session sha now raw ip s = (r, s') \<Longrightarrow> store_step sha MaxSessions [] s s'"
| revoke: "store_step sha MaxSessions [] s (revoke key s)"
| allow: "allowLogin now ip s = (ok, s') \<Longrightarrow> store_step sha MaxSessions [] s s'"
| grant: "grant sha (Some b) now key vm s = (r, s') \<Longrightarrow> fresh_token sha b s \<Longrightarrow> store_step sha MaxSessions [b] s s'"
| pending: "pendingGrant sha now raw ip s = (r, s') \<Longrightarrow> store_step sha MaxSessions [] s s'"
| release: "store_step sha MaxSessions [] s (release lease s)"
| claim: "claimGrant sha now raw ip s = (ok, s') \<Longrightarrow> store_step sha MaxSessions [] s s'"
| upload: "uploadContext now key s = (r, s') \<Longrightarrow> store_step sha MaxSessions [] s s'"
| prune: "store_step sha MaxSessions [] s (pruneLocked now s)"

inductive store_run :: "(string \<Rightarrow> 'k) \<Rightarrow> nat \<Rightarrow> byte list list \<Rightarrow> 'k sessionStore \<Rightarrow> 'k sessionStore \<Rightarrow> bool"
  for sha :: "string \<Rightarrow> 'k" and MaxSessions :: nat where
  run_nil: "store_run sha MaxSessions [] s s"
| run_step: "store_run sha MaxSessions bs s s' \<Longrightarrow> store_step sha MaxSessions cs s' s'' \<Longrightarrow> store_run sha MaxSessions (bs @ cs) s s''"

section \<open>Lemmas\<close>

subsection \<open>Tokens\<close>

lemma hex_digit_nibble: "n < 16 \<Longrightarrow> hex_digit (nibble n)"
  by (auto simp: hex_digit_def nibble_def)

lemma token_has_key: "length b = 32 \<Longrightarrow> tokenKey sha (hex_encode b) = Some (sha (hex_encode b))"
proof -
  assume b: "length b = 32"
  have "length (hex_encode b) = 2 * length b" by (induction b) (simp_all add: hex_encode_def)
  moreover have "\<forall>c\<in>set (hex_encode b). hex_digit c"
  proof -
    have "unat x div 16 < 16" "unat x mod 16 < 16" for x :: byte using unsigned_less [of x, where ?'a = nat] by (simp_all add: less_mult_imp_div_less)
    then show ?thesis by (auto simp: hex_encode_def hex_digit_nibble)
  qed
  ultimately show ?thesis using b by (simp add: tokenKey_def)
qed

subsection \<open>Grants\<close>

definition grants_ok :: "('k \<times> 'k connectGrant) list \<Rightarrow> bool" where
  "grants_ok gs \<longleftrightarrow> distinct (map fst gs) \<and> distinct (map (\<lambda>(v, g). (g_session g, g_vm g)) gs) \<and>
     (\<forall>k. length (filter (\<lambda>(v, g). g_session g = k) gs) \<le> 32)"

lemma length_filter_filter: "length (filter P (filter Q xs)) \<le> length (filter P xs)"
  by (induction xs) simp_all

lemma grants_ok_filter: "grants_ok gs \<Longrightarrow> grants_ok (filter P gs)"
  unfolding grants_ok_def using le_trans [OF length_filter_filter] by (blast intro: distinct_map_filter)

lemma grants_ok_delete: "grants_ok gs \<Longrightarrow> grants_ok (AList.delete k gs)"
  by (simp add: AList.delete_eq grants_ok_filter)

lemma grants_ok_add:
  assumes "grants_ok gs" "v \<notin> fst ` set gs" "\<forall>(w, h)\<in>set gs. \<not> (g_session h = g_session g \<and> g_vm h = g_vm g)"
    "length (filter (\<lambda>(w, h). g_session h = g_session g) gs) < 32"
  shows "grants_ok (AList.update v g gs)"
  using assms by (auto simp: grants_ok_def update_fresh)

subsection \<open>The store\<close>

definition lease_known :: "nat \<Rightarrow> 'k sessionStore \<Rightarrow> bool" where
  "lease_known l s \<longleftrightarrow> l \<in> set (cancelled s) \<or> (\<exists>k sess. map_of (sessions s) k = Some sess \<and> l \<in> set (connections sess))"

definition store_ok :: "nat \<Rightarrow> 'k sessionStore \<Rightarrow> bool" where
  "store_ok MaxSessions s \<longleftrightarrow> distinct (map fst (sessions s)) \<and> length (sessions s) \<le> MaxSessions \<and>
     distinct (map fst (attempts s)) \<and> length (attempts s) \<le> 4096 \<and> grants_ok (grants s) \<and>
     (\<forall>(v, g)\<in>set (grants s). map_of (sessions s) (g_session g) \<noteq> None) \<and> (\<forall>l<next_lease s. lease_known l s)"

lemma store_okD:
  assumes "store_ok M s"
  shows "distinct (map fst (sessions s))" "length (sessions s) \<le> M" "distinct (map fst (attempts s))" "length (attempts s) \<le> 4096"
    "grants_ok (grants s)" "\<And>v g. (v, g) \<in> set (grants s) \<Longrightarrow> map_of (sessions s) (g_session g) \<noteq> None" "\<And>l. l < next_lease s \<Longrightarrow> lease_known l s"
  using assms by (auto simp: store_ok_def)

lemma store_okI:
  assumes "distinct (map fst (sessions s))" "length (sessions s) \<le> M" "distinct (map fst (attempts s))" "length (attempts s) \<le> 4096"
    "grants_ok (grants s)" "\<And>v g. (v, g) \<in> set (grants s) \<Longrightarrow> map_of (sessions s) (g_session g) \<noteq> None" "\<And>l. l < next_lease s \<Longrightarrow> lease_known l s"
  shows "store_ok M s"
proof -
  have "\<forall>(v, g)\<in>set (grants s). map_of (sessions s) (g_session g) \<noteq> None" using assms(6) by blast
  then show ?thesis unfolding store_ok_def by (intro conjI assms(1-5) allI impI) (simp_all add: assms(7))
qed

lemma store_ok_grants:
  assumes "store_ok M s" "grants_ok gs" "set gs \<subseteq> set (grants s)" shows "store_ok M (s\<lparr>grants := gs\<rparr>)"
proof (rule store_okI)
  show "map_of (sessions (s\<lparr>grants := gs\<rparr>)) (g_session g) \<noteq> None" if "(v, g) \<in> set (grants (s\<lparr>grants := gs\<rparr>))" for v g
    using store_okD(6) [OF assms(1), of v g] that assms(3) by auto
  show "lease_known l (s\<lparr>grants := gs\<rparr>)" if "l < next_lease (s\<lparr>grants := gs\<rparr>)" for l using store_okD(7) [OF assms(1), of l] that by (simp add: lease_known_def)
qed (use store_okD [OF assms(1)] assms(2) in simp_all)

lemma store_ok_revoke:
  assumes "store_ok M s" shows "store_ok M (revokeLocked key s)"
proof (cases "map_of (sessions s) key")
  case None
  then show ?thesis using store_ok_grants [OF assms grants_ok_filter [OF store_okD(5) [OF assms]]] by (auto simp: revokeLocked_def)
next
  case (Some sess)
  note ok = store_okD [OF assms]
  let ?s = "revokeLocked key s"
  have s: "sessions ?s = AList.delete key (sessions s)" "cancelled ?s = cancelled s @ connections sess" "attempts ?s = attempts s" "next_lease ?s = next_lease s"
    "grants ?s = filter (\<lambda>(v, g). g_session g \<noteq> key) (grants s)" using Some by (simp_all add: revokeLocked_def Let_def)
  have "lease_known l ?s" if l: "lease_known l s" for l
  proof (cases "l \<in> set (cancelled ?s)")
    case False
    then obtain k sess' where k: "map_of (sessions s) k = Some sess'" "l \<in> set (connections sess')" using l s(2) by (auto simp: lease_known_def)
    then have "k \<noteq> key" using Some False s(2) by auto
    then show ?thesis using k by (auto simp: lease_known_def s AList.delete_conv')
  qed (simp add: lease_known_def)
  then show ?thesis using ok grants_ok_filter [OF ok(5)] length_delete_le [of key "sessions s"]
    by (auto simp: store_ok_def s AList.distinct_delete AList.delete_conv')
qed

lemma store_ok_fold: "store_ok M s \<Longrightarrow> store_ok M (fold revokeLocked ks s)"
  by (induction ks arbitrary: s) (simp_all add: store_ok_revoke)

lemma store_ok_prune:
  assumes "store_ok M s" shows "store_ok M (pruneLocked now s)"
proof -
  define s1 where "s1 = fold revokeLocked (map fst (filter (\<lambda>(key, sess). \<not> now < expires sess) (sessions s))) s"
  have ok: "store_ok M s1" unfolding s1_def by (rule store_ok_fold [OF assms])
  have "store_ok M (s1\<lparr>grants := filter (\<lambda>(key, g). now < g_expires g) (grants s1)\<rparr>)"
    by (rule store_ok_grants [OF ok grants_ok_filter [OF store_okD(5) [OF ok]]]) auto
  then show ?thesis using distinct_map_filter [of fst "attempts s1"] le_trans [OF length_filter_le [of _ "attempts s1"]] store_okD(3,4) [OF ok]
    by (auto simp: pruneLocked_def store_ok_def lease_known_def Let_def simp flip: s1_def)
qed

text \<open>What a step takes away stays away: revoking and pruning only remove.\<close>

lemma revoke_keys: "fst ` set (sessions (revokeLocked k s)) \<subseteq> fst ` set (sessions s)" "set (grants (revokeLocked k s)) \<subseteq> set (grants s)"
  "attempts (revokeLocked k s) = attempts s"
  by (auto simp: revokeLocked_def Let_def AList.delete_eq split: option.split)

lemma fold_keys: "fst ` set (sessions (fold revokeLocked ks s)) \<subseteq> fst ` set (sessions s) \<and> set (grants (fold revokeLocked ks s)) \<subseteq> set (grants s) \<and>
  attempts (fold revokeLocked ks s) = attempts s"
proof (induction ks arbitrary: s)
  case (Cons k ks)
  have "fst ` set (sessions (fold revokeLocked (k # ks) s)) \<subseteq> fst ` set (sessions (revokeLocked k s))"
    "set (grants (fold revokeLocked (k # ks) s)) \<subseteq> set (grants (revokeLocked k s))" "attempts (fold revokeLocked (k # ks) s) = attempts (revokeLocked k s)"
    using Cons.IH [of "revokeLocked k s"] by simp_all
  note ks = this
  show ?case using order_trans [OF ks(1) revoke_keys(1)] order_trans [OF ks(2) revoke_keys(2)] ks(3) revoke_keys(3) [of k s] by metis
qed simp

lemma prune_keys: "fst ` set (sessions (pruneLocked now s)) \<subseteq> fst ` set (sessions s)" "set (grants (pruneLocked now s)) \<subseteq> set (grants s)"
  "attempts (pruneLocked now s) = filter (\<lambda>(ip, w). now - w_start w < minute) (attempts s)"
  using fold_keys [of _ s] by (auto simp: pruneLocked_def Let_def)

subsection \<open>Steps keep the store well-formed\<close>

lemma store_ok_add_session:
  assumes "store_ok M s" "key \<notin> fst ` set (sessions s)" "length (sessions s) < M"
  shows "store_ok M (s\<lparr>sessions := AList.update key sess (sessions s)\<rparr>)"
proof (rule store_okI)
  let ?s = "s\<lparr>sessions := AList.update key sess (sessions s)\<rparr>"
  show "map_of (sessions ?s) (g_session g) \<noteq> None" if "(v, g) \<in> set (grants ?s)" for v g
    using store_okD(6) [OF assms(1), of v g] that by (simp add: AList.update_conv')
  have "map_of (sessions s) key = None" using assms(2) by (simp add: map_of_eq_None_iff)
  then have "map_of (sessions ?s) k = Some x" if "map_of (sessions s) k = Some x" for k x using that by (auto simp: AList.update_conv')
  then show "lease_known l ?s" if "l < next_lease ?s" for l using store_okD(7) [OF assms(1), of l] that unfolding lease_known_def by auto
qed (use store_okD [OF assms(1)] assms in \<open>simp_all add: AList.distinct_update length_update\<close>)

lemma store_ok_lease:
  assumes "store_ok M s" "map_of (sessions s) key = Some sess"
  shows "store_ok M (s\<lparr>sessions := AList.update key (sess\<lparr>connections := connections sess @ [next_lease s]\<rparr>) (sessions s), next_lease := Suc (next_lease s)\<rparr>)"
    (is "store_ok M ?s")
proof (rule store_okI)
  have k: "key \<in> fst ` set (sessions s)" using map_of_SomeD [OF assms(2)] by force
  show "length (sessions ?s) \<le> M" using store_okD(2) [OF assms(1)] k by (simp add: length_update)
  show "map_of (sessions ?s) (g_session g) \<noteq> None" if "(v, g) \<in> set (grants ?s)" for v g
    using store_okD(6) [OF assms(1), of v g] that by (simp add: AList.update_conv')
  show "lease_known l ?s" if "l < next_lease ?s" for l
  proof (cases "l = next_lease s")
    case True
    then show ?thesis by (auto simp: lease_known_def AList.update_conv' intro!: exI [of _ key])
  next
    case False
    then have "lease_known l s" using store_okD(7) [OF assms(1), of l] that by simp
    then show ?thesis
    proof (cases "l \<in> set (cancelled s)")
      case False
      then obtain k x where x: "map_of (sessions s) k = Some x" "l \<in> set (connections x)" using \<open>lease_known l s\<close> by (auto simp: lease_known_def)
      then have "\<exists>y. map_of (sessions ?s) k = Some y \<and> l \<in> set (connections y)" using assms(2) by (auto simp: AList.update_conv')
      then show ?thesis unfolding lease_known_def by blast
    qed (simp add: lease_known_def)
  qed
qed (use store_okD [OF assms(1)] in \<open>simp_all add: AList.distinct_update\<close>)

lemma store_ok_release:
  assumes "store_ok M s" shows "store_ok M (release lease s)"
proof (rule store_okI)
  have m: "map_of (sessions (release lease s)) k = map_option (\<lambda>x. x\<lparr>connections := filter (\<lambda>l. l \<noteq> lease) (connections x)\<rparr>) (map_of (sessions s) k)" for k
    by (simp add: release_def map_of_map)
  have f: "map fst (sessions (release lease s)) = map fst (sessions s)" "length (sessions (release lease s)) = length (sessions s)"
    by (simp_all add: release_def case_prod_beta comp_def)
  show "distinct (map fst (sessions (release lease s)))" "length (sessions (release lease s)) \<le> M" using store_okD(1,2) [OF assms] f by simp_all
  show "map_of (sessions (release lease s)) (g_session g) \<noteq> None" if "(v, g) \<in> set (grants (release lease s))" for v g
    using store_okD(6) [OF assms, of v g] that m [of "g_session g"] by (simp add: release_def)
  show "lease_known l (release lease s)" if "l < next_lease (release lease s)" for l
  proof (cases "l \<in> set (cancelled (release lease s))")
    case False
    then have n: "l \<noteq> lease" "l \<notin> set (cancelled s)" by (auto simp: release_def)
    then obtain k x where "map_of (sessions s) k = Some x" "l \<in> set (connections x)"
      using store_okD(7) [OF assms, of l] \<open>l < next_lease (release lease s)\<close> by (auto simp: lease_known_def release_def)
    then have "\<exists>y. map_of (sessions (release lease s)) k = Some y \<and> l \<in> set (connections y)" using m [of k] n by simp
    then show ?thesis unfolding lease_known_def by blast
  qed (simp add: lease_known_def)
qed (use store_okD [OF assms] in \<open>simp_all add: release_def\<close>)

lemma store_ok_allow:
  assumes "store_ok M s" "allowLogin now ip s = (ok, s')" shows "store_ok M s'"
proof -
  define s1 where "s1 = pruneLocked now s"
  have ok1: "store_ok M s1" unfolding s1_def by (rule store_ok_prune [OF assms(1)])
  have "store_ok M (s1\<lparr>attempts := AList.update ip w (attempts s1)\<rparr>)" if a: "\<not> (map_of (attempts s1) ip = None \<and> length (attempts s1) \<ge> 4096)" for w
  proof (rule store_okI)
    have "ip \<in> fst ` set (attempts s1) \<or> length (attempts s1) < 4096" using a by (auto simp: map_of_eq_None_iff)
    then show "length (attempts (s1\<lparr>attempts := AList.update ip w (attempts s1)\<rparr>)) \<le> 4096" using store_okD(4) [OF ok1] by (auto simp: length_update)
    show "lease_known l (s1\<lparr>attempts := AList.update ip w (attempts s1)\<rparr>)" if "l < next_lease (s1\<lparr>attempts := AList.update ip w (attempts s1)\<rparr>)" for l
      using store_okD(7) [OF ok1, of l] that by (simp add: lease_known_def)
  qed (use store_okD [OF ok1] in \<open>simp_all add: AList.distinct_update\<close>)
  then show ?thesis using assms(2) ok1 by (auto simp: allowLogin_def Let_def simp flip: s1_def split: if_splits)
qed

lemma store_ok_grant:
  assumes "store_ok M s" "grant sha (Some b) now key vm s = (r, s')" "fresh_token sha b s" shows "store_ok M s'"
proof -
  define s1 where "s1 = pruneLocked now s"
  have ok1: "store_ok M s1" unfolding s1_def by (rule store_ok_prune [OF assms(1)])
  let ?v = "sha (hex_encode b)" and ?gs = "filter (\<lambda>(v, g). \<not> (g_session g = key \<and> g_vm g = vm)) (grants s1)"
  have v: "tokenKey sha (hex_encode b) = Some ?v" "?v \<notin> fst ` set (grants s1)"
    using assms(3) prune_keys(2) [of now s] token_has_key [of b sha] unfolding s1_def by (auto simp: fresh_token_def)
  have gs: "grants_ok ?gs" by (rule grants_ok_filter [OF store_okD(5) [OF ok1]])
  have s2: "store_ok M (s1\<lparr>grants := ?gs\<rparr>)" by (rule store_ok_grants [OF ok1 gs]) auto
  show ?thesis
  proof (cases "map_of (sessions s1) key")
    case None
    then have "s' = s1" using assms(2) v(1) by (auto simp: grant_def randomToken_def Let_def simp flip: s1_def)
    then show ?thesis using ok1 by simp
  next
    case (Some sess)
    let ?g = "\<lparr>g_session = key, g_vm = vm, g_expires = minTime (now + connectWindow) (expires sess)\<rparr>"
    let ?count = "length (filter (\<lambda>(v, g). g_session g = key \<and> g_vm g \<noteq> vm) (grants s1))"
    have eq: "grant sha (Some b) now key vm s = (if ?count \<ge> 32 then (Inl ErrConflict, s1\<lparr>grants := ?gs\<rparr>)
        else (Inr (hex_encode b), s1\<lparr>grants := AList.update ?v ?g ?gs\<rparr>))"
      using Some v(1) by (simp add: grant_def randomToken_def Let_def flip: s1_def)
    have "filter (\<lambda>(w, h). g_session h = key) ?gs = filter (\<lambda>(v, g). g_session g = key \<and> g_vm g \<noteq> vm) (grants s1)"
      unfolding filter_filter by (rule filter_cong) auto
    then have "grants_ok (AList.update ?v ?g ?gs)" if "?count < 32" using gs v(2) that by (intro grants_ok_add) auto
    moreover have "store_ok M (s1\<lparr>grants := AList.update ?v ?g ?gs\<rparr>)" if "grants_ok (AList.update ?v ?g ?gs)"
    proof (rule store_okI)
      have "AList.update ?v ?g ?gs = ?gs @ [(?v, ?g)]" using v(2) by (intro update_fresh) auto
      then have u: "set (AList.update ?v ?g ?gs) \<subseteq> insert (?v, ?g) (set (grants s1))" by (simp only:) auto
      show "map_of (sessions (s1\<lparr>grants := AList.update ?v ?g ?gs\<rparr>)) (g_session g) \<noteq> None"
        if "(w, g) \<in> set (grants (s1\<lparr>grants := AList.update ?v ?g ?gs\<rparr>))" for w g
        using that u Some store_okD(6) [OF ok1, of w g] by auto
      show "lease_known l (s1\<lparr>grants := AList.update ?v ?g ?gs\<rparr>)" if "l < next_lease (s1\<lparr>grants := AList.update ?v ?g ?gs\<rparr>)" for l
        using store_okD(7) [OF ok1, of l] that by (simp add: lease_known_def)
    qed (use store_okD [OF ok1] that in simp_all)
    ultimately show ?thesis using s2 assms(2) eq by (auto split: if_splits)
  qed
qed

lemma store_ok_step: "store_step sha M bs s s' \<Longrightarrow> store_ok M s \<Longrightarrow> store_ok M s'"
proof (induction rule: store_step.induct)
  case (login ttl b rand2 now now' identity login_name ip hash s r s')
  let ?s = "pruneLocked now s"
  have ok: "store_ok M ?s" by (rule store_ok_prune [OF login.prems])
  have "sha (hex_encode b) \<notin> fst ` set (sessions ?s)" using login.hyps(2) prune_keys(1) [of now s] by (auto simp: fresh_token_def)
  then show ?case using login ok store_ok_add_session [OF ok, of "sha (hex_encode b)"] token_has_key [of b sha]
    by (auto simp: newLoginSession_def randomToken_def fresh_token_def Let_def split: if_splits option.splits)
next
  case (session now raw ip s r s')
  then show ?case using store_ok_revoke [OF session.prems] by (auto simp: session_def split: option.splits if_splits)
next
  case (revoke s key)
  then show ?case by (simp add: revoke_def store_ok_revoke)
next
  case (allow now ip s ok s')
  then show ?case using store_ok_allow by blast
next
  case (grant b now key vm s r s')
  show ?case by (rule store_ok_grant [OF grant.prems grant.hyps])
next
  case (pending now raw ip s r s')
  have ok: "store_ok M (pruneLocked now s)" by (rule store_ok_prune [OF pending.prems])
  then show ?case using pending store_ok_lease [OF ok]
    by (auto simp: pendingGrant_def grant_session_def Let_def split: option.splits if_splits)
next
  case (release s lease)
  then show ?case by (simp add: store_ok_release)
next
  case (claim now raw ip s ok s')
  have ok: "store_ok M (pruneLocked now s)" by (rule store_ok_prune [OF claim.prems])
  have "set (AList.delete v (grants (pruneLocked now s))) \<subseteq> set (grants (pruneLocked now s))" for v by (auto simp: AList.delete_eq)
  then show ?case using claim ok store_ok_grants [OF ok grants_ok_delete [OF store_okD(5) [OF ok]]]
    by (auto simp: claimGrant_def Let_def split: option.splits if_splits)
next
  case (upload now key s r s')
  have ok: "store_ok M (pruneLocked now s)" by (rule store_ok_prune [OF upload.prems])
  then show ?case using upload.hyps store_ok_lease [OF ok] by (auto simp: uploadContext_def Let_def split: option.splits if_splits)
next
  case (prune s now)
  then show ?case by (simp add: store_ok_prune)
qed

lemma store_ok_run: "store_run sha M bs s s' \<Longrightarrow> store_ok M s \<Longrightarrow> store_ok M s'"
  by (induction rule: store_run.induct) (auto intro: store_ok_step)

lemma store_ok_new: "store_ok M newSessionStore"
  by (simp add: store_ok_def newSessionStore_def grants_ok_def)

subsection \<open>Spent grants\<close>

lemma step_keeps_spent:
  assumes "store_step sha M bs s s'" "v \<notin> fst ` set (grants s)" "\<forall>b\<in>set bs. sha (hex_encode b) \<noteq> v"
  shows "v \<notin> fst ` set (grants s')"
proof -
  have p: "v \<notin> fst ` set (grants (pruneLocked now s))" for now using prune_keys(2) [of now s] assms(2) by blast
  have r: "v \<notin> fst ` set (grants (revokeLocked k s))" for k using revoke_keys(2) [of k s] assms(2) by blast
  from assms(1) show ?thesis
  proof cases
    case (login ttl b rand2 now now' identity login_name ip hash r)
    then show ?thesis using p [of now] assms(2) by (auto simp: newLoginSession_def Let_def split: if_splits option.splits)
  next
    case (session now raw ip r)
    then show ?thesis using r assms(2) by (auto simp: session_def split: if_splits option.splits)
  next
    case (revoke key)
    then show ?thesis using r by (simp add: revoke_def)
  next
    case (allow now ip ok)
    then show ?thesis using p [of now] by (auto simp: allowLogin_def Let_def split: if_splits)
  next
    case (grant b now key vm r)
    then have "tokenKey sha (hex_encode b) = Some (sha (hex_encode b))" "sha (hex_encode b) \<noteq> v"
      using token_has_key [of b sha] assms(3) by (auto simp: fresh_token_def)
    note key = this
    let ?gs = "grants (pruneLocked now s)"
    have "set (grants s') \<subseteq> {(a, x). a = sha (hex_encode b) \<or> (a, x) \<in> set ?gs}"
      using grant(2) key(1) by (auto simp: grant_def randomToken_def Let_def dest!: update_mem split: if_splits option.splits)
    then show ?thesis using p [of now] key(2) by force
  next
    case (pending now raw ip r)
    then show ?thesis using p [of now] assms(2) by (auto simp: pendingGrant_def Let_def split: if_splits option.splits)
  next
    case (release lease)
    then show ?thesis using assms(2) by (simp add: release_def)
  next
    case (claim now raw ip ok)
    have "set (grants s') \<subseteq> set (grants (pruneLocked now s)) \<union> set (grants s)"
      using claim(2) by (auto simp: claimGrant_def Let_def AList.delete_eq split: if_splits option.splits)
    then show ?thesis using p [of now] assms(2) by blast
  next
    case (upload now key r)
    then show ?thesis using p [of now] by (auto simp: uploadContext_def Let_def split: if_splits option.splits)
  next
    case (prune now)
    then show ?thesis using p [of now] by simp
  qed
qed

lemma run_tokens: "store_run sha M bs s s' \<Longrightarrow> \<forall>b\<in>set bs. length b = 32"
  by (induction rule: store_run.induct) (auto elim!: store_step.cases simp: fresh_token_def)

lemma run_keeps_spent:
  assumes "store_run sha M bs s s'" "v \<notin> fst ` set (grants s)" "\<forall>b\<in>set bs. sha (hex_encode b) \<noteq> v"
  shows "v \<notin> fst ` set (grants s')"
  using assms by (induction rule: store_run.induct) (auto dest: step_keeps_spent)

lemma no_grant: "v \<notin> fst ` set (grants s) \<Longrightarrow> grant_session v ip (pruneLocked now s) = None"
proof -
  assume "v \<notin> fst ` set (grants s)"
  then have "v \<notin> fst ` set (grants (pruneLocked now s))" using prune_keys(2) [of now s] by blast
  then show ?thesis by (simp add: grant_session_def map_of_eq_None_iff [THEN iffD2])
qed

subsection \<open>Throttling\<close>

text \<open>
  What happens to the windows of the throttle, with its time: a login attempt from an address, or the pruning that any other
  operation of the store starts with. The windows change in no other way (\<open>step_attempts\<close>), and nothing else decides an attempt.
\<close>

definition throttle_event :: "int \<times> string option \<Rightarrow> 'k sessionStore \<Rightarrow> bool \<times> 'k sessionStore" where
  "throttle_event e s = (case e of (now, Some ip) \<Rightarrow> allowLogin now ip s | (now, None) \<Rightarrow> (False, pruneLocked now s))"

text \<open>The number of attempts from one address that are allowed.\<close>

fun allowed :: "string \<Rightarrow> (int \<times> string option) list \<Rightarrow> 'k sessionStore \<Rightarrow> nat" where
  "allowed ip [] s = 0"
| "allowed ip (e # es) s = (case throttle_event e s of (ok, s1) \<Rightarrow> (if ok \<and> snd e = Some ip then 1 else 0) + allowed ip es s1)"

lemma step_attempts:
  assumes "store_step sha M bs s s'"
  shows "attempts s' = attempts s \<or> (\<exists>e. attempts s' = attempts (snd (throttle_event e s)))"
proof -
  have p: "\<exists>e. attempts (pruneLocked now s) = attempts (snd (throttle_event e s))" for now by (intro exI [of _ "(now, None)"]) (simp add: throttle_event_def)
  from assms show ?thesis
  proof cases
    case (allow now ip ok)
    then show ?thesis by (intro disjI2 exI [of _ "(now, Some ip)"]) (simp add: throttle_event_def)
  qed (use p revoke_keys(3) [of _ s] in \<open>auto simp: newLoginSession_def session_def grant_def pendingGrant_def claimGrant_def uploadContext_def release_def revoke_def Let_def
    split: if_splits option.splits\<close>)
qed

text \<open>A window counts the attempt that opened it.\<close>

definition windows_ok :: "'k sessionStore \<Rightarrow> bool" where
  "windows_ok s \<longleftrightarrow> (\<forall>ip w. map_of (attempts s) ip = Some w \<longrightarrow> 1 \<le> w_count w)"

definition live :: "int \<Rightarrow> loginWindow option \<Rightarrow> loginWindow option" where
  "live now w = (case w of Some w \<Rightarrow> if now - w_start w < minute then Some w else None | None \<Rightarrow> None)"

lemma prune_attempts:
  assumes "distinct (map fst (attempts s))"
  shows "map_of (attempts (pruneLocked now s)) ip = live now (map_of (attempts s) ip)" "distinct (map fst (attempts (pruneLocked now s)))"
  using map_of_filter [OF assms, of "\<lambda>w. now - w_start w < minute" ip] distinct_map_filter [OF assms]
  by (simp_all add: prune_keys(3) live_def split: option.split)

lemma event_attempts:
  assumes "distinct (map fst (attempts s))" "throttle_event e s = (ok, s')"
  shows "distinct (map fst (attempts s'))" "snd e \<noteq> Some ip \<Longrightarrow> map_of (attempts s') ip = live (fst e) (map_of (attempts s) ip)"
  using assms prune_attempts [OF assms(1)]
  by (auto simp: throttle_event_def allowLogin_def Let_def AList.distinct_update AList.update_conv' split: if_splits prod.splits option.splits)

text \<open>An attempt from an address with a live window and from one without.\<close>

lemma event_known:
  assumes "distinct (map fst (attempts s))" "live now (map_of (attempts s) ip) = Some w" "ip \<noteq> []" "throttle_event (now, Some ip) s = (ok, s')"
  shows "ok \<longleftrightarrow> w_count w + 1 \<le> 10" "map_of (attempts s') ip = Some (w\<lparr>w_count := w_count w + 1\<rparr>)"
  using assms prune_attempts(1) [OF assms(1), of now ip] by (auto simp: throttle_event_def allowLogin_def Let_def AList.update_conv')

lemma event_first:
  assumes "distinct (map fst (attempts s))" "live now (map_of (attempts s) ip) = None" "throttle_event (now, Some ip) s = (ok, s')"
  shows "\<not> ok \<and> map_of (attempts s') ip = None \<or> map_of (attempts s') ip = Some \<lparr>w_start = now, w_count = 1\<rparr>"
  using assms prune_attempts(1) [OF assms(1), of now ip] by (auto simp: throttle_event_def allowLogin_def Let_def AList.update_conv' split: if_splits)

lemma windows_ok_event:
  assumes "distinct (map fst (attempts s))" "windows_ok s" shows "windows_ok (snd (throttle_event e s))"
proof -
  obtain now i where e: "e = (now, i)" by (cases e)
  obtain ok s' where s': "throttle_event e s = (ok, s')" by (cases "throttle_event e s")
  have l: "1 \<le> w_count w" if "live now (map_of (attempts s) ip) = Some w" for ip w
    using that assms(2) by (auto simp: live_def windows_ok_def split: option.splits if_splits)
  have "1 \<le> w_count w" if m: "map_of (attempts s') ip = Some w" for ip w
  proof (cases "i = Some ip")
    case False
    then show ?thesis using event_attempts(2) [OF assms(1) s', of ip] m l by (simp add: e)
  next
    case True
    then show ?thesis using s' m l [of ip] prune_attempts(1) [OF assms(1), of now ip]
      by (fastforce simp: e throttle_event_def allowLogin_def Let_def AList.update_conv' split: if_splits option.splits)
  qed
  then show ?thesis by (simp add: s' windows_ok_def)
qed

lemma windows_ok_run: "store_run sha M bs s s' \<Longrightarrow> store_ok M s \<Longrightarrow> windows_ok s \<Longrightarrow> windows_ok s'"
proof (induction rule: store_run.induct)
  case (run_step bs s s' cs s'')
  then have s': "windows_ok s'" "distinct (map fst (attempts s'))" using store_okD(3) [OF store_ok_run [OF run_step.hyps(1)]] by simp_all
  then show ?case using step_attempts [OF run_step.hyps(2)] windows_ok_event [OF s'(2,1)] unfolding windows_ok_def by auto
qed

lemma allowed_empty: "allowed [] es s = 0"
  by (induction es arbitrary: s) (auto simp: throttle_event_def allowLogin_def Let_def split: prod.split option.split)

text \<open>In an interval of a minute from \<open>t0\<close> on, a window that starts in it stays for the rest of it.\<close>

lemma allowed_known:
  assumes "distinct (map fst (attempts s))" "map_of (attempts s) ip = Some w" "t0 \<le> w_start w" "\<forall>e\<in>set es. t0 \<le> fst e \<and> fst e < t0 + minute" "ip \<noteq> []"
  shows "allowed ip es s \<le> nat (10 - w_count w)"
  using assms
proof (induction es arbitrary: s w)
  case (Cons e es)
  obtain now i where e: "e = (now, i)" by (cases e)
  obtain ok s1 where a: "throttle_event e s = (ok, s1)" by (cases "throttle_event e s")
  have l: "live now (map_of (attempts s) ip) = Some w" using Cons.prems(2,3,4) e by (auto simp: live_def)
  have d: "distinct (map fst (attempts s1))" by (rule event_attempts(1) [OF Cons.prems(1) a])
  show ?case
  proof (cases "i = Some ip")
    case True
    note k = event_known [OF Cons.prems(1) l Cons.prems(5) a [unfolded e True]]
    have "allowed ip es s1 \<le> nat (10 - (w_count w + 1))" using Cons.IH [OF d k(2)] Cons.prems(3-5) by simp
    then show ?thesis using k(1) a by (auto simp: e True)
  next
    case False
    then have "map_of (attempts s1) ip = Some w" using event_attempts(2) [OF Cons.prems(1) a, of ip] l by (simp add: e)
    then show ?thesis using Cons.IH [OF d] Cons.prems(3-5) False by (simp add: e a [unfolded e])
  qed
qed simp

lemma allowed_new:
  assumes "distinct (map fst (attempts s))" "\<forall>e\<in>set (take 1 es). live (fst e) (map_of (attempts s) ip) = None" "\<forall>e\<in>set es. t0 \<le> fst e \<and> fst e < t0 + minute" "ip \<noteq> []"
  shows "allowed ip es s \<le> 10"
  using assms
proof (induction es arbitrary: s)
  case (Cons e es)
  obtain now i where e: "e = (now, i)" by (cases e)
  obtain ok s1 where a: "throttle_event e s = (ok, s1)" by (cases "throttle_event e s")
  have l: "live now (map_of (attempts s) ip) = None" using Cons.prems(2) by (simp add: e)
  have later: "\<forall>e\<in>set (take 1 es). live (fst e) None = None" by (simp add: live_def)
  have d: "distinct (map fst (attempts s1))" by (rule event_attempts(1) [OF Cons.prems(1) a])
  have es: "\<forall>e\<in>set es. t0 \<le> fst e \<and> fst e < t0 + minute" "t0 \<le> now" using Cons.prems(3) e by auto
  show ?case
  proof (cases "i = Some ip")
    case True
    from event_first [OF Cons.prems(1) l a [unfolded e True]] show ?thesis
    proof
      assume "\<not> ok \<and> map_of (attempts s1) ip = None"
      then show ?thesis using Cons.IH [OF d _ es(1) Cons.prems(4)] later by (simp add: a)
    next
      assume "map_of (attempts s1) ip = Some \<lparr>w_start = now, w_count = 1\<rparr>"
      then have "allowed ip es s1 \<le> 9" using allowed_known [OF d _ _ es(1) Cons.prems(4)] es(2) by fastforce
      then show ?thesis by (simp add: a)
    qed
  next
    case False
    then have "map_of (attempts s1) ip = None" using event_attempts(2) [OF Cons.prems(1) a, of ip] l by (simp add: e)
    then show ?thesis using Cons.IH [OF d _ es(1) Cons.prems(4)] later False by (simp add: e a [unfolded e])
  qed
qed simp

text \<open>A window that started before the interval may end in it and be followed by one more.\<close>

lemma allowed_old:
  assumes "distinct (map fst (attempts s))" "map_of (attempts s) ip = Some w" "\<forall>e\<in>set es. t0 \<le> fst e \<and> fst e < t0 + minute" "ip \<noteq> []"
  shows "allowed ip es s \<le> nat (10 - w_count w) + 10"
  using assms
proof (induction es arbitrary: s w)
  case (Cons e es)
  obtain now i where e: "e = (now, i)" by (cases e)
  obtain ok s1 where a: "throttle_event e s = (ok, s1)" by (cases "throttle_event e s")
  have d: "distinct (map fst (attempts s1))" by (rule event_attempts(1) [OF Cons.prems(1) a])
  have es: "\<forall>e\<in>set es. t0 \<le> fst e \<and> fst e < t0 + minute" "t0 \<le> now" using Cons.prems(3) e by auto
  show ?case
  proof (cases "live now (map_of (attempts s) ip)")
    case None
    then have "allowed ip (e # es) s \<le> 10" using Cons.prems by (intro allowed_new) (simp_all add: e)
    then show ?thesis by simp
  next
    case (Some w')
    then have l: "live now (map_of (attempts s) ip) = Some w" using Cons.prems(2) by (auto simp: live_def split: if_splits)
    show ?thesis
    proof (cases "i = Some ip")
      case True
      note k = event_known [OF Cons.prems(1) l Cons.prems(4) a [unfolded e True]]
      have "allowed ip es s1 \<le> nat (10 - (w_count w + 1)) + 10" using Cons.IH [OF d k(2) es(1) Cons.prems(4)] by simp
      then show ?thesis using k(1) a by (auto simp: e True)
    next
      case False
      then have "map_of (attempts s1) ip = Some w" using event_attempts(2) [OF Cons.prems(1) a, of ip] l by (simp add: e)
      then show ?thesis using Cons.IH [OF d _ es(1) Cons.prems(4)] False by (simp add: e a [unfolded e])
    qed
  qed
qed simp

section \<open>Properties\<close>

text \<open>C36. A grant opens one desktop: once a token has been claimed, no later sequence of logins, grants, claims and revocations makes that token valid again, unless the random source repeats it. Neither a claim nor a pending lookup with the token succeeds, from any address and at any time.\<close>

theorem grant_single_use:
  assumes "claimGrant sha now raw ip s = (True, s1)" "store_run sha M bs s1 s2" "\<forall>b\<in>set bs. tokenKey sha (hex_encode b) \<noteq> tokenKey sha raw"
  shows "\<not> fst (claimGrant sha now' raw ip' s2) \<and> fst (pendingGrant sha now' raw ip' s2) = None"
proof -
  obtain v where v: "tokenKey sha raw = Some v" using assms(1) by (auto simp: claimGrant_def split: option.splits)
  have "v \<notin> fst ` set (grants s1)" using assms(1) v by (auto simp: claimGrant_def Let_def AList.delete_eq split: if_splits option.splits)
  moreover have "\<forall>b\<in>set bs. sha (hex_encode b) \<noteq> v" using assms(3) run_tokens [OF assms(2)] v token_has_key [of _ sha] by auto
  ultimately have "v \<notin> fst ` set (grants s2)" using run_keeps_spent [OF assms(2)] by blast
  then show ?thesis using v no_grant [of v s2 ip' now'] by (simp add: claimGrant_def pendingGrant_def Let_def)
qed

definition sample_token :: string where "sample_token = replicate 64 CHR ''a''"

definition sample_store :: "string sessionStore" where
  "sample_store = \<lparr>sessions = [(''k'', \<lparr>owner = ''ann'', login = ''ann'', clientIP = ''10.0.0.1'', csrf = [], passwordHash = [], IsAdmin = False,
     expires = 1000, connections = []\<rparr>)], grants = [(sample_token, \<lparr>g_session = ''k'', g_vm = ''vm'', g_expires = 500\<rparr>)],
     attempts = [], cancelled = [], next_lease = 0\<rparr>"

theorem grant_single_use_witness:
  "fst (claimGrant (\<lambda>x. x) 10 sample_token ''10.0.0.1'' sample_store) \<and>
   \<not> fst (claimGrant (\<lambda>x. x) 20 sample_token ''10.0.0.1'' (revoke ''k'' (snd (claimGrant (\<lambda>x. x) 10 sample_token ''10.0.0.1'' sample_store))))"
proof -
  have c: "fst (claimGrant (\<lambda>x. x) 10 sample_token ''10.0.0.1'' sample_store)"
    by (simp add: claimGrant_def tokenKey_def sample_token_def hex_digit_def pruneLocked_def grant_session_def sample_store_def Let_def)
  define s1 where "s1 = snd (claimGrant (\<lambda>x. x) 10 sample_token ''10.0.0.1'' sample_store)"
  have "claimGrant (\<lambda>x. x) 10 sample_token ''10.0.0.1'' sample_store = (True, s1)" using c by (simp add: s1_def prod_eq_iff)
  moreover have "store_run (\<lambda>x. x) 8 ([] @ []) s1 (revoke ''k'' s1)" by (rule run_step [OF run_nil store_step.revoke])
  ultimately show ?thesis using c grant_single_use [of "\<lambda>x. x" 10 sample_token "''10.0.0.1''" sample_store s1 8 "[] @ []" "revoke ''k'' s1" 20 "''10.0.0.1''"]
    by (simp add: s1_def)
qed

text \<open>C37. The store stays well-formed and bounded: in every state reached from the empty store, keys are distinct, there are at most the configured number of sessions, 4096 throttled addresses and 32 grants for a session, one for each desktop; every grant belongs to a session of the store; and every connection that was let in has been cancelled or is still registered with a session of the store, so that ending the session ends it.\<close>

theorem session_store_wellformed:
  assumes "store_run sha M bs newSessionStore s"
  shows "store_ok M s"
  by (rule store_ok_run [OF assms store_ok_new])

theorem session_store_wellformed_witness: "store_ok 4 (snd (allowLogin 5 ''10.0.0.1'' (newSessionStore :: string sessionStore)))"
proof -
  have "store_step (\<lambda>x. x) 4 [] newSessionStore (snd (allowLogin 5 ''10.0.0.1'' (newSessionStore :: string sessionStore)))"
    by (rule store_step.allow [where now = 5 and ip = "''10.0.0.1''" and ok = "fst (allowLogin 5 ''10.0.0.1'' (newSessionStore :: string sessionStore))"]) simp
  from session_store_wellformed [OF run_step [OF run_nil this]] show ?thesis .
qed

text \<open>C38. Password guessing is throttled. Of the login attempts from one address that fall within any interval of a minute, however many there are and however they are mixed with attempts from other addresses and with the pruning of the other operations, at most nineteen are allowed, in every state the store can reach. At most ten are allowed when the address has no live window at the beginning of the interval, one younger than a minute. The windows are fixed ones: ten attempts up to the end of one window and ten in the next one are in the same minute but for the first, so nineteen is reached, and the limit of ten attempts for each minute that the documentation names is not kept.\<close>

theorem login_throttle:
  assumes "store_run sha M bs newSessionStore s" "\<forall>e\<in>set es. t0 \<le> fst e \<and> fst e < t0 + minute"
  shows "allowed ip es s \<le> 19 \<and> (live t0 (map_of (attempts s) ip) = None \<longrightarrow> allowed ip es s \<le> 10)"
proof (cases "ip = []")
  case False
  have d: "distinct (map fst (attempts s))" by (rule store_okD(3) [OF store_ok_run [OF assms(1) store_ok_new]])
  have "windows_ok s" by (rule windows_ok_run [OF assms(1) store_ok_new]) (simp add: windows_ok_def newSessionStore_def)
  then have old: "allowed ip es s \<le> 19" if "map_of (attempts s) ip = Some w" for w
    using allowed_old [OF d that assms(2) False] that by (fastforce simp: windows_ok_def)
  have "live (fst e) w = None" if "live t0 w = None" "e \<in> set es" for e w
    using that assms(2) by (fastforce simp: live_def split: option.splits if_splits)
  then have "allowed ip es s \<le> 10" if "live t0 (map_of (attempts s) ip) = None"
    using allowed_new [OF d _ assms(2) False] that in_set_takeD [of _ 1 es] by blast
  then show ?thesis using old by (cases "map_of (attempts s) ip") (fastforce simp: live_def)+
qed (simp add: allowed_empty)

text \<open>An attempt at 5, nine more just before the minute is over and twelve just after it: nineteen of the later ones are allowed, within two nanoseconds.\<close>

definition late_attempts :: "(int \<times> string option) list" where
  "late_attempts = replicate 9 (minute + 4, Some ''a'') @ replicate 12 (minute + 5, Some ''a'')"

theorem login_throttle_witness:
  "allowed ''a'' late_attempts (snd (allowLogin 5 ''a'' (newSessionStore :: string sessionStore))) \<le> 19 \<and>
   allowed ''a'' late_attempts (snd (allowLogin 5 ''a'' (newSessionStore :: string sessionStore))) = 19"
proof -
  let ?s = "snd (allowLogin 5 ''a'' (newSessionStore :: string sessionStore))"
  have "store_step (\<lambda>x. x) 4 [] newSessionStore ?s"
    by (rule store_step.allow [where now = 5 and ip = "''a''" and ok = "fst (allowLogin 5 ''a'' (newSessionStore :: string sessionStore))"]) simp
  note run = run_step [OF run_nil this]
  have "\<forall>e\<in>set late_attempts. minute \<le> fst e \<and> fst e < minute + minute" by (simp add: late_attempts_def minute_def)
  from login_throttle [OF run this, of "''a''"] have "allowed ''a'' late_attempts ?s \<le> 19" by blast
  moreover have "allowed ''a'' late_attempts ?s = 19" by code_simp
  ultimately show ?thesis by blast
qed

end
