(* ===== verification/Gateway_Admission.thy ===== *)
theory Gateway_Admission
  imports Alist_Maps Complex_Main
begin

text \<open>
  The admission of connections to the gateway, \<^verbatim>\<open>internal/gateway/admission.go\<close>: the limits on pending
  and authenticated connections, in total and per source network, and the token buckets of the connection rates.
  The Go maps are association lists with distinct keys; a connection is a number, and is a member of \<open>conns\<close> from
  its admission until its close has run. The bucket arithmetic of \<^verbatim>\<open>float64\<close> is a record of operations, on which
  nothing is assumed: the properties hold for every rounding. Times are in nanoseconds, and the zero time is \<open>None\<close>.
  What runs under the lock of the server is one step; \<^verbatim>\<open>Close\<close> takes two, so that other steps can come in between.
\<close>

unbundle bit_operations_syntax

section \<open>State\<close>

record 'f float_ops =
  f_int :: "int \<Rightarrow> 'f"
  f_seconds :: "int \<Rightarrow> 'f"
  f_add :: "'f \<Rightarrow> 'f \<Rightarrow> 'f"
  f_sub :: "'f \<Rightarrow> 'f \<Rightarrow> 'f"
  f_mul :: "'f \<Rightarrow> 'f \<Rightarrow> 'f"
  f_min :: "'f \<Rightarrow> 'f \<Rightarrow> 'f"
  f_max :: "'f \<Rightarrow> 'f \<Rightarrow> 'f"
  f_le :: "'f \<Rightarrow> 'f \<Rightarrow> bool"

datatype netip_Addr = V4 u32 | V6 "128 word" string

record 'f connectionBucket =
  tokens :: 'f
  last_time :: "int option"

record 'f connectionPeer =
  p_pending :: int
  p_total :: int
  lastSeen :: int
  bucket :: "'f connectionBucket"

record trackedConn =
  c_ip :: netip_Addr
  c_cancelled :: bool
  c_deadline :: int
  c_authenticated :: bool
  c_expired :: bool

record 'f Server =
  pending :: int
  authenticated :: int
  peers :: "(netip_Addr \<times> 'f connectionPeer) list"
  global :: "'f connectionBucket"
  nextPrune :: "int option"
  conns :: "(nat \<times> trackedConn) list"
  next_conn :: nat
  draining :: bool
  ctx_cancelled :: bool

record Config =
  MaxHandshakes :: int
  MaxConnectionsPerIP :: int
  MaxHandshakesPerIP :: int
  ConnectionRateLimit :: int
  ConnectionRateLimitPerIP :: int
  HandshakeTimeout :: int
  MaxConnections :: int

definition maxAdmissionPeers :: nat where "maxAdmissionPeers = 4096"
definition second :: int where "second = 1000000000"
definition admissionPeerTTL :: int where "admissionPeerTTL = 60 * second"

section \<open>Operations\<close>

definition bucket_available :: "'f float_ops \<Rightarrow> int \<Rightarrow> int \<Rightarrow> 'f connectionBucket \<Rightarrow> bool \<times> 'f connectionBucket" where
  "bucket_available F now rate b =
     (let t = (case last_time b of None \<Rightarrow> f_int F rate
         | Some l \<Rightarrow> f_min F (f_int F rate) (f_add F (tokens b) (f_mul F (f_max F (f_int F 0) (f_seconds F (now - l))) (f_int F rate))))
      in (f_le F (f_int F 1) t, \<lparr>tokens = t, last_time = Some now\<rparr>))"

definition check_limit :: "int \<Rightarrow> int \<Rightarrow> int \<Rightarrow> int option" where
  "check_limit value fallback m = (let v = (if value = 0 then fallback else value) in if v < 1 \<or> v > m then None else Some v)"

definition validateConnectionConfig :: "Config \<Rightarrow> Config option" where
  "validateConnectionConfig c =
     Option.bind (check_limit (MaxHandshakes c) 64 4096) (\<lambda>hs.
     Option.bind (check_limit (MaxConnectionsPerIP c) 32 4096) (\<lambda>cip.
     Option.bind (check_limit (MaxHandshakesPerIP c) 8 4096) (\<lambda>hip.
     Option.bind (check_limit (ConnectionRateLimit c) 128 100000) (\<lambda>r.
     Option.bind (check_limit (ConnectionRateLimitPerIP c) 8 100000) (\<lambda>rip.
       let t = (if HandshakeTimeout c = 0 then 10 * second else HandshakeTimeout c)
       in if t < second \<or> t > 60 * second then None
          else Some (c\<lparr>MaxHandshakes := hs, MaxConnectionsPerIP := cip, MaxHandshakesPerIP := hip, ConnectionRateLimit := r,
            ConnectionRateLimitPerIP := rip, HandshakeTimeout := t\<rparr>))))))"

text \<open>The address of a peer as \<^verbatim>\<open>netip.ParseAddrPort\<close> gives it: IPv4-mapped addresses unmapped, IPv6 cut to /64.\<close>

definition admissionIP :: "netip_Addr option \<Rightarrow> netip_Addr option" where
  "admissionIP peer =
     (case peer of None \<Rightarrow> None
      | Some (V4 a) \<Rightarrow> Some (V4 a)
      | Some (V6 a zone) \<Rightarrow>
          if drop_bit 32 a = 0xffff then Some (V4 (ucast a)) else Some (V6 (push_bit 64 (drop_bit 64 a)) []))"

definition pruneAdmissionLocked :: "int \<Rightarrow> 'f Server \<Rightarrow> 'f Server" where
  "pruneAdmissionLocked now s =
     s\<lparr>peers := filter (\<lambda>(ip, p). \<not> (p_total p = 0 \<and> now - lastSeen p \<ge> admissionPeerTTL)) (peers s),
       nextPrune := Some (now + admissionPeerTTL)\<rparr>"

definition new_peer :: "'f float_ops \<Rightarrow> 'f connectionPeer" where
  "new_peer F = \<lparr>p_pending = 0, p_total = 0, lastSeen = 0, bucket = \<lparr>tokens = f_int F 0, last_time = None\<rparr>\<rparr>"

text \<open>The part of an admission after its checks: both buckets pay, the counters go up, and the connection is tracked.\<close>

definition track :: "'f float_ops \<Rightarrow> Config \<Rightarrow> int \<Rightarrow> netip_Addr \<Rightarrow> 'f connectionPeer \<Rightarrow> 'f Server \<Rightarrow> 'f Server" where
  "track F cfg now ip peer s =
     (let peer1 = peer\<lparr>bucket := (bucket peer)\<lparr>tokens := f_sub F (tokens (bucket peer)) (f_int F 1)\<rparr>,
            p_total := p_total peer + 1, p_pending := p_pending peer + 1, lastSeen := now\<rparr>;
          conn = \<lparr>c_ip = ip, c_cancelled = False, c_deadline = now + HandshakeTimeout cfg, c_authenticated = False, c_expired = False\<rparr>
      in s\<lparr>global := (global s)\<lparr>tokens := f_sub F (tokens (global s)) (f_int F 1)\<rparr>, peers := AList.update ip peer1 (peers s),
           pending := pending s + 1, conns := AList.update (next_conn s) conn (conns s), next_conn := Suc (next_conn s)\<rparr>)"

definition admitConnection :: "'f float_ops \<Rightarrow> Config \<Rightarrow> int \<Rightarrow> netip_Addr option \<Rightarrow> 'f Server \<Rightarrow> nat option \<times> 'f Server" where
  "admitConnection F cfg now remote s =
     (case admissionIP remote of None \<Rightarrow> (None, s) | Some ip \<Rightarrow>
        if draining s \<or> ctx_cancelled s \<or> pending s \<ge> MaxHandshakes cfg then (None, s)
        else
        let s1 = (if (case nextPrune s of None \<Rightarrow> True | Some t \<Rightarrow> \<not> now < t) then pruneAdmissionLocked now s else s);
            known = map_of (peers s1) ip;
            peer = (case known of Some p \<Rightarrow> p | None \<Rightarrow> new_peer F)
        in if known = None \<and> length (peers s1) \<ge> maxAdmissionPeers then (None, s1)
           else if p_total peer \<ge> MaxConnectionsPerIP cfg \<or> p_pending peer \<ge> MaxHandshakesPerIP cfg then (None, s1)
           else
           let (ok, b) = bucket_available F now (ConnectionRateLimitPerIP cfg) (bucket peer);
               peer1 = peer\<lparr>bucket := b\<rparr>;
               s2 = (if known = None then s1 else s1\<lparr>peers := AList.update ip peer1 (peers s1)\<rparr>)
           in if \<not> ok then (None, s2)
              else
              let (ok, g) = bucket_available F now (ConnectionRateLimit cfg) (global s2);
                  s3 = s2\<lparr>global := g\<rparr>
              in if \<not> ok then (None, s3) else (Some (next_conn s3), track F cfg now ip peer1 s3))"

text \<open>The two parts of \<^verbatim>\<open>Close\<close>: the cancellation, and the part under the lock, which panics when the peer is missing.\<close>

definition cancel_conn :: "nat \<Rightarrow> 'f Server \<Rightarrow> 'f Server" where
  "cancel_conn i s = (case map_of (conns s) i of None \<Rightarrow> s | Some c \<Rightarrow> s\<lparr>conns := AList.update i (c\<lparr>c_cancelled := True\<rparr>) (conns s)\<rparr>)"

definition close_once :: "int \<Rightarrow> nat \<Rightarrow> 'f Server \<Rightarrow> 'f Server option" where
  "close_once now i s =
     (case map_of (conns s) i of None \<Rightarrow> Some s
      | Some c \<Rightarrow>
          let s1 = s\<lparr>conns := AList.delete i (conns s)\<rparr>
          in case map_of (peers s1) (c_ip c) of None \<Rightarrow> None
             | Some peer \<Rightarrow>
                 let peer1 = peer\<lparr>p_total := p_total peer - 1, lastSeen := now\<rparr>
                 in if c_authenticated c
                    then Some (s1\<lparr>peers := AList.update (c_ip c) peer1 (peers s1), authenticated := authenticated s1 - 1\<rparr>)
                    else Some (s1\<lparr>peers := AList.update (c_ip c) (peer1\<lparr>p_pending := p_pending peer1 - 1\<rparr>) (peers s1), pending := pending s1 - 1\<rparr>))"

definition conn_Close :: "int \<Rightarrow> nat \<Rightarrow> 'f Server \<Rightarrow> 'f Server option" where
  "conn_Close now i s = close_once now i (cancel_conn i s)"

definition mark_expired :: "nat \<Rightarrow> 'f Server \<Rightarrow> bool \<times> 'f Server" where
  "mark_expired i s =
     (case map_of (conns s) i of None \<Rightarrow> (False, s)
      | Some c \<Rightarrow> if \<not> c_authenticated c then (True, s\<lparr>conns := AList.update i (c\<lparr>c_expired := True\<rparr>) (conns s)\<rparr>) else (False, s))"

definition expireConnection :: "int \<Rightarrow> nat \<Rightarrow> 'f Server \<Rightarrow> 'f Server option" where
  "expireConnection now i s = (case mark_expired i s of (expire, s1) \<Rightarrow> if expire then conn_Close now i s1 else Some s1)"

definition promoteConnection :: "Config \<Rightarrow> int \<Rightarrow> nat \<Rightarrow> 'f Server \<Rightarrow> (bool \<times> 'f Server) option" where
  "promoteConnection cfg now i s =
     (case map_of (conns s) i of None \<Rightarrow> Some (False, s)
      | Some c \<Rightarrow>
          if c_expired c \<or> draining s \<or> c_cancelled c \<or> ctx_cancelled s then Some (False, s)
          else if c_authenticated c then Some (True, s)
          else if \<not> now < c_deadline c \<or> authenticated s \<ge> MaxConnections cfg then Some (False, s)
          else case map_of (peers s) (c_ip c) of None \<Rightarrow> None
             | Some peer \<Rightarrow>
                 Some (True, s\<lparr>conns := AList.update i (c\<lparr>c_authenticated := True\<rparr>) (conns s), pending := pending s - 1,
                   authenticated := authenticated s + 1, peers := AList.update (c_ip c) (peer\<lparr>p_pending := p_pending peer - 1\<rparr>) (peers s)\<rparr>))"

definition new_server :: "'f float_ops \<Rightarrow> 'f Server" where
  "new_server F = \<lparr>pending = 0, authenticated = 0, peers = [], global = \<lparr>tokens = f_int F 0, last_time = None\<rparr>, nextPrune = None,
     conns = [], next_conn = 0, draining = False, ctx_cancelled = False\<rparr>"

section \<open>Steps\<close>

inductive adm_step :: "'f float_ops \<Rightarrow> Config \<Rightarrow> 'f Server \<Rightarrow> 'f Server \<Rightarrow> bool" for F cfg where
  "admitConnection F cfg now remote s = (r, s') \<Longrightarrow> adm_step F cfg s s'"
| "promoteConnection cfg now i s = Some (r, s') \<Longrightarrow> adm_step F cfg s s'"
| "mark_expired i s = (r, s') \<Longrightarrow> adm_step F cfg s s'"
| "adm_step F cfg s (cancel_conn i s)"
| "close_once now i s = Some s' \<Longrightarrow> adm_step F cfg s s'"
| "adm_step F cfg s (s\<lparr>draining := True\<rparr>)"
| "adm_step F cfg s (s\<lparr>ctx_cancelled := True\<rparr>)"

section \<open>Lemmas\<close>

subsection \<open>Counting\<close>

definition count :: "(trackedConn \<Rightarrow> bool) \<Rightarrow> (nat \<times> trackedConn) list \<Rightarrow> int" where
  "count P cs = int (length (filter (\<lambda>(i, c). P c) cs))"

lemma count_simps [simp]:
  "count P [] = 0" "count P ((i, c) # cs) = (if P c then 1 else 0) + count P cs" "count P (xs @ ys) = count P xs + count P ys" "0 \<le> count P cs"
  by (simp_all add: count_def)

lemma count_update:
  "distinct (map fst cs) \<Longrightarrow> map_of cs i = Some c \<Longrightarrow> count P (AList.update i c' cs) = count P cs - (if P c then 1 else 0) + (if P c' then 1 else 0)"
  by (erule (1) alist_split) simp

lemma count_delete: "distinct (map fst cs) \<Longrightarrow> map_of cs i = Some c \<Longrightarrow> count P (AList.delete i cs) = count P cs - (if P c then 1 else 0)"
  by (erule (1) alist_split) simp

lemma count_member: "map_of cs i = Some c \<Longrightarrow> P c \<Longrightarrow> 0 < count P cs"
  by (induction cs) (auto split: if_splits simp: add_pos_nonneg add_nonneg_pos)

lemma count_new: "i \<notin> fst ` set cs \<Longrightarrow> count P (AList.update i c cs) = count P cs + (if P c then 1 else 0)"
  by (induction cs) auto

subsection \<open>The counters\<close>

definition peer_ok :: "Config \<Rightarrow> (netip_Addr \<times> 'f connectionPeer) list \<Rightarrow> (nat \<times> trackedConn) list \<Rightarrow> netip_Addr \<Rightarrow> bool" where
  "peer_ok cfg ps cs ip \<longleftrightarrow> (case map_of ps ip of None \<Rightarrow> count (\<lambda>c. c_ip c = ip) cs = 0
     | Some p \<Rightarrow> p_total p = count (\<lambda>c. c_ip c = ip) cs \<and> p_pending p = count (\<lambda>c. c_ip c = ip \<and> \<not> c_authenticated c) cs \<and>
         p_total p \<le> MaxConnectionsPerIP cfg \<and> p_pending p \<le> MaxHandshakesPerIP cfg)"

definition adm_ok :: "Config \<Rightarrow> 'f Server \<Rightarrow> bool" where
  "adm_ok cfg s \<longleftrightarrow> distinct (map fst (conns s)) \<and> distinct (map fst (peers s)) \<and> (\<forall>i\<in>fst ` set (conns s). i < next_conn s) \<and>
     pending s = count (\<lambda>c. \<not> c_authenticated c) (conns s) \<and> authenticated s = count c_authenticated (conns s) \<and>
     pending s \<le> MaxHandshakes cfg \<and> authenticated s \<le> MaxConnections cfg \<and> length (peers s) \<le> maxAdmissionPeers \<and>
     (\<forall>ip. peer_ok cfg (peers s) (conns s) ip)"

lemma adm_okD:
  assumes "adm_ok cfg s"
  shows "distinct (map fst (conns s))" "distinct (map fst (peers s))" "\<And>i. i \<in> fst ` set (conns s) \<Longrightarrow> i < next_conn s"
    "pending s = count (\<lambda>c. \<not> c_authenticated c) (conns s)" "authenticated s = count c_authenticated (conns s)"
    "pending s \<le> MaxHandshakes cfg" "authenticated s \<le> MaxConnections cfg" "length (peers s) \<le> maxAdmissionPeers"
    "\<And>ip. peer_ok cfg (peers s) (conns s) ip"
  using assms by (auto simp: adm_ok_def)

lemma adm_okI:
  assumes "distinct (map fst (conns s))" "distinct (map fst (peers s))" "\<And>i. i \<in> fst ` set (conns s) \<Longrightarrow> i < next_conn s"
    "pending s = count (\<lambda>c. \<not> c_authenticated c) (conns s)" "authenticated s = count c_authenticated (conns s)"
    "pending s \<le> MaxHandshakes cfg" "authenticated s \<le> MaxConnections cfg" "length (peers s) \<le> maxAdmissionPeers"
    "\<And>ip. peer_ok cfg (peers s) (conns s) ip"
  shows "adm_ok cfg s"
  unfolding adm_ok_def by (intro conjI ballI allI assms)

lemma peer_of_conn:
  assumes "adm_ok cfg s" "map_of (conns s) i = Some c" obtains p where "map_of (peers s) (c_ip c) = Some p"
proof (cases "map_of (peers s) (c_ip c)")
  case None
  then have "count (\<lambda>d. c_ip d = c_ip c) (conns s) = 0" using adm_okD(9) [OF assms(1), of "c_ip c"] by (simp add: peer_ok_def)
  then show ?thesis using count_member [OF assms(2), of "\<lambda>d. c_ip d = c_ip c"] by simp
qed (use that in simp)

text \<open>A flag that no counter looks at.\<close>

lemma adm_ok_flag:
  assumes "adm_ok cfg s" "map_of (conns s) i = Some c" "c_ip c' = c_ip c" "c_authenticated c' = c_authenticated c"
  shows "adm_ok cfg (s\<lparr>conns := AList.update i c' (conns s)\<rparr>)"
proof -
  note ok = adm_okD [OF assms(1)]
  have i: "i \<in> fst ` set (conns s)" using map_of_SomeD [OF assms(2)] by force
  have c: "count P (AList.update i c' (conns s)) = count P (conns s)" if "P c' = P c" for P using count_update [OF ok(1) assms(2)] that by simp
  have "peer_ok cfg (peers s) (AList.update i c' (conns s)) ip" for ip using ok(9) [of ip] assms(3,4)
    by (simp add: peer_ok_def c split: option.splits)
  moreover have "count (\<lambda>c. \<not> c_authenticated c) (AList.update i c' (conns s)) = pending s" "count c_authenticated (AList.update i c' (conns s)) = authenticated s"
    using c [of "\<lambda>c. \<not> c_authenticated c"] c [of c_authenticated] assms(4) ok(4,5) by simp_all
  ultimately show ?thesis using ok i by (simp add: adm_ok_def AList.distinct_update AList.dom_update insert_absorb)
qed

text \<open>A change of the table of peers that agrees with a change of the connections.\<close>

lemma peer_ok_update:
  assumes "distinct (map fst ps)" "peer_ok cfg ps cs jp" "jp \<noteq> ip" "count (\<lambda>c. c_ip c = jp) cs' = count (\<lambda>c. c_ip c = jp) cs"
    "count (\<lambda>c. c_ip c = jp \<and> \<not> c_authenticated c) cs' = count (\<lambda>c. c_ip c = jp \<and> \<not> c_authenticated c) cs"
  shows "peer_ok cfg (AList.update ip p ps) cs' jp"
  using assms(2-5) by (simp add: peer_ok_def AList.update_conv' split: option.splits)

lemma adm_ok_close:
  assumes "adm_ok cfg s" "close_once now i s = Some s'" shows "adm_ok cfg s'"
proof (cases "map_of (conns s) i")
  case None
  then show ?thesis using assms by (simp add: close_once_def)
next
  case (Some c)
  note ok = adm_okD [OF assms(1)]
  obtain p where p: "map_of (peers s) (c_ip c) = Some p" using peer_of_conn [OF assms(1) Some] .
  define q where "q = (if c_authenticated c then p\<lparr>p_total := p_total p - 1, lastSeen := now\<rparr>
    else p\<lparr>p_total := p_total p - 1, lastSeen := now, p_pending := p_pending p - 1\<rparr>)"
  have s': "s' = s\<lparr>conns := AList.delete i (conns s), peers := AList.update (c_ip c) q (peers s),
      authenticated := authenticated s - (if c_authenticated c then 1 else 0), pending := pending s - (if c_authenticated c then 0 else 1)\<rparr>"
    using assms(2) Some p by (auto simp: close_once_def q_def Let_def)
  note d = count_delete [OF ok(1) Some]
  have k: "c_ip c \<in> fst ` set (peers s)" using map_of_SomeD [OF p] by force
  have "peer_ok cfg (peers s') (conns s') ip" for ip
  proof (cases "ip = c_ip c")
    case True
    then show ?thesis using ok(9) [of ip] p by (simp add: peer_ok_def s' q_def AList.update_conv' d)
  next
    case False
    then show ?thesis unfolding s' using peer_ok_update [OF ok(2) ok(9) False, of "AList.delete i (conns s)" q] False by (simp add: d)
  qed
  moreover have "pending s' = count (\<lambda>c. \<not> c_authenticated c) (conns s')" "authenticated s' = count c_authenticated (conns s')"
    using d [of "\<lambda>c. \<not> c_authenticated c"] d [of c_authenticated] ok(4,5) by (simp_all add: s')
  moreover have "j < next_conn s'" if "j \<in> fst ` set (conns s')" for j using that ok(3) [of j] by (auto simp: s' AList.delete_eq)
  moreover have "pending s' \<le> MaxHandshakes cfg" "authenticated s' \<le> MaxConnections cfg" using ok(6,7) by (simp_all add: s')
  ultimately show ?thesis using AList.distinct_delete [OF ok(1), of i] AList.distinct_update [OF ok(2)] ok(6-8) k
    by (intro adm_okI) (auto simp: s' length_update)
qed

lemma adm_ok_promote:
  assumes "adm_ok cfg s" "promoteConnection cfg now i s = Some (r, s')" shows "adm_ok cfg s'"
proof (cases "s' = s")
  case False
  note ok = adm_okD [OF assms(1)]
  from assms(2) False obtain c p where c: "map_of (conns s) i = Some c" "\<not> c_authenticated c" "authenticated s < MaxConnections cfg"
    and p: "map_of (peers s) (c_ip c) = Some p" and s': "s' = s\<lparr>conns := AList.update i (c\<lparr>c_authenticated := True\<rparr>) (conns s), pending := pending s - 1,
      authenticated := authenticated s + 1, peers := AList.update (c_ip c) (p\<lparr>p_pending := p_pending p - 1\<rparr>) (peers s)\<rparr>"
    by (auto simp: promoteConnection_def split: option.splits if_splits)
  note u = count_update [OF ok(1) c(1)]
  have k: "c_ip c \<in> fst ` set (peers s)" "i \<in> fst ` set (conns s)" using map_of_SomeD [OF p] map_of_SomeD [OF c(1)] by force+
  have "peer_ok cfg (peers s') (conns s') ip" for ip
  proof (cases "ip = c_ip c")
    case True
    then show ?thesis using ok(9) [of ip] p c(2) by (simp add: peer_ok_def s' AList.update_conv' u)
  next
    case False
    then show ?thesis unfolding s' using peer_ok_update [OF ok(2) ok(9) False, of "AList.update i (c\<lparr>c_authenticated := True\<rparr>) (conns s)"] False by (simp add: u)
  qed
  moreover have "pending s' = count (\<lambda>c. \<not> c_authenticated c) (conns s')" "authenticated s' = count c_authenticated (conns s')"
    using ok(4,5) c(2) by (simp_all add: s' u)
  moreover have "j < next_conn s'" if "j \<in> fst ` set (conns s')" for j using that ok(3) [of j] ok(3) [OF k(2)] by (auto simp: s' AList.dom_update)
  ultimately show ?thesis using AList.distinct_update [OF ok(1)] AList.distinct_update [OF ok(2)] ok(6-8) k c(3)
    by (intro adm_okI) (auto simp: s' length_update)
qed (use assms in simp)

lemma adm_ok_prune:
  assumes "adm_ok cfg s" shows "adm_ok cfg (pruneAdmissionLocked now s)"
proof -
  note ok = adm_okD [OF assms]
  let ?P = "\<lambda>p. \<not> (p_total p = 0 \<and> now - lastSeen p \<ge> admissionPeerTTL)"
  have "peer_ok cfg (filter (\<lambda>(ip, p). ?P p) (peers s)) (conns s) ip" for ip
    using ok(9) [of ip] map_of_filter [OF ok(2), of ?P ip] by (auto simp: peer_ok_def split: option.splits if_splits)
  then show ?thesis using ok distinct_map_filter [OF ok(2)] le_trans [OF length_filter_le ok(8)]
    by (intro adm_okI) (simp_all add: pruneAdmissionLocked_def)
qed

lemma adm_ok_bucket:
  assumes "adm_ok cfg s" "map_of (peers s) ip = Some p" shows "adm_ok cfg (s\<lparr>peers := AList.update ip (p\<lparr>bucket := b\<rparr>) (peers s)\<rparr>)"
proof -
  note ok = adm_okD [OF assms(1)]
  have k: "ip \<in> fst ` set (peers s)" using map_of_SomeD [OF assms(2)] by force
  have "peer_ok cfg (AList.update ip (p\<lparr>bucket := b\<rparr>) (peers s)) (conns s) jp" for jp
    using ok(9) [of jp] assms(2) by (cases "jp = ip") (simp_all add: peer_ok_def AList.update_conv')
  then show ?thesis using ok AList.distinct_update [OF ok(2)] k by (intro adm_okI) (simp_all add: length_update)
qed

lemma adm_ok_global: "adm_ok cfg s \<Longrightarrow> adm_ok cfg (s\<lparr>global := g\<rparr>)"
  by (simp add: adm_ok_def)

lemma adm_ok_track:
  assumes "adm_ok cfg s" "pending s < MaxHandshakes cfg" "ip \<in> fst ` set (peers s) \<or> length (peers s) < maxAdmissionPeers"
    "p_total p = count (\<lambda>c. c_ip c = ip) (conns s)" "p_pending p = count (\<lambda>c. c_ip c = ip \<and> \<not> c_authenticated c) (conns s)"
    "p_total p < MaxConnectionsPerIP cfg" "p_pending p < MaxHandshakesPerIP cfg"
  shows "adm_ok cfg (track F cfg now ip p s)"
proof -
  note ok = adm_okD [OF assms(1)]
  let ?s = "track F cfg now ip p s"
  define c where "c = \<lparr>c_ip = ip, c_cancelled = False, c_deadline = now + HandshakeTimeout cfg, c_authenticated = False, c_expired = False\<rparr>"
  define q where "q = p\<lparr>bucket := (bucket p)\<lparr>tokens := f_sub F (tokens (bucket p)) (f_int F 1)\<rparr>, p_total := p_total p + 1, p_pending := p_pending p + 1, lastSeen := now\<rparr>"
  have s: "conns ?s = AList.update (next_conn s) c (conns s)" "peers ?s = AList.update ip q (peers s)" "pending ?s = pending s + 1"
    "authenticated ?s = authenticated s" "next_conn ?s = Suc (next_conn s)" by (simp_all add: track_def Let_def c_def q_def)
  have "next_conn s \<notin> fst ` set (conns s)" using ok(3) [of "next_conn s"] by blast
  note n = count_new [OF this, of _ c]
  have "peer_ok cfg (peers ?s) (conns ?s) jp" for jp
  proof (cases "jp = ip")
    case True
    then show ?thesis using assms(4-7) unfolding s by (simp add: peer_ok_def AList.update_conv' n) (simp add: c_def q_def)
  next
    case False
    then have "\<not> (c_ip c = jp)" by (simp add: c_def)
    then show ?thesis unfolding s by (intro peer_ok_update [OF ok(2) ok(9) False]) (simp_all add: n)
  qed
  moreover have "pending ?s = count (\<lambda>c. \<not> c_authenticated c) (conns ?s)" "authenticated ?s = count c_authenticated (conns ?s)"
    using ok(4,5) unfolding s n by (simp_all add: c_def)
  moreover have "j < next_conn ?s" if "j \<in> fst ` set (conns ?s)" for j
  proof -
    have "j = next_conn s \<or> j \<in> fst ` set (conns s)" using that by (simp add: s AList.dom_update)
    then show ?thesis
    proof
      assume "j \<in> fst ` set (conns s)"
      from ok(3) [OF this] show ?thesis by (simp add: s(5))
    qed (simp add: s(5))
  qed
  moreover have "pending ?s \<le> MaxHandshakes cfg" "authenticated ?s \<le> MaxConnections cfg" using assms(2) ok(7) by (simp_all add: s)
  moreover have "length (peers ?s) \<le> maxAdmissionPeers" using assms(3) ok(8) by (auto simp: s length_update)
  moreover have "distinct (map fst (conns ?s))" "distinct (map fst (peers ?s))" using ok(1,2) by (simp_all add: s AList.distinct_update)
  ultimately show ?thesis by (intro adm_okI) blast+
qed

text \<open>The peer an admission works with has the right counters, also when it is new.\<close>

lemma count_le: "(\<And>c. P c \<Longrightarrow> Q c) \<Longrightarrow> count P cs \<le> count Q cs"
  by (induction cs) (auto split: prod.splits)

lemma known_peer:
  assumes "adm_ok cfg s" "p = (case map_of (peers s) ip of Some p \<Rightarrow> p | None \<Rightarrow> new_peer F)"
  shows "p_total p = count (\<lambda>c. c_ip c = ip) (conns s)" "p_pending p = count (\<lambda>c. c_ip c = ip \<and> \<not> c_authenticated c) (conns s)"
proof -
  have "count (\<lambda>c. c_ip c = ip \<and> \<not> c_authenticated c) (conns s) \<le> count (\<lambda>c. c_ip c = ip) (conns s)" by (rule count_le) simp
  moreover have "0 \<le> count (\<lambda>c. c_ip c = ip \<and> \<not> c_authenticated c) (conns s)" by (simp add: count_def)
  ultimately have "count (\<lambda>c. c_ip c = ip) (conns s) = 0 \<Longrightarrow> count (\<lambda>c. c_ip c = ip \<and> \<not> c_authenticated c) (conns s) = 0" by linarith
  then show "p_total p = count (\<lambda>c. c_ip c = ip) (conns s)" "p_pending p = count (\<lambda>c. c_ip c = ip \<and> \<not> c_authenticated c) (conns s)"
    using adm_okD(9) [OF assms(1), of ip] assms(2) by (auto simp: peer_ok_def new_peer_def split: option.splits)
qed

lemma adm_ok_admit:
  assumes "adm_ok cfg s" "admitConnection F cfg now remote s = (r, s')" shows "adm_ok cfg s'"
proof (cases "admissionIP remote = None \<or> draining s \<or> ctx_cancelled s \<or> pending s \<ge> MaxHandshakes cfg")
  case True
  then have "s' = s" using assms(2) by (auto simp: admitConnection_def split: option.splits)
  then show ?thesis using assms(1) by simp
next
  case False
  then obtain ip where ip: "admissionIP remote = Some ip" and pen: "pending s < MaxHandshakes cfg" and up: "\<not> draining s" "\<not> ctx_cancelled s" by auto
  define s1 where "s1 = (if (case nextPrune s of None \<Rightarrow> True | Some t \<Rightarrow> \<not> now < t) then pruneAdmissionLocked now s else s)"
  define p where "p = (case map_of (peers s1) ip of Some p \<Rightarrow> p | None \<Rightarrow> new_peer F)"
  obtain a b where a: "bucket_available F now (ConnectionRateLimitPerIP cfg) (bucket p) = (a, b)" by (cases "bucket_available F now (ConnectionRateLimitPerIP cfg) (bucket p)")
  define s2 where "s2 = (if map_of (peers s1) ip = None then s1 else s1\<lparr>peers := AList.update ip (p\<lparr>bucket := b\<rparr>) (peers s1)\<rparr>)"
  obtain a' g where g: "bucket_available F now (ConnectionRateLimit cfg) (global s2) = (a', g)" by (cases "bucket_available F now (ConnectionRateLimit cfg) (global s2)")
  have ok1: "adm_ok cfg s1" and pen1: "pending s1 = pending s" using adm_ok_prune [OF assms(1)] assms(1) by (auto simp: s1_def pruneAdmissionLocked_def)
  have ok2: "adm_ok cfg s2" using ok1 adm_ok_bucket [OF ok1, of ip] by (auto simp: s2_def p_def)
  have same: "conns s2 = conns s1" "pending s2 = pending s" "map_of (peers s1) ip \<noteq> None \<Longrightarrow> ip \<in> fst ` set (peers s2)"
    "map_of (peers s1) ip = None \<Longrightarrow> peers s2 = peers s1" using pen1 by (auto simp: s2_def AList.dom_update)
  have eq: "admitConnection F cfg now remote s =
     (if map_of (peers s1) ip = None \<and> length (peers s1) \<ge> maxAdmissionPeers then (None, s1)
      else if p_total p \<ge> MaxConnectionsPerIP cfg \<or> p_pending p \<ge> MaxHandshakesPerIP cfg then (None, s1)
      else if \<not> a then (None, s2) else if \<not> a' then (None, s2\<lparr>global := g\<rparr>)
      else (Some (next_conn (s2\<lparr>global := g\<rparr>)), track F cfg now ip (p\<lparr>bucket := b\<rparr>) (s2\<lparr>global := g\<rparr>)))"
  proof (cases "map_of (peers s1) ip")
    case None
    then have "p = new_peer F" "s2 = s1" by (simp_all add: p_def s2_def)
    then show ?thesis using None ip pen up a g by (simp add: admitConnection_def Let_def flip: s1_def)
  next
    case (Some q)
    then have "p = q" "s2 = s1\<lparr>peers := AList.update ip (q\<lparr>bucket := b\<rparr>) (peers s1)\<rparr>" by (simp_all add: p_def s2_def)
    then show ?thesis using Some ip pen up a g by (simp add: admitConnection_def Let_def flip: s1_def)
  qed
  have "adm_ok cfg (track F cfg now ip (p\<lparr>bucket := b\<rparr>) (s2\<lparr>global := g\<rparr>))"
    if "\<not> (map_of (peers s1) ip = None \<and> length (peers s1) \<ge> maxAdmissionPeers)" "\<not> (p_total p \<ge> MaxConnectionsPerIP cfg \<or> p_pending p \<ge> MaxHandshakesPerIP cfg)"
  proof -
    have "ip \<in> fst ` set (peers s2) \<or> length (peers s2) < maxAdmissionPeers" using that(1) same(3,4) by (cases "map_of (peers s1) ip") simp_all
    then show ?thesis using that same(1,2) pen known_peer [OF ok1 p_def] by (intro adm_ok_track [OF adm_ok_global [OF ok2]]) auto
  qed
  then show ?thesis using assms(2) eq ok1 ok2 adm_ok_global [OF ok2, of g] by (auto split: if_splits)
qed

lemma adm_ok_step: "adm_step F cfg s s' \<Longrightarrow> adm_ok cfg s \<Longrightarrow> adm_ok cfg s'"
proof (induction rule: adm_step.induct)
  case (1 now remote s r s')
  show ?case by (rule adm_ok_admit [OF 1(2,1)])
next
  case (2 now i s r s')
  show ?case by (rule adm_ok_promote [OF 2(2,1)])
next
  case (3 i s r s')
  then show ?case using adm_ok_flag [OF 3(2), of i] by (auto simp: mark_expired_def split: option.splits if_splits)
next
  case (4 s i)
  then show ?case using adm_ok_flag [OF 4, of i] by (auto simp: cancel_conn_def split: option.splits)
next
  case (5 now i s s')
  show ?case by (rule adm_ok_close [OF 5(2,1)])
qed (simp_all add: adm_ok_def)

lemma adm_ok_run: "(adm_step F cfg)\<^sup>*\<^sup>* s s' \<Longrightarrow> adm_ok cfg s \<Longrightarrow> adm_ok cfg s'"
  by (induction rule: rtranclp_induct) (auto intro: adm_ok_step)

lemma adm_ok_new: "0 \<le> MaxHandshakes cfg \<Longrightarrow> 0 \<le> MaxConnections cfg \<Longrightarrow> adm_ok cfg (new_server F)"
  by (simp add: adm_ok_def new_server_def peer_ok_def)

lemma close_safe: "adm_ok cfg s \<Longrightarrow> close_once now i s \<noteq> None"
  by (auto simp: close_once_def Let_def elim: peer_of_conn split: option.split)

lemma adm_ok_cancel: "adm_ok cfg s \<Longrightarrow> adm_ok cfg (cancel_conn i s)"
  by (rule adm_ok_step [OF adm_step.intros(4)])

lemma adm_ok_mark: "adm_ok cfg s \<Longrightarrow> adm_ok cfg (snd (mark_expired i s))"
  by (rule adm_ok_step [OF adm_step.intros(3) [of i s "fst (mark_expired i s)"]]) simp_all

lemma valid_config:
  assumes "validateConnectionConfig c = Some cfg" shows "1 \<le> MaxHandshakes cfg" "1 \<le> MaxConnectionsPerIP cfg" "1 \<le> MaxHandshakesPerIP cfg"
  using assms by (auto simp: validateConnectionConfig_def check_limit_def Let_def bind_eq_Some_conv split: if_splits)

subsection \<open>Expired connections\<close>

text \<open>A connection that has expired is never authenticated again: it stays expired until it is gone, and its number is not reused.\<close>

definition gone :: "nat \<Rightarrow> 'f Server \<Rightarrow> bool" where
  "gone i s \<longleftrightarrow> i < next_conn s \<and> (case map_of (conns s) i of None \<Rightarrow> True | Some c \<Rightarrow> c_expired c \<and> \<not> c_authenticated c)"

lemma admit_conns:
  assumes "admitConnection F cfg now remote s = (r, s')"
  shows "(conns s' = conns s \<and> next_conn s' = next_conn s) \<or> (\<exists>c. conns s' = AList.update (next_conn s) c (conns s) \<and> next_conn s' = Suc (next_conn s))"
  using assms by (auto simp: admitConnection_def track_def pruneAdmissionLocked_def Let_def split: option.splits if_splits prod.splits)

lemma gone_step: "adm_step F cfg s s' \<Longrightarrow> gone i s \<Longrightarrow> gone i s'"
proof (induction rule: adm_step.induct)
  case (1 now remote s r s')
  then show ?case using admit_conns [OF 1(1)] by (auto simp: gone_def AList.update_conv' split: option.splits)
next
  case (2 now j s r s')
  then show ?case by (auto simp: gone_def promoteConnection_def AList.update_conv' split: option.splits if_splits)
next
  case (3 j s r s')
  then show ?case by (auto simp: gone_def mark_expired_def AList.update_conv' split: option.splits if_splits)
next
  case (4 s j)
  then show ?case by (auto simp: gone_def cancel_conn_def AList.update_conv' split: option.splits)
next
  case (5 now j s s')
  then show ?case by (auto simp: gone_def close_once_def AList.delete_conv' Let_def split: option.splits if_splits)
qed (simp_all add: gone_def)

lemma gone_run: "(adm_step F cfg)\<^sup>*\<^sup>* s s' \<Longrightarrow> gone i s \<Longrightarrow> gone i s'"
  by (induction rule: rtranclp_induct) (auto intro: gone_step)

section \<open>Properties\<close>

text \<open>C39. The gateway keeps its limits and its books: under a configuration that passed validation, in every state reached by admissions, promotions, expiries, cancellations and closes in any order and for any bucket arithmetic, the pending and authenticated counters are the numbers of such connections and within their limits, no source network has more connections or handshakes than allowed, and promoting, closing or expiring a connection, known or not, does not run into a missing peer.\<close>

theorem admission_limits:
  assumes "validateConnectionConfig c = Some cfg" "0 \<le> MaxConnections cfg" "(adm_step F cfg)\<^sup>*\<^sup>* (new_server F) s"
  shows "pending s = count (\<lambda>c. \<not> c_authenticated c) (conns s) \<and> pending s \<le> MaxHandshakes cfg \<and>
    authenticated s = count c_authenticated (conns s) \<and> authenticated s \<le> MaxConnections cfg \<and>
    count (\<lambda>c. c_ip c = ip) (conns s) \<le> MaxConnectionsPerIP cfg \<and>
    count (\<lambda>c. c_ip c = ip \<and> \<not> c_authenticated c) (conns s) \<le> MaxHandshakesPerIP cfg \<and>
    promoteConnection cfg now i s \<noteq> None \<and> conn_Close now i s \<noteq> None \<and> expireConnection now i s \<noteq> None"
proof -
  note v = valid_config [OF assms(1)]
  have ok: "adm_ok cfg s" using adm_ok_run [OF assms(3)] adm_ok_new [of cfg F] v assms(2) by simp
  have "count (\<lambda>c. c_ip c = ip \<and> \<not> c_authenticated c) (conns s) \<le> count (\<lambda>c. c_ip c = ip) (conns s)" by (rule count_le) simp
  then have "count (\<lambda>c. c_ip c = ip) (conns s) \<le> MaxConnectionsPerIP cfg \<and> count (\<lambda>c. c_ip c = ip \<and> \<not> c_authenticated c) (conns s) \<le> MaxHandshakesPerIP cfg"
    using adm_okD(9) [OF ok, of ip] v by (auto simp: peer_ok_def split: option.splits)
  moreover have "promoteConnection cfg now i s \<noteq> None"
    by (auto simp: promoteConnection_def split: option.split elim: peer_of_conn [OF ok])
  moreover have "conn_Close now i s \<noteq> None" if "adm_ok cfg s" for s :: "'a Server"
    using close_safe [OF adm_ok_cancel [OF that]] by (simp add: conn_Close_def)
  then have "conn_Close now i s \<noteq> None" "expireConnection now i s \<noteq> None"
    using ok adm_ok_mark [OF ok, of i] by (simp_all add: expireConnection_def case_prod_beta)
  ultimately show ?thesis using adm_okD(4-7) [OF ok] by simp
qed

definition rat_ops :: "rat float_ops" where
  "rat_ops = \<lparr>f_int = of_int, f_seconds = (\<lambda>d. of_int d / 1000000000), f_add = (+), f_sub = (-), f_mul = (*), f_min = min, f_max = max, f_le = (\<le>)\<rparr>"

definition small_config :: Config where
  "small_config = \<lparr>MaxHandshakes = 2, MaxConnectionsPerIP = 1, MaxHandshakesPerIP = 1, ConnectionRateLimit = 4, ConnectionRateLimitPerIP = 2,
     HandshakeTimeout = 10000000000, MaxConnections = 3\<rparr>"

definition one_conn :: "rat Server" where
  "one_conn = snd (admitConnection rat_ops small_config 5 (Some (V4 1)) (new_server rat_ops))"

lemma one_conn_reached: "(adm_step rat_ops small_config)\<^sup>*\<^sup>* (new_server rat_ops) one_conn"
  by (rule r_into_rtranclp, rule adm_step.intros(1) [where now = 5 and remote = "Some (V4 1)" and r = "fst (admitConnection rat_ops small_config 5 (Some (V4 1)) (new_server rat_ops))"])
    (simp add: one_conn_def)

lemma one_conn_conns: "map_of (conns one_conn) 0 = Some \<lparr>c_ip = V4 1, c_cancelled = False, c_deadline = 10000000005, c_authenticated = False, c_expired = False\<rparr>"
  "next_conn one_conn = 1"
  by (simp_all add: one_conn_def admitConnection_def admissionIP_def new_server_def pruneAdmissionLocked_def new_peer_def bucket_available_def rat_ops_def
    small_config_def track_def maxAdmissionPeers_def Let_def)

theorem admission_limits_witness:
  "pending one_conn \<le> 2 \<and> count (\<lambda>c. c_ip c = V4 1) (conns one_conn) \<le> 1 \<and> promoteConnection small_config 6 0 one_conn \<noteq> None"
  using admission_limits [of small_config small_config rat_ops one_conn "V4 1" 6 0] one_conn_reached
  by (simp add: validateConnectionConfig_def check_limit_def small_config_def second_def)

text \<open>C40. A connection that expired stays out: once the handshake timer has marked a connection that was not authenticated, no later sequence of steps promotes it, and its number never stands for another connection, whatever happens between the mark and the close.\<close>

theorem expired_never_promoted:
  assumes "(adm_step F cfg)\<^sup>*\<^sup>* (new_server F) s" "0 \<le> MaxHandshakes cfg" "0 \<le> MaxConnections cfg"
    "mark_expired i s = (True, s1)" "(adm_step F cfg)\<^sup>*\<^sup>* s1 s2"
  shows "promoteConnection cfg now i s2 = Some (False, s2)"
proof -
  obtain c where c: "map_of (conns s) i = Some c" "\<not> c_authenticated c" "s1 = s\<lparr>conns := AList.update i (c\<lparr>c_expired := True\<rparr>) (conns s)\<rparr>"
    using assms(4) by (auto simp: mark_expired_def split: option.splits if_splits)
  have "adm_ok cfg s" using adm_ok_run [OF assms(1) adm_ok_new] assms(2,3) by simp
  moreover have "i \<in> fst ` set (conns s)" using map_of_SomeD [OF c(1)] by force
  ultimately have "i < next_conn s" using adm_okD(3) by blast
  then have "gone i s1" using c by (simp add: gone_def AList.update_conv')
  then have "gone i s2" by (rule gone_run [OF assms(5)])
  then show ?thesis by (auto simp: gone_def promoteConnection_def split: option.splits)
qed

theorem expired_never_promoted_witness:
  "promoteConnection small_config 6 0 (snd (mark_expired 0 one_conn)) = Some (False, snd (mark_expired 0 one_conn))"
proof -
  have "mark_expired 0 one_conn = (True, snd (mark_expired 0 one_conn))" using one_conn_conns by (simp add: mark_expired_def)
  from expired_never_promoted [OF one_conn_reached _ _ this rtranclp.rtrancl_refl, of 6] show ?thesis by (simp add: small_config_def)
qed

end
