(* ===== verification/Spec2Isabelle.thy ===== *)
theory Spec2Isabelle
  imports Machine_Exits Virtio_Requests H264_Nal Gateway_Session Gateway_Admission
begin

text \<open>
  A verification library for DevBox-Gateway-kvm (Go sources under \<^verbatim>\<open>src/\<close>): a virtual machine monitor on top of
  Linux KVM and a gateway that hands out desktops running in it.

  \<^bold>\<open>The program.\<close> A vCPU thread runs the guest through KVM until it exits. Port and memory exits go through
  the machine (\<^verbatim>\<open>internal/machine\<close>) to devices on ports (\<^verbatim>\<open>internal/iodev\<close>, \<^verbatim>\<open>internal/serial\<close>), to the
  configuration ports of the PCI bus (\<^verbatim>\<open>internal/pci\<close>), or to virtio devices behind PCI memory
  (\<^verbatim>\<open>internal/virtio\<close>). The virtio block device serves requests from rings in guest memory
  (\<^verbatim>\<open>internal/guestmem\<close>) with a disk image (\<^verbatim>\<open>internal/disk\<close>) that is raw or qcow2. The gateway
  (\<^verbatim>\<open>internal/gateway\<close>) admits connections, keeps login sessions and grants, and starts one monitor process per
  desktop.

  \<^bold>\<open>Conventions.\<close> Go integers are words of their width where they can wrap, and naturals or integers where the
  code bounds them; slices are lists, and an index or slice expression that would panic is an error value of the
  model. A method under a mutex is one step. What the code cannot decide is an argument: the time, random
  values, hashes, and the results of system calls, which are scripts that may let any call fail (\<open>Host_File\<close> for
  files, lists of outcomes for KVM calls). State with errors uses the computations of \<open>Prelude\<close> and their Hoare
  rules. Step relations collect everything that can happen to a component, and invariants are proved for every state
  they reach.

  \<^bold>\<open>Theories.\<close>
  \<^item> \<open>Prelude\<close>: machine types, byte codecs, slices, computations with state and errors. \<open>Alist_Maps\<close>: Go maps as
    association lists. \<open>Host_File\<close>: files of the host with failing calls.
  \<^item> \<open>Qcow2_Header\<close>, \<open>Qcow2_Layout\<close>: parsing and validation of an image (\<^verbatim>\<open>qcow2_header.go\<close>, \<^verbatim>\<open>qcow2_layout.go\<close>).
    \<open>Qcow2_Image\<close>: the open image and all its methods (\<^verbatim>\<open>qcow2.go\<close>, \<^verbatim>\<open>qcow2_write.go\<close>). \<open>Qcow2_Invariant\<close>: the
    invariant \<open>image_ok\<close> and the guest disk an image stands for. \<open>Qcow2_Read\<close>, \<open>Qcow2_Alloc\<close>, \<open>Qcow2_Grow\<close>,
    \<open>Qcow2_Cluster\<close>, \<open>Qcow2_Mapping\<close>, \<open>Qcow2_Update\<close>, \<open>Qcow2_Writable\<close>, \<open>Qcow2_Write\<close>: each method keeps the
    invariant or records a fault on every outcome of the operating system, and reads and writes implement a
    disk of bytes. \<open>Qcow2_Session\<close>: sequences of operations. \<open>Qcow2_Sample\<close>: an image for the witnesses.
  \<^item> \<open>Disk_Image\<close>: the raw image and the choice of the format (\<^verbatim>\<open>image.go\<close>), and the locale \<open>disk_image\<close> with the
    contract of the interface, interpreted for both formats.
  \<^item> \<open>Guest_Memory\<close>: the check of guest addresses. \<open>Virtio_Transport\<close>: the registers and interrupts of a virtio
    device (\<^verbatim>\<open>modern.go\<close>) and the locale \<open>modern_device\<close> with what it relies on of a device; a queue reaches the device with
    the values the driver wrote, and only if it lies in guest memory. \<open>Virtio_Ring\<close>: descriptors and rings in guest memory, with the
    checks of the language at every index and slice. \<open>Virtio_Blk\<close>: the block device (\<^verbatim>\<open>blk.go\<close>), which interprets \<open>modern_device\<close>; a
    batch of requests never panics and never leaves guest memory, and a read-only disk stays unchanged. \<open>Virtio_Requests\<close>: requests as a driver lays them
    out in guest memory, and what a batch of them does to the disk, the buffers and the used ring.
  \<^item> \<open>Pci_Bus\<close>, \<open>Io_Devices\<close>, \<open>Ps2_Controller\<close>, \<open>Cmos\<close>, \<open>Fw_Cfg\<close>, \<open>Serial_Port\<close>, \<open>Atapi_Cdrom\<close>: the bus and the devices
    on ports. The lemmas show what a driver sees: sizes and addresses of BARs, scan codes and mouse packets, the time
    and the memory size, the files of the firmware directory, the blocks of a disc.
  \<^item> \<open>Uefi_Flash\<close>: the variable flash (\<^verbatim>\<open>uefi_flash.go\<close>), shown to refine an array with program and erase.
    \<open>Machine_Irq\<close>: shared interrupt lines and the power button (\<^verbatim>\<open>pci_irq.go\<close>, \<^verbatim>\<open>uefi_power.go\<close>).
  \<^item> \<open>Machine_Exits\<close>: the composition (\<^verbatim>\<open>machine.go\<close>, \<^verbatim>\<open>uefi.go\<close>): the table of port handlers, the dispatch of exits
    and the loop of a vCPU. The locale \<open>mmio_device\<close> states what the machine relies on of a device behind memory and
    is interpreted with the block device; the lemmas carry the invariants of the parts through a run. The two port ranges of a CD-ROM
    share one drive, which is part of the world of the devices like the interrupt line and the output.
  \<^item> \<open>H264_Bits\<close>, \<open>H264_Nal\<close>: of the codec that compresses desktops (\<^verbatim>\<open>pkg/h264\<close>), the bit streams with their
    Exp-Golomb codes and the units of a stream. The decoder never leaves its buffer on any input, and it recovers the
    syntax elements that the encoder wrote, as long as the 32-bit positions in bits do not wrap around.
  \<^item> \<open>Gateway_Session\<close>, \<open>Gateway_Admission\<close>: sessions, one-time grants and login throttling (\<^verbatim>\<open>session.go\<close>, with the leases of uploads in
    \<^verbatim>\<open>admin.go\<close> and the periodic pruning in \<^verbatim>\<open>server.go\<close>), and the limits on connections (\<^verbatim>\<open>admission.go\<close>), each as a step relation with its
    invariant. The throttle works with fixed windows: within any minute it lets at most nineteen attempts of an address through.

  \<^bold>\<open>Bounds and fuel.\<close> Loops of the code are structural recursion or functions with a measure. The only fuel is
  the number of rounds of \<open>runInfiniteLoop\<close>, because a guest may run forever; \<open>stopped_loop_returns\<close> shows that one
  more round than the round in which the machine is stopped is enough, and that more change nothing. Where arithmetic of the code can wrap around and
  the properties need that it does not, the bound is a hypothesis: guest memory and disks of less than 2^63 bytes, the largest length of a Go slice or file; streams of
  less than 2^31 - 8 bits, or bit buffers of less than 2^28 bytes, for the 32-bit counters of the codec.

  \<^bold>\<open>Scope of the qcow2 properties.\<close> Table entries of the format hold 56 bits of an offset, and the code does not check that the offsets it allocates fit. The invariant
  \<open>image_ok\<close> (in its part \<open>geometry\<close>) therefore asks that the refcount table covers at most 2^56 bytes. Images for which it covers more are outside of the properties: all with
  2 MiB clusters, where one cluster of the table covers 2^59 bytes, those with 1 MiB clusters and more than one table cluster, and those with smaller clusters and still longer tables.

  \<^bold>\<open>Not modelled.\<close> That \<open>openQCOW2\<close> establishes \<open>image_ok\<close> is not proved: the invariant is the hypothesis of the
  properties about open images. Stores of the guest to its memory during a batch of the block device are not
  interleaved with it. Of a read that fails, bytes beyond the counted ones are not described. Closing of files and the interleaving inside the serial input loop are left to the environment. Creating and
  configuring a VM, loading kernels and the ioctl layer (\<^verbatim>\<open>kvm\<close>) are sequences of system calls without state
  of their own. The remaining virtio devices (network, GPU, input, sound), the RDP and VNC servers, user-mode
  networking, the prediction, transforms and rate control of the codec (a translation of OpenH264), ISO and
  cloud-init images, certificates,
  configuration and the HTTP part of the gateway are outside this library.
\<close>

end
